(* ===== verification/OS_Prelude.thy ===== *)
theory OS_Prelude
  imports Main "HOL-Library.Word" "HOL-Library.Monad_Syntax"
begin

text \<open>
  What every component of the kernel model shares: the machine integers of the C code, arrays of
  bytes with checked access, NUL-terminated strings, the flat RAM, and the interfaces (locales)
  that several components implement.

  \<^bold>\<open>Results.\<close> A C function is translated to a HOL function into \<open>option\<close>. \<open>None\<close> says that the
  C code has no defined result: it reads or writes outside an array, follows a null pointer,
  divides by zero, or (for loops given by \<open>partial_function\<close>) never leaves a loop. Every other
  error of the code (a return value of -1, NULL, false) is a value under \<open>Some\<close>.
\<close>

unbundle bit_operations_syntax

named_theorems buf_simps \<open>access to byte arrays\<close>

section \<open>Machine integers\<close>

type_synonym u8 = "8 word"
type_synonym u16 = "16 word"
type_synonym u32 = "32 word"
type_synonym u64 = "64 word"

lemma unat_u8: "unat (w :: u8) < 256"
proof -
  have "unat w < 2 ^ LENGTH(8)" by (rule unsigned_less)
  then show ?thesis by simp
qed

lemma unat_u16: "unat (w :: u16) < 65536"
proof -
  have "unat w < 2 ^ LENGTH(16)" by (rule unsigned_less)
  then show ?thesis by simp
qed

lemma unat_u32: "unat (w :: u32) < 4294967296"
proof -
  have "unat w < 2 ^ LENGTH(32)" by (rule unsigned_less)
  then show ?thesis by simp
qed

text \<open>Bits of the masks the code uses.\<close>

lemma mask_consts:
  "(0xffff :: 'a :: len word) = mask 16" "(0xff :: 'a word) = mask 8" "(0x0f :: 'a word) = mask 4"
  by (simp_all add: mask_numeral)

lemma bit_mask_word: "bit (mask m :: 'a :: len word) n \<longleftrightarrow> n < m \<and> n < LENGTH('a)"
  by (auto simp: bit_mask_iff)

lemma mask_bits_int:
  "bit (0xffff :: int) n \<longleftrightarrow> n < 16" "bit (0xff :: int) n \<longleftrightarrow> n < 8"
  "bit (0x0f :: int) n \<longleftrightarrow> n < 4"
proof -
  have "(0xffff :: int) = mask 16" "(0xff :: int) = mask 8" "(0x0f :: int) = mask 4"
    by (simp_all add: mask_numeral)
  then show "bit (0xffff :: int) n \<longleftrightarrow> n < 16" "bit (0xff :: int) n \<longleftrightarrow> n < 8"
    "bit (0x0f :: int) n \<longleftrightarrow> n < 4"
    by (simp_all only: bit_mask_iff) simp_all
qed

lemma mask_bits_word:
  "bit (0xffff :: 'a :: len word) n \<longleftrightarrow> n < 16 \<and> n < LENGTH('a)"
  "bit (0xff :: 'a word) n \<longleftrightarrow> n < 8 \<and> n < LENGTH('a)"
  "bit (0x0f :: 'a word) n \<longleftrightarrow> n < 4 \<and> n < LENGTH('a)"
  by (simp_all only: mask_consts bit_mask_word)

lemmas mask_bits = mask_bits_int mask_bits_word

lemma high_nibble:
  "bit (0xf0 :: u8) n \<Longrightarrow> 4 \<le> n" "bit (0xf0 :: int) n \<Longrightarrow> 4 \<le> n"
proof -
  have "(0xf0 :: u8) = push_bit 4 15" "(0xf0 :: int) = push_bit 4 15"
    by (simp_all add: push_bit_eq_mult)
  then show "bit (0xf0 :: u8) n \<Longrightarrow> 4 \<le> n" "bit (0xf0 :: int) n \<Longrightarrow> 4 \<le> n"
    by (simp_all only: bit_push_bit_iff)
qed

section \<open>Arrays of bytes\<close>

text \<open>
  A C array (or a packed structure) is the list of its bytes; a pointer into it is an index.
  Reading or writing outside the array is \<open>None\<close>.
\<close>

type_synonym buf = "u8 list"

definition rd :: "buf \<Rightarrow> nat \<Rightarrow> u8 option" where
  "rd b i = (if i < length b then Some (b ! i) else None)"

definition wr :: "buf \<Rightarrow> nat \<Rightarrow> u8 \<Rightarrow> buf option" where
  "wr b i v = (if i < length b then Some (b[i := v]) else None)"

lemma rd_Some_iff [buf_simps]: "rd b i = Some c \<longleftrightarrow> i < length b \<and> b ! i = c"
  by (auto simp: rd_def)

lemma wr_Some_iff [buf_simps]: "wr b i v = Some b' \<longleftrightarrow> i < length b \<and> b' = b[i := v]"
  by (auto simp: wr_def)

lemma rd_in [simp]: "i < length b \<Longrightarrow> rd b i = Some (b ! i)"
  by (simp add: rd_def)

lemma wr_in [simp]: "i < length b \<Longrightarrow> wr b i v = Some (b[i := v])"
  by (simp add: wr_def)

lemma rd_None_iff [simp]: "rd b i = None \<longleftrightarrow> length b \<le> i"
  by (auto simp: rd_def)

lemma wr_None_iff [simp]: "wr b i v = None \<longleftrightarrow> length b \<le> i"
  by (auto simp: wr_def)

text \<open>
  The congruence of \<open>Option.bind\<close> that lets \<open>function\<close> see, in a recursive call under
  \<open>x \<leftarrow> rd b i\<close>, that the access succeeded.
\<close>

lemma bind_fundef_cong [fundef_cong]:
  "m = n \<Longrightarrow> (\<And>x. n = Some x \<Longrightarrow> f x = g x) \<Longrightarrow> Option.bind m f = Option.bind n g"
  by (cases n) auto

text \<open>
  The simplifier evaluates the first computation of a sequence before it looks at the rest, as the
  code does.
\<close>

lemma bind_weak_cong [cong]: "m = n \<Longrightarrow> Option.bind m f = Option.bind n f"
  by simp

lemma bind_Some_iff [buf_simps]:
  "Option.bind m f = Some y \<longleftrightarrow> (\<exists>x. m = Some x \<and> f x = Some y)"
  by (cases m) auto

subsection \<open>NUL-terminated strings\<close>

text \<open>\<open>is_cstr b p s\<close>: at index \<open>p\<close> of the array \<open>b\<close> starts the C string with the characters \<open>s\<close>.\<close>

primrec is_cstr :: "buf \<Rightarrow> nat \<Rightarrow> buf \<Rightarrow> bool" where
  "is_cstr b p [] = (rd b p = Some 0)"
| "is_cstr b p (c # s) = (c \<noteq> 0 \<and> rd b p = Some c \<and> is_cstr b (Suc p) s)"

lemma is_cstr_length: "is_cstr b p s \<Longrightarrow> p + length s < length b"
proof (induction s arbitrary: p)
  case (Cons c s)
  then show ?case using Cons.IH [of "Suc p"] by simp
qed (simp add: buf_simps)

lemma is_cstr_nonzero: "is_cstr b p s \<Longrightarrow> 0 \<notin> set s"
  by (induction s arbitrary: p) auto

lemma is_cstr_nth: "is_cstr b p s \<Longrightarrow> i < length s \<Longrightarrow> b ! (p + i) = s ! i"
proof (induction s arbitrary: p i)
  case (Cons c s)
  show ?case
  proof (cases i)
    case 0
    then show ?thesis using Cons.prems by (simp add: buf_simps)
  next
    case (Suc j)
    then show ?thesis using Cons.prems Cons.IH [of "Suc p" j] by simp
  qed
qed simp

lemma is_cstr_end: "is_cstr b p s \<Longrightarrow> b ! (p + length s) = 0"
proof (induction s arbitrary: p)
  case (Cons c s)
  then show ?case using Cons.IH [of "Suc p"] by simp
qed (simp add: buf_simps)

lemma is_cstr_iff:
  "is_cstr b p s \<longleftrightarrow> p + length s < length b \<and> 0 \<notin> set s \<and>
     (\<forall>i < length s. b ! (p + i) = s ! i) \<and> b ! (p + length s) = 0"
proof
  assume "is_cstr b p s"
  then show "p + length s < length b \<and> 0 \<notin> set s \<and>
     (\<forall>i < length s. b ! (p + i) = s ! i) \<and> b ! (p + length s) = 0"
    by (auto simp: is_cstr_length is_cstr_nonzero is_cstr_nth is_cstr_end)
next
  assume "p + length s < length b \<and> 0 \<notin> set s \<and>
     (\<forall>i < length s. b ! (p + i) = s ! i) \<and> b ! (p + length s) = 0"
  then show "is_cstr b p s"
  proof (induction s arbitrary: p)
    case (Cons c s)
    from Cons.prems have "b ! p = c" by (auto dest: spec [of _ 0])
    moreover from Cons.prems have "\<forall>i < length s. b ! (Suc p + i) = s ! i"
      by (auto dest: spec [of _ "Suc _"])
    ultimately show ?case using Cons by (auto simp: buf_simps)
  qed (simp add: buf_simps)
qed

lemma is_cstr_take_drop:
  "is_cstr b p s \<longleftrightarrow> 0 \<notin> set s \<and> (\<exists>r. drop p b = s @ 0 # r)"
proof (induction s arbitrary: p)
  case Nil
  have "rd b p = Some 0 \<longleftrightarrow> (\<exists>r. drop p b = 0 # r)"
    by (metis Cons_nth_drop_Suc drop_eq_Nil leI list.distinct(1) list.inject rd_None_iff rd_in
        option.distinct(1) option.inject)
  then show ?case by simp
next
  case (Cons c s)
  have "rd b p = Some c \<and> (\<exists>r. drop (Suc p) b = s @ 0 # r) \<longleftrightarrow> (\<exists>r. drop p b = c # s @ 0 # r)"
  proof (cases "p < length b")
    case True
    then show ?thesis by (auto simp: Cons_nth_drop_Suc [OF True, symmetric])
  next
    case False
    then show ?thesis by (auto simp: rd_def)
  qed
  with Cons show ?case by auto
qed

lemma is_cstr_unique: "is_cstr b p s \<Longrightarrow> is_cstr b p t \<Longrightarrow> s = t"
proof (induction s arbitrary: p t)
  case Nil
  then show ?case by (cases t) auto
next
  case (Cons c s)
  then show ?case by (cases t) auto
qed

text \<open>An array without a NUL from \<open>p\<close> on holds no string there.\<close>

definition no_nul :: "buf \<Rightarrow> nat \<Rightarrow> bool" where
  "no_nul b p \<longleftrightarrow> 0 \<notin> set (drop p b)"

lemma no_nul_step: "p < length b \<Longrightarrow> no_nul b p \<longleftrightarrow> b ! p \<noteq> 0 \<and> no_nul b (Suc p)"
  unfolding no_nul_def by (subst Cons_nth_drop_Suc [symmetric]) auto

lemma cstr_cases:
  obtains (cstr) s where "is_cstr b p s" | (none) "no_nul b p"
proof (cases "0 \<in> set (drop p b)")
  case True
  then obtain s r where "drop p b = s @ 0 # r" and "0 \<notin> set s"
    by (metis split_list_first)
  then show thesis using cstr is_cstr_take_drop by blast
next
  case False
  then show thesis using none by (simp add: no_nul_def)
qed

subsection \<open>Overwriting a stretch of an array\<close>

definition buf_put :: "buf \<Rightarrow> nat \<Rightarrow> buf \<Rightarrow> buf" where
  "buf_put b d t = take d b @ t @ drop (d + length t) b"

lemma buf_put_Nil [simp]: "buf_put b d [] = b"
  by (simp add: buf_put_def)

lemma length_buf_put [simp]: "d + length t \<le> length b \<Longrightarrow> length (buf_put b d t) = length b"
  by (simp add: buf_put_def)

lemma nth_buf_put:
  "d + length t \<le> length b \<Longrightarrow> i < length b \<Longrightarrow>
    buf_put b d t ! i = (if d \<le> i \<and> i < d + length t then t ! (i - d) else b ! i)"
  by (auto simp: buf_put_def nth_append min_def)

lemma buf_put_Cons:
  "d + length (c # t) \<le> length b \<Longrightarrow> buf_put b d (c # t) = buf_put (b[d := c]) (Suc d) t"
  by (rule nth_equalityI) (auto simp: nth_buf_put nth_list_update nth_Cons')

lemma buf_put_single: "d < length b \<Longrightarrow> buf_put b d [c] = b[d := c]"
  by (rule nth_equalityI) (auto simp: nth_buf_put nth_list_update)

lemma buf_put_snoc:
  "d + length t < length b \<Longrightarrow> buf_put b d (t @ [c]) = (buf_put b d t)[d + length t := c]"
  by (rule nth_equalityI) (auto simp: nth_buf_put nth_list_update nth_append)

lemma buf_put_append:
  "d + length s + length t \<le> length b \<Longrightarrow>
    buf_put b d (s @ t) = buf_put (buf_put b d s) (d + length s) t"
  by (rule nth_equalityI) (auto simp: nth_buf_put nth_append)

lemma buf_put_cstr:
  "d + length t < length b \<Longrightarrow> 0 \<notin> set t \<Longrightarrow> is_cstr (buf_put b d (t @ [0])) d t"
  by (simp add: is_cstr_iff nth_buf_put nth_append)

lemma is_cstr_update: "d < p \<Longrightarrow> is_cstr (b[d := c]) p t \<longleftrightarrow> is_cstr b p t"
  by (auto simp: is_cstr_iff)

lemma is_cstr_cong:
  "is_cstr b p t \<Longrightarrow> length b' = length b \<Longrightarrow>
    (\<And>i. p \<le> i \<Longrightarrow> i \<le> p + length t \<Longrightarrow> b' ! i = b ! i) \<Longrightarrow> is_cstr b' p t"
  by (auto simp: is_cstr_iff)

section \<open>RAM\<close>

text \<open>
  The physical memory as the kernel sees it: flat segments, no paging. Addresses are naturals; the
  machine has 4 MB, so no address computation of a running kernel reaches the 32-bit wrap.
\<close>

type_synonym ram = "nat \<Rightarrow> u8"

text \<open>\<open>memcpy\<close> between two RAM addresses: byte by byte, upwards, as the loop of \<^verbatim>\<open>memcpy\<close> does it
  (so that overlapping areas behave as they do in the code).\<close>

fun ram_memcpy :: "ram \<Rightarrow> nat \<Rightarrow> nat \<Rightarrow> nat \<Rightarrow> ram" where
  "ram_memcpy m d s 0 = m"
| "ram_memcpy m d s (Suc n) = ram_memcpy (m(d := m s)) (Suc d) (Suc s) n"

fun ram_memset :: "ram \<Rightarrow> nat \<Rightarrow> u8 \<Rightarrow> nat \<Rightarrow> ram" where
  "ram_memset m d v 0 = m"
| "ram_memset m d v (Suc n) = ram_memset (m(d + n := v)) d v n"

text \<open>A 32-bit store, little-endian.\<close>

definition ram_store32 :: "ram \<Rightarrow> nat \<Rightarrow> u32 \<Rightarrow> ram" where
  "ram_store32 m a v = m(a := ucast v, a + 1 := ucast (drop_bit 8 v),
     a + 2 := ucast (drop_bit 16 v), a + 3 := ucast (drop_bit 24 v))"

definition ram_load32 :: "ram \<Rightarrow> nat \<Rightarrow> u32" where
  "ram_load32 m a = ucast (m a) OR push_bit 8 (ucast (m (a + 1))) OR
     push_bit 16 (ucast (m (a + 2))) OR push_bit 24 (ucast (m (a + 3)))"

text \<open>Bytes stored from an address upwards.\<close>

fun ram_put :: "ram \<Rightarrow> nat \<Rightarrow> buf \<Rightarrow> ram" where
  "ram_put m a [] = m"
| "ram_put m a (c # cs) = ram_put (m(a := c)) (Suc a) cs"

lemma ram_memcpy_outside: "x < d \<or> d + n \<le> x \<Longrightarrow> ram_memcpy m d s n x = m x"
  by (induction m d s n rule: ram_memcpy.induct) auto

lemma ram_memcpy_copies:
  "s + n \<le> d \<or> d \<le> s \<Longrightarrow> i < n \<Longrightarrow> ram_memcpy m d s n (d + i) = m (s + i)"
proof (induction m d s n arbitrary: i rule: ram_memcpy.induct)
  case (2 m d s n)
  show ?case
  proof (cases i)
    case 0
    then show ?thesis by (simp add: ram_memcpy_outside)
  next
    case (Suc j)
    then have "ram_memcpy (m(d := m s)) (Suc d) (Suc s) n (Suc d + j) = (m(d := m s)) (Suc s + j)"
      using "2.prems" by (intro "2.IH") auto
    moreover have "Suc s + j \<noteq> d" using "2.prems" Suc by auto
    ultimately show ?thesis using Suc by simp
  qed
qed simp

lemma ram_memset_val: "ram_memset m d v n x = (if d \<le> x \<and> x < d + n then v else m x)"
  by (induction n arbitrary: m) (auto simp: fun_upd_def)

lemma ram_put_val:
  "ram_put m a cs x = (if a \<le> x \<and> x < a + length cs then cs ! (x - a) else m x)"
proof (induction cs arbitrary: m a x)
  case (Cons c cs)
  consider "x = a" | "a < x" | "x < a" by linarith
  then show ?case
    by cases (auto simp: Cons.IH nth_Cons' less_Suc_eq_le Suc_le_eq)
qed auto

lemma ram_load_store: "ram_load32 (ram_store32 m a v) a = v"
proof (rule bit_word_eqI)
  fix n
  assume "n < LENGTH(32)"
  then consider "n < 8" | "8 \<le> n" "n < 16" | "16 \<le> n" "n < 24" | "24 \<le> n" "n < 32"
    by fastforce
  then show "bit (ram_load32 (ram_store32 m a v) a) n \<longleftrightarrow> bit v n"
    by cases (auto simp: ram_load32_def ram_store32_def bit_simps)
qed

lemma ram_store32_outside: "x < a \<or> a + 4 \<le> x \<Longrightarrow> ram_store32 m a v x = m x"
  by (auto simp: ram_store32_def)

section \<open>Interfaces\<close>

subsection \<open>Tables of slots with first-fit allocation\<close>

text \<open>
  The code keeps its resources in static arrays and allocates by a loop that takes the first free
  entry: \<^verbatim>\<open>for (i = 0; i < N; ++i) if (free(tab[i])) ...\<close>. \<open>find_first p i n\<close> is that loop.
\<close>

function find_first :: "(nat \<Rightarrow> bool) \<Rightarrow> nat \<Rightarrow> nat \<Rightarrow> nat option" where
  "find_first p i n = (if i < n then (if p i then Some i else find_first p (Suc i) n) else None)"
  by pat_completeness auto
termination
  by (relation "measure (\<lambda>(p, i, n). n - i)") auto

declare find_first.simps [simp del]

lemma find_first_None: "find_first p i n = None \<longleftrightarrow> (\<forall>j. i \<le> j \<and> j < n \<longrightarrow> \<not> p j)"
proof (induction p i n rule: find_first.induct)
  case (1 p i n)
  show ?case
  proof (cases "i < n \<and> \<not> p i")
    case True
    then have "find_first p i n = None \<longleftrightarrow> (\<forall>j. Suc i \<le> j \<and> j < n \<longrightarrow> \<not> p j)"
      using 1 by (simp add: find_first.simps [of p i n])
    also have "\<dots> \<longleftrightarrow> (\<forall>j. i \<le> j \<and> j < n \<longrightarrow> \<not> p j)"
      using True by (metis Suc_leD not_less_eq_eq order_antisym_conv)
    finally show ?thesis .
  next
    case False
    then show ?thesis by (auto simp: find_first.simps [of p i n])
  qed
qed

lemma find_first_Some:
  "find_first p i n = Some k \<longleftrightarrow> i \<le> k \<and> k < n \<and> p k \<and> (\<forall>j. i \<le> j \<and> j < k \<longrightarrow> \<not> p j)"
proof (induction p i n rule: find_first.induct)
  case (1 p i n)
  show ?case
  proof (cases "i < n \<and> \<not> p i")
    case True
    then have "find_first p i n = Some k \<longleftrightarrow>
        Suc i \<le> k \<and> k < n \<and> p k \<and> (\<forall>j. Suc i \<le> j \<and> j < k \<longrightarrow> \<not> p j)"
      using 1 by (simp add: find_first.simps [of p i n])
    also have "\<dots> \<longleftrightarrow> i \<le> k \<and> k < n \<and> p k \<and> (\<forall>j. i \<le> j \<and> j < k \<longrightarrow> \<not> p j)"
      using True by (metis Suc_leD not_less_eq_eq order_antisym_conv)
    finally show ?thesis .
  next
    case False
    then show ?thesis by (auto simp: find_first.simps [of p i n])
  qed
qed

definition free_slots :: "('e \<Rightarrow> bool) \<Rightarrow> 'e list \<Rightarrow> nat" where
  "free_slots f xs = length (filter f xs)"

lemma free_slots_update:
  "i < length xs \<Longrightarrow> f (xs ! i) \<Longrightarrow> \<not> f e \<Longrightarrow> free_slots f xs = Suc (free_slots f (xs[i := e]))"
proof (induction xs arbitrary: i)
  case (Cons x xs)
  then show ?case by (cases i) (auto simp: free_slots_def)
qed simp

lemma free_slots_0: "free_slots f xs = 0 \<longleftrightarrow> (\<forall>e \<in> set xs. \<not> f e)"
  by (auto simp: free_slots_def filter_empty_conv)

lemma free_slots_le: "free_slots f xs \<le> length xs"
  by (simp add: free_slots_def)

text \<open>\<open>alloc_times alloc n s\<close>: \<open>n\<close> allocations in a row, with their results.\<close>

primrec alloc_times ::
  "('s \<Rightarrow> nat option \<times> 's) \<Rightarrow> nat \<Rightarrow> 's \<Rightarrow> nat option list \<times> 's" where
  "alloc_times alloc 0 s = ([], s)"
| "alloc_times alloc (Suc n) s =
     (let (r, s1) = alloc s; (rs, s2) = alloc_times alloc n s1 in (r # rs, s2))"

locale slot_table =
  fixes tab :: "'s \<Rightarrow> 'e list"
    and isfree :: "'e \<Rightarrow> bool"
    and alloc :: "'s \<Rightarrow> nat option \<times> 's"
  assumes alloc_full: "alloc s = (None, s') \<Longrightarrow> s' = s \<and> (\<forall>e \<in> set (tab s). \<not> isfree e)"
    and alloc_slot: "alloc s = (Some i, s') \<Longrightarrow>
      i < length (tab s) \<and> isfree (tab s ! i) \<and> (\<forall>j < i. \<not> isfree (tab s ! j)) \<and>
      (\<exists>e. \<not> isfree e \<and> tab s' = (tab s)[i := e])"
begin

lemma alloc_free_slots:
  "alloc s = (Some i, s') \<Longrightarrow> free_slots isfree (tab s) = Suc (free_slots isfree (tab s'))"
  by (auto dest!: alloc_slot intro: free_slots_update)

lemma alloc_keeps:
  "alloc s = (Some i, s') \<Longrightarrow> j \<noteq> i \<Longrightarrow> tab s' ! j = tab s ! j"
  by (auto dest!: alloc_slot)

lemma alloc_length: "alloc s = (r, s') \<Longrightarrow> length (tab s') = length (tab s)"
  by (cases r) (auto dest: alloc_full alloc_slot)

lemma alloc_succeeds:
  assumes "e \<in> set (tab s)" and "isfree e"
  shows "\<exists>i s'. alloc s = (Some i, s')"
proof (cases "alloc s")
  case (Pair r s')
  then show ?thesis using assms by (cases r) (auto dest: alloc_full)
qed

lemma alloc_times_count:
  "alloc_times alloc n s = (rs, s') \<Longrightarrow>
    length (filter (\<lambda>r. r \<noteq> None) rs) = min n (free_slots isfree (tab s))"
proof (induction n arbitrary: s rs s')
  case (Suc n)
  obtain r s1 where a: "alloc s = (r, s1)" by (cases "alloc s")
  obtain rs' s2 where t: "alloc_times alloc n s1 = (rs', s2)" by (cases "alloc_times alloc n s1")
  have rs: "rs = r # rs'" using Suc.prems a t by simp
  show ?case
  proof (cases r)
    case None
    then have "free_slots isfree (tab s) = 0" and "s1 = s"
      using alloc_full a by (auto simp: free_slots_0)
    then show ?thesis using Suc.IH [OF t] rs None by simp
  next
    case (Some i)
    then show ?thesis using Suc.IH [OF t] rs a alloc_free_slots [of s i s1] by simp
  qed
qed simp

lemma alloc_times_free:
  "alloc_times alloc n s = (rs, s') \<Longrightarrow>
    free_slots isfree (tab s') = free_slots isfree (tab s) - n"
proof (induction n arbitrary: s rs s')
  case (Suc n)
  obtain r s1 where a: "alloc s = (r, s1)" by (cases "alloc s")
  obtain rs' s2 where t: "alloc_times alloc n s1 = (rs', s2)" by (cases "alloc_times alloc n s1")
  have "free_slots isfree (tab s') = free_slots isfree (tab s1) - n"
    using Suc.IH [OF t] Suc.prems a t by simp
  moreover have "free_slots isfree (tab s1) = free_slots isfree (tab s) - 1"
    using a alloc_full [of s s1] alloc_free_slots [of s _ s1] free_slots_0 [of isfree "tab s"]
    by (cases r) auto
  ultimately show ?case by simp
qed simp

end

subsection \<open>Transition systems with an invariant\<close>

text \<open>
  A state machine is given by its start states and its steps. A property that holds at the start
  and that every step keeps holds in every state of every run.
\<close>

locale invariant_system =
  fixes start :: "'s \<Rightarrow> bool"
    and step :: "'s \<Rightarrow> 's \<Rightarrow> bool"
    and inv :: "'s \<Rightarrow> bool"
  assumes inv_start: "start s \<Longrightarrow> inv s"
    and inv_step: "inv s \<Longrightarrow> step s t \<Longrightarrow> inv t"
begin

lemma inv_run: "step\<^sup>*\<^sup>* s t \<Longrightarrow> inv s \<Longrightarrow> inv t"
  by (induction rule: rtranclp_induct) (auto intro: inv_step)

lemma inv_reachable: "start s \<Longrightarrow> step\<^sup>*\<^sup>* s t \<Longrightarrow> inv t"
  by (blast intro: inv_run inv_start)

end

end
