(* ===== verification/C_Strings.thy ===== *)
theory C_Strings
  imports OS_Prelude
begin

text \<open>
  The string library of the kernel (\<^verbatim>\<open>include/string.h\<close>). Each function works on arrays of
  bytes and indices into them, in the order of the C loops; \<open>None\<close> is an access outside an array
  (see \<open>OS_Prelude\<close>). Arrays are shorter than \<open>2 ^ 31\<close>, so lengths and offsets (\<^verbatim>\<open>size_t\<close>,
  \<^verbatim>\<open>int\<close>) are naturals; character codes are bytes, read as signed where the code compares
  them. The lemmas say what each function does on the strings held by the arrays.
\<close>

section \<open>Copying\<close>

text \<open>\<^verbatim>\<open>memset\<close> fills from the last byte down to the first.\<close>

fun memset :: "buf \<Rightarrow> nat \<Rightarrow> u8 \<Rightarrow> nat \<Rightarrow> buf option" where
  "memset b d v 0 = Some b"
| "memset b d v (Suc n) = do { b' \<leftarrow> wr b (d + n) v; memset b' d v n }"

text \<open>\<^verbatim>\<open>memcpy\<close> between two different arrays.\<close>

fun memcpy :: "buf \<Rightarrow> nat \<Rightarrow> buf \<Rightarrow> nat \<Rightarrow> nat \<Rightarrow> buf option" where
  "memcpy b d src s 0 = Some b"
| "memcpy b d src s (Suc n) =
     do { c \<leftarrow> rd src s; b' \<leftarrow> wr b d c; memcpy b' (Suc d) src (Suc s) n }"

section \<open>Length and comparison\<close>

function strlen_loop :: "buf \<Rightarrow> nat \<Rightarrow> nat \<Rightarrow> nat option" where
  "strlen_loop b p len =
     do { c \<leftarrow> rd b (p + len);
          if c \<noteq> 0 then strlen_loop b p (Suc len) else Some (Suc len) }"
  by pat_completeness auto
termination
  by (relation "measure (\<lambda>(b, p, len). length b - (p + len))") (auto simp: buf_simps)

declare strlen_loop.simps [simp del]

definition strlen :: "buf \<Rightarrow> nat \<Rightarrow> nat option" where
  "strlen b p = do { len \<leftarrow> strlen_loop b p 0; Some (len - 1) }"

text \<open>The result of \<^verbatim>\<open>strcmp\<close> is the difference of the first bytes that differ, as unsigned
  characters.\<close>

function strcmp :: "buf \<Rightarrow> nat \<Rightarrow> buf \<Rightarrow> nat \<Rightarrow> int option" where
  "strcmp b1 p b2 q =
     do { c1 \<leftarrow> rd b1 p;
          c2 \<leftarrow> rd b2 q;
          if c1 \<noteq> 0 \<and> c1 = c2 then strcmp b1 (Suc p) b2 (Suc q)
          else Some (uint c1 - uint c2) }"
  by pat_completeness auto
termination
  by (relation "measure (\<lambda>(b1, p, b2, q). length b1 - p)") (auto simp: buf_simps)

declare strcmp.simps [simp del]

section \<open>Copying strings\<close>

function strcpy :: "buf \<Rightarrow> nat \<Rightarrow> buf \<Rightarrow> nat \<Rightarrow> buf option" where
  "strcpy b d src s =
     do { c \<leftarrow> rd src s;
          b' \<leftarrow> wr b d c;
          if c \<noteq> 0 then strcpy b' (Suc d) src (Suc s) else Some b' }"
  by pat_completeness auto
termination
  by (relation "measure (\<lambda>(b, d, src, s). length src - s)") (auto simp: buf_simps)

declare strcpy.simps [simp del]

text \<open>\<^verbatim>\<open>strcpy\<close> when both pointers are into the same array: a read sees the earlier writes.\<close>

function strcpy_same :: "buf \<Rightarrow> nat \<Rightarrow> nat \<Rightarrow> buf option" where
  "strcpy_same b d s =
     do { c \<leftarrow> rd b s;
          b' \<leftarrow> wr b d c;
          if c \<noteq> 0 then strcpy_same b' (Suc d) (Suc s) else Some b' }"
  by pat_completeness auto
termination
  by (relation "measure (\<lambda>(b, d, s). length b - s)") (auto simp: buf_simps)

declare strcpy_same.simps [simp del]

function strncpy_copy :: "buf \<Rightarrow> nat \<Rightarrow> buf \<Rightarrow> nat \<Rightarrow> nat \<Rightarrow> nat \<Rightarrow> (buf \<times> nat) option" where
  "strncpy_copy b d src s n i =
     (if i < n then
        do { c \<leftarrow> rd src (s + i);
             if c \<noteq> 0 then do { b' \<leftarrow> wr b (d + i) c; strncpy_copy b' d src s n (Suc i) }
             else Some (b, i) }
      else Some (b, i))"
  by pat_completeness auto
termination
  by (relation "measure (\<lambda>(b, d, src, s, n, i). n - i)") auto

function strncpy_pad :: "buf \<Rightarrow> nat \<Rightarrow> nat \<Rightarrow> nat \<Rightarrow> buf option" where
  "strncpy_pad b d n i =
     (if i < n then do { b' \<leftarrow> wr b (d + i) 0; strncpy_pad b' d n (Suc i) } else Some b)"
  by pat_completeness auto
termination
  by (relation "measure (\<lambda>(b, d, n, i). n - i)") auto

declare strncpy_copy.simps [simp del] strncpy_pad.simps [simp del]

definition strncpy :: "buf \<Rightarrow> nat \<Rightarrow> buf \<Rightarrow> nat \<Rightarrow> nat \<Rightarrow> buf option" where
  "strncpy b d src s n =
     do { (b', i) \<leftarrow> strncpy_copy b d src s n 0; strncpy_pad b' d n i }"

function strmcpy_loop ::
  "buf \<Rightarrow> nat \<Rightarrow> buf \<Rightarrow> nat \<Rightarrow> nat \<Rightarrow> nat \<Rightarrow> nat \<Rightarrow> (buf \<times> nat) option" where
  "strmcpy_loop b d src s e i cnt =
     (if i < e then
        do { c \<leftarrow> rd src (s + i);
             if c \<noteq> 0 then
               do { b' \<leftarrow> wr b (d + cnt) c; strmcpy_loop b' d src s e (Suc i) (Suc cnt) }
             else Some (b, cnt) }
      else Some (b, cnt))"
  by pat_completeness auto
termination
  by (relation "measure (\<lambda>(b, d, src, s, e, i, cnt). e - i)") auto

declare strmcpy_loop.simps [simp del]

definition strmcpy :: "buf \<Rightarrow> nat \<Rightarrow> buf \<Rightarrow> nat \<Rightarrow> nat \<Rightarrow> nat \<Rightarrow> buf option" where
  "strmcpy b d src s start e =
     do { (b', cnt) \<leftarrow> strmcpy_loop b d src s e start 0; wr b' (d + cnt) 0 }"

function strcat_loop :: "buf \<Rightarrow> nat \<Rightarrow> buf \<Rightarrow> nat \<Rightarrow> (buf \<times> nat) option" where
  "strcat_loop b ptr src s =
     do { c \<leftarrow> rd src s;
          if c \<noteq> 0 then do { b' \<leftarrow> wr b ptr c; strcat_loop b' (Suc ptr) src (Suc s) }
          else Some (b, ptr) }"
  by pat_completeness auto
termination
  by (relation "measure (\<lambda>(b, ptr, src, s). length src - s)") (auto simp: buf_simps)

declare strcat_loop.simps [simp del]

definition strcat :: "buf \<Rightarrow> nat \<Rightarrow> buf \<Rightarrow> nat \<Rightarrow> buf option" where
  "strcat b d src s =
     do { n \<leftarrow> strlen b d;
          (b', ptr) \<leftarrow> strcat_loop b (d + n) src s;
          wr b' ptr 0 }"

section \<open>Numbers\<close>

text \<open>\<^verbatim>\<open>atoi\<close> has no check of its characters: each adds its code minus that of \<open>0\<close>, as a
  signed \<^verbatim>\<open>char\<close>, in 32-bit arithmetic.\<close>

function atoi_loop :: "buf \<Rightarrow> nat \<Rightarrow> nat \<Rightarrow> u32 \<Rightarrow> u32 option" where
  "atoi_loop b p i res =
     do { c \<leftarrow> rd b (p + i);
          if c \<noteq> 0 then atoi_loop b p (Suc i) (res * 10 + scast c - 48) else Some res }"
  by pat_completeness auto
termination
  by (relation "measure (\<lambda>(b, p, i, res). length b - (p + i))") (auto simp: buf_simps)

declare atoi_loop.simps [simp del]

definition atoi :: "buf \<Rightarrow> nat \<Rightarrow> u32 option" where
  "atoi b p = atoi_loop b p 0 0"

definition bchars :: buf where
  "bchars = [48, 49, 50, 51, 52, 53, 54, 55, 56, 57, 65, 66, 67, 68, 69, 70]"

function itoa_digits :: "buf \<Rightarrow> nat \<Rightarrow> u32 \<Rightarrow> u32 \<Rightarrow> (buf \<times> nat) option" where
  "itoa_digits tbuf pos i base =
     (if i \<noteq> 0 then
        (if base = 0 then None
         else do { tbuf' \<leftarrow> wr tbuf pos (bchars ! unat (i mod base));
                   itoa_digits tbuf' (Suc pos) (i div base) base })
      else Some (tbuf, pos))"
  by pat_completeness auto
termination
  by (relation "measure (\<lambda>(tbuf, pos, i, base). length tbuf - pos)") (auto simp: buf_simps)

declare itoa_digits.simps [simp del]

text \<open>The digits are in \<open>tbuf\<close> last one first; the second loop writes them in order. \<open>pos\<close> is
  the C variable plus one (it ends at -1).\<close>

function itoa_copy :: "buf \<Rightarrow> nat \<Rightarrow> buf \<Rightarrow> nat \<Rightarrow> nat \<Rightarrow> nat \<Rightarrow> (buf \<times> nat) option" where
  "itoa_copy b d tbuf pos1 opos tp =
     (if opos < tp then
        do { c \<leftarrow> rd tbuf (pos1 - 1);
             b' \<leftarrow> wr b (d + opos) c;
             itoa_copy b' d tbuf (pos1 - 1) (Suc opos) tp }
      else Some (b, opos))"
  by pat_completeness auto
termination
  by (relation "measure (\<lambda>(b, d, tbuf, pos1, opos, tp). tp - opos)") auto

declare itoa_copy.simps [simp del]

definition itoa :: "u32 \<Rightarrow> buf \<Rightarrow> nat \<Rightarrow> u32 \<Rightarrow> buf option" where
  "itoa i b d base =
     (if i = 0 \<or> 16 < base then do { b1 \<leftarrow> wr b d 48; wr b1 (d + 1) 0 }
      else do { (tbuf, tp) \<leftarrow> itoa_digits (replicate 32 0) 0 i base;
                (b', opos) \<leftarrow> itoa_copy b d tbuf tp 0 tp;
                wr b' (d + opos) 0 })"

definition itoa_s :: "u32 \<Rightarrow> buf \<Rightarrow> nat \<Rightarrow> u32 \<Rightarrow> buf option" where
  "itoa_s i b d base =
     (if 16 < base then Some b
      else if sint i < 0 then do { b' \<leftarrow> wr b d 45; itoa (i * (-1)) b' (d + 1) base }
      else itoa i b d base)"

section \<open>Searching and splitting\<close>

text \<open>Swapping from both ends; \<open>j\<close> starts at \<open>strlen - 1\<close>, which is -1 for the empty string.\<close>

function reverse_loop :: "buf \<Rightarrow> nat \<Rightarrow> int \<Rightarrow> int \<Rightarrow> buf option" where
  "reverse_loop b p i j =
     (if i < j then
        do { c \<leftarrow> rd b (p + nat i);
             cj \<leftarrow> rd b (p + nat j);
             b1 \<leftarrow> wr b (p + nat i) cj;
             b2 \<leftarrow> wr b1 (p + nat j) c;
             reverse_loop b2 p (i + 1) (j - 1) }
      else Some b)"
  by pat_completeness auto
termination
  by (relation "measure (\<lambda>(b, p, i, j). nat (j - i))") auto

declare reverse_loop.simps [simp del]

definition reverse :: "buf \<Rightarrow> nat \<Rightarrow> buf option" where
  "reverse b p = do { n \<leftarrow> strlen b p; reverse_loop b p 0 (int n - 1) }"

text \<open>\<open>Some None\<close> is the null pointer.\<close>

function strchr :: "buf \<Rightarrow> nat \<Rightarrow> u8 \<Rightarrow> nat option option" where
  "strchr b p c =
     do { x \<leftarrow> rd b p;
          if x = c then Some (Some p)
          else if x = 0 then Some None
          else strchr b (Suc p) c }"
  by pat_completeness auto
termination
  by (relation "measure (\<lambda>(b, p, c). length b - p)") (auto simp: buf_simps)

declare strchr.simps [simp del]

text \<open>The result of \<^verbatim>\<open>strsep\<close>: the token, the new value of \<open>*str\<close> (null when the string is used up) and
  the array, in which the separator found has become NUL.\<close>

function strsep_loop ::
  "buf \<Rightarrow> nat \<Rightarrow> nat \<Rightarrow> buf \<Rightarrow> (nat option \<times> nat option \<times> buf) option" where
  "strsep_loop b token str delims =
     do { c \<leftarrow> rd b str;
          if c \<noteq> 0 then
            do { r \<leftarrow> strchr delims 0 c;
                 if r \<noteq> None then
                   do { b' \<leftarrow> wr b str 0; Some (Some token, Some (Suc str), b') }
                 else strsep_loop b token (Suc str) delims }
          else Some (Some token, None, b) }"
  by pat_completeness auto
termination
  by (relation "measure (\<lambda>(b, token, str, delims). length b - str)") (auto simp: buf_simps)

declare strsep_loop.simps [simp del]

definition strsep :: "buf \<Rightarrow> nat option \<Rightarrow> buf \<Rightarrow> (nat option \<times> nat option \<times> buf) option" where
  "strsep b str delims =
     (case str of None \<Rightarrow> Some (None, None, b) | Some p \<Rightarrow> strsep_loop b p p delims)"

section \<open>Case and character classes\<close>

function tolower_loop :: "buf \<Rightarrow> nat \<Rightarrow> nat \<Rightarrow> nat \<Rightarrow> buf option" where
  "tolower_loop b p i len =
     (if i < len then
        do { c \<leftarrow> rd b (p + i);
             b' \<leftarrow> (if 65 \<le> sint c \<and> sint c \<le> 90 then wr b (p + i) (c + (97 - 65)) else Some b);
             tolower_loop b' p (Suc i) len }
      else Some b)"
  by pat_completeness auto
termination
  by (relation "measure (\<lambda>(b, p, i, len). len - i)") auto

function toupper_loop :: "buf \<Rightarrow> nat \<Rightarrow> nat \<Rightarrow> nat \<Rightarrow> buf option" where
  "toupper_loop b p i len =
     (if i < len then
        do { c \<leftarrow> rd b (p + i);
             b' \<leftarrow> (if 97 \<le> sint c \<and> sint c \<le> 122 then wr b (p + i) (c + (65 - 97)) else Some b);
             toupper_loop b' p (Suc i) len }
      else Some b)"
  by pat_completeness auto
termination
  by (relation "measure (\<lambda>(b, p, i, len). len - i)") auto

declare tolower_loop.simps [simp del] toupper_loop.simps [simp del]

definition tolower :: "buf \<Rightarrow> nat \<Rightarrow> buf option" where
  "tolower b p = do { len \<leftarrow> strlen b p; tolower_loop b p 0 len }"

definition toupper :: "buf \<Rightarrow> nat \<Rightarrow> buf option" where
  "toupper b p = do { len \<leftarrow> strlen b p; toupper_loop b p 0 len }"

definition isalpha :: "u8 \<Rightarrow> bool" where
  "isalpha c \<longleftrightarrow> (97 \<le> sint c \<and> sint c \<le> 122) \<or> (65 \<le> sint c \<and> sint c \<le> 90)"

definition isdigit :: "u8 \<Rightarrow> bool" where
  "isdigit c \<longleftrightarrow> 48 \<le> sint c \<and> sint c \<le> 57"

definition isspace :: "u8 \<Rightarrow> bool" where
  "isspace c \<longleftrightarrow> c = 32"

function isnum :: "buf \<Rightarrow> nat \<Rightarrow> bool option" where
  "isnum b p =
     do { c \<leftarrow> rd b p;
          if c \<noteq> 0 then (if \<not> isdigit c then Some False else isnum b (Suc p)) else Some True }"
  by pat_completeness auto
termination
  by (relation "measure (\<lambda>(b, p). length b - p)") (auto simp: buf_simps)

function isin :: "buf \<Rightarrow> nat \<Rightarrow> u8 \<Rightarrow> bool option" where
  "isin b p c =
     do { x \<leftarrow> rd b p;
          if x \<noteq> 0 then (if x = c then Some True else isin b (Suc p) c) else Some False }"
  by pat_completeness auto
termination
  by (relation "measure (\<lambda>(b, p, c). length b - p)") (auto simp: buf_simps)

declare isnum.simps [simp del] isin.simps [simp del]

text \<open>\<open>offs\<close> is the caller's array of offsets.\<close>

function split_loop ::
  "buf \<Rightarrow> nat \<Rightarrow> u8 \<Rightarrow> nat \<Rightarrow> nat \<Rightarrow> nat list \<Rightarrow> nat \<Rightarrow> (nat list \<times> nat) option" where
  "split_loop b p c len i offs cnt =
     (if i < len then
        do { x \<leftarrow> rd b (p + i);
             if x = c then
               (if cnt < length offs then split_loop b p c len (Suc i) (offs[cnt := i]) (Suc cnt)
                else None)
             else split_loop b p c len (Suc i) offs cnt }
      else Some (offs, cnt))"
  by pat_completeness auto
termination
  by (relation "measure (\<lambda>(b, p, c, len, i, offs, cnt). len - i)") auto

declare split_loop.simps [simp del]

definition split_str :: "buf \<Rightarrow> nat \<Rightarrow> u8 \<Rightarrow> nat list \<Rightarrow> (nat list \<times> nat) option" where
  "split_str b p c offs =
     do { len \<leftarrow> strlen b p;
          (offs', cnt) \<leftarrow> split_loop b p c len 0 offs 0;
          if cnt < length offs' then Some (offs'[cnt := len], Suc cnt) else None }"

section \<open>What the functions do\<close>

subsection \<open>Blocks of bytes\<close>

lemma memset_put: "d + n \<le> length b \<Longrightarrow> memset b d v n = Some (buf_put b d (replicate n v))"
proof (induction n arbitrary: b)
  case (Suc n)
  then have "memset b d v (Suc n) = Some (buf_put (b[d + n := v]) d (replicate n v))" by simp
  also have "buf_put (b[d + n := v]) d (replicate n v) = buf_put b d (replicate (Suc n) v)"
    using Suc.prems
    by (intro nth_equalityI) (auto simp: nth_buf_put nth_list_update nth_Cons' less_Suc_eq)
  finally show ?case .
qed simp

lemma memcpy_put:
  "d + n \<le> length b \<Longrightarrow> s + n \<le> length src \<Longrightarrow>
    memcpy b d src s n = Some (buf_put b d (take n (drop s src)))"
proof (induction n arbitrary: b d s)
  case (Suc n)
  then have "take (Suc n) (drop s src) = src ! s # take n (drop (Suc s) src)"
    by (simp add: Cons_nth_drop_Suc [symmetric])
  with Suc show ?case by (simp add: buf_put_Cons)
qed simp

lemma memcpy_None: "0 < n \<Longrightarrow> length b < d + n \<Longrightarrow> memcpy b d src s n = None"
proof (induction n arbitrary: b d s)
  case (Suc n)
  show ?case
  proof (cases "d < length b \<and> s < length src")
    case True
    then have "memcpy b d src s (Suc n) = memcpy (b[d := src ! s]) (Suc d) src (Suc s) n"
      by simp
    also have "\<dots> = None" using Suc True by (cases n) auto
    finally show ?thesis .
  next
    case False
    then show ?thesis by (cases "s < length src") (auto simp: rd_def wr_def)
  qed
qed simp

subsection \<open>Length, comparison, copies\<close>

lemma strlen_loop_cstr: "is_cstr b (p + n) s \<Longrightarrow> strlen_loop b p n = Some (Suc (n + length s))"
proof (induction s arbitrary: n)
  case Nil
  then show ?case by (subst strlen_loop.simps) simp
next
  case (Cons c s)
  then have "strlen_loop b p n = strlen_loop b p (Suc n)"
    by (subst strlen_loop.simps) simp
  then show ?case using Cons by simp
qed

lemma strlen_cstr [simp]: "is_cstr b p s \<Longrightarrow> strlen b p = Some (length s)"
  using strlen_loop_cstr [of b p 0 s] by (simp add: strlen_def)

lemma strlen_loop_no_nul: "no_nul b (p + n) \<Longrightarrow> strlen_loop b p n = None"
proof (induction b p n rule: strlen_loop.induct)
  case (1 b p n)
  show ?case
  proof (cases "p + n < length b")
    case True
    then have "b ! (p + n) \<noteq> 0" and "no_nul b (p + Suc n)"
      using no_nul_step [OF True] "1.prems" by simp_all
    then show ?thesis using "1.IH" [of "b ! (p + n)"] True by (subst strlen_loop.simps) simp
  next
    case False
    then show ?thesis by (subst strlen_loop.simps) (simp add: rd_def)
  qed
qed

lemma strlen_no_nul: "no_nul b p \<Longrightarrow> strlen b p = None"
  using strlen_loop_no_nul [of b p 0] by (simp add: strlen_def)

lemma uint_pos: "(w :: u8) \<noteq> 0 \<Longrightarrow> 0 < uint w"
  by (metis order_le_less uint_0_iff uint_nonnegative)

lemma strcmp_cstr:
  "is_cstr b1 p s \<Longrightarrow> is_cstr b2 q t \<Longrightarrow>
    \<exists>r. strcmp b1 p b2 q = Some r \<and> (r = 0 \<longleftrightarrow> s = t) \<and>
        (r < 0 \<longleftrightarrow> (s, t) \<in> lexord {(x, y). x < y})"
proof (induction s arbitrary: p q t)
  case Nil
  then show ?case
    by (cases t) (subst strcmp.simps, auto dest: uint_pos)+
next
  case (Cons c s)
  show ?case
  proof (cases t)
    case Nil
    then show ?thesis using Cons.prems
      by (subst strcmp.simps) (auto dest: uint_pos)
  next
    case (Cons d u)
    show ?thesis
    proof (cases "c = d")
      case True
      then have "strcmp b1 p b2 q = strcmp b1 (Suc p) b2 (Suc q)"
        using Cons.prems \<open>t = d # u\<close> by (subst strcmp.simps) simp
      then show ?thesis using Cons.IH [of "Suc p" "Suc q" u] Cons.prems \<open>t = d # u\<close> True
        by simp
    next
      case False
      then have "strcmp b1 p b2 q = Some (uint c - uint d)"
        using Cons.prems \<open>t = d # u\<close> by (subst strcmp.simps) simp
      then show ?thesis using False \<open>t = d # u\<close> by (auto simp: word_less_def word_uint_eq_iff)
    qed
  qed
qed

lemma strcmp_eq_0:
  "is_cstr b1 p s \<Longrightarrow> is_cstr b2 q t \<Longrightarrow> strcmp b1 p b2 q = Some 0 \<longleftrightarrow> s = t"
  using strcmp_cstr [of b1 p s b2 q t] by auto

lemma strcpy_cstr:
  "is_cstr src s t \<Longrightarrow> d + length t < length b \<Longrightarrow>
    strcpy b d src s = Some (buf_put b d (t @ [0]))"
proof (induction t arbitrary: b d s)
  case Nil
  then show ?case by (subst strcpy.simps) (simp add: buf_put_single)
next
  case (Cons c t)
  then have "strcpy b d src s = strcpy (b[d := c]) (Suc d) src (Suc s)"
    by (subst strcpy.simps) simp
  then show ?case using Cons by (simp add: buf_put_Cons)
qed

lemma strcpy_overflow:
  "is_cstr src s t \<Longrightarrow> length b \<le> d + length t \<Longrightarrow> strcpy b d src s = None"
proof (induction t arbitrary: b d s)
  case Nil
  then show ?case by (subst strcpy.simps) (simp add: wr_def)
next
  case (Cons c t)
  then show ?case by (subst strcpy.simps) (auto simp: wr_def)
qed

lemma strcpy_same_cstr:
  "is_cstr b s t \<Longrightarrow> d \<le> s \<Longrightarrow> strcpy_same b d s = Some (buf_put b d (t @ [0]))"
proof (induction t arbitrary: b d s)
  case Nil
  then show ?case by (subst strcpy_same.simps) (auto simp: buf_put_single buf_simps)
next
  case (Cons c t)
  then have l: "s + length (c # t) < length b" by (intro is_cstr_length)
  then have "strcpy_same b d s = strcpy_same (b[d := c]) (Suc d) (Suc s)"
    using Cons.prems by (subst strcpy_same.simps) simp
  also have "\<dots> = Some (buf_put (b[d := c]) (Suc d) (t @ [0]))"
    using Cons.prems by (intro Cons.IH) (auto simp: is_cstr_update)
  finally show ?case using Cons.prems(2) l by (simp add: buf_put_Cons)
qed

lemma strcat_loop_cstr:
  "is_cstr src s t \<Longrightarrow> d + length t \<le> length b \<Longrightarrow>
    strcat_loop b d src s = Some (buf_put b d t, d + length t)"
proof (induction t arbitrary: b d s)
  case Nil
  then show ?case by (subst strcat_loop.simps) simp
next
  case (Cons c t)
  then have "strcat_loop b d src s = strcat_loop (b[d := c]) (Suc d) src (Suc s)"
    by (subst strcat_loop.simps) simp
  then show ?case using Cons by (simp add: buf_put_Cons)
qed

lemma strcat_cstr:
  assumes "is_cstr b d s" and "is_cstr src q t" and "d + length s + length t < length b"
  shows "strcat b d src q = Some (buf_put b (d + length s) (t @ [0]))"
  using assms by (simp add: strcat_def strcat_loop_cstr buf_put_snoc)

lemma strcat_is_cstr:
  assumes "is_cstr b d s" and "is_cstr src q t" and "d + length s + length t < length b"
    and "strcat b d src q = Some b'"
  shows "is_cstr b' d (s @ t)"
proof -
  have "b' = buf_put b (d + length s) (t @ [0])"
    using assms strcat_cstr by simp
  with assms show ?thesis
    by (auto simp: is_cstr_iff nth_buf_put nth_append)
qed

subsection \<open>Reversal\<close>

lemma reverse_loop_spec:
  "p + i + n \<le> length b \<Longrightarrow>
    \<exists>b'. reverse_loop b p (int i) (int i + int n - 1) = Some b' \<and> length b' = length b \<and>
      (\<forall>k < length b. b' ! k =
         (if p + i \<le> k \<and> k < p + i + n then b ! (2 * (p + i) + n - 1 - k) else b ! k))"
proof (induction n arbitrary: b i rule: less_induct)
  case (less n)
  show ?case
  proof (cases "n < 2")
    case True
    then have "reverse_loop b p (int i) (int i + int n - 1) = Some b"
      by (subst reverse_loop.simps) simp
    moreover have "2 * (p + i) + n - 1 - k = k" if "p + i \<le> k" "k < p + i + n" for k
      using that True by (cases n) auto
    ultimately show ?thesis by auto
  next
    case False
    then have "\<exists>m. n = Suc (Suc m)" by presburger
    then obtain m where n: "n = Suc (Suc m)" by blast
    let ?j = "p + Suc (i + m)"
    let ?b2 = "b[p + i := b ! ?j, ?j := b ! (p + i)]"
    have "nat (int i + int n - 1) = Suc (i + m)" using n by simp
    then have "reverse_loop b p (int i) (int i + int n - 1) =
        reverse_loop ?b2 p (int (Suc i)) (int (Suc i) + int m - 1)"
      using less.prems n by (subst reverse_loop.simps) (simp add: algebra_simps)
    moreover have "\<exists>b'. reverse_loop ?b2 p (int (Suc i)) (int (Suc i) + int m - 1) = Some b' \<and>
      length b' = length ?b2 \<and> (\<forall>k < length ?b2. b' ! k =
         (if p + Suc i \<le> k \<and> k < p + Suc i + m
          then ?b2 ! (2 * (p + Suc i) + m - 1 - k) else ?b2 ! k))"
      using n less.prems by (intro less.IH) auto
    ultimately obtain b' where r: "reverse_loop b p (int i) (int i + int n - 1) = Some b'"
      and l: "length b' = length b"
      and v: "\<And>k. k < length b \<Longrightarrow> b' ! k =
         (if p + Suc i \<le> k \<and> k < p + Suc i + m
          then ?b2 ! (2 * (p + Suc i) + m - 1 - k) else ?b2 ! k)"
      by auto
    have "b' ! k = (if p + i \<le> k \<and> k < p + i + n then b ! (2 * (p + i) + n - 1 - k) else b ! k)"
      if k: "k < length b" for k
    proof -
      consider "k < p + i" | "k = p + i" | "p + i < k" "k < ?j" | "k = ?j" | "?j < k" by linarith
      then show ?thesis
      proof cases
        case 1
        then show ?thesis using v [OF k] by simp
      next
        case 2
        then have "b' ! k = b ! ?j" using v [OF k] k by simp
        moreover have "2 * (p + i) + n - 1 - k = ?j" using 2 n by simp
        ultimately show ?thesis using 2 n by (simp add: ac_simps)
      next
        case 3
        let ?x = "2 * (p + i) + n - 1 - k"
        have x: "2 * (p + Suc i) + m - 1 - k = ?x" unfolding n by simp
        have "?x \<noteq> p + i" "?x \<noteq> ?j" using 3 unfolding n by auto
        moreover have "b' ! k = ?b2 ! ?x" using v [OF k] 3 by (simp only: x) simp
        ultimately have "b' ! k = b ! ?x" by simp
        then show ?thesis using 3 n by simp
      next
        case 4
        then have "b' ! k = b ! (p + i)" using v [OF k] k by simp
        moreover have "2 * (p + i) + n - 1 - k = p + i" using 4 n by simp
        ultimately show ?thesis using 4 n by (simp add: ac_simps)
      next
        case 5
        then show ?thesis using v [OF k] n by simp
      qed
    qed
    with r l show ?thesis by blast
  qed
qed

lemma reverse_cstr:
  assumes "is_cstr b p s"
  shows "reverse b p = Some (buf_put b p (rev s))"
proof -
  have len: "p + length s < length b" using assms by (rule is_cstr_length)
  obtain b' where r: "reverse_loop b p 0 (int (length s) - 1) = Some b'" and l: "length b' = length b"
    and v: "\<And>k. k < length b \<Longrightarrow> b' ! k =
      (if p \<le> k \<and> k < p + length s then b ! (2 * p + length s - 1 - k) else b ! k)"
    using reverse_loop_spec [of p 0 "length s" b] len by auto
  have "b' = buf_put b p (rev s)"
  proof (rule nth_equalityI)
    fix k
    assume k: "k < length b'"
    show "b' ! k = buf_put b p (rev s) ! k"
    proof (cases "p \<le> k \<and> k < p + length s")
      case True
      then have e: "2 * p + length s - 1 - k = p + (length s - 1 - (k - p))" by linarith
      have "b ! (p + (length s - 1 - (k - p))) = s ! (length s - 1 - (k - p))"
        using True by (intro is_cstr_nth [OF assms]) linarith
      also have "\<dots> = rev s ! (k - p)" using True by (subst rev_nth) auto
      also have "\<dots> = buf_put b p (rev s) ! k" using True k l len by (subst nth_buf_put) auto
      finally have "b ! (2 * p + length s - 1 - k) = buf_put b p (rev s) ! k" unfolding e .
      then show ?thesis using v [of k] True k l by simp
    next
      case False
      then show ?thesis using v [of k] k l len by (auto simp: nth_buf_put)
    qed
  qed (use l len in simp)
  then show ?thesis using assms r by (simp add: reverse_def)
qed

subsection \<open>Searching and splitting\<close>

lemma strchr_cstr:
  "is_cstr b p s \<Longrightarrow> c \<noteq> 0 \<Longrightarrow>
    strchr b p c = Some (if c \<in> set s then Some (p + length (takeWhile (\<lambda>x. x \<noteq> c) s)) else None)"
proof (induction s arbitrary: p)
  case Nil
  then show ?case by (subst strchr.simps) simp
next
  case (Cons x s)
  then show ?case by (subst strchr.simps) auto
qed

lemma strsep_loop_found:
  "is_cstr delims 0 ds \<Longrightarrow> is_cstr b str (pre @ c # post) \<Longrightarrow> c \<in> set ds \<Longrightarrow> set pre \<inter> set ds = {} \<Longrightarrow>
    strsep_loop b token str delims =
      Some (Some token, Some (Suc (str + length pre)), b[str + length pre := 0])"
proof (induction pre arbitrary: str)
  case Nil
  then show ?case by (subst strsep_loop.simps) (auto simp: strchr_cstr buf_simps)
next
  case (Cons x pre)
  then have "strsep_loop b token str delims = strsep_loop b token (Suc str) delims"
    by (subst strsep_loop.simps) (auto simp: strchr_cstr)
  then show ?case using Cons by simp
qed

lemma strsep_loop_last:
  "is_cstr delims 0 ds \<Longrightarrow> is_cstr b str s \<Longrightarrow> set s \<inter> set ds = {} \<Longrightarrow>
    strsep_loop b token str delims = Some (Some token, None, b)"
proof (induction s arbitrary: str)
  case Nil
  then show ?case by (subst strsep_loop.simps) simp
next
  case (Cons x s)
  then show ?case by (subst strsep_loop.simps) (auto simp: strchr_cstr)
qed

text \<open>A separator in the string: the token is what precedes it, the rest what follows it.\<close>

lemma is_cstr_cut:
  assumes "is_cstr b p (pre @ c # post)"
  shows "is_cstr (b[p + length pre := 0]) p pre"
    and "is_cstr (b[p + length pre := 0]) (Suc (p + length pre)) post"
proof -
  have a: "p + length (pre @ c # post) < length b" "0 \<notin> set (pre @ c # post)"
    "\<And>i. i < length (pre @ c # post) \<Longrightarrow> b ! (p + i) = (pre @ c # post) ! i"
    "b ! (p + length (pre @ c # post)) = 0"
    using assms unfolding is_cstr_iff by auto
  show "is_cstr (b[p + length pre := 0]) p pre"
    using a(1,2) a(3) [of "_ :: nat"] by (auto simp: is_cstr_iff nth_append)
  have "b ! Suc (p + length pre + i) = post ! i" if "i < length post" for i
    using a(3) [of "Suc (length pre + i)"] that by (simp add: nth_append add.assoc)
  then show "is_cstr (b[p + length pre := 0]) (Suc (p + length pre)) post"
    using a(1,2,4) by (auto simp: is_cstr_iff add.assoc)
qed

lemma strsep_found:
  assumes "is_cstr delims 0 ds" and "is_cstr b p (pre @ c # post)" and "c \<in> set ds"
    and "set pre \<inter> set ds = {}"
  shows "\<exists>b' q. strsep b (Some p) delims = Some (Some p, Some q, b') \<and> length b' = length b \<and>
    is_cstr b' p pre \<and> is_cstr b' q post"
  using strsep_loop_found [OF assms(1-4)] is_cstr_cut [OF assms(2)] by (auto simp: strsep_def)

lemma strsep_last:
  assumes "is_cstr delims 0 ds" and "is_cstr b p s" and "set s \<inter> set ds = {}"
  shows "strsep b (Some p) delims = Some (Some p, None, b)"
  using strsep_loop_last [OF assms] by (simp add: strsep_def)

subsection \<open>Case\<close>

definition lower :: "u8 \<Rightarrow> u8" where
  "lower c = (if 65 \<le> sint c \<and> sint c \<le> 90 then c + 32 else c)"

lemma tolower_loop_spec:
  "p + len \<le> length b \<Longrightarrow> i \<le> len \<Longrightarrow>
    tolower_loop b p i len = Some (buf_put b (p + i) (map lower (take (len - i) (drop (p + i) b))))"
proof (induction "len - i" arbitrary: b i)
  case 0
  then show ?case by (subst tolower_loop.simps) simp
next
  case (Suc n)
  let ?b' = "b[p + i := lower (b ! (p + i))]"
  have "tolower_loop b p i len = tolower_loop ?b' p (Suc i) len"
    using Suc by (subst tolower_loop.simps) (auto simp: lower_def)
  also have "\<dots> = Some (buf_put ?b' (p + Suc i) (map lower (take (len - Suc i) (drop (p + Suc i) ?b'))))"
    using Suc by (intro Suc.hyps(1)) auto
  also have "\<dots> = Some (buf_put b (p + i)
      (map lower (b ! (p + i) # take (len - Suc i) (drop (p + Suc i) b))))"
    using Suc by (simp add: buf_put_Cons drop_update_cancel)
  also have "b ! (p + i) # take (len - Suc i) (drop (p + Suc i) b) = take (len - i) (drop (p + i) b)"
    using Suc by (simp add: Cons_nth_drop_Suc [symmetric] Suc_diff_Suc [symmetric])
  finally show ?case .
qed

lemma cstr_segment: "is_cstr b p s \<Longrightarrow> take (length s) (drop p b) = s"
  by (auto simp: is_cstr_take_drop)

lemma tolower_cstr:
  "is_cstr b p s \<Longrightarrow> tolower b p = Some (buf_put b p (map lower s))"
  using tolower_loop_spec [of p "length s" b 0] is_cstr_length [of b p s]
  by (simp add: tolower_def cstr_segment)

subsection \<open>Numbers and their digits\<close>

text \<open>The digits of a number in a base from 2 to 16, most significant first.\<close>

fun num_str :: "nat \<Rightarrow> nat \<Rightarrow> buf" where
  "num_str base n =
     (if base < 2 \<or> n < base then [bchars ! n]
      else num_str base (n div base) @ [bchars ! (n mod base)])"

declare num_str.simps [simp del]

lemma num_str_small: "n < base \<Longrightarrow> num_str base n = [bchars ! n]"
  by (subst num_str.simps) simp

lemma num_str_step:
  "2 \<le> base \<Longrightarrow> base \<le> n \<Longrightarrow>
    num_str base n = num_str base (n div base) @ [bchars ! (n mod base)]"
  by (subst num_str.simps) simp

lemma length_num_str:
  "2 \<le> base \<Longrightarrow> 1 \<le> k \<Longrightarrow> n < base ^ k \<Longrightarrow> length (num_str base n) \<le> k"
proof (induction k arbitrary: n)
  case (Suc k)
  show ?case
  proof (cases "n < base")
    case True
    then show ?thesis by (simp add: num_str_small)
  next
    case False
    then have "1 \<le> k" using Suc.prems by (cases k) auto
    moreover have "n div base < base ^ k"
      using Suc.prems by (simp add: less_mult_imp_div_less mult.commute)
    ultimately have "length (num_str base (n div base)) \<le> k" using Suc by simp
    then show ?thesis using False Suc.prems by (simp add: num_str_step)
  qed
qed simp

lemma bchars_range: "n < 16 \<Longrightarrow> 48 \<le> bchars ! n \<and> bchars ! n \<le> 70"
proof -
  have "\<forall>c \<in> set bchars. 48 \<le> c \<and> c \<le> 70" by (simp add: bchars_def)
  moreover assume "n < 16"
  then have "bchars ! n \<in> set bchars" by (intro nth_mem) (simp add: bchars_def)
  ultimately show ?thesis by blast
qed

lemma set_num_str:
  "2 \<le> base \<Longrightarrow> base \<le> 16 \<Longrightarrow> c \<in> set (num_str base n) \<Longrightarrow> 48 \<le> c \<and> c \<le> 70"
proof (induction base n rule: num_str.induct)
  case (1 base n)
  show ?case
  proof (cases "n < base")
    case True
    then show ?thesis using 1 bchars_range [of n] by (simp add: num_str_small)
  next
    case False
    moreover have "n mod base < base" using 1 by simp
    then have "n mod base < 16" using 1 by linarith
    ultimately show ?thesis using 1 bchars_range [of "n mod base"] by (auto simp: num_str_step)
  qed
qed

lemma num_str_no_nul: "2 \<le> base \<Longrightarrow> base \<le> 16 \<Longrightarrow> 0 \<notin> set (num_str base n)"
  using set_num_str [of base 0 n] by auto

lemma itoa_digits_spec:
  assumes "2 \<le> base" "base \<le> 16"
  shows "i \<noteq> 0 \<Longrightarrow> pos + length (num_str (unat base) (unat i)) \<le> length tbuf \<Longrightarrow>
    itoa_digits tbuf pos i base =
      Some (buf_put tbuf pos (rev (num_str (unat base) (unat i))),
            pos + length (num_str (unat base) (unat i)))"
proof (induction "unat i" arbitrary: i pos tbuf rule: less_induct)
  case less
  have b2: "2 \<le> unat base" using assms(1) by (simp add: word_le_nat_alt)
  have d: "unat (i div base) = unat i div unat base" and m: "unat (i mod base) = unat i mod unat base"
    by (simp_all add: unat_div unat_mod)
  let ?c = "bchars ! (unat i mod unat base)"
  have pos: "pos < length tbuf"
    using less.prems(2) by (cases "num_str (unat base) (unat i)") (auto simp: num_str.simps split: if_splits)
  have one: "itoa_digits tbuf pos i base = itoa_digits (tbuf[pos := ?c]) (Suc pos) (i div base) base"
    using less.prems(1) assms pos b2
    by (subst itoa_digits.simps) (auto simp: m)
  show ?case
  proof (cases "unat i < unat base")
    case True
    then have "i div base = 0" using d by (simp add: unat_eq_zero [symmetric])
    then have "itoa_digits tbuf pos i base = Some (tbuf[pos := ?c], Suc pos)"
      unfolding one by (subst itoa_digits.simps) simp
    then show ?thesis using True pos by (simp add: num_str_small buf_put_single)
  next
    case False
    let ?q = "num_str (unat base) (unat i div unat base)"
    have n: "num_str (unat base) (unat i) = ?q @ [?c]"
      using False b2 by (simp add: num_str_step)
    have "unat i div unat base \<noteq> 0" using False b2 by (simp add: div_eq_0_iff)
    then have "i div base \<noteq> 0" using d by (metis unat_0)
    moreover have "unat (i div base) < unat i"
      using less.prems(1) b2 d by (simp add: unat_gt_0)
    ultimately have "itoa_digits (tbuf[pos := ?c]) (Suc pos) (i div base) base =
        Some (buf_put (tbuf[pos := ?c]) (Suc pos) (rev ?q), Suc pos + length ?q)"
      using less.hyps [of "i div base" "Suc pos" "tbuf[pos := ?c]"] less.prems(2) n d by simp
    then show ?thesis using less.prems(2) n one by (simp add: buf_put_Cons)
  qed
qed

lemma itoa_copy_spec:
  "p1 \<le> length tbuf \<Longrightarrow> d + opos + p1 \<le> length b \<Longrightarrow>
    itoa_copy b d tbuf p1 opos (opos + p1) =
      Some (buf_put b (d + opos) (rev (take p1 tbuf)), opos + p1)"
proof (induction p1 arbitrary: b opos)
  case 0
  then show ?case by (subst itoa_copy.simps) simp
next
  case (Suc q)
  have "itoa_copy b d tbuf (Suc q) opos (opos + Suc q) =
      itoa_copy (b[d + opos := tbuf ! q]) d tbuf q (Suc opos) (Suc opos + q)"
    using Suc.prems by (subst itoa_copy.simps) simp
  also have "\<dots> = Some (buf_put (b[d + opos := tbuf ! q]) (d + Suc opos) (rev (take q tbuf)),
      Suc opos + q)"
    using Suc.prems by (intro Suc.IH) auto
  finally show ?case
    using Suc.prems by (simp add: take_Suc_conv_app_nth buf_put_Cons)
qed

lemma itoa_num_str:
  assumes "2 \<le> base" "base \<le> 16" "d + length (num_str (unat base) (unat i)) < length b"
  shows "itoa i b d base = Some (buf_put b d (num_str (unat base) (unat i) @ [0]))"
proof -
  let ?s = "num_str (unat base) (unat i)"
  have b2: "2 \<le> unat base" using assms(1) by (simp add: word_le_nat_alt)
  show ?thesis
  proof (cases "i = 0")
    case True
    then have "?s = [48]" using b2 by (simp add: num_str_small bchars_def)
    then show ?thesis using True assms(3) by (simp add: itoa_def buf_put_Cons buf_put_single)
  next
    case False
    have "(2::nat) ^ 32 \<le> unat base ^ 32" using b2 by (rule power_mono) simp
    then have "unat i < unat base ^ 32" using unat_u32 [of i] by simp
    then have l: "length ?s \<le> 32" using b2 by (intro length_num_str) auto
    then have "itoa_digits (replicate 32 0) 0 i base =
        Some (buf_put (replicate 32 0) 0 (rev ?s), length ?s)"
      using itoa_digits_spec [OF assms(1,2) False, of 0 "replicate 32 0"] by simp
    moreover have "take (length ?s) (buf_put (replicate 32 0) 0 (rev ?s)) = rev ?s"
      using l by (simp add: buf_put_def)
    moreover have "itoa_copy b d (buf_put (replicate 32 0) 0 (rev ?s)) (length ?s) 0 (length ?s) =
        Some (buf_put b d (rev (take (length ?s) (buf_put (replicate 32 0) 0 (rev ?s)))), length ?s)"
      using itoa_copy_spec [of "length ?s" "buf_put (replicate 32 0) 0 (rev ?s)" d 0 b] l assms(3)
      by simp
    ultimately show ?thesis
      using False assms(3) leD [OF assms(2)] by (simp add: itoa_def buf_put_snoc)
  qed
qed

lemma itoa_base_bad: "16 < base \<Longrightarrow> d + 1 < length b \<Longrightarrow> itoa i b d base = Some (buf_put b d [48, 0])"
  by (simp add: itoa_def buf_put_Cons buf_put_single)

lemma atoi_loop_cstr:
  "is_cstr b (p + i) s \<Longrightarrow> atoi_loop b p i res = Some (foldl (\<lambda>r c. r * 10 + scast c - 48) res s)"
proof (induction s arbitrary: i res)
  case Nil
  then show ?case by (subst atoi_loop.simps) simp
next
  case (Cons c s)
  then have "atoi_loop b p i res = atoi_loop b p (Suc i) (res * 10 + scast c - 48)"
    by (subst atoi_loop.simps) simp
  then show ?case using Cons by simp
qed

lemma digit_value: "n < 10 \<Longrightarrow> scast (bchars ! n) - 48 = (of_nat n :: u32)"
proof -
  assume "n < 10"
  then have "n \<in> set [0..<10]" by simp
  then show ?thesis by (auto simp: upt_rec bchars_def)
qed

lemma foldl_num_str:
  "foldl (\<lambda>r c. r * 10 + scast c - 48) (0 :: u32) (num_str 10 n) = of_nat n"
proof (induction n rule: less_induct)
  case (less n)
  show ?case
  proof (cases "n < 10")
    case True
    then show ?thesis using digit_value [of n] by (simp add: num_str_small)
  next
    case False
    have "of_nat (n div 10) * 10 + scast (bchars ! (n mod 10)) - 48 =
        (of_nat (n div 10) * 10 + of_nat (n mod 10) :: u32)"
      using digit_value [of "n mod 10"] by (simp add: algebra_simps)
    also have "\<dots> = of_nat n"
      by (metis div_mult_mod_eq of_nat_add of_nat_mult of_nat_numeral)
    finally show ?thesis using False less.IH [of "n div 10"] by (simp add: num_str_step)
  qed
qed

lemma atoi_num_str: "is_cstr b p (num_str 10 n) \<Longrightarrow> atoi b p = Some (of_nat n)"
  using atoi_loop_cstr [of b p 0 "num_str 10 n" 0] by (simp add: atoi_def foldl_num_str)

lemma itoa_digits_diverges_zero: "i \<noteq> 0 \<Longrightarrow> itoa i b d 0 = None"
  by (simp add: itoa_def) (subst itoa_digits.simps, simp)

section \<open>Properties\<close>

text \<open>C21: printing a 32-bit number in decimal with \<^verbatim>\<open>itoa\<close> and reading it back with
  \<^verbatim>\<open>atoi\<close> gives the number again, for every number (the digits and the NUL need at most 11
  bytes), and nothing outside these bytes is written.\<close>

theorem atoi_itoa_roundtrip:
  assumes "d + 11 \<le> length b"
  shows "\<exists>b'. itoa x b d 10 = Some b' \<and> atoi b' d = Some x \<and> length b' = length b \<and>
    (\<forall>i < length b. i < d \<or> d + 11 \<le> i \<longrightarrow> b' ! i = b ! i)"
proof -
  let ?s = "num_str 10 (unat x)"
  have len: "length ?s \<le> 10" using unat_u32 [of x] by (intro length_num_str) auto
  moreover have "itoa x b d 10 = Some (buf_put b d (?s @ [0]))"
    using itoa_num_str [of 10 d x b] len assms by simp
  moreover have "is_cstr (buf_put b d (?s @ [0])) d ?s"
    using len assms by (intro buf_put_cstr num_str_no_nul) auto
  ultimately show ?thesis
    using assms atoi_num_str by (auto simp: nth_buf_put)
qed

lemma atoi_itoa_roundtrip_witness:
  "\<exists>b'. itoa 4294967295 (replicate 12 7) 1 10 = Some b' \<and> atoi b' 1 = Some 4294967295"
  using atoi_itoa_roundtrip [of 1 "replicate 12 7" 4294967295] by auto

text \<open>\<^verbatim>\<open>strsep\<close> on a string that contains a delimiter returns the part before the
  first one, as a string of its own, and moves the cursor to the part after it; without a delimiter
  it returns the whole string and sets the cursor to null; the array keeps its length.\<close>

theorem strsep_tokens:
  assumes "is_cstr delims 0 ds" and "is_cstr b p s"
  shows "\<exists>b' rest. strsep b (Some p) delims = Some (Some p, rest, b') \<and> length b' = length b \<and>
    is_cstr b' p (takeWhile (\<lambda>c. c \<notin> set ds) s) \<and>
    (case rest of
       None \<Rightarrow> set s \<inter> set ds = {} \<and> b' = b
     | Some q \<Rightarrow> \<exists>c post. s = takeWhile (\<lambda>c. c \<notin> set ds) s @ c # post \<and> c \<in> set ds \<and>
         is_cstr b' q post)"
proof (cases "set s \<inter> set ds = {}")
  case True
  then have tw: "takeWhile (\<lambda>c. c \<notin> set ds) s = s" by (auto simp: takeWhile_eq_all_conv)
  show ?thesis unfolding tw using strsep_last [OF assms True] assms(2) True by simp
next
  case False
  then obtain pre c post where s: "s = pre @ c # post" "c \<in> set ds" "set pre \<inter> set ds = {}"
    using split_list_first_prop [of s "\<lambda>c. c \<in> set ds"] by blast
  then have tw: "takeWhile (\<lambda>c. c \<notin> set ds) s = pre"
    by (simp add: takeWhile_tail) (auto simp: takeWhile_eq_all_conv)
  obtain b' q where "strsep b (Some p) delims = Some (Some p, Some q, b')"
      "length b' = length b" "is_cstr b' p pre" "is_cstr b' q post"
    using strsep_found [OF assms(1) _ s(2,3)] assms(2) s(1) by blast
  then show ?thesis using s tw by auto
qed

lemma strsep_tokens_witness:
  "\<exists>b'. strsep [108, 115, 32, 47, 0] (Some 0) [32, 0] = Some (Some 0, Some 3, b') \<and>
     is_cstr b' 0 [108, 115]"
proof -
  have "strsep [108, 115, 32, 47, 0] (Some 0) [32, 0] = Some (Some 0, Some 3, [108, 115, 0, 47, 0])"
    by (simp add: strsep_def strsep_loop.simps strchr.simps)
  then show ?thesis
    using strsep_tokens [of "[32, 0]" "[32]" "[108, 115, 32, 47, 0]" 0 "[108, 115, 32, 47]"] by simp
qed

text \<open>\<^verbatim>\<open>strcmp\<close> on two strings gives 0 exactly when they are equal, and a negative
  number exactly when the first is smaller in the dictionary order of unsigned characters.\<close>

theorem strcmp_order:
  assumes "is_cstr b1 p s" and "is_cstr b2 q t"
  shows "\<exists>r. strcmp b1 p b2 q = Some r \<and> (r = 0 \<longleftrightarrow> s = t) \<and>
    (r < 0 \<longleftrightarrow> (s, t) \<in> lexord {(x, y). x < y})"
  using strcmp_cstr [OF assms] .

lemma strcmp_order_witness:
  "\<exists>r. strcmp [99, 100, 0] 0 [99, 112, 0] 0 = Some r \<and> r \<noteq> 0"
  using strcmp_order [of "[99, 100, 0]" 0 "[99, 100]" "[99, 112, 0]" 0 "[99, 112]"] by auto

text \<open>\<^verbatim>\<open>strcpy\<close> of a string has a defined result exactly when the string and its NUL
  fit behind the destination index, and then the copy is that string and the rest of the array is
  unchanged.\<close>

theorem strcpy_fits:
  assumes "is_cstr src q t"
  shows "case strcpy b d src q of
      None \<Rightarrow> length b \<le> d + length t
    | Some b' \<Rightarrow> d + length t < length b \<and> is_cstr b' d t \<and> length b' = length b \<and>
        (\<forall>i < length b. i < d \<or> d + length t < i \<longrightarrow> b' ! i = b ! i)"
proof (cases "d + length t < length b")
  case True
  moreover have "0 \<notin> set t" using assms by (rule is_cstr_nonzero)
  ultimately show ?thesis
    by (simp add: strcpy_cstr [OF assms] buf_put_cstr) (auto simp: nth_buf_put)
next
  case False
  then show ?thesis by (simp add: strcpy_overflow [OF assms])
qed

lemma strcpy_fits_witness:
  "case strcpy (replicate 3 9) 0 [104, 105, 0] 0 of
      None \<Rightarrow> False | Some b' \<Rightarrow> is_cstr b' 0 [104, 105]"
  using strcpy_fits [of "[104, 105, 0]" 0 "[104, 105]" "replicate 3 9" 0]
  by (simp split: option.splits)

end
