(* ===== verification/Segments.thy ===== *)
theory Segments
  imports OS_Prelude
begin

text \<open>
  The global descriptor table (\<^verbatim>\<open>include/gdt.h\<close>) and the task state segment
  (\<^verbatim>\<open>include/tss.h\<close>). The addresses of \<^verbatim>\<open>_gdt\<close> and \<^verbatim>\<open>tss\<close> are chosen by the linker and are
  arguments of the model; so is nothing else. A descriptor is decoded back to base, limit and
  privilege as the processor reads it, which is what the lemmas are about.
\<close>

section \<open>Selectors\<close>

definition KERNEL_CS :: u32 where "KERNEL_CS = push_bit 3 1 OR 0"
definition KERNEL_DS :: u32 where "KERNEL_DS = push_bit 3 2 OR 0"
definition USER_CS :: u32 where "USER_CS = push_bit 3 3 OR 3"
definition USER_DS :: u32 where "USER_DS = push_bit 3 4 OR 3"

lemma selector_values [simp]:
  "KERNEL_CS = 0x08" "KERNEL_DS = 0x10" "USER_CS = 0x1b" "USER_DS = 0x23"
  by (simp_all add: KERNEL_CS_def KERNEL_DS_def USER_CS_def USER_DS_def)

section \<open>Descriptors\<close>

record gdt_descriptor =
  limit :: u16
  baseLo :: u16
  baseMid :: u8
  flags :: u8
  grand :: u8
  baseHi :: u8

record gdtr =
  m_limit :: u16
  m_base :: u32

definition zero_descriptor :: gdt_descriptor where
  "zero_descriptor = \<lparr>limit = 0, baseLo = 0, baseMid = 0, flags = 0, grand = 0, baseHi = 0\<rparr>"

text \<open>The guard lets index 6 through, which is past the table: no defined result.\<close>

definition gdt_set_descriptor ::
  "nat \<Rightarrow> u64 \<Rightarrow> u64 \<Rightarrow> u8 \<Rightarrow> u8 \<Rightarrow> gdt_descriptor list \<Rightarrow> gdt_descriptor list option" where
  "gdt_set_descriptor i base lim access gr g =
     (if 6 < i then Some g
      else if length g \<le> i then None
      else
        let d = zero_descriptor;
            d = d\<lparr>baseLo := ucast (base AND 0xffff),
                  baseMid := ucast (drop_bit 16 base AND 0xff),
                  baseHi := ucast (drop_bit 24 base AND 0xff),
                  limit := ucast (lim AND 0xffff)\<rparr>;
            d = d\<lparr>flags := access, grand := ucast (drop_bit 16 lim AND 0x0f)\<rparr>;
            d = d\<lparr>grand := grand d OR (gr AND 0xf0)\<rparr>
        in Some (g[i := d]))"

text \<open>\<open>Some None\<close> is the null pointer.\<close>

definition gdt_get_descriptor ::
  "int \<Rightarrow> gdt_descriptor list \<Rightarrow> gdt_descriptor option option" where
  "gdt_get_descriptor i g =
     (if 6 < i then Some None
      else if i < 0 \<or> int (length g) \<le> i then None
      else Some (Some (g ! nat i)))"

text \<open>How the processor reads a descriptor: base, 20-bit limit, privilege level, granularity.\<close>

definition desc_base :: "gdt_descriptor \<Rightarrow> u32" where
  "desc_base d = ucast (baseLo d) OR push_bit 16 (ucast (baseMid d)) OR push_bit 24 (ucast (baseHi d))"

definition desc_limit :: "gdt_descriptor \<Rightarrow> u32" where
  "desc_limit d = ucast (limit d) OR push_bit 16 (ucast (grand d AND 0x0f))"

definition desc_dpl :: "gdt_descriptor \<Rightarrow> nat" where
  "desc_dpl d = unat (drop_bit 5 (flags d) AND 3)"

definition desc_present :: "gdt_descriptor \<Rightarrow> bool" where
  "desc_present d \<longleftrightarrow> bit (flags d) 7"

definition desc_code :: "gdt_descriptor \<Rightarrow> bool" where
  "desc_code d \<longleftrightarrow> bit (flags d) 3"

section \<open>The task state segment\<close>

record tss_entry =
  prevTss :: u32
  esp0 :: u32
  ss0 :: u32
  esp1 :: u32
  ss1 :: u32
  esp2 :: u32
  ss2 :: u32
  cr3 :: u32
  tss_eip :: u32
  tss_eflags :: u32
  tss_eax :: u32
  tss_ecx :: u32
  tss_edx :: u32
  tss_ebx :: u32
  tss_esp :: u32
  tss_ebp :: u32
  tss_esi :: u32
  tss_edi :: u32
  tss_es :: u32
  tss_cs :: u32
  tss_ss :: u32
  tss_ds :: u32
  tss_fs :: u32
  tss_gs :: u32
  ldt :: u32
  trap :: u16
  iomap :: u16

definition sizeof_tss :: u32 where "sizeof_tss = 25 * 4 + 2 * 2"

definition zero_tss :: tss_entry where
  "zero_tss = \<lparr>prevTss = 0, esp0 = 0, ss0 = 0, esp1 = 0, ss1 = 0, esp2 = 0, ss2 = 0, cr3 = 0,
     tss_eip = 0, tss_eflags = 0, tss_eax = 0, tss_ecx = 0, tss_edx = 0, tss_ebx = 0, tss_esp = 0,
     tss_ebp = 0, tss_esi = 0, tss_edi = 0, tss_es = 0, tss_cs = 0, tss_ss = 0, tss_ds = 0,
     tss_fs = 0, tss_gs = 0, ldt = 0, trap = 0, iomap = 0\<rparr>"

text \<open>The result: the segment and the value loaded into the task register by \<open>ltr\<close>.\<close>

definition tss_install :: "u32 \<Rightarrow> tss_entry \<Rightarrow> tss_entry \<times> u16" where
  "tss_install sel t =
     (let t = zero_tss;
          t = t\<lparr>ss0 := KERNEL_DS, esp0 := 0\<rparr>;
          t = t\<lparr>tss_cs := KERNEL_CS OR 3\<rparr>;
          v = KERNEL_DS OR 3;
          t = t\<lparr>tss_gs := v, tss_fs := v, tss_ds := v, tss_es := v, tss_ss := v\<rparr>
      in (t, ucast (push_bit 3 sel)))"

definition tss_set_stack :: "u32 \<Rightarrow> u32 \<Rightarrow> tss_entry \<Rightarrow> tss_entry" where
  "tss_set_stack ss esp t = t\<lparr>ss0 := ss, esp0 := esp\<rparr>"

definition tss_init :: "nat \<Rightarrow> u32 \<Rightarrow> gdt_descriptor list \<Rightarrow> gdt_descriptor list option" where
  "tss_init sel tss_addr g =
     gdt_set_descriptor sel (ucast tss_addr) (ucast (tss_addr + sizeof_tss))
       (0x01 OR 0x08 OR 0x60 OR 0x80) 0 g"

section \<open>Initialisation\<close>

record seg_state =
  gdt_table :: "gdt_descriptor list"
  gdtr_reg :: gdtr
  tss_seg :: tss_entry
  task_register :: u16

definition gdt_init :: "u32 \<Rightarrow> u32 \<Rightarrow> seg_state \<Rightarrow> seg_state option" where
  "gdt_init gdt_addr tss_addr s =
     do { let r = \<lparr>m_limit = 8 * 6 - 1, m_base = gdt_addr\<rparr>;
          g0 \<leftarrow> gdt_set_descriptor 0 0 0 0 0 (gdt_table s);
          g1 \<leftarrow> gdt_set_descriptor 1 0 0xffffffff (0x02 OR 0x08 OR 0x10 OR 0x80)
                  (0x80 OR 0x40 OR 0x0f) g0;
          g2 \<leftarrow> gdt_set_descriptor 2 0 0xffffffff (0x02 OR 0x10 OR 0x80)
                  (0x80 OR 0x40 OR 0x0f) g1;
          g3 \<leftarrow> gdt_set_descriptor 3 0 0xffffffff (0x02 OR 0x08 OR 0x10 OR 0x80 OR 0x60)
                  (0x80 OR 0x40 OR 0x0f) g2;
          g4 \<leftarrow> gdt_set_descriptor 4 0 0xffffffff (0x02 OR 0x10 OR 0x80 OR 0x60)
                  (0x80 OR 0x40 OR 0x0f) g3;
          g5 \<leftarrow> tss_init 5 tss_addr g4;
          let (t, tr) = tss_install 5 (tss_seg s);
          Some (s\<lparr>gdt_table := g5, gdtr_reg := r, tss_seg := t, task_register := tr\<rparr>) }"

section \<open>Properties\<close>

lemma gdt_set_descriptor_Some:
  "i < length g \<Longrightarrow> i \<le> 6 \<Longrightarrow> gdt_set_descriptor i base lim access gr g =
    Some (g[i := \<lparr>limit = ucast (lim AND 0xffff), baseLo = ucast (base AND 0xffff),
      baseMid = ucast (drop_bit 16 base AND 0xff), flags = access,
      grand = ucast (drop_bit 16 lim AND 0x0f) OR (gr AND 0xf0),
      baseHi = ucast (drop_bit 24 base AND 0xff)\<rparr>])"
  by (simp add: gdt_set_descriptor_def zero_descriptor_def Let_def)

text \<open>a descriptor that \<^verbatim>\<open>gdt_set_descriptor\<close> writes decodes to the base (its low 32
  bits), the low 20 bits of the limit and the access byte given; the flags are the high half of the
  granularity argument; all other entries are unchanged.\<close>

theorem gdt_descriptor_roundtrip:
  assumes "i < 6" and "length g = 6"
  shows "\<exists>g'. gdt_set_descriptor i base lim access gr g = Some g' \<and> length g' = 6 \<and>
    desc_base (g' ! i) = ucast base \<and>
    desc_limit (g' ! i) = take_bit 20 (ucast lim) \<and>
    flags (g' ! i) = access \<and>
    grand (g' ! i) AND 0xf0 = gr AND 0xf0 \<and>
    (\<forall>j. j \<noteq> i \<longrightarrow> g' ! j = g ! j)"
proof -
  let ?d = "\<lparr>limit = ucast (lim AND 0xffff), baseLo = ucast (base AND 0xffff),
      baseMid = ucast (drop_bit 16 base AND 0xff), flags = access,
      grand = ucast (drop_bit 16 lim AND 0x0f) OR (gr AND 0xf0),
      baseHi = ucast (drop_bit 24 base AND 0xff)\<rparr>"
  have "desc_base ?d = ucast base"
  proof (rule bit_word_eqI)
    fix n
    assume "n < LENGTH(32)"
    then consider "n < 16" | "16 \<le> n" "n < 24" | "24 \<le> n" "n < 32" by fastforce
    then show "bit (desc_base ?d) n \<longleftrightarrow> bit (ucast base :: u32) n"
      by cases (auto simp: desc_base_def bit_simps mask_bits)
  qed
  moreover have "desc_limit ?d = take_bit 20 (ucast lim)"
  proof (rule bit_word_eqI)
    fix n
    assume "n < LENGTH(32)"
    then consider "n < 16" | "16 \<le> n" "n < 20" | "20 \<le> n" "n < 32" by fastforce
    then show "bit (desc_limit ?d) n \<longleftrightarrow> bit (take_bit 20 (ucast lim :: u32)) n"
      by cases (auto simp: desc_limit_def bit_simps mask_bits dest: high_nibble)
  qed
  moreover have "grand ?d AND 0xf0 = gr AND 0xf0"
    by (rule bit_word_eqI) (auto simp: bit_simps mask_bits dest: high_nibble)
  ultimately show ?thesis
    using assms by (intro exI [of _ "g[i := ?d]"]) (simp add: gdt_set_descriptor_Some)
qed

lemma gdt_descriptor_roundtrip_witness:
  "\<exists>g'. gdt_set_descriptor 3 0x12345678 0xABCDE 0x9a 0xcf (replicate 6 zero_descriptor) = Some g' \<and>
    desc_base (g' ! 3) = 0x12345678 \<and> desc_limit (g' ! 3) = 0xABCDE"
  using gdt_descriptor_roundtrip [of 3 "replicate 6 zero_descriptor" "0x12345678" "0xABCDE" "0x9a" "0xcf"]
  by auto

lemma gdt_set_descriptor_past_end:
  "length g = 6 \<Longrightarrow> gdt_set_descriptor 6 base lim access gr g = None"
  by (simp add: gdt_set_descriptor_def)

lemma length_6: "length g = 6 \<longleftrightarrow> (\<exists>a b c d e f. g = [a, b, c, d, e, f])"
  by (auto simp: length_Suc_conv eval_nat_numeral)

text \<open>The flat descriptors of \<^verbatim>\<open>gdt_init\<close>.\<close>

definition flat_descriptor :: "u8 \<Rightarrow> gdt_descriptor" where
  "flat_descriptor access =
     \<lparr>limit = 0xffff, baseLo = 0, baseMid = 0, flags = access, grand = 0xcf, baseHi = 0\<rparr>"

definition tss_descriptor :: "u32 \<Rightarrow> gdt_descriptor" where
  "tss_descriptor ta =
     \<lparr>limit = ucast ((ucast (ta + 104) :: u64) AND 0xffff),
      baseLo = ucast ((ucast ta :: u64) AND 0xffff),
      baseMid = ucast (drop_bit 16 (ucast ta :: u64) AND 0xff), flags = 0xe9,
      grand = ucast (drop_bit 16 (ucast (ta + 104) :: u64) AND 0x0f),
      baseHi = ucast (drop_bit 24 (ucast ta :: u64) AND 0xff)\<rparr>"

lemma gdt_set_flat:
  "i < length g \<Longrightarrow> i \<le> 6 \<Longrightarrow>
    gdt_set_descriptor i 0 0xffffffff acc 0xcf g = Some (g[i := flat_descriptor acc])"
  by (simp add: gdt_set_descriptor_Some flat_descriptor_def)

lemma gdt_set_null:
  "0 < length g \<Longrightarrow> gdt_set_descriptor 0 0 0 0 0 g = Some (g[0 := zero_descriptor])"
  by (simp add: gdt_set_descriptor_Some zero_descriptor_def)

lemma tss_init_Some:
  "5 < length g \<Longrightarrow> tss_init 5 ta g = Some (g[5 := tss_descriptor ta])"
  by (simp add: tss_init_def gdt_set_descriptor_Some tss_descriptor_def sizeof_tss_def)

lemma tss_install_5: "tss_install 5 t = (fst (tss_install 5 t), 40)"
  by (simp add: tss_install_def Let_def)

lemma tss_install_ss0: "ss0 (fst (tss_install sel t)) = KERNEL_DS"
  by (simp add: tss_install_def zero_tss_def Let_def)

lemma gdt_init_table:
  assumes "length (gdt_table s) = 6"
  shows "gdt_init ga ta s = Some (s\<lparr>gdt_table :=
      [zero_descriptor, flat_descriptor 0x9a, flat_descriptor 0x92, flat_descriptor 0xfa,
       flat_descriptor 0xf2, tss_descriptor ta],
    gdtr_reg := \<lparr>m_limit = 47, m_base = ga\<rparr>,
    tss_seg := fst (tss_install 5 (tss_seg s)), task_register := 40\<rparr>)"
proof -
  obtain a b c d e f where g: "gdt_table s = [a, b, c, d, e, f]"
    using assms unfolding length_6 by blast
  show ?thesis
    unfolding gdt_init_def g
    by (subst tss_install_5) (simp add: gdt_set_null gdt_set_flat tss_init_Some)
qed

lemma flat_descriptor_facts:
  "desc_base (flat_descriptor acc) = 0" "desc_limit (flat_descriptor acc) = 0xFFFFF"
  "flags (flat_descriptor acc) = acc"
  by (simp_all add: flat_descriptor_def desc_base_def desc_limit_def)

lemma tss_descriptor_base: "desc_base (tss_descriptor ta) = ta"
proof (rule bit_word_eqI)
  fix n
  assume "n < LENGTH(32)"
  then consider "n < 16" | "16 \<le> n" "n < 24" | "24 \<le> n" "n < 32" by fastforce
  then show "bit (desc_base (tss_descriptor ta)) n \<longleftrightarrow> bit ta n"
    by cases (auto simp: tss_descriptor_def desc_base_def bit_simps mask_bits)
qed

text \<open>after \<^verbatim>\<open>gdt_init\<close> the four segments behind the selectors 0x08, 0x10, 0x18 and
  0x20 are present and flat (base 0, limit 0xFFFFF), the code ones executable, with privilege 0 for
  the kernel and 3 for the user; entry 0 is the null descriptor; the task register selects entry 5,
  whose base is the task state segment, which gives the kernel data segment for ring 0.\<close>

theorem gdt_init_segments:
  assumes "length (gdt_table s) = 6"
  shows "\<exists>s'. gdt_init ga ta s = Some s' \<and> m_base (gdtr_reg s') = ga \<and> m_limit (gdtr_reg s') = 47 \<and>
    (let g = gdt_table s' in
      length g = 6 \<and> g ! 0 = zero_descriptor \<and>
      (\<forall>k \<in> {1, 2, 3, 4}. desc_present (g ! k) \<and> desc_base (g ! k) = 0 \<and>
         desc_limit (g ! k) = 0xFFFFF \<and> (desc_code (g ! k) \<longleftrightarrow> odd k) \<and>
         desc_dpl (g ! k) = (if k \<le> 2 then 0 else 3)) \<and>
      desc_base (g ! 5) = ta \<and> task_register s' = 5 * 8 \<and> ss0 (tss_seg s') = KERNEL_DS)"
  using gdt_init_table [OF assms, of ga ta]
  by (simp add: Let_def tss_descriptor_base flat_descriptor_facts desc_present_def desc_code_def
      desc_dpl_def tss_install_ss0)

lemma gdt_init_segments_witness:
  "\<exists>s'. gdt_init 0x5000 0x6000 \<lparr>gdt_table = replicate 6 zero_descriptor,
       gdtr_reg = \<lparr>m_limit = 0, m_base = 0\<rparr>, tss_seg = zero_tss, task_register = 0\<rparr> = Some s' \<and>
     m_base (gdtr_reg s') = 0x5000"
  using gdt_init_segments [of "\<lparr>gdt_table = replicate 6 zero_descriptor,
       gdtr_reg = \<lparr>m_limit = 0, m_base = 0\<rparr>, tss_seg = zero_tss, task_register = 0\<rparr>" "0x5000" "0x6000"]
  by auto

end
