(* ===== verification/Timer_Pic.thy ===== *)
theory Timer_Pic
  imports OS_Prelude
begin

text \<open>
  The I/O ports (\<^verbatim>\<open>include/io.h\<close>), the interrupt controllers (\<^verbatim>\<open>include/pic.h\<close>) and the
  interval timer (\<^verbatim>\<open>include/pit.h\<close>). A device is seen through its ports: the bytes written are
  logged in order, the bytes read come from the answers the device still has to give. The
  interrupt flag of the processor is the one piece of CPU state these drivers change.
\<close>

section \<open>Ports and the interrupt flag\<close>

record io =
  port_log :: "(u16 \<times> u8) list"
  port_in :: "u16 \<Rightarrow> u8 list"
  if_flag :: bool

definition port_byte_out :: "u16 \<Rightarrow> u8 \<Rightarrow> io \<Rightarrow> io" where
  "port_byte_out port data s = s\<lparr>port_log := port_log s @ [(port, data)]\<rparr>"

text \<open>A device that gives no more answer leaves the reader waiting: \<open>None\<close>.\<close>

definition port_byte_in :: "u16 \<Rightarrow> io \<Rightarrow> (u8 \<times> io) option" where
  "port_byte_in port s =
     (case port_in s port of
        [] \<Rightarrow> None
      | c # cs \<Rightarrow> Some (c, s\<lparr>port_in := (port_in s)(port := cs)\<rparr>))"

definition enable :: "io \<Rightarrow> io" where
  "enable s = s\<lparr>if_flag := True\<rparr>"

definition disable :: "io \<Rightarrow> io" where
  "disable s = s\<lparr>if_flag := False\<rparr>"

lemma io_fields [simp]:
  "port_log (port_byte_out p d s) = port_log s @ [(p, d)]"
  "port_in (port_byte_out p d s) = port_in s"
  "if_flag (port_byte_out p d s) = if_flag s"
  "port_log (enable s) = port_log s" "port_in (enable s) = port_in s" "if_flag (enable s)"
  "port_log (disable s) = port_log s" "port_in (disable s) = port_in s" "\<not> if_flag (disable s)"
  by (simp_all add: port_byte_out_def enable_def disable_def)

section \<open>The interrupt controllers\<close>

definition pic_send_command :: "u8 \<Rightarrow> u8 \<Rightarrow> io \<Rightarrow> io" where
  "pic_send_command cmd picNum s =
     (if 1 < picNum then s
      else let reg = (if picNum = 1 then 0xA0 else 0x20) :: u8
           in port_byte_out (ucast reg) cmd s)"

definition pic_send_data :: "u8 \<Rightarrow> u8 \<Rightarrow> io \<Rightarrow> io" where
  "pic_send_data data picNum s =
     (if 1 < picNum then s
      else let reg = (if picNum = 1 then 0xA1 else 0x21) :: u8
           in port_byte_out (ucast reg) data s)"

definition pic_read_data :: "u8 \<Rightarrow> io \<Rightarrow> (u8 \<times> io) option" where
  "pic_read_data picNum s =
     (if 1 < picNum then Some (0, s)
      else let reg = (if picNum = 1 then 0xA1 else 0x21) :: u8
           in port_byte_in (ucast reg) s)"

definition pic_init :: "io \<Rightarrow> io" where
  "pic_init s0 =
     (let icw = 0 :: u8;
          s1 = disable s0;
          icw = (icw AND NOT 0x10) OR 0x10;
          icw = (icw AND NOT 1) OR 1;
          s2 = pic_send_command icw 0 s1;
          s3 = pic_send_command icw 1 s2;
          s4 = pic_send_data 0x20 0 s3;
          s5 = pic_send_data 0x28 1 s4;
          s6 = pic_send_data 0x04 0 s5;
          s7 = pic_send_data 0x02 1 s6;
          icw = (icw AND NOT 1) OR 1;
          s8 = pic_send_data icw 0 s7;
          s9 = pic_send_data icw 1 s8
      in enable s9)"

definition interruptdone :: "u32 \<Rightarrow> io \<Rightarrow> io" where
  "interruptdone intno s =
     (if 16 < intno then s
      else let s1 = (if 8 \<le> intno then pic_send_command 0x20 1 s else s)
           in pic_send_command 0x20 0 s1)"

lemma interruptdone_frame [simp]:
  "port_in (interruptdone n s) = port_in s" "if_flag (interruptdone n s) = if_flag s"
  by (simp_all add: interruptdone_def pic_send_command_def Let_def)

section \<open>The interval timer\<close>

record pit =
  pit_ticks :: u32
  pit_bIsInit :: bool

definition pit_set_tick_count :: "u32 \<Rightarrow> pit \<Rightarrow> u32 \<times> pit" where
  "pit_set_tick_count i t = (pit_ticks t, t\<lparr>pit_ticks := i\<rparr>)"

definition pit_get_tick_count :: "pit \<Rightarrow> u32" where
  "pit_get_tick_count t = pit_ticks t"

definition get_tick_count :: "pit \<Rightarrow> u32" where
  "get_tick_count t = pit_get_tick_count t"

definition pit_send_command :: "u8 \<Rightarrow> io \<Rightarrow> io" where
  "pit_send_command cmd s = port_byte_out 0x43 cmd s"

text \<open>Only the low byte of \<open>data\<close> goes out.\<close>

definition pit_send_data :: "u16 \<Rightarrow> u8 \<Rightarrow> io \<Rightarrow> io" where
  "pit_send_data data counter s =
     (let port = (if counter = 0 then 0x40 else if counter = 0x40 then 0x41 else 0x42) :: u8
      in port_byte_out (ucast port) (ucast data) s)"

definition pit_read_data :: "u16 \<Rightarrow> io \<Rightarrow> (u8 \<times> io) option" where
  "pit_read_data counter s =
     (let port = (if counter = 0 then 0x40 else if counter = 0x40 then 0x41 else 0x42) :: u8
      in port_byte_in (ucast port) s)"

text \<open>
  The divisor is computed in \<^verbatim>\<open>int\<close> from the low 16 bits of the frequency, which may be 0: then
  the processor traps.
\<close>

definition pit_start_counter :: "u32 \<Rightarrow> u8 \<Rightarrow> u8 \<Rightarrow> pit \<times> io \<Rightarrow> (pit \<times> io) option" where
  "pit_start_counter freq counter mode = (\<lambda>(t, s).
     (if freq = 0 then Some (t, s)
      else if (ucast freq :: u16) = 0 then None
      else
        let divisor = ucast ((1193181 :: u32) div ucast (ucast freq :: u16)) :: u16;
            ocw = 0 :: u8;
            ocw = (ocw AND NOT 0xE) OR mode;
            ocw = (ocw AND NOT 0x30) OR 0x30;
            ocw = (ocw AND NOT 0xC0) OR counter;
            s1 = pit_send_command ocw s;
            s2 = pit_send_data (divisor AND 0xff) 0 s1;
            s3 = pit_send_data (drop_bit 8 divisor AND 0xff) 0 s2
        in Some (t\<lparr>pit_ticks := 0\<rparr>, s3)))"

definition pit_is_initialized :: "pit \<Rightarrow> bool" where
  "pit_is_initialized t = pit_bIsInit t"

section \<open>Properties\<close>

lemma pic_init_if: "if_flag (pic_init s)"
  by (simp add: pic_init_def pic_send_command_def pic_send_data_def Let_def)

text \<open>\<^verbatim>\<open>pic_init\<close> sends each controller exactly its four initialisation words, in the
  order the controllers expect: ICW1 (0x11) to the command ports, then to the data ports the vector
  bases 0x20 and 0x28, the cascade wiring, and ICW4; interrupts are on afterwards. ICW4 is 0x11, not
  the 0x01 of the comment: bit 4 of ICW1 is still in the variable.\<close>

theorem pic_init_sequence:
  "port_log (pic_init s) = port_log s @
     [(0x20, 0x11), (0xA0, 0x11), (0x21, 0x20), (0xA1, 0x28),
      (0x21, 0x04), (0xA1, 0x02), (0x21, 0x11), (0xA1, 0x11)] \<and> if_flag (pic_init s)"
  by (simp add: pic_init_def pic_send_command_def pic_send_data_def Let_def)

text \<open>the end of an interrupt is signalled to the primary controller for every line up
  to 16 and to the secondary one first for the lines from 8 on; a number above 16 sends
  nothing.\<close>

theorem interruptdone_eoi:
  "port_log (interruptdone n s) = port_log s @
     (if n < 8 then [(0x20, 0x20)] else if n \<le> 16 then [(0xA0, 0x20), (0x20, 0x20)] else [])"
  by (auto simp: interruptdone_def pic_send_command_def Let_def word_less_nat_alt word_le_nat_alt)

lemma pit_divisor:
  assumes "19 \<le> f" and "f < 65536"
  shows "unat (ucast ((1193181 :: u32) div ucast (ucast (of_nat f :: u32) :: u16)) :: u16) =
    1193181 div f"
proof -
  have f: "unat (take_bit 16 (of_nat f :: u32)) = f"
    using assms by (simp add: unsigned_take_bit_eq unsigned_of_nat take_bit_nat_eq_self)
  have "1193181 div f \<le> 1193181 div 19" using assms by (intro div_le_mono2) auto
  then have "1193181 div f < 65536" by simp
  then show ?thesis using f by (simp add: unsigned_ucast_eq unat_div take_bit_nat_eq_self)
qed

lemma u16_low: "(x :: u16) AND 0xff = take_bit 8 x"
  by (simp add: take_bit_eq_mask mask_numeral)

lemma u16_bytes:
  "unat (ucast (x AND 0xff) :: u8) + 256 * unat (ucast (drop_bit 8 x AND 0xff) :: u8) =
    unat (x :: u16)"
proof -
  have "unat (ucast (x AND 0xff) :: u8) = unat x mod 256"
    by (simp add: u16_low unsigned_ucast_eq unsigned_take_bit_eq take_bit_eq_mod unat_mod)
  moreover have "unat x div 256 < 256" using unat_u16 [of x] by simp
  then have "unat (ucast (drop_bit 8 x AND 0xff) :: u8) = unat x div 256"
    by (simp add: u16_low unsigned_ucast_eq drop_bit_eq_div take_bit_eq_mod unat_mod unat_div)
  ultimately show ?thesis by simp
qed

text \<open>for every frequency from 19 to 65535 \<^verbatim>\<open>pit_start_counter\<close> sends the control
  word and then the low and the high byte of the divisor \<open>1193181 div f\<close>, and restarts the tick
  count. The divisor always goes to the port of counter 0, whatever the counter asked for.\<close>

theorem pit_start_counter_divisor:
  assumes "19 \<le> f" and "f < 65536"
  shows "\<exists>ocw lo hi t' s'. pit_start_counter (of_nat f) counter mode (t, s) = Some (t', s') \<and>
    pit_ticks t' = 0 \<and>
    port_log s' = port_log s @ [(0x43, ocw), (0x40, lo), (0x40, hi)] \<and>
    unat lo + 256 * unat hi = 1193181 div f"
proof -
  have "unat (of_nat f :: u32) = f" "unat (ucast (of_nat f :: u32) :: u16) = f"
    using assms by (simp_all add: unsigned_of_nat unsigned_ucast_eq take_bit_nat_eq_self)
  then have nz: "(of_nat f :: u32) \<noteq> 0" "(ucast (of_nat f :: u32) :: u16) \<noteq> 0"
    using assms by (metis not_numeral_le_zero unat_0)+
  show ?thesis
    using nz u16_bytes pit_divisor [OF assms]
    by (simp add: pit_start_counter_def pit_send_command_def pit_send_data_def Let_def)
qed

lemma pit_start_counter_witness:
  "\<exists>ocw lo hi t' s'. pit_start_counter 100 0 6 (\<lparr>pit_ticks = 7, pit_bIsInit = True\<rparr>,
       \<lparr>port_log = [], port_in = (\<lambda>_. []), if_flag = False\<rparr>) = Some (t', s') \<and>
    pit_ticks t' = 0 \<and> port_log s' = [(0x43, ocw), (0x40, lo), (0x40, hi)] \<and>
    unat lo + 256 * unat hi = 11931"
  using pit_start_counter_divisor [of 100 0 6 "\<lparr>pit_ticks = 7, pit_bIsInit = True\<rparr>"
      "\<lparr>port_log = [], port_in = (\<lambda>_. []), if_flag = False\<rparr>"]
  by simp

end
