(* ===== verification/Interrupts.thy ===== *)
theory Interrupts
  imports Timer_Pic
begin

text \<open>
  The interrupt descriptor table (\<^verbatim>\<open>include/idt.h\<close>) and the vectors that
  \<^verbatim>\<open>include/hal.h\<close> installs. The addresses of the handlers are given by the linker: the model
  takes a function from handler names to addresses. The handlers themselves are the subject of
  the other theories.
\<close>

section \<open>The table\<close>

record IDT_entry =
  offset_lowerbits :: u16
  selector :: u16
  zero :: u8
  type_attr :: u8
  offset_higherbits :: u16

definition INTERRUPT_GATE :: u16 where "INTERRUPT_GATE = 0x8e"
definition IDT_DESC_RING3 :: u16 where "IDT_DESC_RING3 = 0x60"

text \<open>The guard lets number 256 through, which is past the table: no defined result.\<close>

definition install_ir ::
  "u32 \<Rightarrow> u16 \<Rightarrow> u16 \<Rightarrow> u64 \<Rightarrow> IDT_entry list \<Rightarrow> IDT_entry list option" where
  "install_ir i ta sel irq idt =
     (if 256 < i then Some idt
      else if irq = 0 then Some idt
      else if length idt \<le> unat i then None
      else
        let base = irq;
            e = idt ! unat i;
            e = e\<lparr>offset_lowerbits := ucast (base AND 0xffff)\<rparr>;
            e = e\<lparr>offset_higherbits := ucast (drop_bit 16 base AND 0xffff)\<rparr>;
            e = e\<lparr>zero := 0\<rparr>;
            e = e\<lparr>type_attr := ucast ta\<rparr>;
            e = e\<lparr>selector := sel\<rparr>
        in Some (idt[unat i := e]))"

definition setvect :: "u32 \<Rightarrow> u64 \<Rightarrow> IDT_entry list \<Rightarrow> IDT_entry list option" where
  "setvect intno vect idt = install_ir intno INTERRUPT_GATE 0x08 vect idt"

definition setvect_user :: "u32 \<Rightarrow> u64 \<Rightarrow> IDT_entry list \<Rightarrow> IDT_entry list option" where
  "setvect_user intno vect idt = install_ir intno (INTERRUPT_GATE OR IDT_DESC_RING3) 0x08 vect idt"

text \<open>
  \<^verbatim>\<open>memset\<close> clears \<open>sizeof(struct IDT_entry) * MAX_INTERRUPTS - 1\<close> bytes: everything but the last
  byte of the table, the high byte of the last offset.
\<close>

definition zero_entry :: IDT_entry where
  "zero_entry = \<lparr>offset_lowerbits = 0, selector = 0, zero = 0, type_attr = 0, offset_higherbits = 0\<rparr>"

definition idt_clear :: "IDT_entry list \<Rightarrow> IDT_entry list" where
  "idt_clear idt = (replicate 256 zero_entry)
     [255 := zero_entry\<lparr>offset_higherbits := offset_higherbits (idt ! 255) AND 0xff00\<rparr>]"

function idt_defaults :: "nat \<Rightarrow> u64 \<Rightarrow> IDT_entry list \<Rightarrow> IDT_entry list option" where
  "idt_defaults i dflt idt =
     (if i < 256 then do { idt' \<leftarrow> setvect (of_nat i) dflt idt; idt_defaults (Suc i) dflt idt' }
      else Some idt)"
  by pat_completeness auto
termination
  by (relation "measure (\<lambda>(i, d, t). 256 - i)") auto

declare idt_defaults.simps [simp del]

text \<open>The handlers that are installed by name.\<close>

datatype handler =
    Default_handler
  | Divide_by_zero_fault | Single_step_trap | Nmi_trap | Breakpoint_trap | Overflow_trap
  | Bounds_check_fault | Invalid_opcode_fault | No_device_fault | Double_fault_abort
  | Invalid_tss_fault | No_segment_fault | Stack_fault | General_protection_fault | Page_fault
  | Fpu_fault | Alignment_check_fault | Machine_check_abort | Simd_fpu_fault
  | Sys_interrupt_handler | Sys_pthread_handler | Sys_file_handler
  | Keyboard_handler | Pit_handler

record idt_state =
  IDT :: "IDT_entry list"
  idt_ptr :: "u32 list"

text \<open>\<open>idt_addr\<close> is the address of \<^verbatim>\<open>IDT\<close>, \<open>addr\<close> gives those of the handlers.\<close>

definition idt_init :: "u32 \<Rightarrow> (handler \<Rightarrow> u32) \<Rightarrow> idt_state \<Rightarrow> idt_state option" where
  "idt_init idt_addr addr s =
     do { idt \<leftarrow> idt_defaults 0 (ucast (addr Default_handler)) (idt_clear (IDT s));
          Some (s\<lparr>IDT := idt,
                  idt_ptr := [8 * 256 + push_bit 16 (idt_addr AND 0xffff), drop_bit 16 idt_addr]\<rparr>) }"

fun setvects ::
  "(u32 \<Rightarrow> u64 \<Rightarrow> IDT_entry list \<Rightarrow> IDT_entry list option) \<Rightarrow> (handler \<Rightarrow> u32) \<Rightarrow>
   (nat \<times> handler) list \<Rightarrow> IDT_entry list \<Rightarrow> IDT_entry list option" where
  "setvects setv addr [] idt = Some idt"
| "setvects setv addr ((n, h) # vs) idt =
     do { idt' \<leftarrow> setv (of_nat n) (ucast (addr h)) idt; setvects setv addr vs idt' }"

text \<open>The calls of \<^verbatim>\<open>setvect\<close> and \<^verbatim>\<open>setvect_user\<close> in \<^verbatim>\<open>hal_initialize\<close>, in order.\<close>

definition exception_vectors :: "(nat \<times> handler) list" where
  "exception_vectors =
     [(0, Divide_by_zero_fault), (1, Single_step_trap), (2, Nmi_trap), (3, Breakpoint_trap),
      (4, Overflow_trap), (5, Bounds_check_fault), (6, Invalid_opcode_fault), (7, No_device_fault),
      (8, Double_fault_abort), (10, Invalid_tss_fault), (11, No_segment_fault), (12, Stack_fault),
      (13, General_protection_fault), (14, Page_fault), (16, Fpu_fault),
      (17, Alignment_check_fault), (18, Machine_check_abort), (19, Simd_fpu_fault)]"

definition user_vectors :: "(nat \<times> handler) list" where
  "user_vectors =
     [(0x80, Sys_interrupt_handler), (0x81, Sys_pthread_handler), (0x82, Sys_file_handler)]"

definition kb_init :: "(handler \<Rightarrow> u32) \<Rightarrow> IDT_entry list \<Rightarrow> IDT_entry list option" where
  "kb_init addr idt = setvect 0x21 (ucast (addr Keyboard_handler)) idt"

definition pit_init ::
  "(handler \<Rightarrow> u32) \<Rightarrow> pit \<times> IDT_entry list \<Rightarrow> (pit \<times> IDT_entry list) option" where
  "pit_init addr = (\<lambda>(t, idt).
     do { idt' \<leftarrow> setvect 32 (ucast (addr Pit_handler)) idt;
          Some (t\<lparr>pit_bIsInit := True\<rparr>, idt') })"

section \<open>What the processor reads\<close>

definition gate_target :: "IDT_entry \<Rightarrow> u32" where
  "gate_target e = ucast (offset_lowerbits e) OR push_bit 16 (ucast (offset_higherbits e))"

definition gate_dpl :: "IDT_entry \<Rightarrow> nat" where
  "gate_dpl e = unat (drop_bit 5 (type_attr e) AND 3)"

definition gate_ok :: "IDT_entry \<Rightarrow> u32 \<Rightarrow> nat \<Rightarrow> bool" where
  "gate_ok e target dpl \<longleftrightarrow> gate_target e = target \<and> gate_dpl e = dpl \<and> selector e = 0x08 \<and>
     bit (type_attr e) 7 \<and> type_attr e AND 0x1f = 0x0e \<and> zero e = 0"

text \<open>The entry that an installation writes.\<close>

definition gate_entry :: "u16 \<Rightarrow> u64 \<Rightarrow> IDT_entry" where
  "gate_entry ta irq = \<lparr>offset_lowerbits = ucast (irq AND 0xffff), selector = 0x08, zero = 0,
     type_attr = ucast ta, offset_higherbits = ucast (drop_bit 16 irq AND 0xffff)\<rparr>"

lemma install_ir_Some:
  "unat i < length idt \<Longrightarrow> length idt = 256 \<Longrightarrow> irq \<noteq> 0 \<Longrightarrow>
    install_ir i ta 0x08 irq idt = Some (idt[unat i := gate_entry ta irq])"
  by (cases "idt ! unat i") (auto simp: install_ir_def gate_entry_def word_less_nat_alt Let_def)

lemma install_ir_null: "install_ir i ta sel 0 idt = Some idt"
  by (simp add: install_ir_def)

lemma unat_small: "n < 256 \<Longrightarrow> unat (of_nat n :: u32) = n"
  by (simp add: unsigned_of_nat take_bit_nat_eq_self)

lemma setvect_Some:
  "n < 256 \<Longrightarrow> length idt = 256 \<Longrightarrow> v \<noteq> 0 \<Longrightarrow>
    setvect (of_nat n) v idt = Some (idt[n := gate_entry 0x8e v])"
  "n < 256 \<Longrightarrow> length idt = 256 \<Longrightarrow> v \<noteq> 0 \<Longrightarrow>
    setvect_user (of_nat n) v idt = Some (idt[n := gate_entry 0xee v])"
  by (simp_all add: setvect_def setvect_user_def install_ir_Some unat_small INTERRUPT_GATE_def
      IDT_DESC_RING3_def)

lemma ucast_nz: "(a :: u32) \<noteq> 0 \<Longrightarrow> (ucast a :: u64) \<noteq> 0"
proof
  assume a: "a \<noteq> 0" and "(ucast a :: u64) = 0"
  then have "(ucast (ucast a :: u64) :: u32) = 0" by simp
  moreover have "(ucast (ucast a :: u64) :: u32) = a"
    by (rule ucast_up_ucast_id) (simp add: is_up_def source_size_def target_size_def word_size)
  ultimately show False using a by simp
qed

lemma gate_entry_ok:
  "gate_ok (gate_entry 0x8e (ucast a)) a 0" "gate_ok (gate_entry 0xee (ucast a)) a 3"
proof -
  have "gate_target (gate_entry k (ucast a)) = a" for k
  proof (rule bit_word_eqI)
    fix n
    assume "n < LENGTH(32)"
    then consider "n < 16" | "16 \<le> n" "n < 32" by fastforce
    then show "bit (gate_target (gate_entry k (ucast a))) n \<longleftrightarrow> bit a n"
      by cases (auto simp: gate_target_def gate_entry_def bit_simps mask_bits)
  qed
  note target = this
  show "gate_ok (gate_entry 0x8e (ucast a)) a 0" "gate_ok (gate_entry 0xee (ucast a)) a 3"
    unfolding gate_ok_def target by (simp_all add: gate_dpl_def gate_entry_def)
qed

lemma idt_defaults_spec:
  "i \<le> 256 \<Longrightarrow> length idt = 256 \<Longrightarrow> d \<noteq> 0 \<Longrightarrow>
    idt_defaults i d idt = Some (take i idt @ replicate (256 - i) (gate_entry 0x8e d))"
proof (induction "256 - i" arbitrary: i idt)
  case 0
  then show ?case by (subst idt_defaults.simps) simp
next
  case (Suc m)
  let ?t = "idt[i := gate_entry 0x8e d]"
  have i: "i < 256" using Suc.hyps(2) by simp
  have "idt_defaults i d idt = idt_defaults (Suc i) d ?t"
    using Suc.prems i by (subst idt_defaults.simps) (simp add: setvect_Some)
  also have "\<dots> = Some (take (Suc i) ?t @ replicate (256 - Suc i) (gate_entry 0x8e d))"
    using Suc.hyps(2) Suc.prems i by (intro Suc.hyps(1)) auto
  also have "take (Suc i) ?t = take i idt @ [gate_entry 0x8e d]"
    using Suc.prems i by (simp add: take_Suc_conv_app_nth)
  also have "(take i idt @ [gate_entry 0x8e d]) @ replicate (256 - Suc i) (gate_entry 0x8e d) =
      take i idt @ replicate (256 - i) (gate_entry 0x8e d)"
    using i by (simp add: Suc_diff_Suc [symmetric])
  finally show ?case .
qed

definition put_gates :: "u16 \<Rightarrow> (handler \<Rightarrow> u32) \<Rightarrow> (nat \<times> handler) list \<Rightarrow> IDT_entry list \<Rightarrow>
    IDT_entry list" where
  "put_gates k addr vs idt = foldl (\<lambda>t (n, h). t[n := gate_entry k (ucast (addr h))]) idt vs"

lemma length_put_gates [simp]: "length (put_gates k addr vs idt) = length idt"
  by (induction vs arbitrary: idt) (auto simp: put_gates_def)

lemma put_gates_two: "put_gates k addr [v, w] t = put_gates k addr [w] (put_gates k addr [v] t)"
  by (simp add: put_gates_def)

lemma setvects_put:
  assumes "\<forall>h. addr h \<noteq> 0"
  shows "length idt = 256 \<Longrightarrow> \<forall>(n, h) \<in> set vs. n < 256 \<Longrightarrow>
      setvects setvect addr vs idt = Some (put_gates 0x8e addr vs idt)"
    and "length idt = 256 \<Longrightarrow> \<forall>(n, h) \<in> set vs. n < 256 \<Longrightarrow>
      setvects setvect_user addr vs idt = Some (put_gates 0xee addr vs idt)"
  by (induction vs arbitrary: idt) (auto simp: put_gates_def setvect_Some ucast_nz assms)

lemma nth_put_gates:
  "distinct (map fst vs) \<Longrightarrow> v < length idt \<Longrightarrow>
    put_gates k addr vs idt ! v =
      (case map_of vs v of None \<Rightarrow> idt ! v | Some h \<Rightarrow> gate_entry k (ucast (addr h)))"
proof (induction vs arbitrary: idt)
  case (Cons p vs)
  obtain n h where p: "p = (n, h)" by (cases p)
  have "put_gates k addr (p # vs) idt ! v =
      put_gates k addr vs (idt[n := gate_entry k (ucast (addr h))]) ! v"
    by (simp add: put_gates_def p)
  also have "\<dots> = (case map_of vs v of
      None \<Rightarrow> (idt[n := gate_entry k (ucast (addr h))]) ! v | Some h \<Rightarrow> gate_entry k (ucast (addr h)))"
    using Cons by (intro Cons.IH) (auto simp: p)
  moreover have "map_of vs n = None"
    using Cons.prems by (simp add: p map_of_eq_None_iff)
  ultimately show ?case using Cons.prems
    by (auto simp: p nth_list_update split: option.splits)
qed (simp add: put_gates_def)

section \<open>Properties\<close>

text \<open>Which handler each interrupt number ends up with.\<close>

definition vector_handler :: "nat \<Rightarrow> handler" where
  "vector_handler v =
     (case map_of (exception_vectors @ user_vectors @ [(0x21, Keyboard_handler), (32, Pit_handler)]) v of
        Some h \<Rightarrow> h
      | None \<Rightarrow> Default_handler)"

definition final_idt :: "(handler \<Rightarrow> u32) \<Rightarrow> IDT_entry list" where
  "final_idt addr =
     put_gates 0x8e addr [(0x21, Keyboard_handler), (32, Pit_handler)]
       (put_gates 0xee addr user_vectors
         (put_gates 0x8e addr exception_vectors
           (replicate 256 (gate_entry 0x8e (ucast (addr Default_handler))))))"

text \<open>What each step of the initialisation makes of the table.\<close>

lemma idt_init_gates:
  assumes "\<forall>h. addr h \<noteq> 0"
  shows "idt_init ia addr s = Some (s\<lparr>IDT := replicate 256 (gate_entry 0x8e (ucast (addr Default_handler))),
      idt_ptr := [8 * 256 + push_bit 16 (ia AND 0xffff), drop_bit 16 ia]\<rparr>)"
  by (simp add: idt_init_def idt_defaults_spec idt_clear_def ucast_nz assms)

lemma vectors_gates:
  assumes "\<forall>h. addr h \<noteq> 0" "length t = 256"
  shows "setvects setvect addr exception_vectors t = Some (put_gates 0x8e addr exception_vectors t)"
    and "setvects setvect_user addr user_vectors t = Some (put_gates 0xee addr user_vectors t)"
  by (rule setvects_put [OF assms]; simp add: exception_vectors_def user_vectors_def)+

lemma device_gates:
  assumes "\<forall>h. addr h \<noteq> 0" "length t = 256"
  shows "kb_init addr t = Some (put_gates 0x8e addr [(0x21, Keyboard_handler)] t)"
    and "pit_init addr (p, t) = Some (p\<lparr>pit_bIsInit := True\<rparr>, put_gates 0x8e addr [(32, Pit_handler)] t)"
  using setvect_Some(1) [of 33 t "ucast (addr Keyboard_handler)"] setvect_Some(1) [of 32 t "ucast (addr Pit_handler)"] assms
  by (simp_all add: kb_init_def pit_init_def put_gates_def ucast_nz)

lemma counter_start:
  "\<exists>p' x'. pit_start_counter 100 0 6 (p, x) = Some (p', x') \<and>
    pit_bIsInit p' = pit_bIsInit p \<and> pit_ticks p' = 0 \<and> if_flag x' = if_flag x"
  by (simp add: pit_start_counter_def pit_send_command_def pit_send_data_def Let_def)

text \<open>What the processor finds in the table for each number.\<close>

lemma final_gates:
  assumes "v < 256"
  shows "gate_ok (final_idt addr ! v) (addr (vector_handler v)) (if v \<in> {0x80, 0x81, 0x82} then 3 else 0)"
proof -
  have d: "distinct (map fst exception_vectors)" "distinct (map fst user_vectors)"
    by (simp_all add: exception_vectors_def user_vectors_def)
  have "final_idt addr ! v =
      (case map_of [(0x21, Keyboard_handler), (32, Pit_handler)] v of
         Some h \<Rightarrow> gate_entry 0x8e (ucast (addr h))
       | None \<Rightarrow> (case map_of user_vectors v of
           Some h \<Rightarrow> gate_entry 0xee (ucast (addr h))
         | None \<Rightarrow> (case map_of exception_vectors v of
             Some h \<Rightarrow> gate_entry 0x8e (ucast (addr h))
           | None \<Rightarrow> gate_entry 0x8e (ucast (addr Default_handler)))))"
    using assms d by (simp add: final_idt_def nth_put_gates split: option.split)
  also have "gate_ok \<dots> (addr (vector_handler v)) (if v \<in> {0x80, 0x81, 0x82} then 3 else 0)"
    by (simp add: vector_handler_def exception_vectors_def user_vectors_def gate_entry_ok)
  finally show ?thesis .
qed

end
