(* ===== verification/Screen.thy ===== *)
theory Screen
  imports C_Strings Timer_Pic "HOL-Library.Signed_Division"
begin

text \<open>
  The text screen and the terminals: the output half of \<^verbatim>\<open>include/stdio.h\<close> and the functions of
  \<^verbatim>\<open>include/terminal.h\<close> that it rests on. A terminal is either shown, then its text is the video
  memory and its cursor the one of the display controller, or hidden, then both are fields of its
  structure; \<^verbatim>\<open>curr_terminal\<close> is the one shown and \<^verbatim>\<open>tmp_terminal\<close> the one written to.

  The display controller is modelled by the documentation in the source: an index register and the
  two cursor registers 14 (high byte) and 15 (low byte).

  The current directory of the shell (\<^verbatim>\<open>curr_path\<close> and \<^verbatim>\<open>curr_dir\<close> of
  \<^verbatim>\<open>include/fat12.h\<close>) is saved and restored with the terminal; its two variables are here.
\<close>

section \<open>State\<close>

record terminal =
  term_num :: int
  term_cursor :: int
  term_buf :: buf
  term_path :: buf
  term_dir :: int

record tty =
  video :: buf
  crtc_index :: u8
  crtc_high :: u8
  crtc_low :: u8
  terminal_list :: "terminal list"
  curr_terminal :: "nat option"
  tmp_terminal :: "nat option"
  ATTRIBUTE_VAL :: u32
  curr_path :: buf
  curr_dir :: int

text \<open>Following a terminal pointer, and writing through it.\<close>

definition term_of :: "nat option \<Rightarrow> tty \<Rightarrow> terminal option" where
  "term_of p t =
     do { i \<leftarrow> p;
          if i < length (terminal_list t) then Some (terminal_list t ! i) else None }"

definition set_term :: "nat option \<Rightarrow> (terminal \<Rightarrow> terminal) \<Rightarrow> tty \<Rightarrow> tty option" where
  "set_term p f t =
     do { i \<leftarrow> p;
          if i < length (terminal_list t)
          then Some (t\<lparr>terminal_list := (terminal_list t)[i := f (terminal_list t ! i)]\<rparr>)
          else None }"

section \<open>The display controller\<close>

definition crtc_out :: "u16 \<Rightarrow> u8 \<Rightarrow> tty \<Rightarrow> tty" where
  "crtc_out port d t =
     (if port = 0x3D4 then t\<lparr>crtc_index := d\<rparr>
      else if port = 0x3D5 \<and> crtc_index t = 14 then t\<lparr>crtc_high := d\<rparr>
      else if port = 0x3D5 \<and> crtc_index t = 15 then t\<lparr>crtc_low := d\<rparr>
      else t)"

definition crtc_in :: "tty \<Rightarrow> u8" where
  "crtc_in t = (if crtc_index t = 14 then crtc_high t else crtc_low t)"

section \<open>Cursor and text area\<close>

definition get_current_terminal :: "tty \<Rightarrow> int option" where
  "get_current_terminal t = do { c \<leftarrow> term_of (curr_terminal t) t; Some (term_num c) }"

definition set_tmp_terminal :: "int \<Rightarrow> tty \<Rightarrow> tty option" where
  "set_tmp_terminal i t =
     (if 0 \<le> i \<and> nat i < length (terminal_list t) then Some (t\<lparr>tmp_terminal := Some (nat i)\<rparr>)
      else None)"

definition set_at_first_term :: "tty \<Rightarrow> tty option" where
  "set_at_first_term t =
     do { let t = t\<lparr>curr_terminal := Some 0, tmp_terminal := Some 0\<rparr>;
          set_term (curr_terminal t) (\<lambda>c. c\<lparr>term_num := 0, term_cursor := 0\<rparr>) t }"

text \<open>The condition \<open>curr_terminal->num == tmp_terminal->num\<close>.\<close>

definition on_screen :: "tty \<Rightarrow> bool option" where
  "on_screen t =
     do { c \<leftarrow> term_of (curr_terminal t) t;
          u \<leftarrow> term_of (tmp_terminal t) t;
          Some (term_num c = term_num u) }"

datatype vid_addr = Video_address | Terminal_buf nat

definition get_terminal_buf_addr :: "tty \<Rightarrow> vid_addr option" where
  "get_terminal_buf_addr t =
     do { b \<leftarrow> on_screen t;
          i \<leftarrow> tmp_terminal t;
          Some (if b then Video_address else Terminal_buf i) }"

definition area :: "vid_addr \<Rightarrow> tty \<Rightarrow> buf option" where
  "area a t =
     (case a of Video_address \<Rightarrow> Some (video t)
      | Terminal_buf i \<Rightarrow> do { u \<leftarrow> term_of (Some i) t; Some (term_buf u) })"

definition set_area :: "vid_addr \<Rightarrow> buf \<Rightarrow> tty \<Rightarrow> tty option" where
  "set_area a b t =
     (case a of Video_address \<Rightarrow> Some (t\<lparr>video := b\<rparr>)
      | Terminal_buf i \<Rightarrow> set_term (Some i) (\<lambda>u. u\<lparr>term_buf := b\<rparr>) t)"

definition set_cursor :: "int \<Rightarrow> tty \<Rightarrow> tty option" where
  "set_cursor off t =
     do { b \<leftarrow> on_screen t;
          if b then
            do { let off = off sdiv 2;
                 let t = crtc_out 0x3D4 14 t;
                 let t = crtc_out 0x3D5 (word_of_int (drop_bit 8 off AND 0xff)) t;
                 let t = crtc_out 0x3D4 15 t;
                 Some (crtc_out 0x3D5 (word_of_int (off AND 0xff)) t) }
          else set_term (tmp_terminal t) (\<lambda>u. u\<lparr>term_cursor := off\<rparr>) t }"

definition get_cursor :: "tty \<Rightarrow> (int \<times> tty) option" where
  "get_cursor t =
     do { b \<leftarrow> on_screen t;
          if b then
            do { let t1 = crtc_out 0x3D4 14 t;
                 let off = push_bit 8 (uint (crtc_in t1));
                 let t2 = crtc_out 0x3D4 15 t1;
                 let off = off + uint (crtc_in t2);
                 Some (off * 2, t2) }
          else do { u \<leftarrow> term_of (tmp_terminal t) t; Some (term_cursor u, t) } }"

section \<open>Characters\<close>

fun memory_copy :: "nat \<Rightarrow> nat \<Rightarrow> nat \<Rightarrow> buf \<Rightarrow> buf option" where
  "memory_copy source dest 0 b = Some b"
| "memory_copy source dest (Suc n) b =
     do { c \<leftarrow> rd b source; b' \<leftarrow> wr b dest c; memory_copy (Suc source) (Suc dest) n b' }"

definition get_color :: "u32 \<Rightarrow> u32 \<Rightarrow> u32" where
  "get_color fg bg = fg OR push_bit 4 bg"

definition set_color :: "u32 \<Rightarrow> u32 \<Rightarrow> tty \<Rightarrow> tty" where
  "set_color fg bg t = t\<lparr>ATTRIBUTE_VAL := fg OR push_bit 4 bg\<rparr>"

definition get_screen_offset :: "int \<Rightarrow> int \<Rightarrow> int" where
  "get_screen_offset col row = (row * 80 + col) * 2"

function scroll_rows :: "nat \<Rightarrow> buf \<Rightarrow> buf option" where
  "scroll_rows i b =
     (if i < 25 then
        do { b' \<leftarrow> memory_copy (nat (get_screen_offset 0 (int i)))
                     (nat (get_screen_offset 0 (int i - 1))) (80 * 2) b;
             scroll_rows (Suc i) b' }
      else Some b)"
  by pat_completeness auto
termination
  by (relation "measure (\<lambda>(i, b). 25 - i)") auto

declare scroll_rows.simps [simp del]

function blank_line :: "nat \<Rightarrow> nat \<Rightarrow> buf \<Rightarrow> buf option" where
  "blank_line last_line i b =
     (if i < 80 * 2 then do { b' \<leftarrow> wr b (last_line + i) 0; blank_line last_line (Suc i) b' }
      else Some b)"
  by pat_completeness auto
termination
  by (relation "measure (\<lambda>(l, i, b). 160 - i)") auto

declare blank_line.simps [simp del]

definition handle_scrolling :: "int \<Rightarrow> tty \<Rightarrow> (int \<times> tty) option" where
  "handle_scrolling cursor_offset t =
     (if cursor_offset < 25 * 80 * 2 then Some (cursor_offset, t)
      else
        do { a \<leftarrow> get_terminal_buf_addr t;
             b \<leftarrow> area a t;
             b \<leftarrow> scroll_rows 1 b;
             b \<leftarrow> blank_line (nat (get_screen_offset 0 (25 - 1))) 0 b;
             t \<leftarrow> set_area a b t;
             Some (cursor_offset - 2 * 80, t) })"

text \<open>An index before the text area is outside of it.\<close>

definition wr_int :: "buf \<Rightarrow> int \<Rightarrow> u8 \<Rightarrow> buf option" where
  "wr_int b i v = (if i < 0 then None else wr b (nat i) v)"

definition poke :: "vid_addr \<Rightarrow> int \<Rightarrow> u8 \<Rightarrow> u8 \<Rightarrow> tty \<Rightarrow> tty option" where
  "poke a off c attr t =
     do { b \<leftarrow> area a t;
          b \<leftarrow> wr_int b off c;
          b \<leftarrow> wr_int b (off + 1) attr;
          set_area a b t }"

definition putchar :: "u8 \<Rightarrow> int \<Rightarrow> int \<Rightarrow> u8 \<Rightarrow> tty \<Rightarrow> tty option" where
  "putchar character col row attribute_byte t0 =
     do { vidmem \<leftarrow> get_terminal_buf_addr t0;
          let attribute_byte =
            (if attribute_byte = 0 then ucast (ATTRIBUTE_VAL t0) else attribute_byte);
          (off, t1) \<leftarrow> (if 0 \<le> col \<and> 0 \<le> row then Some (get_screen_offset col row, t0)
                       else get_cursor t0);
          (off, t2) \<leftarrow>
            (if character = 10 then Some (get_screen_offset 79 (off sdiv (2 * 80)), t1)
             else if character = 8 then
               do { t2 \<leftarrow> poke vidmem (off - 2) 32 attribute_byte t1; Some (off - 2 - 2, t2) }
             else do { t2 \<leftarrow> poke vidmem off character attribute_byte t1; Some (off, t2) });
          (off, t3) \<leftarrow> handle_scrolling (off + 2) t2;
          set_cursor off t3 }"

text \<open>The message is a string in an array \<open>b\<close> at index \<open>p\<close>, outside the text areas.\<close>

function print_loop :: "buf \<Rightarrow> nat \<Rightarrow> int \<Rightarrow> int \<Rightarrow> tty \<Rightarrow> tty option" where
  "print_loop b p col row t =
     do { c \<leftarrow> rd b p;
          if c \<noteq> 0 then
            do { t' \<leftarrow> putchar c col row (ucast (ATTRIBUTE_VAL t)) t; print_loop b (Suc p) col row t' }
          else Some t }"
  by pat_completeness auto
termination
  by (relation "measure (\<lambda>(b, p, c, r, t). length b - p)") (auto simp: buf_simps)

declare print_loop.simps [simp del]

definition print_at :: "buf \<Rightarrow> nat \<Rightarrow> int \<Rightarrow> int \<Rightarrow> tty \<Rightarrow> tty option" where
  "print_at b p col row t =
     do { t \<leftarrow> (if 0 \<le> col \<and> 0 \<le> row then set_cursor (get_screen_offset col row) t else Some t);
          print_loop b p col row t }"

definition print :: "buf \<Rightarrow> nat \<Rightarrow> tty \<Rightarrow> tty option" where
  "print b p t = print_at b p (-1) (-1) t"

definition print_char :: "u8 \<Rightarrow> tty \<Rightarrow> tty option" where
  "print_char c t = putchar c (-1) (-1) (ucast (ATTRIBUTE_VAL t)) t"

text \<open>\<^verbatim>\<open>itoa\<close> takes its number as unsigned. The local buffer is written before it is read.\<close>

definition print_int :: "u32 \<Rightarrow> u32 \<Rightarrow> tty \<Rightarrow> tty option" where
  "print_int x base t = do { str \<leftarrow> itoa x (replicate 1000 0) 0 base; print str 0 t }"

function clear_row :: "nat \<Rightarrow> nat \<Rightarrow> tty \<Rightarrow> tty option" where
  "clear_row row col t =
     (if col < 80 then
        do { t' \<leftarrow> putchar 32 (int col) (int row) (ucast (ATTRIBUTE_VAL t)) t;
             clear_row row (Suc col) t' }
      else Some t)"
  by pat_completeness auto
termination
  by (relation "measure (\<lambda>(r, c, t). 80 - c)") auto

declare clear_row.simps [simp del]

function clear_rows :: "nat \<Rightarrow> tty \<Rightarrow> tty option" where
  "clear_rows row t =
     (if row < 25 then do { t' \<leftarrow> clear_row row 0 t; clear_rows (Suc row) t' } else Some t)"
  by pat_completeness auto
termination
  by (relation "measure (\<lambda>(r, t). 25 - r)") auto

declare clear_rows.simps [simp del]

definition clear_screen :: "tty \<Rightarrow> tty option" where
  "clear_screen t = do { t \<leftarrow> clear_rows 0 t; set_cursor (get_screen_offset 0 0) t }"

section \<open>Messages\<close>

text \<open>A string literal: its characters and the NUL.\<close>

definition lit :: "string \<Rightarrow> buf" where
  "lit s = map of_char s @ [0]"

definition put_error :: "buf \<Rightarrow> nat \<Rightarrow> tty \<Rightarrow> tty option" where
  "put_error str p t =
     do { let t = set_color 4 0 t;
          t \<leftarrow> print (lit ''Error: '') 0 t;
          t \<leftarrow> print str p t;
          t \<leftarrow> print [10, 0] 0 t;
          Some (set_color 15 0 t) }"

definition put_exception :: "buf \<Rightarrow> nat \<Rightarrow> tty \<Rightarrow> tty option" where
  "put_exception str p t =
     do { let t = set_color 4 0 t;
          t \<leftarrow> print (lit ''Exception: '') 0 t;
          t \<leftarrow> print str p t;
          t \<leftarrow> print [10, 0] 0 t;
          Some (set_color 15 0 t) }"

definition put_info :: "buf \<Rightarrow> nat \<Rightarrow> tty \<Rightarrow> tty option" where
  "put_info str p t =
     do { let t = set_color 15 0 t;
          t \<leftarrow> print (lit ''[ '') 0 t;
          let t = set_color 2 0 t;
          t \<leftarrow> print (lit ''OK'') 0 t;
          let t = set_color 15 0 t;
          t \<leftarrow> print (lit '' ] '') 0 t;
          t \<leftarrow> print str p t;
          print [10, 0] 0 t }"

section \<open>Changing the terminal\<close>

definition set_curr_dir :: "int \<Rightarrow> tty \<Rightarrow> tty" where
  "set_curr_dir d t = t\<lparr>curr_dir := d\<rparr>"

definition get_curr_dir :: "tty \<Rightarrow> int" where
  "get_curr_dir t = curr_dir t"

definition set_curr_path :: "buf \<Rightarrow> tty \<Rightarrow> tty option" where
  "set_curr_path p t = do { b \<leftarrow> strcpy (curr_path t) 0 p 0; Some (t\<lparr>curr_path := b\<rparr>) }"

text \<open>The copy of the path, for the array \<open>p\<close> given.\<close>

definition get_curr_path :: "buf \<Rightarrow> tty \<Rightarrow> buf option" where
  "get_curr_path p t = strcpy p 0 (curr_path t) 0"

definition save_screen :: "tty \<Rightarrow> tty option" where
  "save_screen t =
     do { c \<leftarrow> term_of (curr_terminal t) t;
          b \<leftarrow> memcpy (term_buf c) 0 (video t) 0 (80 * 32 * 2);
          t \<leftarrow> set_term (curr_terminal t) (\<lambda>c. c\<lparr>term_buf := b\<rparr>) t;
          (off, t) \<leftarrow> get_cursor t;
          set_term (curr_terminal t) (\<lambda>c. c\<lparr>term_cursor := off\<rparr>) t }"

definition load_screen :: "tty \<Rightarrow> tty option" where
  "load_screen t =
     do { c \<leftarrow> term_of (curr_terminal t) t;
          v \<leftarrow> memcpy (video t) 0 (term_buf c) 0 (80 * 32 * 2);
          let t = t\<lparr>video := v\<rparr>;
          set_cursor (term_cursor c) t }"

text \<open>
  \<open>idle\<close> is the condition \<open>get_proc() == NULL\<close>. Interrupts are off between \<^verbatim>\<open>disable\<close> and
  \<^verbatim>\<open>enable\<close>, which the caller's flag records.
\<close>

definition change_terminal :: "nat \<Rightarrow> bool \<Rightarrow> tty \<Rightarrow> tty option" where
  "change_terminal new_ter idle t =
     do { t \<leftarrow> save_screen t;
          c \<leftarrow> term_of (curr_terminal t) t;
          p \<leftarrow> get_curr_path (term_path c) t;
          t \<leftarrow> set_term (curr_terminal t) (\<lambda>c. c\<lparr>term_path := p\<rparr>) t;
          t \<leftarrow> set_term (curr_terminal t) (\<lambda>c. c\<lparr>term_dir := get_curr_dir t\<rparr>) t;
          let t = (if idle then t\<lparr>curr_terminal := Some new_ter, tmp_terminal := Some new_ter\<rparr>
                   else t\<lparr>curr_terminal := Some new_ter\<rparr>);
          t \<leftarrow> clear_screen t;
          t \<leftarrow> load_screen t;
          c \<leftarrow> term_of (curr_terminal t) t;
          t \<leftarrow> set_curr_path (term_path c) t;
          Some (set_curr_dir (term_dir c) t) }"

section \<open>Scrolling\<close>

lemma memory_copy_put:
  "d + n \<le> s \<Longrightarrow> s + n \<le> length b \<Longrightarrow>
    memory_copy s d n b = Some (buf_put b d (take n (drop s b)))"
proof (induction n arbitrary: s d b)
  case (Suc n)
  then have "take (Suc n) (drop s b) = b ! s # take n (drop (Suc s) b)"
    by (simp add: Cons_nth_drop_Suc [symmetric])
  moreover have "drop (Suc s) (b[d := b ! s]) = drop (Suc s) b" using Suc.prems by simp
  ultimately show ?case using Suc by (simp add: buf_put_Cons)
qed simp

definition scrolled :: "buf \<Rightarrow> buf" where
  "scrolled b = drop 160 (take 4000 b) @ replicate 160 0 @ drop 4000 b"

lemma length_scrolled [simp]: "4000 \<le> length b \<Longrightarrow> length (scrolled b) = length b"
  by (simp add: scrolled_def)

lemma shift_rows:
  assumes "k + n = 3680" "4000 \<le> length b"
  shows "buf_put (buf_put b k (take 160 (drop (k + 160) b))) (k + 160)
      (take n (drop (k + 320) (buf_put b k (take 160 (drop (k + 160) b))))) =
    buf_put b k (take (n + 160) (drop (k + 160) b))"
  using assms
  by (intro nth_equalityI) (auto simp: nth_buf_put min_def ac_simps)

lemma scroll_rows_put:
  assumes "4000 \<le> length b"
  shows "1 \<le> i \<Longrightarrow> i \<le> 25 \<Longrightarrow>
    scroll_rows i b = Some (buf_put b ((i - 1) * 160) (take ((25 - i) * 160) (drop (i * 160) b)))"
  using assms
proof (induction "25 - i" arbitrary: i b)
  case 0
  then show ?case by (subst scroll_rows.simps) simp
next
  case (Suc m)
  then obtain j where i: "i = Suc j" "j < 24" by (cases i) auto
  let ?b = "buf_put b (j * 160) (take 160 (drop (i * 160) b))"
  have "nat (get_screen_offset 0 (int i)) = i * 160" "nat (get_screen_offset 0 (int i - 1)) = j * 160"
    by (simp_all add: get_screen_offset_def i)
  moreover have "memory_copy (i * 160) (j * 160) 160 b = Some ?b"
    using Suc.prems i by (intro memory_copy_put) auto
  ultimately have "scroll_rows i b = scroll_rows (Suc i) ?b"
    using i by (subst scroll_rows.simps) simp
  also have "\<dots> = Some (buf_put ?b (i * 160) (take ((24 - i) * 160) (drop (Suc i * 160) ?b)))"
    using Suc.hyps(1) [of "Suc i" ?b] Suc.hyps(2) Suc.prems i by simp
  also have "buf_put ?b (i * 160) (take ((24 - i) * 160) (drop (Suc i * 160) ?b)) =
      buf_put b ((i - 1) * 160) (take ((25 - i) * 160) (drop (i * 160) b))"
  proof -
    have "j * 160 + (23 - j) * 160 = (3680 :: nat)" using i by simp
    moreover have "(24 - j) * 160 = (23 - j) * 160 + (160 :: nat)" using i by simp
    ultimately show ?thesis
      using shift_rows [of "j * 160" "(23 - j) * 160" b] Suc.prems by (simp add: i ac_simps)
  qed
  finally show ?case .
qed

lemma blank_line_put:
  "i \<le> 160 \<Longrightarrow> l + 160 \<le> length b \<Longrightarrow>
    blank_line l i b = Some (buf_put b (l + i) (replicate (160 - i) 0))"
proof (induction "160 - i" arbitrary: i b)
  case 0
  then show ?case by (subst blank_line.simps) simp
next
  case (Suc m)
  then have i: "i < 160" by simp
  then have "blank_line l i b = blank_line l (Suc i) (b[l + i := 0])"
    using Suc.prems by (subst blank_line.simps) simp
  also have "\<dots> = Some (buf_put (b[l + i := 0]) (l + Suc i) (replicate (160 - Suc i) 0))"
    using Suc.hyps Suc.prems i by (intro Suc.hyps(1)) auto
  also have "buf_put (b[l + i := 0]) (l + Suc i) (replicate (160 - Suc i) 0) =
      buf_put b (l + i) (replicate (160 - i) 0)"
    using Suc.prems i by (intro nth_equalityI) (auto simp: nth_buf_put nth_list_update)
  finally show ?case .
qed

lemma scroll_area:
  assumes "4000 \<le> length b"
  shows "do { b \<leftarrow> scroll_rows 1 b; blank_line (nat (get_screen_offset 0 (25 - 1))) 0 b } =
    Some (scrolled b)"
proof -
  let ?b = "buf_put b 0 (take 3840 (drop 160 b))"
  have "scroll_rows 1 b = Some ?b"
    using scroll_rows_put [OF assms, of 1] by simp
  moreover have "nat (get_screen_offset 0 (25 - 1)) = 3840" by (simp add: get_screen_offset_def)
  moreover have "blank_line 3840 0 ?b = Some (buf_put ?b 3840 (replicate 160 0))"
    using assms by (subst blank_line_put) auto
  moreover have "buf_put ?b 3840 (replicate 160 0) = scrolled b"
    using assms
    by (intro nth_equalityI) (auto simp: nth_buf_put scrolled_def nth_append)
  ultimately show ?thesis by simp
qed


section \<open>The terminal that is written to\<close>

definition tty_ok :: "tty \<Rightarrow> bool" where
  "tty_ok t \<longleftrightarrow> 5120 \<le> length (video t) \<and> length (terminal_list t) = 4 \<and>
     (\<forall>i < 4. term_num (terminal_list t ! i) = int i \<and>
        length (term_buf (terminal_list t ! i)) = 5120 \<and> length (term_path (terminal_list t ! i)) = 50) \<and>
     (\<exists>c < 4. curr_terminal t = Some c) \<and> (\<exists>u < 4. tmp_terminal t = Some u)"

definition shown :: "tty \<Rightarrow> bool" where
  "shown t \<longleftrightarrow> curr_terminal t = tmp_terminal t"

definition hw_cursor :: "tty \<Rightarrow> int" where
  "hw_cursor t = (uint (crtc_high t) * 256 + uint (crtc_low t)) * 2"

text \<open>Text and cursor of the terminal written to; setting both.\<close>

definition view :: "tty \<Rightarrow> buf \<times> int" where
  "view t =
     (if shown t then (video t, hw_cursor t)
      else let u = terminal_list t ! the (tmp_terminal t) in (term_buf u, term_cursor u))"

definition set_view :: "buf \<times> int \<Rightarrow> tty \<Rightarrow> tty" where
  "set_view = (\<lambda>(b, off) t.
     (if shown t
      then t\<lparr>video := b, crtc_index := 15, crtc_high := word_of_int (off div 2 div 256),
             crtc_low := word_of_int (off div 2)\<rparr>
      else let i = the (tmp_terminal t)
           in t\<lparr>terminal_list := (terminal_list t)
                  [i := (terminal_list t ! i)\<lparr>term_buf := b, term_cursor := off\<rparr>]\<rparr>))"

definition view_ok :: "buf \<times> int \<Rightarrow> bool" where
  "view_ok = (\<lambda>(b, off). 5120 \<le> length b \<and> 0 \<le> off \<and> off < 4000 \<and> even off)"

text \<open>What one character does to text and cursor.\<close>

definition put_spec :: "u8 \<Rightarrow> u8 \<Rightarrow> buf \<times> int \<Rightarrow> buf \<times> int" where
  "put_spec c attr = (\<lambda>(b, off).
     let (b, off) =
       (if c = 10 then (b, (off div 160 + 1) * 160)
        else if c = 8 then (b[nat (off - 2) := 32, nat (off - 1) := attr], off - 2)
        else (b[nat off := c, nat (off + 1) := attr], off + 2))
     in if off < 4000 then (b, off) else (scrolled b, off - 160))"

lemma tty_okE:
  assumes "tty_ok t"
  obtains c u where "curr_terminal t = Some c" "tmp_terminal t = Some u" "c < 4" "u < 4"
    "length (terminal_list t) = 4" "5120 \<le> length (video t)"
    "\<And>i. i < 4 \<Longrightarrow> term_num (terminal_list t ! i) = int i"
    "\<And>i. i < 4 \<Longrightarrow> length (term_buf (terminal_list t ! i)) = 5120"
    "\<And>i. i < 4 \<Longrightarrow> length (term_path (terminal_list t ! i)) = 50"
  using assms unfolding tty_ok_def by blast

lemma on_screen_ok: "tty_ok t \<Longrightarrow> on_screen t = Some (shown t)"
  by (elim tty_okE) (simp add: on_screen_def term_of_def shown_def)

lemma low_byte_mod [simp]: "(word_of_int (n mod 256) :: u8) = word_of_int n"
  by (simp add: word_of_int_eq_iff take_bit_eq_mod)

lemma low_byte_and [simp]: "(word_of_int (n AND 0xff) :: u8) = word_of_int n"
proof -
  have "n AND mask 8 = n mod 256" by (simp add: take_bit_eq_mod flip: take_bit_eq_mask)
  then show ?thesis by (simp add: mask_numeral)
qed

lemma sdiv_pos: "0 \<le> a \<Longrightarrow> 0 < b \<Longrightarrow> a sdiv b = a div (b :: int)"
  by (cases "a = 0") (simp_all add: signed_divide_int_def)

lemma uint_byte: "0 \<le> n \<Longrightarrow> n < 256 \<Longrightarrow> uint (word_of_int n :: u8) = n"
  by (simp add: unsigned_of_int take_bit_int_eq_self)

lemma set_cursor_view:
  assumes "tty_ok t" and "0 \<le> off"
  shows "set_cursor off t = Some (set_view (fst (view t), off) t)"
proof (cases "shown t")
  case True
  then show ?thesis using assms
    by (simp add: set_cursor_def on_screen_ok crtc_out_def set_view_def view_def sdiv_pos drop_bit_eq_div
        Let_def)
next
  case False
  with assms show ?thesis
    by (elim tty_okE)
      (simp add: set_cursor_def on_screen_ok set_view_def view_def shown_def set_term_def
        on_screen_def term_of_def Let_def)
qed

lemma get_cursor_view:
  assumes "tty_ok t"
  shows "get_cursor t = Some (snd (view t), if shown t then t\<lparr>crtc_index := 15\<rparr> else t)"
proof (cases "shown t")
  case True
  then show ?thesis using assms
    by (simp add: get_cursor_def on_screen_ok crtc_out_def view_def hw_cursor_def crtc_in_def
        push_bit_eq_mult)
next
  case False
  with assms show ?thesis
    by (elim tty_okE) (simp add: get_cursor_def on_screen_def term_of_def view_def shown_def Let_def)
qed

lemma view_set_view:
  assumes "tty_ok t" and "0 \<le> off" "off < 131072" "even off"
  shows "view (set_view (b, off) t) = (b, off)"
proof (cases "shown t")
  case True
  have "uint (word_of_int (off div 2 div 256) :: u8) = off div 2 div 256"
      "uint (word_of_int (off div 2) :: u8) = off div 2 mod 256"
    using assms by (simp_all add: unsigned_of_int take_bit_eq_mod)
  moreover have "(off div 2 div 256 * 256 + off div 2 mod 256) * 2 = off"
    using assms(4) by (simp add: div_mult_mod_eq)
  ultimately show ?thesis using True
    by (simp add: view_def set_view_def shown_def hw_cursor_def)
next
  case False
  with assms(1) show ?thesis
    by (elim tty_okE) (auto simp: view_def set_view_def shown_def Let_def)
qed

lemma set_view_twice: "tty_ok t \<Longrightarrow> set_view v (set_view w t) = set_view v t"
  by (elim tty_okE; cases v; cases w) (auto simp: set_view_def shown_def Let_def)

lemma set_view_ok:
  "tty_ok t \<Longrightarrow> 5120 \<le> length b \<and> (shown t \<or> length b = 5120) \<Longrightarrow> tty_ok (set_view (b, off) t)"
  unfolding tty_ok_def set_view_def by (auto simp: Let_def nth_list_update)


text \<open>Accesses to the text area alone.\<close>

definition addr_of :: "tty \<Rightarrow> vid_addr" where
  "addr_of t = (if shown t then Video_address else Terminal_buf (the (tmp_terminal t)))"

definition text_upd :: "buf \<Rightarrow> tty \<Rightarrow> tty" where
  "text_upd b t =
     (if shown t then t\<lparr>video := b\<rparr>
      else let i = the (tmp_terminal t)
           in t\<lparr>terminal_list := (terminal_list t)[i := (terminal_list t ! i)\<lparr>term_buf := b\<rparr>]\<rparr>)"

definition index_15 :: "tty \<Rightarrow> tty" where
  "index_15 t = (if shown t then t\<lparr>crtc_index := 15\<rparr> else t)"

definition text_ok :: "tty \<Rightarrow> buf \<Rightarrow> bool" where
  "text_ok t b \<longleftrightarrow> length b = length (fst (view t))"

lemma text_addr: "tty_ok t \<Longrightarrow> get_terminal_buf_addr t = Some (addr_of t)"
  by (simp add: get_terminal_buf_addr_def on_screen_ok addr_of_def) (elim tty_okE, simp)

lemma text_area: "tty_ok t \<Longrightarrow> area (addr_of t) t = Some (fst (view t))"
  by (elim tty_okE) (auto simp: area_def addr_of_def view_def shown_def term_of_def Let_def)

lemma text_set_area: "tty_ok t \<Longrightarrow> set_area (addr_of t) b t = Some (text_upd b t)"
  by (elim tty_okE)
    (auto simp: set_area_def addr_of_def text_upd_def shown_def set_term_def term_of_def Let_def)

lemma text_upd_simps [simp]:
  "shown (text_upd b t) = shown t" "addr_of (text_upd b t) = addr_of t"
  "ATTRIBUTE_VAL (text_upd b t) = ATTRIBUTE_VAL t"
  "shown (index_15 t) = shown t" "addr_of (index_15 t) = addr_of t"
  "ATTRIBUTE_VAL (index_15 t) = ATTRIBUTE_VAL t"
  "fst (view (index_15 t)) = fst (view t)"
  by (auto simp: text_upd_def index_15_def shown_def addr_of_def view_def Let_def)

lemma text_upd_view: "tty_ok t \<Longrightarrow> fst (view (text_upd b t)) = b"
  by (elim tty_okE) (auto simp: text_upd_def view_def shown_def Let_def)

lemma text_upd_twice: "tty_ok t \<Longrightarrow> text_upd b (text_upd b' t) = text_upd b t"
  by (elim tty_okE) (auto simp: text_upd_def shown_def Let_def)

lemma set_view_text: "tty_ok t \<Longrightarrow> set_view v (text_upd b (index_15 t)) = set_view v t"
  by (cases v; elim tty_okE) (auto simp: text_upd_def set_view_def shown_def index_15_def Let_def)

lemma set_view_text_upd: "tty_ok t \<Longrightarrow> set_view v (text_upd b t) = set_view v t"
  by (cases v; elim tty_okE) (auto simp: text_upd_def set_view_def shown_def Let_def)

lemma set_view_index: "set_view v (index_15 t) = set_view v t"
  by (cases v) (auto simp: set_view_def shown_def index_15_def Let_def)

lemma index_15_ok [simp]: "tty_ok (index_15 t) = tty_ok t"
  by (simp add: index_15_def tty_ok_def)

lemma view_length: "tty_ok t \<Longrightarrow> 5120 \<le> length (fst (view t))"
  by (elim tty_okE) (auto simp: view_def Let_def)

lemma text_upd_ok: "tty_ok t \<Longrightarrow> length b = length (fst (view t)) \<Longrightarrow> tty_ok (text_upd b t)"
  unfolding tty_ok_def text_upd_def view_def by (auto simp: Let_def nth_list_update)

lemma wr_int_in: "0 \<le> i \<Longrightarrow> nat i < length b \<Longrightarrow> wr_int b i v = Some (b[nat i := v])"
  by (simp add: wr_int_def)

lemma poke_text:
  assumes "tty_ok t" and "0 \<le> off" "off < 4000"
  shows "poke (addr_of t) off c a t =
    Some (text_upd ((fst (view t))[nat off := c, nat (off + 1) := a]) t)"
  using assms view_length [OF assms(1)]
  by (simp add: poke_def text_area wr_int_in text_set_area)

lemma handle_scrolling_text:
  assumes "tty_ok t"
  shows "handle_scrolling off t =
    (if off < 4000 then Some (off, t)
     else Some (off - 160, text_upd (scrolled (fst (view t))) t))"
proof -
  let ?b = "fst (view t)"
  have "do { b \<leftarrow> scroll_rows 1 ?b;
             b \<leftarrow> blank_line (nat (get_screen_offset 0 (25 - 1))) 0 b;
             t \<leftarrow> set_area (addr_of t) b t;
             Some (off - 2 * 80, t) } =
      do { b \<leftarrow> do { b \<leftarrow> scroll_rows 1 ?b; blank_line (nat (get_screen_offset 0 (25 - 1))) 0 b };
           t \<leftarrow> set_area (addr_of t) b t;
           Some (off - 2 * 80, t) }"
    by (simp only: bind_assoc)
  also have "\<dots> = Some (off - 160, text_upd (scrolled ?b) t)"
    using view_length [OF assms] by (subst scroll_area) (auto simp: text_set_area assms)
  finally show ?thesis
    by (simp add: handle_scrolling_def text_addr text_area assms)
qed

text \<open>The end of \<^verbatim>\<open>putchar\<close>: scrolling and the new cursor.\<close>

lemma putchar_end:
  assumes u: "tty_ok u" and off: "0 \<le> off"
  shows "do { (off, t3) \<leftarrow> handle_scrolling off u; set_cursor off t3 } =
    Some (set_view (if off < 4000 then (fst (view u), off)
                    else (scrolled (fst (view u)), off - 160)) u)"
proof (cases "off < 4000")
  case True
  then show ?thesis using assms by (simp add: handle_scrolling_text set_cursor_view)
next
  case False
  let ?u = "text_upd (scrolled (fst (view u))) u"
  have ok: "tty_ok ?u" using u view_length [OF u] by (intro text_upd_ok) auto
  have "set_view v ?u = set_view v u" for v
    using u by (cases v; elim tty_okE) (auto simp: text_upd_def set_view_def shown_def Let_def)
  then show ?thesis
    using False ok u by (simp add: handle_scrolling_text set_cursor_view text_upd_view)
qed

lemma putchar_view:
  assumes ok: "tty_ok t" "view_ok (view t)" and bs: "c = 8 \<Longrightarrow> 2 \<le> snd (view t)"
    and neg: "col < 0 \<or> row < 0"
  shows "putchar c col row a t =
    Some (set_view (put_spec c (if a = 0 then ucast (ATTRIBUTE_VAL t) else a) (view t)) t)"
proof -
  obtain b off where v: "view t = (b, off)" by (cases "view t")
  have off: "0 \<le> off" "off < 4000" and len: "5120 \<le> length b"
    using ok v by (auto simp: view_ok_def)
  let ?t = "index_15 t"
  let ?a = "if a = 0 then ucast (ATTRIBUTE_VAL t) else a"
  have cur: "get_cursor t = Some (off, ?t)"
    using get_cursor_view [OF ok(1)] v by (simp add: index_15_def)
  have pokes: "poke (addr_of t) o' c' ?a ?t =
      Some (text_upd (b[nat o' := c', nat (o' + 1) := ?a]) ?t)" if "0 \<le> o'" "o' < 4000" for o' c'
    using poke_text [of ?t o' c' ?a] that ok(1) v by simp
  have fin: "do { (off, t3) \<leftarrow> handle_scrolling o' (text_upd b' ?t); set_cursor off t3 } =
      Some (set_view (if o' < 4000 then (b', o') else (scrolled b', o' - 160)) t)"
    if "0 \<le> o'" "length b' = length b" for o' b'
    using putchar_end [of "text_upd b' ?t" o'] that ok(1) v
    by (simp add: text_upd_ok text_upd_view set_view_text)
  have start: "putchar c col row a t =
      do { (off, t2) \<leftarrow>
             (if c = 10 then Some (get_screen_offset 79 (off sdiv (2 * 80)), ?t)
              else if c = 8 then
                do { t2 \<leftarrow> poke (addr_of t) (off - 2) 32 ?a ?t; Some (off - 2 - 2, t2) }
              else do { t2 \<leftarrow> poke (addr_of t) off c ?a ?t; Some (off, t2) });
           (off, t3) \<leftarrow> handle_scrolling (off + 2) t2;
           set_cursor off t3 }"
    using neg by (auto simp: putchar_def text_addr ok(1) cur Let_def)
  consider "c = 10" | "c = 8" | "c \<noteq> 10" "c \<noteq> 8" by blast
  then show ?thesis
  proof cases
    case 1
    have "fst (view ?t) = b" using v by simp
    then have "do { (off, t3) \<leftarrow> handle_scrolling o' ?t; set_cursor off t3 } =
      Some (set_view (if o' < 4000 then (b, o') else (scrolled b, o' - 160)) t)"
      if "0 \<le> o'" for o'
      using putchar_end [of ?t o'] ok(1) that by (simp add: set_view_index)
    from this [of "(off div 160 + 1) * 160"] show ?thesis
      unfolding start
      using 1 off by (simp add: v put_spec_def sdiv_pos get_screen_offset_def algebra_simps)
  next
    case 2
    then have "2 \<le> off" using bs v by simp
    then show ?thesis
      unfolding start using 2 off len pokes [of "off - 2" 32] fin [of "off - 2" "b[nat (off - 2) := 32, nat (off - 1) := ?a]"]
      by (simp add: v put_spec_def)
  next
    case 3
    then show ?thesis
      unfolding start using off len pokes [of off c] fin [of "off + 2" "b[nat off := c, nat (off + 1) := ?a]"]
      by (simp add: v put_spec_def)
  qed
qed


lemma putchar_at_view:
  assumes ok: "tty_ok t" and pos: "0 \<le> col" "col < 80" "0 \<le> row" "row < 25"
    and c: "c \<noteq> 8" "c \<noteq> 10"
  shows "putchar c col row a t =
    Some (set_view (put_spec c (if a = 0 then ucast (ATTRIBUTE_VAL t) else a)
      (fst (view t), (row * 80 + col) * 2)) t)"
proof -
  let ?a = "if a = 0 then ucast (ATTRIBUTE_VAL t) else a"
  let ?o = "(row * 80 + col) * 2"
  let ?b = "(fst (view t))[nat ?o := c, nat (?o + 1) := ?a]"
  have off: "0 \<le> ?o" "?o < 4000" using pos by auto
  have "do { (off, t3) \<leftarrow> handle_scrolling (?o + 2) (text_upd ?b t); set_cursor off t3 } =
      Some (set_view (if ?o + 2 < 4000 then (?b, ?o + 2) else (scrolled ?b, ?o + 2 - 160)) t)"
    using putchar_end [of "text_upd ?b t" "?o + 2"] ok off
    by (simp add: text_upd_ok text_upd_view set_view_text_upd)
  then show ?thesis
    using poke_text [OF ok off, of c ?a] pos c
    by (simp add: putchar_def text_addr ok Let_def get_screen_offset_def put_spec_def)
qed

lemma put_spec_ok:
  assumes "view_ok v" and "c = 8 \<Longrightarrow> 2 \<le> snd v"
  shows "view_ok (put_spec c a v)" "length (fst (put_spec c a v)) = length (fst v)"
proof -
  obtain b off where v: "v = (b, off)" by (cases v)
  have "(off div 160 + 1) * 160 \<le> 4000" using assms by (auto simp: view_ok_def v)
  moreover have "even ((off div 160 + 1) * 160)" by simp
  ultimately show "view_ok (put_spec c a v)" "length (fst (put_spec c a v)) = length (fst v)"
    using assms by (auto simp: view_ok_def put_spec_def v Let_def)
qed

lemma set_view_view_ok:
  assumes "tty_ok t" "view_ok w" "length (fst w) = length (fst (view t))"
  shows "tty_ok (set_view w t)" "view (set_view w t) = w"
    "shown (set_view w t) = shown t" "ATTRIBUTE_VAL (set_view w t) = ATTRIBUTE_VAL t"
proof -
  obtain b off where w: "w = (b, off)" by (cases w)
  have "length (fst (view t)) = 5120" if "\<not> shown t"
    using that assms(1) by (elim tty_okE) (simp add: view_def Let_def)
  then show "tty_ok (set_view w t)"
    using assms unfolding w by (intro set_view_ok) (auto simp: view_ok_def)
  show "view (set_view w t) = w"
    using assms unfolding w by (intro view_set_view) (auto simp: view_ok_def)
  show "shown (set_view w t) = shown t" "ATTRIBUTE_VAL (set_view w t) = ATTRIBUTE_VAL t"
    by (auto simp: set_view_def w shown_def Let_def)
qed

subsection \<open>Strings\<close>

definition no_bs :: "buf \<Rightarrow> bool" where "no_bs s \<longleftrightarrow> 8 \<notin> set s"

abbreviation put_all :: "u8 \<Rightarrow> buf \<Rightarrow> buf \<times> int \<Rightarrow> buf \<times> int" where
  "put_all a s v \<equiv> fold (\<lambda>c. put_spec c a) s v"

lemma put_all_ok:
  "view_ok v \<Longrightarrow> no_bs s \<Longrightarrow> view_ok (put_all a s v) \<and> length (fst (put_all a s v)) = length (fst v)"
proof (induction s arbitrary: v)
  case (Cons c s)
  then have "view_ok (put_spec c a v)" "length (fst (put_spec c a v)) = length (fst v)"
    by (auto simp: no_bs_def intro!: put_spec_ok)
  then show ?case using Cons.IH [of "put_spec c a v"] Cons.prems by (simp add: no_bs_def)
qed simp

lemma print_loop_view:
  "is_cstr b p s \<Longrightarrow> no_bs s \<Longrightarrow> tty_ok t \<Longrightarrow> view_ok (view t) \<Longrightarrow> col < 0 \<or> row < 0 \<Longrightarrow>
    print_loop b p col row t = Some (if s = [] then t
      else set_view (put_all (ucast (ATTRIBUTE_VAL t)) s (view t)) t)"
proof (induction s arbitrary: p t)
  case Nil
  then show ?case by (subst print_loop.simps) simp
next
  case (Cons c s)
  let ?a = "ucast (ATTRIBUTE_VAL t) :: u8"
  let ?w = "put_spec c ?a (view t)"
  let ?t = "set_view ?w t"
  have w: "view_ok ?w" "length (fst ?w) = length (fst (view t))"
    using Cons.prems by (auto simp: put_spec_ok no_bs_def)
  note f = set_view_view_ok [OF Cons.prems(3) w]
  have "print_loop b p col row t = print_loop b (Suc p) col row ?t"
    using Cons.prems putchar_view [of t c col row ?a]
    by (subst print_loop.simps) (simp add: no_bs_def)
  also have "\<dots> = Some (if s = [] then ?t
      else set_view (put_all (ucast (ATTRIBUTE_VAL ?t)) s (view ?t)) ?t)"
    using Cons.prems f w by (intro Cons.IH) (auto simp: no_bs_def)
  finally show ?case using f Cons.prems(3) by (simp add: set_view_twice)
qed

lemma print_view:
  assumes "is_cstr b p s" "no_bs s" "tty_ok t" "view_ok (view t)" "s \<noteq> []"
  shows "print b p t = Some (set_view (put_all (ucast (ATTRIBUTE_VAL t)) s (view t)) t)"
  using print_loop_view [OF assms(1-4), of "-1" "-1"] assms(5) by (simp add: print_def print_at_def)


subsection \<open>The blank screen\<close>

definition blanks :: "u8 \<Rightarrow> nat \<Rightarrow> buf" where
  "blanks a n = concat (replicate n [32, a])"

lemma length_blanks [simp]: "length (blanks a n) = 2 * n"
  by (induction n) (auto simp: blanks_def)

lemma blanks_Suc: "blanks a (Suc n) = 32 # a # blanks a n"
  by (simp add: blanks_def)

lemma blanks_add: "blanks a (m + n) = blanks a m @ blanks a n"
  by (simp add: blanks_def replicate_add)

text \<open>The text after \<^verbatim>\<open>clear_screen\<close>: the last character scrolls the screen by a line.\<close>

definition cleared :: "u8 \<Rightarrow> buf \<Rightarrow> buf" where
  "cleared a b = blanks a 1920 @ replicate 160 0 @ drop 4000 b"

abbreviation attr_of :: "tty \<Rightarrow> u8" where "attr_of t \<equiv> ucast (ATTRIBUTE_VAL t)"

lemma putchar_blank:
  assumes "tty_ok t" "row < 25" "col < 80" "(row, col) \<noteq> (24, 79)"
  shows "putchar 32 (int col) (int row) (attr_of t) t =
    Some (set_view (buf_put (fst (view t)) (row * 160 + col * 2) [32, attr_of t],
                    int (row * 160 + col * 2 + 2)) t)"
proof -
  have "row * 160 + col * 2 + 2 < 4000" using assms by (cases "row = 24") auto
  moreover have "nat ((int row * 80 + int col) * 2) = row * 160 + col * 2"
      "nat ((int row * 80 + int col) * 2 + 1) = row * 160 + col * 2 + 1"
    by auto
  ultimately show ?thesis
    using putchar_at_view [OF assms(1), of "int col" "int row" 32 "attr_of t"] assms
      view_length [OF assms(1)]
    by (simp add: put_spec_def buf_put_Cons buf_put_single) (simp add: algebra_simps)
qed

text \<open>A state shown by its text \<open>b\<close> and cursor \<open>off\<close>.\<close>

lemma set_view_facts:
  assumes "tty_ok t" "length b = length (fst (view t))" "0 \<le> off" "off < 131072" "even off"
  shows "tty_ok (set_view (b, off) t)" "view (set_view (b, off) t) = (b, off)"
    "ATTRIBUTE_VAL (set_view (b, off) t) = ATTRIBUTE_VAL t"
proof -
  have "length (fst (view t)) = 5120" if "\<not> shown t"
    using that assms(1) by (elim tty_okE) (simp add: view_def Let_def)
  then show "tty_ok (set_view (b, off) t)"
    using assms view_length [OF assms(1)] by (intro set_view_ok) auto
  show "view (set_view (b, off) t) = (b, off)" using assms by (intro view_set_view)
  show "ATTRIBUTE_VAL (set_view (b, off) t) = ATTRIBUTE_VAL t"
    by (auto simp: set_view_def Let_def)
qed

lemma clear_row_steps:
  assumes "row < 25"
  shows "tty_ok t \<Longrightarrow> col + m \<le> 80 \<Longrightarrow> row < 24 \<or> col + m < 80 \<Longrightarrow>
    clear_row row col t = clear_row row (col + m)
      (if m = 0 then t
       else set_view (buf_put (fst (view t)) (row * 160 + col * 2) (blanks (attr_of t) m),
                      int (row * 160 + (col + m) * 2)) t)"
proof (induction m arbitrary: col t)
  case (Suc m)
  let ?w = "(buf_put (fst (view t)) (row * 160 + col * 2) [32, attr_of t],
      int (row * 160 + col * 2 + 2))"
  let ?t = "set_view ?w t"
  have pos: "row * 160 + col * 2 + 2 \<le> 4000" using assms Suc.prems(2) by auto
  have f: "tty_ok ?t" "view ?t = ?w" "ATTRIBUTE_VAL ?t = ATTRIBUTE_VAL t"
    using pos view_length [OF Suc.prems(1)] Suc.prems(1) by (intro set_view_facts; simp)+
  have "putchar 32 (int col) (int row) (attr_of t) t = Some ?t"
    using Suc.prems assms by (intro putchar_blank) auto
  then have "clear_row row col t = clear_row row (Suc col) ?t"
    using Suc.prems by (subst clear_row.simps) simp
  also have "\<dots> = clear_row row (Suc col + m)
      (if m = 0 then ?t
       else set_view (buf_put (fst (view ?t)) (row * 160 + Suc col * 2) (blanks (attr_of ?t) m),
                      int (row * 160 + (Suc col + m) * 2)) ?t)"
    using Suc.prems f(1) by (intro Suc.IH) auto
  also have "(if m = 0 then ?t
       else set_view (buf_put (fst (view ?t)) (row * 160 + Suc col * 2) (blanks (attr_of ?t) m),
                      int (row * 160 + (Suc col + m) * 2)) ?t) =
      set_view (buf_put (fst (view t)) (row * 160 + col * 2) (blanks (attr_of t) (Suc m)),
                int (row * 160 + (col + Suc m) * 2)) t"
  proof -
    have "buf_put (fst (view t)) (row * 160 + col * 2) (blanks (attr_of t) (Suc m)) =
        buf_put (buf_put (fst (view t)) (row * 160 + col * 2) [32, attr_of t])
          (row * 160 + Suc col * 2) (blanks (attr_of t) m)"
      using Suc.prems assms view_length [OF Suc.prems(1)]
        buf_put_append [of "row * 160 + col * 2" "[32, attr_of t]" "blanks (attr_of t) m"
          "fst (view t)"]
      by (simp add: blanks_Suc add.commute)
    moreover have "m = 0 \<Longrightarrow> blanks (attr_of t) (Suc m) = [32, attr_of t]"
      by (simp add: blanks_def)
    ultimately show ?thesis
      using f Suc.prems(1) by (auto simp: set_view_twice algebra_simps)
  qed
  finally show ?case by simp
qed simp

lemma clear_row_full:
  assumes "row < 24" "tty_ok t"
  shows "clear_row row 0 t = Some (set_view
    (buf_put (fst (view t)) (row * 160) (blanks (attr_of t) 80), int (row * 160 + 160)) t)"
  using clear_row_steps [of row t 0 80] assms by (simp add: clear_row.simps [of _ 80])

lemma clear_row_last:
  assumes "tty_ok t"
  shows "clear_row 24 0 t = Some (set_view
    (scrolled (buf_put (fst (view t)) 3840 (blanks (attr_of t) 80)), 3840) t)"
proof -
  let ?w = "(buf_put (fst (view t)) 3840 (blanks (attr_of t) 79), 3998)"
  let ?t = "set_view ?w t"
  have f: "tty_ok ?t" "view ?t = ?w" "ATTRIBUTE_VAL ?t = ATTRIBUTE_VAL t"
    using view_length [OF assms] assms by (intro set_view_facts; simp)+
  have "clear_row 24 0 t = clear_row 24 79 ?t"
    using clear_row_steps [of 24 t 0 79] assms by simp
  also have "\<dots> = putchar 32 79 24 (attr_of t) ?t"
  proof -
    have last: "clear_row 24 (Suc 79) = Some" by (rule ext) (simp add: clear_row.simps)
    show ?thesis unfolding clear_row.simps [of 24 79] last using f(3) by simp
  qed
  also have "\<dots> = Some (set_view (scrolled ((fst ?w)[3998 := 32, 3999 := attr_of t]), 3840) ?t)"
  proof -
    have "(if attr_of t = 0 then attr_of ?t else attr_of t) = attr_of t"
      unfolding f(3) by simp
    then show ?thesis
      using putchar_at_view [OF f(1), of 79 24 32 "attr_of t"] f(2)
      by (simp add: put_spec_def cong: if_weak_cong split del: if_split)
  qed
  also have "(fst ?w)[3998 := 32, 3999 := attr_of t] =
      buf_put (fst (view t)) 3840 (blanks (attr_of t) 80)"
    using view_length [OF assms]
      buf_put_append [of 3840 "blanks (attr_of t) 79" "[32, attr_of t]" "fst (view t)"]
      blanks_add [of "attr_of t" 79 1] blanks_Suc [of "attr_of t" 0]
    by (simp add: buf_put_Cons buf_put_single blanks_def [of _ 0])
  finally show ?thesis by (simp add: set_view_twice assms)
qed


lemma clear_rows_steps:
  assumes "row + n = 24"
  shows "tty_ok t \<Longrightarrow> clear_rows row t = clear_rows 24
      (if n = 0 then t
       else set_view (buf_put (fst (view t)) (row * 160) (blanks (attr_of t) (n * 80)), 3840) t)"
  using assms
proof (induction n arbitrary: row t)
  case (Suc n)
  let ?w = "(buf_put (fst (view t)) (row * 160) (blanks (attr_of t) 80), int (row * 160 + 160))"
  let ?t = "set_view ?w t"
  have pos: "row * 160 + 160 \<le> 3840" using Suc.prems by simp
  have f: "tty_ok ?t" "view ?t = ?w" "ATTRIBUTE_VAL ?t = ATTRIBUTE_VAL t"
    using pos view_length [OF Suc.prems(1)] Suc.prems(1) by (intro set_view_facts; simp)+
  have "clear_rows row t = clear_rows (Suc row) ?t"
    using clear_row_full [of row t] Suc.prems by (subst clear_rows.simps) simp
  also have "\<dots> = clear_rows 24
      (if n = 0 then ?t
       else set_view (buf_put (fst (view ?t)) (Suc row * 160) (blanks (attr_of ?t) (n * 80)), 3840) ?t)"
    using Suc.prems f(1) by (intro Suc.IH) auto
  also have "(if n = 0 then ?t
       else set_view (buf_put (fst (view ?t)) (Suc row * 160) (blanks (attr_of ?t) (n * 80)), 3840) ?t) =
      set_view (buf_put (fst (view t)) (row * 160) (blanks (attr_of t) (Suc n * 80)), 3840) t"
  proof -
    have "row * 160 + 160 + n * 160 \<le> length (fst (view t))"
      using Suc.prems(2) view_length [OF Suc.prems(1)] by simp
    then have "buf_put (fst (view t)) (row * 160) (blanks (attr_of t) (Suc n * 80)) =
        buf_put (buf_put (fst (view t)) (row * 160) (blanks (attr_of t) 80))
          (Suc row * 160) (blanks (attr_of t) (n * 80))"
      using buf_put_append [of "row * 160" "blanks (attr_of t) 80" "blanks (attr_of t) (n * 80)"
          "fst (view t)"] blanks_add [of "attr_of t" 80 "n * 80"]
      by (simp add: add.commute)
    moreover have "n = 0 \<Longrightarrow> int (row * 160 + 160) = 3840" using Suc.prems(2) by simp
    ultimately show ?thesis
      using f Suc.prems(1) by (auto simp: set_view_twice)
  qed
  finally show ?case by simp
qed simp

lemma clear_screen_view:
  assumes "tty_ok t"
  shows "clear_screen t = Some (set_view (cleared (attr_of t) (fst (view t)), 0) t)"
proof -
  let ?b = "fst (view t)" and ?a = "attr_of t"
  let ?w = "(buf_put ?b 0 (blanks ?a 1920), 3840)"
  let ?t = "set_view ?w t"
  have len: "5120 \<le> length ?b" by (rule view_length [OF assms])
  have f: "tty_ok ?t" "view ?t = ?w" "ATTRIBUTE_VAL ?t = ATTRIBUTE_VAL t"
    using len assms by (intro set_view_facts; simp)+
  let ?c = "scrolled (buf_put (buf_put ?b 0 (blanks ?a 1920)) 3840 (blanks ?a 80))"
  let ?u = "set_view (?c, 3840) t"
  have g: "tty_ok ?u" "view ?u = (?c, 3840)"
    using len assms by (intro set_view_facts; simp)+
  have last: "clear_rows (Suc 24) = Some" by (rule ext) (simp add: clear_rows.simps)
  have "clear_rows 0 t = clear_rows 24 ?t"
    using clear_rows_steps [of 0 24 t] assms by simp
  also have "\<dots> = clear_row 24 0 ?t"
    unfolding clear_rows.simps [of 24] last by simp
  also have "\<dots> = Some ?u"
    using clear_row_last [OF f(1)] f by (simp add: set_view_twice assms)
  finally have "clear_screen t = Some (set_view (?c, 0) t)"
    using set_cursor_view [OF g(1), of 0] g(2)
    by (simp add: clear_screen_def get_screen_offset_def set_view_twice assms)
  moreover have "?c = cleared ?a ?b"
  proof -
    have "buf_put (buf_put ?b 0 (blanks ?a 1920)) 3840 (blanks ?a 80) = blanks ?a 2000 @ drop 4000 ?b"
      using len blanks_add [of ?a 1920 80] by (simp add: buf_put_def)
    moreover have "drop 160 (blanks ?a 2000) = blanks ?a 1920"
      using blanks_add [of ?a 80 1920] by simp
    ultimately show ?thesis by (simp add: scrolled_def cleared_def)
  qed
  ultimately show ?thesis by simp
qed


subsection \<open>Changing the terminal\<close>

text \<open>What is kept of the hidden terminals and of the path.\<close>

definition saved_ok :: "tty \<Rightarrow> bool" where
  "saved_ok t \<longleftrightarrow>
     (\<forall>i < 4. 0 \<le> term_cursor (terminal_list t ! i) \<and> term_cursor (terminal_list t ! i) < 4000 \<and>
        even (term_cursor (terminal_list t ! i)) \<and> (\<exists>s. is_cstr (term_path (terminal_list t ! i)) 0 s)) \<and>
     length (curr_path t) = 50 \<and> (\<exists>s. is_cstr (curr_path t) 0 s)"

lemma strcpy_50:
  assumes "length b = 50" "length src = 50" "is_cstr src 0 s"
  shows "\<exists>b'. strcpy b 0 src 0 = Some b' \<and> length b' = 50 \<and> is_cstr b' 0 s"
proof -
  have "length s < 50" using is_cstr_length [OF assms(3)] assms by simp
  moreover have "0 \<notin> set s" by (rule is_cstr_nonzero [OF assms(3)])
  ultimately show ?thesis
    using assms strcpy_cstr [OF assms(3), of 0 b] buf_put_cstr [of 0 s b] by simp
qed

lemma copy_screen:
  "length b = 5120 \<Longrightarrow> 5120 \<le> length v \<Longrightarrow> memcpy b 0 v 0 5120 = Some (take 5120 v)"
  "length b = 5120 \<Longrightarrow> 5120 \<le> length v \<Longrightarrow> memcpy v 0 b 0 5120 = Some (b @ drop 5120 v)"
  by (simp_all add: memcpy_put buf_put_def)

text \<open>The structure in which a shown terminal is saved.\<close>

definition saved_term :: "tty \<Rightarrow> buf \<Rightarrow> terminal \<Rightarrow> terminal" where
  "saved_term t p c = c\<lparr>term_buf := take 5120 (video t), term_cursor := snd (view t),
     term_path := p, term_dir := curr_dir t\<rparr>"

lemma save_all:
  assumes "tty_ok t" "curr_terminal t = Some c" "get_curr_path (term_path (terminal_list t ! c)) t = Some p"
  shows "do { t \<leftarrow> save_screen t;
          c \<leftarrow> term_of (curr_terminal t) t;
          p \<leftarrow> get_curr_path (term_path c) t;
          t \<leftarrow> set_term (curr_terminal t) (\<lambda>c. c\<lparr>term_path := p\<rparr>) t;
          set_term (curr_terminal t) (\<lambda>c. c\<lparr>term_dir := get_curr_dir t\<rparr>) t } =
    Some ((index_15 t)\<lparr>terminal_list :=
      (terminal_list t)[c := saved_term t p (terminal_list t ! c)]\<rparr>)"
proof -
  let ?L = "terminal_list t"
  let ?t = "t\<lparr>terminal_list := ?L[c := (?L ! c)\<lparr>term_buf := take 5120 (video t)\<rparr>]\<rparr>"
  have ok: "tty_ok ?t"
    using assms(1,2) by (elim tty_okE) (simp add: tty_ok_def nth_list_update)
  have v: "snd (view ?t) = snd (view t)" "shown ?t = shown t"
    using assms(1,2) by (auto elim!: tty_okE simp: view_def shown_def hw_cursor_def Let_def nth_list_update)
  have "get_cursor ?t = Some (snd (view t), (index_15 t)\<lparr>terminal_list :=
      ?L[c := (?L ! c)\<lparr>term_buf := take 5120 (video t)\<rparr>]\<rparr>)"
    using get_cursor_view [OF ok] v by (simp add: index_15_def)
  moreover have "curr_terminal (index_15 t) = Some c" "curr_path (index_15 t) = curr_path t"
    "curr_dir (index_15 t) = curr_dir t" "terminal_list (index_15 t) = ?L"
    using assms(2) by (simp_all add: index_15_def)
  ultimately show ?thesis using assms
    by (elim tty_okE) (simp add: save_screen_def term_of_def set_term_def copy_screen
        get_curr_path_def get_curr_dir_def saved_term_def)
qed


lemma view_shown: "shown t \<Longrightarrow> view t = (video t, hw_cursor t)"
  by (simp add: view_def)

lemma cwd_frame [simp]:
  "tty_ok (t\<lparr>curr_path := q, curr_dir := d\<rparr>) = tty_ok t"
  "view (t\<lparr>curr_path := q, curr_dir := d\<rparr>) = view t"
  by (simp_all add: tty_ok_def view_def shown_def hw_cursor_def)

lemma load_screen_view:
  assumes "tty_ok t" "curr_terminal t = Some n" "0 \<le> term_cursor (terminal_list t ! n)"
  shows "load_screen t = Some (set_view
     (if shown t then term_buf (terminal_list t ! n) @ drop 5120 (video t) else fst (view t),
      term_cursor (terminal_list t ! n))
     (t\<lparr>video := term_buf (terminal_list t ! n) @ drop 5120 (video t)\<rparr>))"
proof -
  let ?v = "term_buf (terminal_list t ! n) @ drop 5120 (video t)"
  let ?t = "t\<lparr>video := ?v\<rparr>"
  have ok: "tty_ok ?t" using assms(1,2) by (elim tty_okE) (simp add: tty_ok_def)
  have "fst (view ?t) = (if shown t then ?v else fst (view t))"
    by (simp add: view_def shown_def Let_def)
  then show ?thesis
    using assms set_cursor_view [OF ok assms(3)]
    by (elim tty_okE) (simp add: load_screen_def term_of_def copy_screen)
qed

lemma change_terminal_eq:
  assumes "tty_ok t" "saved_ok t" "curr_terminal t = Some c"
  shows "\<exists>p s. length p = 50 \<and> is_cstr p 0 s \<and> is_cstr (curr_path t) 0 s \<and>
    change_terminal n idle t =
      (let t = (index_15 t)\<lparr>terminal_list :=
             (terminal_list t)[c := saved_term t p (terminal_list t ! c)]\<rparr>;
           t = (if idle then t\<lparr>curr_terminal := Some n, tmp_terminal := Some n\<rparr>
                else t\<lparr>curr_terminal := Some n\<rparr>)
       in do { t \<leftarrow> clear_screen t;
               t \<leftarrow> load_screen t;
               c \<leftarrow> term_of (curr_terminal t) t;
               t \<leftarrow> set_curr_path (term_path c) t;
               Some (set_curr_dir (term_dir c) t) })"
proof -
  obtain s where s: "is_cstr (curr_path t) 0 s" "length (curr_path t) = 50"
    using assms(2) by (auto simp: saved_ok_def)
  have "length (term_path (terminal_list t ! c)) = 50"
    using assms(1,3) by (elim tty_okE) simp
  then obtain p where p: "get_curr_path (term_path (terminal_list t ! c)) t = Some p"
      "length p = 50" "is_cstr p 0 s"
    using strcpy_50 [of _ "curr_path t" s] s unfolding get_curr_path_def by metis
  have "change_terminal n idle t =
    do { t \<leftarrow> do { t \<leftarrow> save_screen t;
            c \<leftarrow> term_of (curr_terminal t) t;
            p \<leftarrow> get_curr_path (term_path c) t;
            t \<leftarrow> set_term (curr_terminal t) (\<lambda>c. c\<lparr>term_path := p\<rparr>) t;
            set_term (curr_terminal t) (\<lambda>c. c\<lparr>term_dir := get_curr_dir t\<rparr>) t };
         let t = (if idle then t\<lparr>curr_terminal := Some n, tmp_terminal := Some n\<rparr>
                  else t\<lparr>curr_terminal := Some n\<rparr>);
         t \<leftarrow> clear_screen t;
         t \<leftarrow> load_screen t;
         c \<leftarrow> term_of (curr_terminal t) t;
         t \<leftarrow> set_curr_path (term_path c) t;
         Some (set_curr_dir (term_dir c) t) }"
    unfolding change_terminal_def by (simp only: bind_assoc)
  then show ?thesis
    using save_all [OF assms(1,3) p(1)] p(2,3) s(1) by (auto simp: Let_def)
qed

text \<open>When no process runs, the new terminal takes the screen.\<close>

lemma change_terminal_idle:
  assumes "tty_ok t" "saved_ok t" "shown t" "view_ok (view t)" "curr_terminal t = Some c" "n < 4"
  shows "\<exists>t' p s. change_terminal n True t = Some t' \<and> length p = 50 \<and> is_cstr p 0 s \<and>
    is_cstr (curr_path t) 0 s \<and>
    terminal_list t' = (terminal_list t)[c := saved_term t p (terminal_list t ! c)] \<and>
    (let C = terminal_list t' ! n in
      view t' = (term_buf C @ drop 5120 (video t), term_cursor C) \<and> curr_dir t' = term_dir C \<and>
      length (curr_path t') = 50 \<and> (\<forall>s. is_cstr (term_path C) 0 s \<longrightarrow> is_cstr (curr_path t') 0 s)) \<and>
    curr_terminal t' = Some n \<and> tmp_terminal t' = Some n \<and> tty_ok t' \<and> saved_ok t'"
proof -
  obtain p s where p: "length p = 50" "is_cstr p 0 s" "is_cstr (curr_path t) 0 s"
    and eq: "change_terminal n True t =
      (let t = (index_15 t)\<lparr>terminal_list :=
             (terminal_list t)[c := saved_term t p (terminal_list t ! c)],
             curr_terminal := Some n, tmp_terminal := Some n\<rparr>
       in do { t \<leftarrow> clear_screen t;
               t \<leftarrow> load_screen t;
               c \<leftarrow> term_of (curr_terminal t) t;
               t \<leftarrow> set_curr_path (term_path c) t;
               Some (set_curr_dir (term_dir c) t) })"
    using change_terminal_eq [OF assms(1,2,5), of n True] by auto
  let ?L = "(terminal_list t)[c := saved_term t p (terminal_list t ! c)]"
  let ?C = "?L ! n"
  let ?t1 = "(index_15 t)\<lparr>terminal_list := ?L, curr_terminal := Some n, tmp_terminal := Some n\<rparr>"
  have c: "c < 4" "length (terminal_list t) = 4" "5120 \<le> length (video t)"
    using assms(1,5) by (auto elim: tty_okE)
  have L: "\<forall>i < 4. term_num (?L ! i) = int i \<and> length (term_buf (?L ! i)) = 5120 \<and>
      length (term_path (?L ! i)) = 50 \<and> 0 \<le> term_cursor (?L ! i) \<and> term_cursor (?L ! i) < 4000 \<and>
      even (term_cursor (?L ! i)) \<and> (\<exists>s. is_cstr (term_path (?L ! i)) 0 s)"
    using assms(1,2,4) p c by (auto elim!: tty_okE simp: saved_ok_def saved_term_def nth_list_update
        view_ok_def)
  have ok1: "tty_ok ?t1" using L c assms(6) by (simp add: tty_ok_def index_15_def)
  let ?t2 = "set_view (cleared (attr_of ?t1) (fst (view ?t1)), 0) ?t1"
  have v1: "shown ?t1" "fst (view ?t1) = video t" by (auto simp: shown_def view_def index_15_def)
  have ok2: "tty_ok ?t2"
    using ok1 v1 c by (intro set_view_facts) (auto simp: cleared_def)
  have t2: "terminal_list ?t2 = ?L" "curr_terminal ?t2 = Some n" "tmp_terminal ?t2 = Some n"
    "shown ?t2" "drop 5120 (video ?t2) = drop 5120 (video t)" "curr_path ?t2 = curr_path t"
    using v1 c by (auto simp: set_view_def shown_def cleared_def index_15_def)
  let ?v = "(term_buf ?C @ drop 5120 (video t), term_cursor ?C)"
  let ?t3 = "set_view ?v (?t2\<lparr>video := fst ?v\<rparr>)"
  have load: "load_screen ?t2 = Some ?t3"
    using load_screen_view [OF ok2 t2(2)] L assms(6) t2 by simp
  have t3: "terminal_list ?t3 = ?L" "curr_terminal ?t3 = Some n" "tmp_terminal ?t3 = Some n"
    "curr_path ?t3 = curr_path t"
    using t2 by (auto simp: set_view_def shown_def)
  have ok3': "tty_ok (?t2\<lparr>video := fst ?v\<rparr>)" using ok2 L assms(6) by (auto simp: tty_ok_def t2(1))
  have ok3: "tty_ok ?t3 \<and> view ?t3 = ?v"
  proof -
    have sh: "shown (?t2\<lparr>video := fst ?v\<rparr>)" using t2(2,3) by (simp add: shown_def)
    have "fst (view (?t2\<lparr>video := fst ?v\<rparr>)) = fst ?v" by (subst view_shown [OF sh]) simp
    moreover have "0 \<le> snd ?v" "snd ?v < 131072" "even (snd ?v)" using L assms(6) by auto
    ultimately show ?thesis using set_view_facts(1,2) [OF ok3', of "fst ?v" "snd ?v"] by simp
  qed
  obtain s' where s': "is_cstr (term_path ?C) 0 s'" using L assms(6) by blast
  obtain q where q: "strcpy (curr_path t) 0 (term_path ?C) 0 = Some q" "length q = 50" "is_cstr q 0 s'"
    using strcpy_50 [of "curr_path t" "term_path ?C" s'] s' L assms(2,6) by (auto simp: saved_ok_def)
  let ?t4 = "?t3\<lparr>curr_path := q, curr_dir := term_dir ?C\<rparr>"
  have "change_terminal n True t = Some ?t4"
    using eq load q(1) t3 clear_screen_view [OF ok1] c assms(6)
    by (simp add: Let_def term_of_def set_curr_path_def set_curr_dir_def)
  moreover have "\<forall>s. is_cstr (term_path ?C) 0 s \<longrightarrow> is_cstr q 0 s"
    using q(3) s' is_cstr_unique by blast
  moreover have "tty_ok ?t4" "view ?t4 = ?v" using ok3 by simp_all
  moreover have "saved_ok ?t4"
  proof -
    have "terminal_list ?t4 = ?L" using t3 by simp
    then show ?thesis using L q unfolding saved_ok_def by auto
  qed
  ultimately show ?thesis
    using p q(2) t3 by (intro exI [of _ ?t4] exI [of _ p] exI [of _ s]) (simp add: Let_def)
qed


subsection \<open>The console invariant\<close>

text \<open>All that the console functions keep: whichever terminal is written to next, the one shown or a
  hidden one, its text and cursor are good.\<close>

definition tty_inv :: "tty \<Rightarrow> bool" where
  "tty_inv t \<longleftrightarrow> tty_ok t \<and> saved_ok t \<and> hw_cursor t < 4000"

lemma hw_cursor_good: "0 \<le> hw_cursor t" "even (hw_cursor t)"
  by (simp_all add: hw_cursor_def)

lemma tty_inv_ok: "tty_inv t \<Longrightarrow> tty_ok t" "tty_inv t \<Longrightarrow> saved_ok t"
  by (simp_all add: tty_inv_def)

lemma tty_inv_view:
  assumes "tty_inv t"
  shows "view_ok (view t)"
proof (cases "shown t")
  case True
  then show ?thesis
    using assms hw_cursor_good [of t] view_length [of t] by (simp add: view_shown tty_inv_def view_ok_def)
next
  case False
  then show ?thesis using assms by (auto elim!: tty_okE simp: tty_inv_def view_def view_ok_def saved_ok_def Let_def)
qed

lemma tty_inv_frame [simp]:
  "tty_inv (index_15 t) = tty_inv t" "tty_inv (set_color a b t) = tty_inv t"
  "tty_inv (t\<lparr>ATTRIBUTE_VAL := v\<rparr>) = tty_inv t"
  by (simp_all add: tty_inv_def index_15_def set_color_def tty_ok_def saved_ok_def hw_cursor_def)

lemma tty_inv_terminals:
  "tty_inv t \<Longrightarrow> u < 4 \<Longrightarrow> tty_inv (t\<lparr>tmp_terminal := Some u\<rparr>)"
  "tty_inv t \<Longrightarrow> u < 4 \<Longrightarrow> tty_inv (t\<lparr>curr_terminal := Some u\<rparr>)"
  by (simp_all add: tty_inv_def tty_ok_def saved_ok_def hw_cursor_def)

lemma set_view_inv:
  assumes "tty_inv t" "view_ok w" "length (fst w) = length (fst (view t))"
  shows "tty_inv (set_view w t)"
proof -
  note f = set_view_view_ok [OF tty_inv_ok(1) [OF assms(1)] assms(2,3)]
  obtain b off where w: "w = (b, off)" by (cases w)
  have off: "0 \<le> off" "off < 4000" "even off" using assms(2) by (simp_all add: w view_ok_def)
  show ?thesis
  proof (cases "shown t")
    case True
    then have "view (set_view w t) = (video (set_view w t), hw_cursor (set_view w t))"
      using f(3) view_shown by blast
    then have "hw_cursor (set_view w t) = off" using f(2) w by simp
    moreover have "saved_ok (set_view w t)"
      using assms(1) True by (auto simp: tty_inv_def saved_ok_def set_view_def w)
    ultimately show ?thesis using f(1) off by (simp add: tty_inv_def)
  next
    case False
    obtain u where u: "u < 4" "tmp_terminal t = Some u" using assms(1) by (auto simp: tty_inv_def elim: tty_okE)
    have "saved_ok (set_view w t)"
      using assms(1) False u off
      by (auto simp: tty_inv_def saved_ok_def set_view_def w Let_def tty_ok_def nth_list_update)
    moreover have "hw_cursor (set_view w t) = hw_cursor t"
      using False by (simp add: set_view_def w hw_cursor_def Let_def)
    ultimately show ?thesis using f(1) assms(1) by (simp add: tty_inv_def)
  qed
qed

lemma print_inv:
  assumes "tty_inv t" "is_cstr b p s" "no_bs s" "s \<noteq> []"
  shows "\<exists>t'. print b p t = Some t' \<and> tty_inv t'"
  using print_view [OF assms(2,3) tty_inv_ok(1) [OF assms(1)] tty_inv_view [OF assms(1)] assms(4)]
    put_all_ok [OF tty_inv_view [OF assms(1)] assms(3), of "attr_of t"]
    set_view_inv [OF assms(1)] by auto

lemma change_terminal_inv:
  assumes "tty_inv t" "n < 4"
  shows "\<exists>t'. change_terminal n idle t = Some t' \<and> tty_inv t' \<and> curr_terminal t' = Some n"
proof -
  obtain c where c: "curr_terminal t = Some c" "c < 4" using assms(1) by (auto simp: tty_inv_def elim: tty_okE)
  note ok = tty_inv_ok [OF assms(1)]
  obtain p s where p: "length p = 50" "is_cstr p 0 s"
    and eq: "change_terminal n idle t =
      (let t = (index_15 t)\<lparr>terminal_list :=
             (terminal_list t)[c := saved_term t p (terminal_list t ! c)]\<rparr>;
           t = (if idle then t\<lparr>curr_terminal := Some n, tmp_terminal := Some n\<rparr>
                else t\<lparr>curr_terminal := Some n\<rparr>)
       in do { t \<leftarrow> clear_screen t;
               t \<leftarrow> load_screen t;
               c \<leftarrow> term_of (curr_terminal t) t;
               t \<leftarrow> set_curr_path (term_path c) t;
               Some (set_curr_dir (term_dir c) t) })"
    using change_terminal_eq [OF ok c(1), of n idle] by auto
  let ?t0 = "(index_15 t)\<lparr>terminal_list := (terminal_list t)[c := saved_term t p (terminal_list t ! c)]\<rparr>"
  have vw: "view_ok (view t)" by (rule tty_inv_view [OF assms(1)])
  have inv0: "tty_inv ?t0"
    using assms(1) p c vw unfolding tty_inv_def
    by (elim conjE tty_okE)
      (auto simp: tty_ok_def saved_ok_def saved_term_def index_15_def hw_cursor_def nth_list_update view_ok_def)
  let ?t1 = "if idle then ?t0\<lparr>curr_terminal := Some n, tmp_terminal := Some n\<rparr> else ?t0\<lparr>curr_terminal := Some n\<rparr>"
  have inv1: "tty_inv ?t1"
    using tty_inv_terminals(2) [OF inv0 assms(2)] tty_inv_terminals(1) [OF tty_inv_terminals(2) [OF inv0 assms(2)] assms(2)]
    by simp
  have c1: "curr_terminal ?t1 = Some n" by simp
  obtain t1 where t1: "t1 = ?t1" "tty_inv t1" "curr_terminal t1 = Some n" using inv1 c1 by blast
  let ?w = "(cleared (attr_of t1) (fst (view t1)), 0)"
  let ?t2 = "set_view ?w t1"
  have inv2: "tty_inv ?t2"
    using view_length [OF tty_inv_ok(1) [OF t1(2)]]
    by (intro set_view_inv [OF t1(2)]) (auto simp: view_ok_def cleared_def)
  obtain t2 where t2: "t2 = ?t2" "tty_inv t2" "curr_terminal t2 = Some n"
    using inv2 t1(3) by (auto simp: set_view_def Let_def)
  have clr: "clear_screen t1 = Some t2"
    using clear_screen_view [OF tty_inv_ok(1) [OF t1(2)]] t2(1) by simp
  let ?C = "terminal_list t2 ! n"
  have C: "length (term_buf ?C) = 5120" "0 \<le> term_cursor ?C" "term_cursor ?C < 4000" "even (term_cursor ?C)"
      "length (terminal_list t2) = 4" "5120 \<le> length (video t2)"
    using tty_inv_ok [OF t2(2)] assms(2) by (auto simp: saved_ok_def elim!: tty_okE)
  let ?v = "term_buf ?C @ drop 5120 (video t2)"
  let ?t3 = "set_view (if shown t2 then ?v else fst (view t2), term_cursor ?C) (t2\<lparr>video := ?v\<rparr>)"
  have inv3': "tty_inv (t2\<lparr>video := ?v\<rparr>)"
    using t2(2) C by (auto simp: tty_inv_def tty_ok_def saved_ok_def hw_cursor_def)
  have f3: "fst (view (t2\<lparr>video := ?v\<rparr>)) = (if shown t2 then ?v else fst (view t2))"
    by (simp add: view_def shown_def Let_def)
  have inv3: "tty_inv ?t3"
    using view_length [OF tty_inv_ok(1) [OF t2(2)]] C f3
    by (intro set_view_inv [OF inv3']) (auto simp: view_ok_def)
  obtain t3 where t3: "t3 = ?t3" "tty_inv t3" "curr_terminal t3 = Some n"
    using inv3 t2(3) by (auto simp: set_view_def Let_def)
  have load: "load_screen t2 = Some t3"
    using load_screen_view [OF tty_inv_ok(1) [OF t2(2)] t2(3) C(2)] t3(1) by simp
  let ?D = "terminal_list t3 ! n"
  obtain s' where D: "length (terminal_list t3) = 4" "length (term_path ?D) = 50" "is_cstr (term_path ?D) 0 s'"
      "length (curr_path t3) = 50"
    using tty_inv_ok [OF t3(2)] assms(2) by (auto simp: saved_ok_def elim!: tty_okE)
  obtain q where q: "strcpy (curr_path t3) 0 (term_path ?D) 0 = Some q" "length q = 50" "is_cstr q 0 s'"
    using strcpy_50 [OF D(4,2,3)] by blast
  have "change_terminal n idle t = Some (t3\<lparr>curr_path := q, curr_dir := term_dir ?D\<rparr>)"
    using eq clr load t3(3) D(1) q(1) assms(2) t1(1)
    by (simp add: Let_def term_of_def set_curr_path_def set_curr_dir_def)
  moreover have "tty_inv (t3\<lparr>curr_path := q, curr_dir := term_dir ?D\<rparr>)"
    using t3(2) q by (auto simp: tty_inv_def saved_ok_def hw_cursor_def)
  ultimately show ?thesis using t3(3) by simp
qed

text \<open>A console to try things on: four terminals, the first one shown.\<close>

definition demo_terminal :: "nat \<Rightarrow> terminal" where
  "demo_terminal i = \<lparr>term_num = int i, term_cursor = 0, term_buf = replicate 5120 0,
     term_path = 47 # replicate 49 0, term_dir = 19\<rparr>"

definition demo_tty :: tty where
  "demo_tty = \<lparr>video = replicate 5120 0, crtc_index = 0, crtc_high = 0, crtc_low = 0,
     terminal_list = [demo_terminal 0, demo_terminal 1, demo_terminal 2, demo_terminal 3],
     curr_terminal = Some 0, tmp_terminal = Some 0, ATTRIBUTE_VAL = 7,
     curr_path = 47 # replicate 49 0, curr_dir = 19\<rparr>"

lemma less_4: "(\<forall>i < (4 :: nat). P i) \<longleftrightarrow> P 0 \<and> P 1 \<and> P 2 \<and> P 3"
  by (auto simp: All_less_Suc eval_nat_numeral)

lemma demo_path: "is_cstr (47 # replicate 49 0) 0 [47]"
  by (simp add: rd_def)

lemma demo_ok: "tty_ok demo_tty" "saved_ok demo_tty" "shown demo_tty" "view_ok (view demo_tty)"
  using demo_path exI [of "is_cstr (47 # replicate 49 0) 0" "[47]"]
  by (simp_all add: tty_ok_def demo_tty_def demo_terminal_def less_4 saved_ok_def shown_def view_def
      view_ok_def hw_cursor_def)

lemma demo_inv: "tty_inv demo_tty"
  using demo_ok by (simp add: tty_inv_def hw_cursor_def demo_tty_def)

text \<open>C17: changing to another terminal and back, when no process runs, gives the same text on
  the screen (all of the 5120 bytes that a terminal keeps), the same cursor, the same directory and
  the same path, and leaves every other terminal as it was.\<close>

theorem change_terminal_back:
  assumes "tty_ok t" "saved_ok t" "shown t" "view_ok (view t)" "curr_terminal t = Some c" "n < 4"
    and "n \<noteq> c"
  shows "\<exists>t1 t2. change_terminal n True t = Some t1 \<and> change_terminal c True t1 = Some t2 \<and>
    take 5120 (video t2) = take 5120 (video t) \<and> snd (view t2) = snd (view t) \<and>
    curr_terminal t2 = Some c \<and> tmp_terminal t2 = Some c \<and> curr_dir t2 = curr_dir t \<and>
    (\<forall>s. is_cstr (curr_path t2) 0 s \<longleftrightarrow> is_cstr (curr_path t) 0 s) \<and>
    (\<forall>i < 4. i \<noteq> c \<and> i \<noteq> n \<longrightarrow> terminal_list t2 ! i = terminal_list t ! i)"
proof -
  obtain t1 p s where a: "change_terminal n True t = Some t1" "is_cstr p 0 s" "length p = 50"
      "is_cstr (curr_path t) 0 s"
      "terminal_list t1 = (terminal_list t)[c := saved_term t p (terminal_list t ! c)]"
      "view t1 = (term_buf (terminal_list t1 ! n) @ drop 5120 (video t),
         term_cursor (terminal_list t1 ! n))"
      "curr_terminal t1 = Some n" "tmp_terminal t1 = Some n" "tty_ok t1" "saved_ok t1"
    using change_terminal_idle [OF assms(1-6)] unfolding Let_def by blast
  have c: "c < 4" "length (terminal_list t) = 4" "5120 \<le> length (video t)"
    using assms(1,5) by (auto elim: tty_okE)
  have "view_ok (view t1)"
    using a(6,9,10) assms(6) view_length [OF a(9)] by (auto simp: view_ok_def saved_ok_def)
  moreover have "shown t1" using a(7,8) by (simp add: shown_def)
  ultimately obtain t2 p' s' where b: "change_terminal c True t1 = Some t2"
      "terminal_list t2 = (terminal_list t1)[n := saved_term t1 p' (terminal_list t1 ! n)]"
      "is_cstr p' 0 s'" "is_cstr (curr_path t1) 0 s'"
      "view t2 = (term_buf (terminal_list t2 ! c) @ drop 5120 (video t1),
         term_cursor (terminal_list t2 ! c))"
      "curr_dir t2 = term_dir (terminal_list t2 ! c)"
      "\<forall>s. is_cstr (term_path (terminal_list t2 ! c)) 0 s \<longrightarrow> is_cstr (curr_path t2) 0 s"
      "curr_terminal t2 = Some c" "tmp_terminal t2 = Some c"
    using change_terminal_idle [OF a(9,10) _ _ a(7), of c] c(1) unfolding Let_def by blast
  have t2c: "terminal_list t2 ! c = saved_term t p (terminal_list t ! c)"
    using b(2) a(5) c assms(7) by simp
  have "shown t2" using b(8,9) by (simp add: shown_def)
  then have "video t2 = take 5120 (video t) @ drop 5120 (video t1)"
    using b(5) t2c by (simp add: view_shown saved_term_def)
  moreover have "snd (view t2) = snd (view t)" "curr_dir t2 = curr_dir t"
    using b(5,6) t2c by (simp_all add: saved_term_def)
  moreover have "is_cstr (curr_path t2) 0 s" using b(7) t2c a(2) by (simp add: saved_term_def)
  then have "\<forall>r. is_cstr (curr_path t2) 0 r \<longleftrightarrow> is_cstr (curr_path t) 0 r"
    using a(4) is_cstr_unique by blast
  moreover have "\<forall>i < 4. i \<noteq> c \<and> i \<noteq> n \<longrightarrow> terminal_list t2 ! i = terminal_list t ! i"
    using b(2) a(5) by simp
  ultimately show ?thesis using a(1) b(1,8,9) c(3) by simp
qed


lemma change_terminal_back_witness:
  "\<exists>t1 t2. change_terminal 2 True demo_tty = Some t1 \<and> change_terminal 0 True t1 = Some t2 \<and>
     take 5120 (video t2) = take 5120 (video demo_tty)"
proof -
  have "curr_terminal demo_tty = Some 0" by (simp add: demo_tty_def)
  then show ?thesis using change_terminal_back [OF demo_ok, of 0 2] by auto
qed


lemma set_view_hidden:
  assumes "\<not> shown u" "tmp_terminal u = Some c"
  shows "terminal_list (set_view v u) = (terminal_list u)
      [c := (terminal_list u ! c)\<lparr>term_buf := fst v, term_cursor := snd v\<rparr>]"
    "curr_terminal (set_view v u) = curr_terminal u" "tmp_terminal (set_view v u) = tmp_terminal u"
    "video (set_view v u) = video u" "hw_cursor (set_view v u) = hw_cursor u"
    "curr_path (set_view v u) = curr_path u"
  using assms by (cases v; simp add: set_view_def hw_cursor_def Let_def)+

text \<open>changing the terminal while a process runs on the one shown does not keep that
  process's screen: the copy just saved is cleared again (the blanks of \<^verbatim>\<open>clear_screen\<close>) because
  \<^verbatim>\<open>tmp_terminal\<close> still is the old terminal, its cursor becomes that of the new terminal, and the
  cursor on the display does not move.\<close>

theorem change_terminal_running:
  assumes "tty_ok t" "saved_ok t" "shown t" "view_ok (view t)" "curr_terminal t = Some c" "n < 4"
    and "n \<noteq> c"
  shows "\<exists>t'. change_terminal n False t = Some t' \<and>
    term_buf (terminal_list t' ! c) = cleared (attr_of t) (take 5120 (video t)) \<and>
    term_cursor (terminal_list t' ! c) = term_cursor (terminal_list t ! n) \<and>
    take 5120 (video t') = term_buf (terminal_list t ! n) \<and> hw_cursor t' = hw_cursor t \<and>
    curr_terminal t' = Some n \<and> tmp_terminal t' = Some c"
proof -
  obtain p where p: "length p = 50"
    and eq: "change_terminal n False t =
      (let t = (index_15 t)\<lparr>terminal_list :=
             (terminal_list t)[c := saved_term t p (terminal_list t ! c)], curr_terminal := Some n\<rparr>
       in do { t \<leftarrow> clear_screen t;
               t \<leftarrow> load_screen t;
               c \<leftarrow> term_of (curr_terminal t) t;
               t \<leftarrow> set_curr_path (term_path c) t;
               Some (set_curr_dir (term_dir c) t) })"
    using change_terminal_eq [OF assms(1,2,5), of n False] by auto
  let ?L = "(terminal_list t)[c := saved_term t p (terminal_list t ! c)]"
  let ?C = "terminal_list t ! n"
  let ?t1 = "(index_15 t)\<lparr>terminal_list := ?L, curr_terminal := Some n\<rparr>"
  have c: "c < 4" "length (terminal_list t) = 4" "5120 \<le> length (video t)" "tmp_terminal t = Some c"
    using assms(1,3,5) by (auto elim: tty_okE simp: shown_def)
  have C: "length (term_buf ?C) = 5120" "length (term_path ?C) = 50" "0 \<le> term_cursor ?C"
      "term_cursor ?C < 4000" "even (term_cursor ?C)" "\<exists>s. is_cstr (term_path ?C) 0 s"
    using assms(1,2,6) by (auto elim!: tty_okE simp: saved_ok_def)
  have ok1: "tty_ok ?t1"
    using assms(1,6) c p
    by (auto elim!: tty_okE simp: tty_ok_def nth_list_update saved_term_def index_15_def)
  have sh1: "\<not> shown ?t1" using assms(7) c by (simp add: shown_def index_15_def)
  then have v1: "view ?t1 = (take 5120 (video t), snd (view t))"
    using c assms(7) by (simp add: view_def shown_def index_15_def saved_term_def Let_def)
  let ?t2 = "set_view (cleared (attr_of t) (take 5120 (video t)), 0) ?t1"
  have clear: "clear_screen ?t1 = Some ?t2"
    using clear_screen_view [OF ok1] v1 by (simp add: index_15_def)
  have f2: "tty_ok ?t2" "view ?t2 = (cleared (attr_of t) (take 5120 (video t)), 0)"
    using c v1 ok1 by (intro set_view_facts; simp add: cleared_def)+
  have t2: "\<not> shown ?t2" "curr_terminal ?t2 = Some n" "tmp_terminal ?t2 = Some c"
    "terminal_list ?t2 ! n = ?C" "video ?t2 = video t" "curr_path ?t2 = curr_path t"
    "hw_cursor ?t2 = hw_cursor t"
    using sh1 c assms(6,7)
    by (auto simp: set_view_def shown_def index_15_def Let_def hw_cursor_def)
  let ?t3 = "set_view (fst (view ?t2), term_cursor ?C)
      (?t2\<lparr>video := term_buf ?C @ drop 5120 (video t)\<rparr>)"
  have load: "load_screen ?t2 = Some ?t3"
    using load_screen_view [OF f2(1) t2(2)] C(3) t2 by simp
  have t3: "terminal_list ?t3 ! n = ?C" "curr_terminal ?t3 = Some n" "tmp_terminal ?t3 = Some c"
    "length (terminal_list ?t3) = 4" "video ?t3 = term_buf ?C @ drop 5120 (video t)"
    "curr_path ?t3 = curr_path t" "hw_cursor ?t3 = hw_cursor t"
    "term_buf (terminal_list ?t3 ! c) = cleared (attr_of t) (take 5120 (video t))"
    "term_cursor (terminal_list ?t3 ! c) = term_cursor ?C"
  proof -
    let ?u = "?t2\<lparr>video := term_buf ?C @ drop 5120 (video t)\<rparr>"
    have u: "\<not> shown ?u" "tmp_terminal ?u = Some c" using t2(1,3) by (simp_all add: shown_def)
    have "length (terminal_list ?t2) = 4" using f2(1) by (auto elim: tty_okE)
    then show "terminal_list ?t3 ! n = ?C" "curr_terminal ?t3 = Some n" "tmp_terminal ?t3 = Some c"
      "length (terminal_list ?t3) = 4" "video ?t3 = term_buf ?C @ drop 5120 (video t)"
      "curr_path ?t3 = curr_path t" "hw_cursor ?t3 = hw_cursor t"
      "term_buf (terminal_list ?t3 ! c) = cleared (attr_of t) (take 5120 (video t))"
      "term_cursor (terminal_list ?t3 ! c) = term_cursor ?C"
      using t2 c(1) assms(7) f2(2)
      by (simp_all only: set_view_hidden [OF u]) (simp_all add: hw_cursor_def)
  qed
  obtain s' where s': "is_cstr (term_path ?C) 0 s'" using C by blast
  obtain q where q: "strcpy (curr_path t) 0 (term_path ?C) 0 = Some q"
    using strcpy_50 [of "curr_path t" "term_path ?C" s'] s' C(2) assms(2) by (auto simp: saved_ok_def)
  have "change_terminal n False t = Some (?t3\<lparr>curr_path := q, curr_dir := term_dir ?C\<rparr>)"
    using eq clear load q t3 assms(6)
    by (simp add: Let_def term_of_def set_curr_path_def set_curr_dir_def)
  then show ?thesis using t3 C(1) by (simp add: hw_cursor_def)
qed


lemma change_terminal_running_witness:
  "\<exists>t'. change_terminal 1 False demo_tty = Some t' \<and>
    term_buf (terminal_list t' ! 0) = cleared 7 (replicate 5120 0)"
proof -
  have "curr_terminal demo_tty = Some 0" "attr_of demo_tty = 7"
    "take 5120 (video demo_tty) = replicate 5120 0"
    by (simp_all add: demo_tty_def)
  then show ?thesis using change_terminal_running [OF demo_ok, of 0 1] by auto
qed


subsection \<open>Text on the screen\<close>

text \<open>The cells of a text: each character and the attribute.\<close>

definition cells :: "u8 \<Rightarrow> buf \<Rightarrow> buf" where
  "cells a s = concat (map (\<lambda>c. [c, a]) s)"

lemma length_cells [simp]: "length (cells a s) = 2 * length s"
  by (induction s) (auto simp: cells_def)

lemma cells_Cons: "cells a (c # s) = c # a # cells a s"
  by (simp add: cells_def)

lemma put_all_cells:
  "length b \<ge> 4000 \<Longrightarrow> 8 \<notin> set s \<Longrightarrow> 10 \<notin> set s \<Longrightarrow> off + 2 * length s < 4000 \<Longrightarrow>
    put_all a s (b, int off) = (buf_put b off (cells a s), int (off + 2 * length s))"
proof (induction s arbitrary: b off)
  case Nil
  then show ?case by (simp add: cells_def)
next
  case (Cons c s)
  let ?b = "buf_put b off [c, a]"
  have "put_spec c a (b, int off) = (?b, int (off + 2))"
    using Cons.prems by (simp add: put_spec_def buf_put_Cons buf_put_single nat_add_distrib add.commute)
  then have "put_all a (c # s) (b, int off) =
      (buf_put ?b (off + 2) (cells a s), int (off + 2 + 2 * length s))"
    using Cons.IH [of ?b "off + 2"] Cons.prems by simp
  moreover have "buf_put ?b (off + 2) (cells a s) = buf_put b off (cells a (c # s))"
    using buf_put_append [of off "[c, a]" "cells a s" b] Cons.prems by (simp add: cells_Cons)
  ultimately show ?case by simp
qed

text \<open>\<^verbatim>\<open>print\<close> of a text without newline or backspace that ends before the last cell of
  the screen writes each character with the current attribute into the cells from the cursor on,
  changes no other byte of the text, and moves the cursor behind it. When the terminal written to
  is not the one shown, the video memory, the hardware cursor and all the other terminals stay.\<close>

theorem print_text:
  assumes "tty_ok t" "view_ok (view t)" "is_cstr b p s" "8 \<notin> set s" "10 \<notin> set s"
    and "snd (view t) + 2 * int (length s) < 4000"
  shows "\<exists>t'. print b p t = Some t' \<and> tty_ok t' \<and> view_ok (view t') \<and>
    fst (view t') = buf_put (fst (view t)) (nat (snd (view t))) (cells (attr_of t) s) \<and>
    snd (view t') = snd (view t) + 2 * int (length s) \<and>
    (\<not> shown t \<longrightarrow> video t' = video t \<and> hw_cursor t' = hw_cursor t \<and>
       (\<forall>i. tmp_terminal t \<noteq> Some i \<longrightarrow> terminal_list t' ! i = terminal_list t ! i))"
proof (cases "s = []")
  case True
  then show ?thesis
    using print_loop_view [OF assms(3) _ assms(1,2), of "-1" "-1"] assms
    by (simp add: no_bs_def print_def print_at_def cells_def)
next
  case False
  let ?w = "put_all (attr_of t) s (view t)"
  have nb: "no_bs s" using assms(4) by (simp add: no_bs_def)
  have w: "view_ok ?w" "length (fst ?w) = length (fst (view t))"
    using put_all_ok [OF assms(2) nb] by auto
  note f = set_view_view_ok [OF assms(1) w]
  have "0 \<le> snd (view t)" "5120 \<le> length (fst (view t))"
    using assms(2) by (auto simp: view_ok_def split: prod.splits)
  then have "?w = (buf_put (fst (view t)) (nat (snd (view t))) (cells (attr_of t) s),
      snd (view t) + 2 * int (length s))"
    using put_all_cells [of "fst (view t)" s "nat (snd (view t))" "attr_of t"] assms by simp
  moreover have "video (set_view ?w t) = video t \<and> hw_cursor (set_view ?w t) = hw_cursor t \<and>
      (\<forall>i. tmp_terminal t \<noteq> Some i \<longrightarrow> terminal_list (set_view ?w t) ! i = terminal_list t ! i)"
    if "\<not> shown t"
  proof -
    obtain u where u: "tmp_terminal t = Some u" using assms(1) by (elim tty_okE)
    show ?thesis using set_view_hidden [OF that u, of ?w] u by auto
  qed
  ultimately show ?thesis
    using print_view [OF assms(3) nb assms(1,2) False] f w by auto
qed

lemma print_text_witness:
  "\<exists>t'. print [104, 105, 0] 0 demo_tty = Some t' \<and> snd (view t') = 4"
proof -
  have "view demo_tty = (replicate 5120 0, 0)"
    by (simp add: view_def shown_def demo_tty_def hw_cursor_def)
  moreover have "is_cstr [104, 105, 0] 0 [104, 105]" by simp
  ultimately show ?thesis
    using print_text [OF demo_ok(1,4), of "[104, 105, 0]" 0 "[104, 105]"] by auto
qed

text \<open>\<^verbatim>\<open>clear_screen\<close> sets the cursor to the top left corner and fills the first 24 rows
  with blanks of the current attribute; the last row it leaves all zero (its last character
  scrolls the screen by one line), and bytes behind the 25 rows stay.\<close>

theorem clear_screen_text:
  assumes "tty_ok t"
  shows "\<exists>t'. clear_screen t = Some t' \<and> tty_ok t' \<and> snd (view t') = 0 \<and>
    fst (view t') = blanks (attr_of t) (24 * 80) @ replicate (2 * 80) 0 @ drop 4000 (fst (view t))"
proof -
  let ?w = "(cleared (attr_of t) (fst (view t)), 0)"
  have "tty_ok (set_view ?w t)" "view (set_view ?w t) = ?w"
    using view_length [OF assms] assms by (intro set_view_facts; simp add: cleared_def)+
  then show ?thesis by (simp add: clear_screen_view assms cleared_def)
qed

lemma clear_screen_text_witness:
  "\<exists>t'. clear_screen demo_tty = Some t' \<and> snd (view t') = 0"
  using clear_screen_text [OF demo_ok(1)] by auto


end
