(* ===== verification/Format.thy ===== *)
theory Format
  imports Screen
begin

text \<open>
  Formatted output and input: \<^verbatim>\<open>printf\<close>, \<^verbatim>\<open>sprintf\<close>, \<^verbatim>\<open>sscanf\<close>, \<^verbatim>\<open>scanf\<close>, \<^verbatim>\<open>read_int\<close> and
  \<^verbatim>\<open>getline\<close> of \<^verbatim>\<open>include/stdio.h\<close>. The loops of \<^verbatim>\<open>printf\<close> and \<^verbatim>\<open>sprintf\<close> are the same but
  for the calls that emit; they are one function here with these calls as arguments. Variable
  arguments are a list; reading an argument that is missing or of the other kind has no result.
\<close>

section \<open>Numbers in a text\<close>

function read_digits :: "buf \<Rightarrow> nat \<Rightarrow> u32 \<Rightarrow> nat \<Rightarrow> (u32 \<times> nat) option" where
  "read_digits b s ret cnt =
     do { c \<leftarrow> rd b s;
          if c \<noteq> 0 \<and> 48 \<le> c \<and> c \<le> 57
          then read_digits b (Suc s) (ret * 10 + (ucast c - 48)) (Suc cnt)
          else Some (ret, cnt) }"
  by pat_completeness auto
termination
  by (relation "measure (\<lambda>(b, s, r, c). length b - s)") (auto simp: buf_simps)

declare read_digits.simps [simp del]

text \<open>The result: the number stored through \<^verbatim>\<open>readNum\<close> and the count of characters.\<close>

definition read_int :: "buf \<Rightarrow> nat \<Rightarrow> (u32 \<times> nat) option" where
  "read_int b s =
     do { c \<leftarrow> rd b s;
          let (sign, s, cnt) = (if c = 45 then (-1, Suc s, Suc 0) else (1, s, 0));
          (ret, cnt) \<leftarrow> read_digits b s 0 cnt;
          Some (ret * sign, cnt) }"

section \<open>Formatted output\<close>

text \<open>An \<^verbatim>\<open>int\<close> (or a character passed as one), or a pointer to a string.\<close>

datatype arg = Arg_int u32 | Arg_str buf nat

fun va_int :: "arg list \<Rightarrow> (u32 \<times> arg list) option" where
  "va_int (Arg_int x # args) = Some (x, args)"
| "va_int args = None"

fun va_str :: "arg list \<Rightarrow> (buf \<times> nat \<times> arg list) option" where
  "va_str (Arg_str b p # args) = Some (b, p, args)"
| "va_str args = None"

text \<open>One conversion: \<open>k\<close> is the character after the optional digits.\<close>

definition convert ::
  "(u32 \<Rightarrow> u32 \<Rightarrow> 's \<Rightarrow> 's option) \<Rightarrow> (buf \<Rightarrow> nat \<Rightarrow> 's \<Rightarrow> 's option) \<Rightarrow> (u8 \<Rightarrow> 's \<Rightarrow> 's option) \<Rightarrow>
   u8 \<Rightarrow> arg list \<Rightarrow> 's \<Rightarrow> (arg list \<times> 's) option" where
  "convert put_int put_str put_chr k args s =
     (if k = 100 \<or> k = 105 then
        do { (x, args) \<leftarrow> va_int args; s \<leftarrow> put_int x 10 s; Some (args, s) }
      else if k = 120 \<or> k = 88 then
        do { (x, args) \<leftarrow> va_int args; s \<leftarrow> put_int x 16 s; Some (args, s) }
      else if k = 99 then
        do { (x, args) \<leftarrow> va_int args; s \<leftarrow> put_chr (ucast x) s; Some (args, s) }
      else if k = 115 then
        do { (b, p, args) \<leftarrow> va_str args; s \<leftarrow> put_str b p s; Some (args, s) }
      else if k = 37 then do { s \<leftarrow> put_chr 37 s; Some (args, s) }
      else Some (args, s))"

text \<open>The digits after a percent sign are skipped: \<^verbatim>\<open>digitLength\<close>.\<close>

definition digit_length :: "buf \<Rightarrow> nat \<Rightarrow> nat option" where
  "digit_length fmt i =
     do { c \<leftarrow> rd fmt i;
          if (48 \<le> c \<and> c \<le> 57) \<or> c = 45 then do { (n, cnt) \<leftarrow> read_int fmt i; Some cnt } else Some 0 }"

function format_loop ::
  "(u32 \<Rightarrow> u32 \<Rightarrow> 's \<Rightarrow> 's option) \<Rightarrow> (buf \<Rightarrow> nat \<Rightarrow> 's \<Rightarrow> 's option) \<Rightarrow> (u8 \<Rightarrow> 's \<Rightarrow> 's option) \<Rightarrow>
   buf \<Rightarrow> nat \<Rightarrow> arg list \<Rightarrow> 's \<Rightarrow> 's option" where
  "format_loop put_int put_str put_chr fmt i args s =
     do { c \<leftarrow> rd fmt i;
          if c = 0 then Some s
          else if c = 37 then
            do { digitLength \<leftarrow> digit_length fmt (i + 1);
                 k \<leftarrow> rd fmt (i + digitLength + 1);
                 (args, s) \<leftarrow> convert put_int put_str put_chr k args s;
                 format_loop put_int put_str put_chr fmt (i + 1 + digitLength + 1) args s }
          else if c = 10 \<or> c = 13 then
            do { s \<leftarrow> put_chr 10 s; format_loop put_int put_str put_chr fmt (i + 1) args s }
          else
            do { s \<leftarrow> put_chr c s; format_loop put_int put_str put_chr fmt (i + 1) args s } }"
  by pat_completeness auto
termination
  by (relation "measure (\<lambda>(pi, ps, pc, fmt, i, a, s). length fmt - i)") (auto simp: buf_simps)

declare format_loop.simps [simp del]

text \<open>Both functions first count the percent signs, which reads the format up to its end.\<close>

definition printf :: "buf \<Rightarrow> nat \<Rightarrow> arg list \<Rightarrow> tty \<Rightarrow> tty option" where
  "printf fmt p args t =
     do { narg \<leftarrow> strlen fmt p;
          format_loop print_int print print_char fmt p args t }"

text \<open>Appending to the text in a buffer at index \<open>d\<close>, by \<^verbatim>\<open>strcat\<close>.\<close>

definition cat_int :: "nat \<Rightarrow> u32 \<Rightarrow> u32 \<Rightarrow> buf \<Rightarrow> buf option" where
  "cat_int d x base b = do { str \<leftarrow> itoa x (replicate 1000 0) 0 base; strcat b d str 0 }"

definition cat_chr :: "nat \<Rightarrow> u8 \<Rightarrow> buf \<Rightarrow> buf option" where
  "cat_chr d c b = strcat b d [c, 0] 0"

text \<open>\<^verbatim>\<open>sizeof(buf)\<close> is the size of a pointer: four bytes are cleared.\<close>

definition sprintf :: "buf \<Rightarrow> nat \<Rightarrow> buf \<Rightarrow> nat \<Rightarrow> arg list \<Rightarrow> buf option" where
  "sprintf b d fmt p args =
     do { narg \<leftarrow> strlen fmt p;
          b \<leftarrow> memset b d 0 4;
          format_loop (cat_int d) (\<lambda>str q b. strcat b d str q) (cat_chr d) fmt p args b }"

section \<open>Formatted input\<close>

text \<open>Where a conversion of \<^verbatim>\<open>sscanf\<close> stores: a character, an integer, an array.\<close>

datatype dest = Dest_char u8 | Dest_int u32 | Dest_str buf

text \<open>Copies up to a space or the end; the result is the array, the index in it and the one in \<open>s\<close>.\<close>

function scan_word :: "buf \<Rightarrow> nat \<Rightarrow> buf \<Rightarrow> nat \<Rightarrow> (buf \<times> nat \<times> nat) option" where
  "scan_word s s_i d pstr =
     do { c \<leftarrow> rd s s_i;
          if c \<noteq> 0 \<and> \<not> isspace c then
            do { d \<leftarrow> wr d pstr c; scan_word s (Suc s_i) d (Suc pstr) }
          else Some (d, pstr, s_i) }"
  by pat_completeness auto
termination
  by (relation "measure (\<lambda>(s, i, d, p). length s - i)") (auto simp: buf_simps)

declare scan_word.simps [simp del]

function skip_spaces :: "buf \<Rightarrow> nat \<Rightarrow> nat option" where
  "skip_spaces s s_i =
     do { c \<leftarrow> rd s s_i; if isspace c then skip_spaces s (Suc s_i) else Some s_i }"
  by pat_completeness auto
termination
  by (relation "measure (\<lambda>(s, i). length s - i)") (auto simp: buf_simps)

declare skip_spaces.simps [simp del]

text \<open>One conversion. The variable \<^verbatim>\<open>offset\<close> has no value (\<open>None\<close>) before the first one.\<close>

definition scan_conv ::
  "buf \<Rightarrow> nat \<Rightarrow> u8 \<Rightarrow> nat option \<Rightarrow> dest list \<Rightarrow> dest list \<Rightarrow>
   (nat \<times> nat option \<times> dest list \<times> dest list) option" where
  "scan_conv s s_i k offset done todo =
     (if k = 99 then
        (case todo of
           Dest_char x # todo \<Rightarrow>
             do { c \<leftarrow> rd s s_i; Some (s_i, Some 1, done @ [Dest_char c], todo) }
         | _ \<Rightarrow> None)
      else if k = 100 then
        (case todo of
           Dest_int x # todo \<Rightarrow>
             do { (n, cnt) \<leftarrow> read_int s s_i; Some (s_i, Some cnt, done @ [Dest_int n], todo) }
         | _ \<Rightarrow> None)
      else if k = 115 then
        (case todo of
           Dest_str d # todo \<Rightarrow>
             do { (d, pstr, s_i) \<leftarrow> scan_word s s_i d 0;
                  d \<leftarrow> wr d pstr 0;
                  Some (s_i, Some 0, done @ [Dest_str d], todo) }
         | _ \<Rightarrow> None)
      else Some (s_i, offset, done, todo))"

function scan_loop ::
  "buf \<Rightarrow> nat \<Rightarrow> buf \<Rightarrow> nat \<Rightarrow> nat option \<Rightarrow> dest list \<Rightarrow> dest list \<Rightarrow> dest list option" where
  "scan_loop s s_i fmt i offset done todo =
     do { c \<leftarrow> rd fmt i;
          if c = 0 then Some (done @ todo)
          else if c = 37 then
            do { k \<leftarrow> rd fmt (i + 1);
                 (s_i, offset, done, todo) \<leftarrow> scan_conv s s_i k offset done todo;
                 n \<leftarrow> offset;
                 scan_loop s (s_i + n) fmt (i + 1 + 1) offset done todo }
          else if c = 32 then
            do { s_i \<leftarrow> skip_spaces s s_i; scan_loop s s_i fmt (i + 1) offset done todo }
          else
            do { x \<leftarrow> rd s s_i;
                 scan_loop s (if c = x then Suc s_i else s_i) fmt (i + 1) offset done todo } }"
  by pat_completeness auto
termination
  by (relation "measure (\<lambda>(s, s_i, fmt, i, o', d, t). length fmt - i)") (auto simp: buf_simps)

declare scan_loop.simps [simp del]

definition sscanf :: "buf \<Rightarrow> nat \<Rightarrow> buf \<Rightarrow> nat \<Rightarrow> dest list \<Rightarrow> dest list option" where
  "sscanf s p fmt q dests = do { narg \<leftarrow> strlen fmt q; scan_loop s p fmt q None [] dests }"

section \<open>Lines from the keyboard\<close>

text \<open>
  The characters that the calls of \<^verbatim>\<open>getchar\<close> return are a list; when it is used up the reader
  waits for ever.
\<close>

fun getline_loop :: "u8 list \<Rightarrow> buf \<Rightarrow> nat \<Rightarrow> tty \<Rightarrow> (buf \<times> u8 list \<times> tty) option" where
  "getline_loop [] res i t = None"
| "getline_loop (ch # keys) res i t =
     (if ch = 8 then
        (if i = 0 then getline_loop keys res i t
         else
           do { res \<leftarrow> wr res (i - 1) 0;
                (off, t) \<leftarrow> get_cursor t;
                t \<leftarrow> set_cursor (off - 2) t;
                t \<leftarrow> print_char 32 t;
                (off, t) \<leftarrow> get_cursor t;
                t \<leftarrow> set_cursor (off - 2) t;
                getline_loop keys res (i - 1) t })
      else
        do { res \<leftarrow> wr res i ch;
             t \<leftarrow> print_char ch t;
             if ch = 13 \<or> ch = 10 then do { res \<leftarrow> wr res i 0; Some (res, keys, t) }
             else getline_loop keys res (i + 1) t })"

definition getline :: "u8 list \<Rightarrow> buf \<Rightarrow> tty \<Rightarrow> (buf \<times> u8 list \<times> tty) option" where
  "getline keys res t = getline_loop keys res 0 t"

definition scanf ::
  "u8 list \<Rightarrow> buf \<Rightarrow> nat \<Rightarrow> dest list \<Rightarrow> tty \<Rightarrow> (dest list \<times> u8 list \<times> tty) option" where
  "scanf keys fmt q dests t =
     do { narg \<leftarrow> strlen fmt q;
          (s, keys, t) \<leftarrow> getline keys (replicate 1000 0) t;
          dests \<leftarrow> scan_loop s 0 fmt q None [] dests;
          Some (dests, keys, t) }"

section \<open>Numbers\<close>

abbreviation is_dec :: "u8 \<Rightarrow> bool" where "is_dec c \<equiv> 48 \<le> c \<and> c \<le> 57"

lemma is_cstr_drop: "is_cstr b p s \<Longrightarrow> n \<le> length s \<Longrightarrow> is_cstr b (p + n) (drop n s)"
proof (induction s arbitrary: p n)
  case (Cons c s)
  then show ?case using Cons.IH [of "Suc p" "n - 1"] by (cases n) auto
qed simp

lemma read_digits_cstr:
  "is_cstr b p s \<Longrightarrow> read_digits b p ret cnt =
    Some (foldl (\<lambda>r c. r * 10 + (ucast c - 48)) ret (takeWhile is_dec s), cnt + length (takeWhile is_dec s))"
proof (induction s arbitrary: p ret cnt)
  case Nil
  then show ?case by (subst read_digits.simps) simp
next
  case (Cons c s)
  then show ?case by (subst read_digits.simps) auto
qed

text \<open>The number that \<^verbatim>\<open>read_int\<close> finds at the start of a text, and how many characters it takes.\<close>

definition int_prefix :: "buf \<Rightarrow> buf" where
  "int_prefix s = (case s of [] \<Rightarrow> [] | c # r \<Rightarrow>
     if c = 45 then c # takeWhile is_dec r else takeWhile is_dec s)"

lemma read_int_cstr:
  assumes "is_cstr b p s"
  shows "\<exists>n. read_int b p = Some (n, length (int_prefix s))"
proof (cases s)
  case Nil
  then show ?thesis using assms
    by (simp add: read_int_def read_digits_cstr [of _ _ "[]"] int_prefix_def)
next
  case (Cons c r)
  then show ?thesis using assms read_digits_cstr [of b p s] read_digits_cstr [of b "Suc p" r]
    by (simp add: read_int_def int_prefix_def)
qed

lemma digit_u32: "n < 10 \<Longrightarrow> ucast (bchars ! n) - 48 = (of_nat n :: u32) \<and> is_dec (bchars ! n)"
proof -
  assume "n < 10"
  then have "n \<in> set [0..<10]" by simp
  then show ?thesis by (auto simp: upt_rec bchars_def)
qed

lemma num_str_digits: "c \<in> set (num_str 10 n) \<Longrightarrow> is_dec c"
proof (induction n rule: less_induct)
  case (less n)
  show ?case
  proof (cases "n < 10")
    case True
    then show ?thesis using less.prems digit_u32 by (simp add: num_str_small)
  next
    case False
    then have "num_str 10 n = num_str 10 (n div 10) @ [bchars ! (n mod 10)]"
      by (simp add: num_str_step)
    then show ?thesis
      using less.prems less.IH [of "n div 10"] digit_u32 [of "n mod 10"] False by auto
  qed
qed

lemma foldl_digits:
  "foldl (\<lambda>r c. r * 10 + (ucast c - 48)) (0 :: u32) (num_str 10 n) = of_nat n"
proof (induction n rule: less_induct)
  case (less n)
  show ?case
  proof (cases "n < 10")
    case True
    then show ?thesis using digit_u32 [of n] by (simp add: num_str_small)
  next
    case False
    then have "num_str 10 n = num_str 10 (n div 10) @ [bchars ! (n mod 10)]"
      by (simp add: num_str_step)
    moreover have "n = (n div 10) * 10 + n mod 10" by simp
    then have "(of_nat n :: u32) = of_nat (n div 10) * 10 + of_nat (n mod 10)"
      by (metis of_nat_add of_nat_mult of_nat_numeral)
    ultimately show ?thesis using less False digit_u32 [of "n mod 10"] by simp
  qed
qed

lemma num_str_head: "\<exists>c r. num_str 10 n = c # r \<and> is_dec c"
proof -
  have "num_str 10 n \<noteq> []" by (subst num_str.simps) simp
  then show ?thesis using num_str_digits [of _ n] by (cases "num_str 10 n") auto
qed

lemma takeWhile_num: "(case r of [] \<Rightarrow> True | c # _ \<Rightarrow> \<not> is_dec c) \<Longrightarrow>
    takeWhile is_dec (num_str 10 n @ r) = num_str 10 n"
  using num_str_digits [of _ n] by (cases r) (auto simp: takeWhile_append takeWhile_eq_all_conv)

text \<open>\<^verbatim>\<open>read_int\<close> reads back a decimal number that \<^verbatim>\<open>itoa\<close> would print, with or
  without a minus sign, up to the first character that is not a digit, and reports how many
  characters it has used.\<close>

theorem read_int_decimal:
  assumes "is_cstr b p ((if neg then [45] else []) @ num_str 10 n @ r)"
    and "case r of [] \<Rightarrow> True | c # _ \<Rightarrow> \<not> (48 \<le> c \<and> c \<le> 57)"
  shows "read_int b p = Some (if neg then - of_nat n else of_nat n,
    (if neg then 1 else 0) + length (num_str 10 n))"
proof (cases neg)
  case True
  then have "is_cstr b (Suc p) (num_str 10 n @ r)" "rd b p = Some 45"
    using assms(1) by (auto simp: buf_simps)
  then show ?thesis
    using True read_digits_cstr [of b "Suc p" "num_str 10 n @ r"] takeWhile_num [OF assms(2)]
    by (simp add: read_int_def foldl_digits)
next
  case False
  then have s: "is_cstr b p (num_str 10 n @ r)" using assms(1) by simp
  obtain c t where "num_str 10 n = c # t" "is_dec c" using num_str_head by blast
  then have "rd b p = Some c" "c \<noteq> 45" using s by auto
  then show ?thesis
    using False read_digits_cstr [OF s] takeWhile_num [OF assms(2)]
    by (simp add: read_int_def foldl_digits)
qed

lemma read_int_decimal_witness:
  "read_int [45, 52, 50, 32, 0] 0 = Some (- 42, 3)"
proof -
  have "num_str 10 42 = [52, 50]" by (simp add: num_str.simps bchars_def)
  then show ?thesis
    using read_int_decimal [of "[45, 52, 50, 32, 0]" 0 True 42 "[32]"] by (simp add: rd_def)
qed

section \<open>What a format means\<close>

text \<open>The text of a conversion.\<close>

definition cstr_at :: "buf \<Rightarrow> nat \<Rightarrow> buf option" where
  "cstr_at b p = (if no_nul b p then None else Some (takeWhile (\<lambda>c. c \<noteq> 0) (drop p b)))"

lemma cstr_at_Some: "cstr_at b p = Some s \<Longrightarrow> is_cstr b p s"
proof -
  assume "cstr_at b p = Some s"
  then have n: "0 \<in> set (drop p b)" and s: "s = takeWhile (\<lambda>c. c \<noteq> 0) (drop p b)"
    by (auto simp: cstr_at_def no_nul_def split: if_splits)
  have "dropWhile (\<lambda>c. c \<noteq> 0) (drop p b) \<noteq> []" using n by (auto simp: dropWhile_eq_Nil_conv)
  then obtain r where "dropWhile (\<lambda>c. c \<noteq> 0) (drop p b) = 0 # r"
    by (metis (mono_tags, lifting) hd_Cons_tl hd_dropWhile)
  then have "drop p b = s @ 0 # r" unfolding s by (metis takeWhile_dropWhile_id)
  moreover have "0 \<notin> set s" unfolding s by (auto dest: set_takeWhileD)
  ultimately show ?thesis unfolding is_cstr_take_drop by blast
qed

definition conversion :: "u8 \<Rightarrow> arg list \<Rightarrow> (buf \<times> arg list) option" where
  "conversion k args =
     (if k = 100 \<or> k = 105 then
        do { (x, args) \<leftarrow> va_int args; Some (num_str 10 (unat x), args) }
      else if k = 120 \<or> k = 88 then
        do { (x, args) \<leftarrow> va_int args; Some (num_str 16 (unat x), args) }
      else if k = 99 then
        do { (x, args) \<leftarrow> va_int args;
             if (ucast x :: u8) = 0 then None else Some ([ucast x], args) }
      else if k = 115 then
        do { (b, p, args) \<leftarrow> va_str args; s \<leftarrow> cstr_at b p; Some (s, args) }
      else if k = 37 then Some ([37], args)
      else Some ([], args))"

text \<open>The text that a format and its arguments stand for.\<close>

lemma drop_shorter: "drop n r = k # r' \<Longrightarrow> length r' < Suc (length r)"
  by (metis diff_le_self length_Cons length_drop less_SucI Suc_le_eq)

function render :: "buf \<Rightarrow> arg list \<Rightarrow> buf option" where
  "render [] args = Some []"
| "render (c # r) args =
     (if c = 37 then
        (case drop (length (int_prefix r)) r of
           [] \<Rightarrow> None
         | k # r' \<Rightarrow>
             do { (x, args) \<leftarrow> conversion k args; y \<leftarrow> render r' args; Some (x @ y) })
      else do { y \<leftarrow> render r args; Some ((if c = 13 then 10 else c) # y) })"
  by pat_completeness auto
termination
  by (relation "measure (\<lambda>(f, a). length f)") (auto dest: drop_shorter)

declare render.simps(2) [simp del]

section \<open>Both kinds of output follow the format\<close>

text \<open>
  Something characters can be put into: \<open>puts\<close> puts a text, and the three emitting calls of the
  format loop put the text of a number, a string and a character.
\<close>

lemma convert_no_nul:
  assumes "conversion k args = Some (x, args')"
  shows "0 \<notin> set x"
  using assms num_str_no_nul
  by (auto simp: conversion_def buf_simps split: if_splits dest!: cstr_at_Some is_cstr_nonzero)

locale char_sink =
  fixes ok :: "'s \<Rightarrow> bool"
    and puts :: "buf \<Rightarrow> 's \<Rightarrow> 's option"
    and put_int :: "u32 \<Rightarrow> u32 \<Rightarrow> 's \<Rightarrow> 's option"
    and put_str :: "buf \<Rightarrow> nat \<Rightarrow> 's \<Rightarrow> 's option"
    and put_chr :: "u8 \<Rightarrow> 's \<Rightarrow> 's option"
  assumes puts_Nil: "ok s \<Longrightarrow> puts [] s = Some s"
    and puts_append: "ok s \<Longrightarrow> 0 \<notin> set x \<Longrightarrow> 0 \<notin> set y \<Longrightarrow> puts (x @ y) s = do { s \<leftarrow> puts x s; puts y s }"
    and puts_ok: "ok s \<Longrightarrow> 0 \<notin> set x \<Longrightarrow> puts x s = Some s' \<Longrightarrow> ok s'"
    and put_int_puts: "ok s \<Longrightarrow> base \<in> {10, 16} \<Longrightarrow>
      put_int n base s = puts (num_str (unat base) (unat n)) s"
    and put_str_puts: "ok s \<Longrightarrow> is_cstr b p x \<Longrightarrow> put_str b p s = puts x s"
    and put_chr_puts: "ok s \<Longrightarrow> c \<noteq> 0 \<Longrightarrow> put_chr c s = puts [c] s"
begin

lemma convert_conversion:
  assumes "ok s" "conversion k args = Some (x, args')"
  shows "convert put_int put_str put_chr k args s = do { s \<leftarrow> puts x s; Some (args', s) }"
proof -
  show "convert put_int put_str put_chr k args s = do { s \<leftarrow> puts x s; Some (args', s) }"
    using assms puts_Nil
    by (auto simp: convert_def conversion_def put_int_puts put_str_puts [OF _ cstr_at_Some] put_chr_puts
        buf_simps split: if_splits)
qed

lemma digit_length_cstr:
  assumes "is_cstr fmt i r"
  shows "digit_length fmt i = Some (length (int_prefix r))"
proof (cases r)
  case Nil
  then show ?thesis using assms by (simp add: digit_length_def int_prefix_def)
next
  case (Cons c t)
  obtain n where "read_int fmt i = Some (n, length (int_prefix r))"
    using read_int_cstr [OF assms] by blast
  then show ?thesis using assms Cons by (auto simp: digit_length_def int_prefix_def)
qed

lemma render_no_nul: "0 \<notin> set f \<Longrightarrow> render f args = Some out \<Longrightarrow> 0 \<notin> set out"
proof (induction f args arbitrary: out rule: render.induct)
  case (2 c r args)
  show ?case
  proof (cases "c = 37")
    case True
    then obtain k r' where d: "drop (length (int_prefix r)) r = k # r'"
      using "2.prems"(2) by (cases "drop (length (int_prefix r)) r") (auto simp: render.simps(2))
    then obtain x args' y where e: "conversion k args = Some (x, args')" "render r' args' = Some y" "out = x @ y"
      using "2.prems"(2) True by (auto simp: render.simps(2) buf_simps)
    have "set (k # r') \<subseteq> set r" unfolding d [symmetric] by (rule set_drop_subset)
    then have "0 \<notin> set r'" using "2.prems"(1) by auto
    then show ?thesis
      using "2.IH"(1) [OF True d e(1) refl _ e(2)] convert_no_nul [OF e(1)] by (simp add: e(3))
  next
    case False
    then obtain y where "render r args = Some y" "out = (if c = 13 then 10 else c) # y"
      using "2.prems"(2) by (auto simp: render.simps(2) buf_simps)
    then show ?thesis using "2.IH"(2) [OF False] "2.prems"(1) by auto
  qed
qed simp

lemma format_loop_render:
  "is_cstr fmt i f \<Longrightarrow> render f args = Some out \<Longrightarrow> ok s \<Longrightarrow>
    format_loop put_int put_str put_chr fmt i args s = puts out s"
proof (induction f args arbitrary: i s out rule: render.induct)
  case (1 args)
  then show ?case by (subst format_loop.simps) (simp add: puts_Nil)
next
  case (2 c r args)
  have c: "c \<noteq> 0" "rd fmt i = Some c" "is_cstr fmt (Suc i) r" using "2.prems"(1) by simp_all
  show ?case
  proof (cases "c = 37")
    case True
    let ?n = "length (int_prefix r)"
    obtain k r' where d: "drop ?n r = k # r'"
      using "2.prems"(2) True by (cases "drop ?n r") (auto simp: render.simps(2))
    then obtain x args' y where e: "conversion k args = Some (x, args')" "render r' args' = Some y" "out = x @ y"
      using "2.prems"(2) True by (auto simp: render.simps(2) buf_simps)
    have "?n \<le> length r" using d by (metis drop_all le_cases list.distinct(1))
    then have k: "rd fmt (Suc i + ?n) = Some k" "is_cstr fmt (Suc (Suc i + ?n)) r'"
      using is_cstr_drop [OF c(3), of ?n] unfolding d by simp_all
    have dl: "digit_length fmt (Suc i) = Some ?n" by (rule digit_length_cstr [OF c(3)])
    have nn: "0 \<notin> set x" "0 \<notin> set y"
      using convert_no_nul [OF e(1)] render_no_nul [OF is_cstr_nonzero [OF k(2)] e(2)] by auto
    have "format_loop put_int put_str put_chr fmt i args s =
        do { s \<leftarrow> puts x s; format_loop put_int put_str put_chr fmt (Suc (Suc i + ?n)) args' s }"
      using True c dl k(1) convert_conversion [OF "2.prems"(3) e(1)]
      by (subst format_loop.simps) (cases "puts x s"; simp)
    also have "\<dots> = do { s \<leftarrow> puts x s; puts y s }"
    proof (cases "puts x s")
      case (Some s')
      have "ok s'" by (rule puts_ok [OF "2.prems"(3) nn(1) Some])
      then show ?thesis
        using Some "2.IH"(1) [OF True d e(1) refl k(2) e(2)] by simp
    qed simp
    also have "\<dots> = puts out s" using puts_append [OF "2.prems"(3) nn] e(3) by simp
    finally show ?thesis .
  next
    case False
    let ?c = "if c = 13 then 10 else c"
    obtain y where y: "render r args = Some y" "out = ?c # y"
      using "2.prems"(2) False by (auto simp: render.simps(2) buf_simps)
    have nn: "0 \<notin> set [?c]" "0 \<notin> set y"
      using c(1) render_no_nul [OF is_cstr_nonzero [OF c(3)] y(1)] by auto
    have "format_loop put_int put_str put_chr fmt i args s =
        do { s \<leftarrow> puts [?c] s; format_loop put_int put_str put_chr fmt (Suc i) args s }"
      using False c put_chr_puts [OF "2.prems"(3)]
      by (subst format_loop.simps) (cases "puts [?c] s"; auto)
    also have "\<dots> = do { s \<leftarrow> puts [?c] s; puts y s }"
    proof (cases "puts [?c] s")
      case (Some s')
      have "ok s'" by (rule puts_ok [OF "2.prems"(3) nn(1) Some])
      then show ?thesis using Some "2.IH"(2) [OF False c(3) y(1)] by simp
    qed simp
    also have "\<dots> = puts out s" using puts_append [OF "2.prems"(3) nn] y(2) by simp
    finally show ?thesis .
  qed
qed

end


subsection \<open>The terminal\<close>

fun put_chars :: "buf \<Rightarrow> tty \<Rightarrow> tty option" where
  "put_chars [] t = Some t"
| "put_chars (c # s) t = do { t \<leftarrow> print_char c t; put_chars s t }"

lemma print_put_chars: "is_cstr b p s \<Longrightarrow> print b p t = put_chars s t"
proof -
  have "print_loop b p (-1) (-1) t = put_chars s t" if "is_cstr b p s" for p t
    using that
  proof (induction s arbitrary: p t)
    case Nil
    then show ?case by (subst print_loop.simps) simp
  next
    case (Cons c s)
    then show ?case
      by (subst print_loop.simps) (cases "print_char c t"; auto simp: print_char_def)
  qed
  then show "is_cstr b p s \<Longrightarrow> print b p t = put_chars s t"
    by (simp add: print_def print_at_def)
qed

lemma itoa_1000:
  assumes "base \<in> {10, 16}"
  shows "itoa n (replicate 1000 0) 0 base = Some (buf_put (replicate 1000 0) 0 (num_str (unat base) (unat n) @ [0]))"
    and "is_cstr (buf_put (replicate 1000 0) 0 (num_str (unat base) (unat n) @ [0])) 0 (num_str (unat base) (unat n))"
proof -
  have b: "2 \<le> unat base" "unat base \<le> 16" "2 \<le> base" "base \<le> 16" using assms by auto
  have "unat n < unat base ^ 10"
  proof -
    have "unat n < 10 ^ 10" using unat_u32 [of n] by simp
    also have "\<dots> \<le> unat base ^ 10" using assms by (intro power_mono) auto
    finally show ?thesis .
  qed
  then have l: "length (num_str (unat base) (unat n)) \<le> 10" using b by (intro length_num_str) auto
  then show "itoa n (replicate 1000 0) 0 base =
      Some (buf_put (replicate 1000 0) 0 (num_str (unat base) (unat n) @ [0]))"
    using b by (intro itoa_num_str) auto
  show "is_cstr (buf_put (replicate 1000 0) 0 (num_str (unat base) (unat n) @ [0])) 0
      (num_str (unat base) (unat n))"
    using l b by (intro buf_put_cstr num_str_no_nul) auto
qed

lemma put_chars_append: "put_chars (x @ y) t = do { t \<leftarrow> put_chars x t; put_chars y t }"
proof (induction x arbitrary: t)
  case (Cons c x)
  then show ?case by (cases "print_char c t") auto
qed simp

interpretation tty_sink: char_sink "\<lambda>_. True" put_chars print_int print print_char
proof
  fix x y :: buf and s :: tty
  show "put_chars (x @ y) s = do { s \<leftarrow> put_chars x s; put_chars y s }" by (rule put_chars_append)
next
  fix base n :: u32 and s :: tty
  assume "base \<in> {10, 16}"
  from itoa_1000 [OF this, of n] print_put_chars show
    "print_int n base s = put_chars (num_str (unat base) (unat n)) s"
    by (simp add: print_int_def)
next
  fix c :: u8 and s :: tty
  show "print_char c s = put_chars [c] s" by (cases "print_char c s") auto
qed (auto simp: print_put_chars)

subsection \<open>A buffer\<close>

lemma strcat_loop_overflow:
  "is_cstr src s t \<Longrightarrow> d \<le> length b \<Longrightarrow> length b < d + length t \<Longrightarrow>
    strcat_loop b d src s = None"
proof (induction t arbitrary: b d s)
  case (Cons c t)
  show ?case
  proof (cases "d < length b")
    case True
    then show ?thesis using Cons by (subst strcat_loop.simps) simp
  next
    case False
    then show ?thesis using Cons.prems by (subst strcat_loop.simps) (simp add: wr_def)
  qed
qed simp

lemma strcat_full:
  assumes "is_cstr b d u" "is_cstr src q x"
  shows "strcat b d src q =
    (if d + length u + length x < length b then Some (buf_put b (d + length u) (x @ [0])) else None)"
proof (cases "d + length u + length x < length b")
  case True
  then show ?thesis using strcat_cstr [OF assms] by simp
next
  case False
  then consider "length b < d + length u + length x" | "length b = d + length u + length x" by linarith
  then show ?thesis
  proof cases
    case 1
    then show ?thesis
      using strcat_loop_overflow [OF assms(2), of "d + length u" b] is_cstr_length [OF assms(1)] assms
      by (simp add: strcat_def)
  next
    case 2
    then show ?thesis using strcat_loop_cstr [OF assms(2), of "d + length u" b] assms
      by (simp add: strcat_def)
  qed
qed

definition cat_text :: "nat \<Rightarrow> buf \<Rightarrow> buf \<Rightarrow> buf option" where
  "cat_text d x b = strcat b d (x @ [0]) 0"

lemma cstr_self: "0 \<notin> set x \<Longrightarrow> is_cstr (x @ [0]) 0 x"
  by (simp add: is_cstr_take_drop)

lemma cat_text_eq:
  assumes "is_cstr b d u" "0 \<notin> set x"
  shows "cat_text d x b =
    (if d + length u + length x < length b then Some (buf_put b (d + length u) (x @ [0])) else None)"
  using strcat_full [OF assms(1) cstr_self [OF assms(2)]] by (simp add: cat_text_def)

lemma cat_text_cstr:
  assumes "is_cstr b d u" "0 \<notin> set x" "d + length u + length x < length b"
  shows "is_cstr (buf_put b (d + length u) (x @ [0])) d (u @ x)"
proof -
  have "0 \<notin> set u" by (rule is_cstr_nonzero [OF assms(1)])
  then show ?thesis
    using assms is_cstr_nth [OF assms(1)]
    by (auto simp: is_cstr_iff nth_buf_put nth_append)
qed

lemma cat_text_append:
  assumes "is_cstr b d u" "0 \<notin> set x" "0 \<notin> set y"
  shows "cat_text d (x @ y) b = do { b \<leftarrow> cat_text d x b; cat_text d y b }"
proof (cases "d + length u + length x < length b")
  case True
  let ?b = "buf_put b (d + length u) (x @ [0])"
  have c: "is_cstr ?b d (u @ x)" by (rule cat_text_cstr [OF assms(1,2) True])
  have "buf_put ?b (d + length u + length x) (y @ [0]) = buf_put b (d + length u) (x @ y @ [0])"
    if "d + length u + length x + length y < length b"
    using that by (intro nth_equalityI) (auto simp: nth_buf_put nth_append)
  then show ?thesis
    using True cat_text_eq [OF assms(1,2)] cat_text_eq [OF c assms(3)] cat_text_eq [OF assms(1), of "x @ y"] assms
    by (simp add: add.assoc)
next
  case False
  then show ?thesis
    using cat_text_eq [OF assms(1,2)] cat_text_eq [OF assms(1), of "x @ y"] assms by simp
qed

interpretation buf_sink: char_sink "\<lambda>b. \<exists>u. is_cstr b d u" "cat_text d" "cat_int d"
  "\<lambda>str q b. strcat b d str q" "cat_chr d"
proof
  fix s :: buf
  assume "\<exists>u. is_cstr s d u"
  then obtain u where u: "is_cstr s d u" by blast
  then show "cat_text d [] s = Some s"
    using is_cstr_length [OF u] is_cstr_end [OF u]
    by (simp add: cat_text_eq [OF u] buf_put_single) (metis list_update_id)
  fix x y :: buf
  assume "0 \<notin> set x"
  then show "0 \<notin> set y \<Longrightarrow> cat_text d (x @ y) s = do { s \<leftarrow> cat_text d x s; cat_text d y s }"
    by (rule cat_text_append [OF u])
next
  fix s s' x :: buf
  assume "\<exists>u. is_cstr s d u" "0 \<notin> set x" "cat_text d x s = Some s'"
  then show "\<exists>u. is_cstr s' d u"
    using cat_text_eq cat_text_cstr by (auto split: if_splits) blast
next
  fix base n :: u32 and s :: buf
  assume "\<exists>u. is_cstr s d u" "base \<in> {10, 16}"
  then obtain u where u: "is_cstr s d u" by blast
  have "0 \<notin> set (num_str (unat base) (unat n))"
    using \<open>base \<in> {10, 16}\<close> by (intro num_str_no_nul) auto
  then show "cat_int d n base s = cat_text d (num_str (unat base) (unat n)) s"
    using itoa_1000 [OF \<open>base \<in> {10, 16}\<close>, of n] strcat_full [OF u] cat_text_eq [OF u]
    by (simp add: cat_int_def)
next
  fix s b x :: buf and p
  assume "\<exists>u. is_cstr s d u" "is_cstr b p x"
  then obtain u where u: "is_cstr s d u" by blast
  then show "strcat s d b p = cat_text d x s"
    using strcat_full [OF u \<open>is_cstr b p x\<close>] cat_text_eq [OF u is_cstr_nonzero [OF \<open>is_cstr b p x\<close>]]
    by simp
next
  fix s :: buf and c :: u8
  show "cat_chr d c s = cat_text d [c] s" by (simp add: cat_chr_def cat_text_def)
qed


lemma printf_render:
  assumes "is_cstr fmt p f" "render f args = Some out"
  shows "printf fmt p args t = put_chars out t"
  using tty_sink.format_loop_render [OF assms] assms(1) by (simp add: printf_def)

lemma sprintf_render:
  assumes "is_cstr fmt p f" "render f args = Some out" "d + 4 \<le> length b"
  shows "case sprintf b d fmt p args of
       None \<Rightarrow> length b \<le> d + length out
     | Some b' \<Rightarrow> d + length out < length b \<and> is_cstr b' d out \<and> length b' = length b"
proof -
  let ?b = "buf_put b d (replicate 4 0)"
  have clear: "memset b d 0 4 = Some ?b" using assms(3) by (intro memset_put) simp
  have empty: "is_cstr ?b d []" using assms(3) by (simp add: rd_def nth_buf_put)
  then have "\<exists>u. is_cstr ?b d u" by (rule exI)
  from buf_sink.format_loop_render [OF assms(1,2) this]
  have "sprintf b d fmt p args = cat_text d out ?b"
    using strlen_cstr [OF assms(1)] by (simp add: sprintf_def clear)
  moreover have "0 \<notin> set out" by (rule tty_sink.render_no_nul [OF is_cstr_nonzero [OF assms(1)] assms(2)])
  ultimately show ?thesis
    using cat_text_eq [OF empty] cat_text_cstr [OF empty] assms(3) by simp
qed

text \<open>Text goes to a terminal in a good state.\<close>

lemma put_chars_view:
  assumes "tty_ok t" "view_ok (view t)" "no_bs x"
  shows "\<exists>t'. put_chars x t = Some t' \<and> tty_ok t' \<and> view_ok (view t') \<and> shown t' = shown t \<and>
    ATTRIBUTE_VAL t' = ATTRIBUTE_VAL t"
  using assms
proof (induction x arbitrary: t)
  case (Cons c x)
  let ?w = "put_spec c (attr_of t) (view t)"
  have p: "print_char c t = Some (set_view ?w t)"
    using putchar_view [OF Cons.prems(1,2), of c "-1" "-1" "attr_of t"] Cons.prems(3)
    by (simp add: print_char_def no_bs_def)
  have w: "view_ok ?w" "length (fst ?w) = length (fst (view t))"
    using put_spec_ok [OF Cons.prems(2), of c] Cons.prems(3) by (auto simp: no_bs_def)
  note f = set_view_view_ok [OF Cons.prems(1) w]
  show ?case using Cons.IH [of "set_view ?w t"] Cons.prems(3) f p w by (auto simp: no_bs_def)
qed simp

lemma put_chars_inv: "tty_inv t \<Longrightarrow> no_bs x \<Longrightarrow> \<exists>t'. put_chars x t = Some t' \<and> tty_inv t'"
proof (induction x arbitrary: t)
  case (Cons c x)
  note v = tty_inv_view [OF Cons.prems(1)]
  let ?w = "put_spec c (attr_of t) (view t)"
  have "print_char c t = Some (set_view ?w t)"
    using putchar_view [OF tty_inv_ok(1) [OF Cons.prems(1)] v, of c "-1" "-1" "attr_of t"] Cons.prems(2)
    by (simp add: print_char_def no_bs_def)
  moreover have "tty_inv (set_view ?w t)"
    using put_spec_ok [OF v, of c] Cons.prems by (intro set_view_inv) (auto simp: no_bs_def)
  ultimately show ?case using Cons.IH [of "set_view ?w t"] Cons.prems(2) by (auto simp: no_bs_def)
qed simp

text \<open>Literals in formats.\<close>

abbreviation chars :: "string \<Rightarrow> buf" where "chars s \<equiv> map of_char s"

lemma lit_cstr: "0 \<notin> set (chars s) \<Longrightarrow> is_cstr (lit s) 0 (chars s)"
  by (simp add: lit_def cstr_self)

lemma render_char:
  "c \<noteq> 37 \<Longrightarrow> render (c # f) args = map_option ((#) (if c = 13 then 10 else c)) (render f args)"
  by (cases "render f args") (simp_all add: render.simps(2))

lemma cstr_at_cstr:
  assumes "is_cstr b p s"
  shows "cstr_at b p = Some s"
proof -
  obtain r where r: "0 \<notin> set s" "drop p b = s @ 0 # r" using assms unfolding is_cstr_take_drop by blast
  then have "takeWhile (\<lambda>c. c \<noteq> 0) (drop p b) = s" by (metis (mono_tags, lifting) append_Nil2 takeWhile.simps(2) takeWhile_append2)
  then show ?thesis using r by (simp add: cstr_at_def no_nul_def)
qed

section \<open>Properties\<close>


text \<open>The text of \<^verbatim>\<open>"n=%d%%"\<close> for 42.\<close>

lemma render_demo:
  "render [110, 61, 37, 100, 37, 37] [Arg_int 42] = Some [110, 61, 52, 50, 37]"
proof -
  have "num_str 10 42 = [52, 50]"
    by (simp add: num_str_step num_str_small bchars_def)
  then show ?thesis
    by (simp add: render.simps(2) int_prefix_def conversion_def)
qed


section \<open>Editing a line\<close>

text \<open>The line that the keys make: \<open>acc\<close> is what has been typed so far, last key first.\<close>

fun edited :: "buf \<Rightarrow> u8 list \<Rightarrow> (buf \<times> u8 list) option" where
  "edited acc [] = None"
| "edited acc (ch # keys) =
     (if ch = 8 then edited (tl acc) keys
      else if ch = 13 \<or> ch = 10 then Some (rev acc, keys)
      else edited (ch # acc) keys)"

definition scr_ok :: "tty \<Rightarrow> nat \<Rightarrow> bool" where
  "scr_ok t i \<longleftrightarrow> tty_ok t \<and> view_ok (view t) \<and> 2 * int i \<le> snd (view t)"

lemma print_char_scr:
  assumes "scr_ok t i" "c \<noteq> 8" "i < 1000"
  shows "\<exists>t'. print_char c t = Some t' \<and> scr_ok t' (if c = 10 then 0 else Suc i)"
proof -
  have ok: "tty_ok t" "view_ok (view t)" "2 * int i \<le> snd (view t)" using assms(1) by (auto simp: scr_ok_def)
  let ?w = "put_spec c (attr_of t) (view t)"
  have p: "print_char c t = Some (set_view ?w t)"
    using putchar_view [OF ok(1,2), of c "-1" "-1" "attr_of t"] assms(2) by (simp add: print_char_def)
  have w: "view_ok ?w" "length (fst ?w) = length (fst (view t))" using put_spec_ok [OF ok(2), of c] assms(2) by auto
  note f = set_view_view_ok [OF ok(1) w]
  have "2 * int (if c = 10 then 0 else Suc i) \<le> snd ?w"
    using assms(2,3) ok(3) w(1) by (auto simp: put_spec_def view_ok_def Let_def split: prod.splits)
  then show ?thesis using p f w by (auto simp: scr_ok_def)
qed

text \<open>One step back, and the whole rub-out: back, a blank, back again.\<close>

lemma back_scr:
  assumes "scr_ok t (Suc i)"
  shows "\<exists>off t1 t2. get_cursor t = Some (off, t1) \<and> set_cursor (off - 2) t1 = Some t2 \<and> scr_ok t2 i"
proof -
  obtain b off where v: "view t = (b, off)" by (cases "view t")
  have ok: "tty_ok t" "view_ok (b, off)" "2 * int (Suc i) \<le> off"
    using assms v by (auto simp: scr_ok_def)
  let ?t = "index_15 t"
  have v1: "view ?t = (b, off)" using v by (auto simp: index_15_def view_def shown_def hw_cursor_def)
  have ok1: "tty_ok ?t" using ok(1) by simp
  have w: "view_ok (b, off - 2)" using ok by (auto simp: view_ok_def)
  have "get_cursor t = Some (off, ?t)" using get_cursor_view [OF ok(1)] v by (simp add: index_15_def)
  moreover have "set_cursor (off - 2) ?t = Some (set_view (b, off - 2) ?t)"
    using set_cursor_view [OF ok1, of "off - 2"] ok(3) v1 by simp
  moreover have "scr_ok (set_view (b, off - 2) ?t) i"
    using set_view_view_ok [OF ok1 w] v1 w ok(3) by (simp add: scr_ok_def)
  ultimately show ?thesis by blast
qed

lemma rubout_scr:
  assumes "scr_ok t (Suc i)" "i < 1000"
  shows "\<exists>off t1 t2 t3 off' t4 t5. get_cursor t = Some (off, t1) \<and> set_cursor (off - 2) t1 = Some t2 \<and>
    print_char 32 t2 = Some t3 \<and> get_cursor t3 = Some (off', t4) \<and> set_cursor (off' - 2) t4 = Some t5 \<and>
    scr_ok t5 i"
proof -
  obtain off t1 t2 where a: "get_cursor t = Some (off, t1)" "set_cursor (off - 2) t1 = Some t2" "scr_ok t2 i"
    using back_scr [OF assms(1)] by blast
  obtain t3 where b: "print_char 32 t2 = Some t3" "scr_ok t3 (Suc i)"
    using print_char_scr [OF a(3), of 32] assms(2) by auto
  show ?thesis using back_scr [OF b(2)] a b by blast
qed

text \<open>The buffer holds the \<open>i\<close> characters typed so far.\<close>

definition typed :: "buf \<Rightarrow> buf \<Rightarrow> bool" where
  "typed res acc \<longleftrightarrow> length acc < length res \<and> take (length acc) res = rev acc"

lemma typed_put: "typed res acc \<Longrightarrow> Suc (length acc) < length res \<Longrightarrow> typed (res[length acc := ch]) (ch # acc)"
  by (simp add: typed_def take_Suc_conv_app_nth)

lemma typed_rubout: "typed res (c # acc) \<Longrightarrow> typed (res[length acc := x]) acc"
  by (auto simp: typed_def take_Suc_conv_app_nth)

lemma typed_end:
  assumes "typed res acc" "0 \<notin> set acc"
  shows "is_cstr (res[length acc := 0]) 0 (rev acc)"
proof -
  have "res[length acc := 0] ! i = rev acc ! i" if "i < length acc" for i
    using assms(1) that unfolding typed_def by (metis nat_neq_iff nth_list_update_neq nth_take)
  then show ?thesis using assms by (auto simp: is_cstr_iff typed_def)
qed

text \<open>No key is NUL, and the line never grows to the end of the buffer.\<close>

fun keys_fit :: "nat \<Rightarrow> nat \<Rightarrow> u8 list \<Rightarrow> bool" where
  "keys_fit n i [] = True"
| "keys_fit n i (ch # keys) = (ch \<noteq> 0 \<and> i + 1 < n \<and>
     (ch = 13 \<or> ch = 10 \<or> keys_fit n (if ch = 8 then i - 1 else i + 1) keys))"

lemma getline_loop_edited:
  "typed res acc \<Longrightarrow> 0 \<notin> set acc \<Longrightarrow> scr_ok t (length acc) \<Longrightarrow> length res \<le> 1000 \<Longrightarrow>
    keys_fit (length res) (length acc) keys \<Longrightarrow>
    (case edited acc keys of
       None \<Rightarrow> getline_loop keys res (length acc) t = None
     | Some (line, rest) \<Rightarrow> \<exists>res' t'. getline_loop keys res (length acc) t = Some (res', rest, t') \<and>
         is_cstr res' 0 line \<and> length res' = length res)"
proof (induction keys arbitrary: acc res t)
  case (Cons ch keys)
  have fit: "ch \<noteq> 0" "Suc (length acc) < length res" using Cons.prems(5) by auto
  show ?case
  proof (cases "ch = 8")
    case True
    show ?thesis
    proof (cases acc)
      case Nil
      then show ?thesis using Cons.IH [of res "[]" t] Cons.prems True
        by (cases "edited [] keys") auto
    next
      case (Cons c acc')
      have i: "length acc' < 1000" using Cons fit Cons.prems(4) by simp
      obtain off t1 t2 t3 off' t4 t5 where r: "get_cursor t = Some (off, t1)"
        "set_cursor (off - 2) t1 = Some t2" "print_char 32 t2 = Some t3"
        "get_cursor t3 = Some (off', t4)" "set_cursor (off' - 2) t4 = Some t5" "scr_ok t5 (length acc')"
        using rubout_scr [of t "length acc'"] Cons.prems(3) Cons i by auto
      have w: "wr res (length acc') 0 = Some (res[length acc' := 0])"
        using fit Cons by (simp add: wr_def)
      show ?thesis
        using Cons.IH [of "res[length acc' := 0]" acc' t5] Cons.prems typed_rubout True Cons r w
        by (cases "edited acc' keys") auto
    qed
  next
    case False
    obtain t1 where p: "print_char ch t = Some t1" "scr_ok t1 (if ch = 10 then 0 else Suc (length acc))"
      using print_char_scr [OF Cons.prems(3) False] fit Cons.prems(4) by auto
    have w: "wr res (length acc) ch = Some (res[length acc := ch])"
      "wr (res[length acc := ch]) (length acc) 0 = Some (res[length acc := 0])"
      using fit by (simp_all add: wr_def)
    show ?thesis
    proof (cases "ch = 13 \<or> ch = 10")
      case True
      then show ?thesis using False p w typed_end [OF Cons.prems(1,2)] by auto
    next
      case F: False
      then show ?thesis
        using Cons.IH [of "res[length acc := ch]" "ch # acc" t1] typed_put [OF Cons.prems(1) fit(2), of ch]
          Cons.prems False p w fit
        by (cases "edited (ch # acc) keys") auto
    qed
  qed
qed simp

text \<open>C19: \<^verbatim>\<open>getline\<close> returns the line that the keys spell after editing: a backspace takes back the
  last character (none at the start), return or newline ends the line, and the rest of the keys is
  left; it waits for ever exactly when no key ends the line.\<close>

theorem getline_edits:
  assumes "keys_fit (length res) 0 keys" "1 \<le> length res" "length res \<le> 1000"
    and "tty_ok t" "view_ok (view t)"
  shows "case edited [] keys of
      None \<Rightarrow> getline keys res t = None
    | Some (line, rest) \<Rightarrow> \<exists>res' t'. getline keys res t = Some (res', rest, t') \<and>
        is_cstr res' 0 line \<and> length res' = length res"
proof -
  have "typed res []" using assms(2) by (cases res) (simp_all add: typed_def)
  moreover have "scr_ok t 0" using assms(4,5) by (cases "view t") (simp add: scr_ok_def view_ok_def)
  ultimately show ?thesis
    using getline_loop_edited [of res "[]" t keys] assms(1,3)
    by (cases "edited [] keys") (auto simp: getline_def)
qed

text \<open>The keys of "ab", a backspace, "c", newline, "x".\<close>

lemma getline_edits_witness:
  "\<exists>res' t'. getline [97, 98, 8, 99, 10, 120] (replicate 20 0) demo_tty = Some (res', [120], t') \<and>
    is_cstr res' 0 [97, 99]"
  using getline_edits [of "replicate 20 0" "[97, 98, 8, 99, 10, 120]" demo_tty] demo_ok by auto

end
