(* ===== verification/Process.thy ===== *)
theory Process
  imports Screen Segments
begin

text \<open>
  Processes: \<^verbatim>\<open>include/task.h\<close>. The process table is a list of \<^verbatim>\<open>MAX_PROCESS\<close> records and
  a pointer into it an index. A function that may hand the processor to another process does not
  return to its caller then; its result says how it left.
\<close>

section \<open>State\<close>

datatype proc_status =
  PROC_NEW | PROC_READY | PROC_RUNNING | PROC_WAITING | PROC_TERMINATED

text \<open>The numbers of the enumeration give it its order.\<close>

fun status_code :: "proc_status \<Rightarrow> int" where
  "status_code PROC_NEW = 0"
| "status_code PROC_READY = 1"
| "status_code PROC_RUNNING = 2"
| "status_code PROC_WAITING = 3"
| "status_code PROC_TERMINATED = 4"

instantiation proc_status :: linorder
begin

definition less_eq_proc_status :: "proc_status \<Rightarrow> proc_status \<Rightarrow> bool" where
  "less_eq_proc_status a b \<longleftrightarrow> status_code a \<le> status_code b"

definition less_proc_status :: "proc_status \<Rightarrow> proc_status \<Rightarrow> bool" where
  "less_proc_status a b \<longleftrightarrow> status_code a < status_code b"

instance
proof
  fix a b :: proc_status
  show "a \<le> b \<Longrightarrow> b \<le> a \<Longrightarrow> a = b"
    by (cases a; cases b) (auto simp: less_eq_proc_status_def)
qed (auto simp: less_eq_proc_status_def less_proc_status_def)

end

record regs =
  r_gs :: u32
  r_fs :: u32
  r_es :: u32
  r_ds :: u32
  r_edi :: u32
  r_esi :: u32
  r_ebp :: u32
  r_esp :: u32
  r_ebx :: u32
  r_edx :: u32
  r_ecx :: u32
  r_eax :: u32
  r_eip :: u32
  r_cs :: u32
  r_eflags :: u32
  r_user_esp :: u32
  r_ss :: u32

record process =
  regImg :: regs
  pid :: int
  parent :: "nat option"
  p_next :: "nat option"
  priority :: int
  status :: proc_status
  tick :: int
  p_terminal :: int

text \<open>
  The part of the machine that the process functions work on. \<open>cpu_esp\<close> and \<open>cpu_eflags\<close> are the
  values of these registers where the code reads them by inline assembly.
\<close>

record kstate =
  proc_list :: "process list"
  curr_proc :: "nat option"
  curr_pid :: u32
  k_tty :: tty
  k_io :: io
  k_pit :: pit
  k_tss :: tss_entry
  k_ram :: ram
  cpu_esp :: u32
  cpu_eflags :: u32

text \<open>
  How a function of the kernel leaves: it returns a value; it loads the registers of a process and
  continues there (\<^verbatim>\<open>restart_proc\<close>); or it enters the command loop of the shell.
\<close>

datatype ('a, 's) outcome = Returns 'a 's | Switches regs 's | Shell 's

fun out_state :: "('a, 's) outcome \<Rightarrow> 's" where
  "out_state (Returns a s) = s"
| "out_state (Switches r s) = s"
| "out_state (Shell s) = s"

text \<open>What follows a call runs only if the call returns.\<close>

fun and_then ::
  "('a, 's) outcome option \<Rightarrow> ('a \<Rightarrow> 's \<Rightarrow> ('b, 's) outcome option) \<Rightarrow> ('b, 's) outcome option" where
  "and_then None f = None"
| "and_then (Some (Returns a s)) f = f a s"
| "and_then (Some (Switches r s)) f = Some (Switches r s)"
| "and_then (Some (Shell s)) f = Some (Shell s)"

abbreviation enable_k :: "'a kstate_scheme \<Rightarrow> 'a kstate_scheme" where
  "enable_k s \<equiv> s\<lparr>k_io := enable (k_io s)\<rparr>"

abbreviation disable_k :: "'a kstate_scheme \<Rightarrow> 'a kstate_scheme" where
  "disable_k s \<equiv> s\<lparr>k_io := disable (k_io s)\<rparr>"

section \<open>The table\<close>

definition upd_proc ::
  "nat \<Rightarrow> (process \<Rightarrow> process) \<Rightarrow> 'a kstate_scheme \<Rightarrow> 'a kstate_scheme" where
  "upd_proc i f s = s\<lparr>proc_list := (proc_list s)[i := f (proc_list s ! i)]\<rparr>"

definition get_proc :: "'a kstate_scheme \<Rightarrow> nat option" where
  "get_proc s = curr_proc s"

definition MAX_TICK :: int where "MAX_TICK = 1"

definition reset_time :: "nat \<Rightarrow> 'a kstate_scheme \<Rightarrow> 'a kstate_scheme" where
  "reset_time i s = upd_proc i (\<lambda>p. p\<lparr>tick := MAX_TICK\<rparr>) s"

definition sys_get_pid :: "'a kstate_scheme \<Rightarrow> int" where
  "sys_get_pid s = (case curr_proc s of None \<Rightarrow> -1 | Some i \<Rightarrow> pid (proc_list s ! i))"

definition zero_regs :: regs where
  "zero_regs = \<lparr>r_gs = 0, r_fs = 0, r_es = 0, r_ds = 0, r_edi = 0, r_esi = 0, r_ebp = 0, r_esp = 0,
     r_ebx = 0, r_edx = 0, r_ecx = 0, r_eax = 0, r_eip = 0, r_cs = 0, r_eflags = 0,
     r_user_esp = 0, r_ss = 0\<rparr>"

definition PRIOR_USER :: int where "PRIOR_USER = 1"

definition proc_init :: "'a kstate_scheme \<Rightarrow> 'a kstate_scheme" where
  "proc_init s = s\<lparr>proc_list := replicate 20
     \<lparr>regImg = zero_regs, pid = 0, parent = None, p_next = None, priority = PRIOR_USER,
      status = PROC_NEW, tick = 0, p_terminal = 0\<rparr>\<rparr>"

text \<open>The length of the list is that of the static array, \<^verbatim>\<open>MAX_PROCESS\<close>.\<close>

definition proc_alloc :: "'a kstate_scheme \<Rightarrow> nat option \<times> 'a kstate_scheme" where
  "proc_alloc s =
     (case find_first (\<lambda>i. status (proc_list s ! i) = PROC_NEW) 0 (length (proc_list s)) of
        None \<Rightarrow> (None, s)
      | Some i \<Rightarrow>
          let s = upd_proc i (\<lambda>p. p\<lparr>status := PROC_READY\<rparr>) s;
              s = s\<lparr>curr_pid := curr_pid s + 1\<rparr>;
              s = upd_proc i (\<lambda>p. p\<lparr>pid := sint (curr_pid s)\<rparr>) s
          in (Some i, s))"

definition PROC_SIZE :: u32 where "PROC_SIZE = 0x10000"

text \<open>\<open>return_addr\<close> is the address of \<^verbatim>\<open>user_process_return\<close>.\<close>

definition proc_create ::
  "u32 \<Rightarrow> u32 \<Rightarrow> u32 \<Rightarrow> u32 \<Rightarrow> 'a kstate_scheme \<Rightarrow> (nat \<times> 'a kstate_scheme) option" where
  "proc_create return_addr sel_c sel_d addr s =
     do { let s = disable_k s;
          let (r, s) = proc_alloc s;
          i \<leftarrow> r;
          let s = upd_proc i (\<lambda>p. p\<lparr>regImg := (regImg p)\<lparr>r_cs := sel_c\<rparr>\<rparr>) s;
          let s = upd_proc i (\<lambda>p. p\<lparr>regImg := (regImg p)\<lparr>r_ss := sel_d, r_gs := sel_d,
                    r_fs := sel_d, r_es := sel_d, r_ds := sel_d\<rparr>\<rparr>) s;
          let s = upd_proc i (\<lambda>p. p\<lparr>regImg := (regImg p)\<lparr>r_eflags := cpu_eflags s OR 0x200\<rparr>\<rparr>) s;
          let s = upd_proc i (\<lambda>p. p\<lparr>regImg := (regImg p)\<lparr>r_eip := addr\<rparr>\<rparr>) s;
          let s = upd_proc i (\<lambda>p. p\<lparr>regImg := (regImg p)\<lparr>r_user_esp := addr + PROC_SIZE,
                    r_ebp := addr + PROC_SIZE, r_esp := addr + PROC_SIZE\<rparr>\<rparr>) s;
          let s = reset_time i s;
          let stack = r_user_esp (regImg (proc_list s ! i)) - 4;
          let s = s\<lparr>k_ram := ram_store32 (k_ram s) (unat stack) return_addr\<rparr>;
          let s = upd_proc i (\<lambda>p. p\<lparr>regImg := (regImg p)\<lparr>r_user_esp := stack\<rparr>\<rparr>) s;
          n \<leftarrow> get_current_terminal (k_tty s);
          let s = upd_proc i (\<lambda>p. p\<lparr>p_terminal := n\<rparr>) s;
          Some (i, s) }"

section \<open>Scheduling\<close>

text \<open>The search starts behind the process that is running, at index 0 if there is none.\<close>

definition proc_pick :: "'a kstate_scheme \<Rightarrow> nat option" where
  "proc_pick s =
     (let n = length (proc_list s);
          curr_index = find_first (\<lambda>i. status (proc_list s ! i) = PROC_RUNNING) 0 n;
          start = (case curr_index of None \<Rightarrow> 0 | Some c \<Rightarrow> Suc c)
      in case find_first (\<lambda>i. status (proc_list s ! ((i + start) mod n)) = PROC_READY) 0 n of
           Some i \<Rightarrow> Some ((i + start) mod n)
         | None \<Rightarrow> curr_index)"

text \<open>The registers as \<^verbatim>\<open>save_proc\<close> stores them.\<close>

definition saved_regs :: "regs \<Rightarrow> regs" where
  "saved_regs r = r\<lparr>r_ds := r_ds r AND 0xFFFF, r_es := r_es r AND 0xFFFF,
     r_fs := r_fs r AND 0xFFFF, r_gs := r_gs r AND 0xFFFF\<rparr>"

definition save_proc :: "regs \<Rightarrow> 'a kstate_scheme \<Rightarrow> 'a kstate_scheme" where
  "save_proc r s =
     (case curr_proc s of
        None \<Rightarrow> s
      | Some c \<Rightarrow> upd_proc c (\<lambda>p. p\<lparr>regImg := saved_regs r\<rparr>) s)"

text \<open>The interrupt flag after \<^verbatim>\<open>restart_proc\<close> is the one of the flags it loads.\<close>

definition proc_switch ::
  "nat \<Rightarrow> 'a kstate_scheme \<Rightarrow> (unit, 'a kstate_scheme) outcome option" where
  "proc_switch pp s =
     do { s \<leftarrow>
            (if curr_pid s \<noteq> 0 then
               Some (case curr_proc s of
                       None \<Rightarrow> s
                     | Some c \<Rightarrow> if status (proc_list s ! c) = PROC_RUNNING
                                then upd_proc c (\<lambda>p. p\<lparr>status := PROC_READY\<rparr>) s else s)
             else do { t \<leftarrow> clear_screen (k_tty s); Some (s\<lparr>k_tty := t\<rparr>) });
          let s = reset_time pp s;
          let s = upd_proc pp (\<lambda>p. p\<lparr>status := PROC_RUNNING\<rparr>) s;
          let s = s\<lparr>curr_proc := Some pp\<rparr>;
          t \<leftarrow> set_tmp_terminal (p_terminal (proc_list s ! pp)) (k_tty s);
          let s = s\<lparr>k_tty := t\<rparr>;
          let s = s\<lparr>k_tss := tss_set_stack KERNEL_DS (cpu_esp s) (k_tss s)\<rparr>;
          let s = s\<lparr>k_io := interruptdone 0 (k_io s)\<rparr>;
          let r = regImg (proc_list s ! pp);
          Some (Switches r (s\<lparr>k_io := (k_io s)\<lparr>if_flag := bit (r_eflags r) 9\<rparr>\<rparr>)) }"

definition schedule_proc :: "'a kstate_scheme \<Rightarrow> (unit, 'a kstate_scheme) outcome option" where
  "schedule_proc s =
     (case proc_pick s of None \<Rightarrow> Some (Returns () s) | Some pp \<Rightarrow> proc_switch pp s)"

text \<open>The end of an interrupt, as the last act of the handler.\<close>

abbreviation done_k :: "'a kstate_scheme \<Rightarrow> 'a kstate_scheme" where
  "done_k s \<equiv> s\<lparr>k_io := interruptdone 0 (k_io s)\<rparr>"

definition pit_handler_main ::
  "regs \<Rightarrow> 'a kstate_scheme \<Rightarrow> (unit, 'a kstate_scheme) outcome option" where
  "pit_handler_main r s =
     (let s = s\<lparr>k_pit := (k_pit s)\<lparr>pit_ticks := pit_ticks (k_pit s) + 1\<rparr>\<rparr>
      in case curr_proc s of
           None \<Rightarrow>
             (if curr_pid s \<noteq> 0
              then and_then (schedule_proc s) (\<lambda>_ s. Some (Returns () (done_k s)))
              else Some (Returns () (done_k s)))
         | Some c \<Rightarrow>
             (if 0 < tick (proc_list s ! c)
              then Some (Returns () (done_k (upd_proc c (\<lambda>p. p\<lparr>tick := tick p - 1\<rparr>) s)))
              else and_then (schedule_proc (save_proc r s))
                     (\<lambda>_ s. Some (Returns () (done_k s)))))"

section \<open>Creating, waiting, ending\<close>

text \<open>The part that \<^verbatim>\<open>do_fork\<close> and \<^verbatim>\<open>do_thread_create\<close> share: the registers of the current
  process with the stack moved by 256 bytes for each process number, and the copy of the stack.\<close>

definition copy_context :: "nat \<Rightarrow> nat \<Rightarrow> 'a kstate_scheme \<Rightarrow> 'a kstate_scheme" where
  "copy_context child cur s =
     (let off = word_of_int (pid (proc_list s ! child) * 0x100);
          r = regImg (proc_list s ! cur);
          s = upd_proc child (\<lambda>p. p\<lparr>regImg :=
                r\<lparr>r_ebp := r_ebp r + off, r_user_esp := r_user_esp r + off\<rparr>\<rparr>) s;
          r = regImg (proc_list s ! cur);
          r' = regImg (proc_list s ! child)
      in s\<lparr>k_ram := ram_memcpy (k_ram s) (unat (r_user_esp r')) (unat (r_user_esp r))
              (unat ((r_ebp r - r_user_esp r) * 2))\<rparr>)"

definition set_child :: "nat \<Rightarrow> nat \<Rightarrow> 'a kstate_scheme \<Rightarrow> 'a kstate_scheme" where
  "set_child child cur s =
     (let s = upd_proc child (\<lambda>p. p\<lparr>regImg := (regImg p)\<lparr>r_eax := 0\<rparr>\<rparr>) s;
          s = upd_proc child (\<lambda>p. p\<lparr>parent := Some cur\<rparr>) s;
          s = upd_proc child (\<lambda>p. p\<lparr>status := PROC_READY\<rparr>) s
      in reset_time child s)"

definition do_fork :: "'a kstate_scheme \<Rightarrow> (int \<times> 'a kstate_scheme) option" where
  "do_fork s =
     (let s = disable_k s
      in case proc_alloc s of
           (None, s) \<Rightarrow> Some (-1, enable_k s)
         | (Some child, s) \<Rightarrow>
             do { cur \<leftarrow> curr_proc s;
                  let s = set_child child cur (copy_context child cur s);
                  Some (pid (proc_list s ! child), s) })"

definition wakeup :: "u8 \<Rightarrow> 'a kstate_scheme \<Rightarrow> (unit, 'a kstate_scheme) outcome option" where
  "wakeup p s =
     (let s = disable_k s
      in case find_first (\<lambda>i. pid (proc_list s ! i) = uint p \<and> status (proc_list s ! i) = PROC_WAITING)
                0 (length (proc_list s)) of
           Some i \<Rightarrow>
             and_then (schedule_proc (upd_proc i (\<lambda>p. p\<lparr>status := PROC_READY\<rparr>) s))
               (\<lambda>_ s. Some (Returns () (enable_k s)))
         | None \<Rightarrow> Some (Returns () (enable_k s)))"

definition do_wait :: "'a kstate_scheme \<Rightarrow> (unit, 'a kstate_scheme) outcome option" where
  "do_wait s =
     (let s = disable_k s
      in do { c \<leftarrow> curr_proc s;
              and_then (schedule_proc (upd_proc c (\<lambda>p. p\<lparr>status := PROC_WAITING\<rparr>) s))
                (\<lambda>_ s. Some (Returns () (enable_k s))) })"

definition do_exit :: "'a kstate_scheme \<Rightarrow> (unit, 'a kstate_scheme) outcome option" where
  "do_exit s =
     (let s = disable_k s
      in do { c \<leftarrow> curr_proc s;
              let s = upd_proc c (\<lambda>p. p\<lparr>status := PROC_TERMINATED\<rparr>) s;
              and_then
                (case parent (proc_list s ! c) of
                   None \<Rightarrow> Some (Returns () s)
                 | Some q \<Rightarrow> wakeup (word_of_int (pid (proc_list s ! q))) s)
                (\<lambda>_ s. Some (Returns () (enable_k s))) })"

definition kill :: "u8 \<Rightarrow> 'a kstate_scheme \<Rightarrow> int \<times> 'a kstate_scheme" where
  "kill p s =
     (let s = disable_k s
      in case find_first (\<lambda>i. pid (proc_list s ! i) = uint p) 0 (length (proc_list s)) of
           Some i \<Rightarrow> (0, enable_k (upd_proc i (\<lambda>p. p\<lparr>status := PROC_TERMINATED\<rparr>) s))
         | None \<Rightarrow> (-1, enable_k s))"

section \<open>Access to the table\<close>

lemma upd_proc_simps [simp]:
  "proc_list (upd_proc i f s) = (proc_list s)[i := f (proc_list s ! i)]"
  "curr_proc (upd_proc i f s) = curr_proc s" "curr_pid (upd_proc i f s) = curr_pid s"
  "k_tty (upd_proc i f s) = k_tty s" "k_io (upd_proc i f s) = k_io s"
  "k_pit (upd_proc i f s) = k_pit s" "k_tss (upd_proc i f s) = k_tss s"
  "k_ram (upd_proc i f s) = k_ram s" "cpu_esp (upd_proc i f s) = cpu_esp s"
  "cpu_eflags (upd_proc i f s) = cpu_eflags s" "kstate.more (upd_proc i f s) = kstate.more s"
  by (simp_all add: upd_proc_def)

lemma upd_proc_other: "j \<noteq> i \<Longrightarrow> proc_list (upd_proc i f s) ! j = proc_list s ! j"
  by simp

section \<open>The invariant\<close>

text \<open>
  Slot \<open>i\<close> of a table in which the first \<open>n\<close> slots are taken and \<open>c\<close> is the current process.
\<close>

definition slot_ok :: "nat option \<Rightarrow> nat \<Rightarrow> nat \<Rightarrow> process \<Rightarrow> bool" where
  "slot_ok c n i p \<longleftrightarrow>
     (status p = PROC_NEW \<longleftrightarrow> n \<le> i) \<and> pid p = (if i < n then int i + 1 else 0) \<and>
     (status p = PROC_RUNNING \<longrightarrow> c = Some i) \<and> 0 \<le> p_terminal p \<and> p_terminal p < 4 \<and>
     (\<forall>q. parent p = Some q \<longrightarrow> q < n) \<and> 0 \<le> tick p \<and> tick p \<le> MAX_TICK"

definition table_ok :: "process list \<Rightarrow> nat option \<Rightarrow> nat \<Rightarrow> bool" where
  "table_ok pl c n \<longleftrightarrow> length pl = 20 \<and> n \<le> 20 \<and> (\<forall>i < 20. slot_ok c n i (pl ! i)) \<and>
     (\<forall>k. c = Some k \<longrightarrow> k < n)"

definition proc_ok0 :: "'a kstate_scheme \<Rightarrow> bool" where
  "proc_ok0 s \<longleftrightarrow> table_ok (proc_list s) (curr_proc s) (unat (curr_pid s)) \<and> tty_inv (k_tty s)"

text \<open>Between two kernel entries the current process is not in the state READY either.\<close>

definition proc_ok :: "'a kstate_scheme \<Rightarrow> bool" where
  "proc_ok s \<longleftrightarrow> proc_ok0 s \<and>
     (\<forall>k. curr_proc s = Some k \<longrightarrow> status (proc_list s ! k) \<noteq> PROC_READY)"

lemma table_ok_update:
  assumes "table_ok pl c n" and "i < 20 \<Longrightarrow> slot_ok c n i p"
  shows "table_ok (pl[i := p]) c n"
proof (cases "i < length pl")
  case True
  then show ?thesis using assms by (auto simp: table_ok_def nth_list_update)
next
  case False
  then show ?thesis using assms(1) by (simp add: list_update_beyond)
qed

lemma table_slot: "table_ok pl c n \<Longrightarrow> i < 20 \<Longrightarrow> slot_ok c n i (pl ! i)"
  by (simp add: table_ok_def)

lemma table_length: "table_ok pl c n \<Longrightarrow> length pl = 20"
  by (simp add: table_ok_def)

lemma ok_length [simp]: "proc_ok0 s \<Longrightarrow> length (proc_list s) = 20"
  by (simp add: proc_ok0_def table_ok_def)

lemma ok_slot: "proc_ok0 s \<Longrightarrow> i < 20 \<Longrightarrow> slot_ok (curr_proc s) (unat (curr_pid s)) i (proc_list s ! i)"
  by (simp add: proc_ok0_def table_ok_def)

lemma ok_curr: "proc_ok0 s \<Longrightarrow> curr_proc s = Some c \<Longrightarrow> c < unat (curr_pid s) \<and> c < 20"
  by (auto simp: proc_ok0_def table_ok_def)

lemma ok_upd:
  assumes "proc_ok0 s" and "i < 20 \<Longrightarrow> slot_ok (curr_proc s) (unat (curr_pid s)) i (f (proc_list s ! i))"
  shows "proc_ok0 (upd_proc i f s)"
  using assms by (auto simp: proc_ok0_def intro: table_ok_update)

lemma ok_frame [simp]:
  "proc_ok0 (s\<lparr>k_io := a\<rparr>) = proc_ok0 s" "proc_ok0 (s\<lparr>k_pit := b\<rparr>) = proc_ok0 s"
  "proc_ok0 (s\<lparr>k_ram := m\<rparr>) = proc_ok0 s" "proc_ok0 (s\<lparr>k_tss := d\<rparr>) = proc_ok0 s"
  "proc_ok (s\<lparr>k_io := a\<rparr>) = proc_ok s" "proc_ok (s\<lparr>k_pit := b\<rparr>) = proc_ok s"
  "proc_ok (s\<lparr>k_ram := m\<rparr>) = proc_ok s" "proc_ok (s\<lparr>k_tss := d\<rparr>) = proc_ok s"
  by (simp_all add: proc_ok_def proc_ok0_def)

section \<open>Picking\<close>

lemma cyclic_index: "(\<exists>i < n. P ((i + k) mod n)) \<longleftrightarrow> (\<exists>j < (n :: nat). P j)"
proof
  assume "\<exists>j < n. P j"
  then obtain j where j: "j < n" "P j" by blast
  let ?i = "(j + (n - k mod n)) mod n"
  have "(?i + k) mod n = (j + (n - k mod n) + k mod n) mod n"
    by (metis mod_add_left_eq mod_add_right_eq)
  also have "j + (n - k mod n) + k mod n = j + n"
    using j(1) mod_less_divisor [of n k] by linarith
  also have "(j + n) mod n = j" using j(1) by simp
  finally show "\<exists>i < n. P ((i + k) mod n)" using j by (intro exI [of _ ?i]) auto
next
  assume "\<exists>i < n. P ((i + k) mod n)"
  then show "\<exists>j < n. P j" by (metis mod_less_divisor gr_implies_not0 neq0_conv)
qed

definition runnable :: "'a kstate_scheme \<Rightarrow> nat \<Rightarrow> bool" where
  "runnable s i \<longleftrightarrow> i < length (proc_list s) \<and> status (proc_list s ! i) = PROC_READY"

lemma proc_pick_None:
  "proc_pick s = None \<longleftrightarrow>
     (\<forall>i < length (proc_list s). status (proc_list s ! i) \<notin> {PROC_READY, PROC_RUNNING})"
proof -
  let ?n = "length (proc_list s)"
  let ?c = "find_first (\<lambda>i. status (proc_list s ! i) = PROC_RUNNING) 0 ?n"
  let ?st = "case ?c of None \<Rightarrow> 0 | Some c \<Rightarrow> Suc c"
  let ?f = "find_first (\<lambda>i. status (proc_list s ! ((i + ?st) mod ?n)) = PROC_READY) 0 ?n"
  have "proc_pick s = None \<longleftrightarrow> ?f = None \<and> ?c = None"
    by (auto simp: proc_pick_def Let_def split: option.split)
  also have "?f = None \<longleftrightarrow> \<not> (\<exists>i < ?n. status (proc_list s ! ((i + ?st) mod ?n)) = PROC_READY)"
    by (auto simp: find_first_None)
  also have "\<dots> \<longleftrightarrow> \<not> (\<exists>i < ?n. status (proc_list s ! i) = PROC_READY)"
    by (subst cyclic_index [of ?n "\<lambda>j. status (proc_list s ! j) = PROC_READY"]) simp
  also have "?c = None \<longleftrightarrow> (\<forall>i < ?n. status (proc_list s ! i) \<noteq> PROC_RUNNING)"
    by (auto simp: find_first_None)
  finally show ?thesis by auto
qed

text \<open>The running process of a table, and the round-robin order from it.\<close>

lemma running_index:
  assumes "proc_ok0 s"
  shows "find_first (\<lambda>i. status (proc_list s ! i) = PROC_RUNNING) 0 20 =
    (case curr_proc s of
       None \<Rightarrow> None
     | Some c \<Rightarrow> if status (proc_list s ! c) = PROC_RUNNING then Some c else None)"
proof -
  have only: "status (proc_list s ! i) = PROC_RUNNING \<Longrightarrow> i < 20 \<Longrightarrow> curr_proc s = Some i" for i
    using ok_slot [OF assms] by (simp add: slot_ok_def)
  show ?thesis
  proof (cases "\<exists>c. curr_proc s = Some c \<and> status (proc_list s ! c) = PROC_RUNNING")
    case True
    then obtain c where c: "curr_proc s = Some c" "status (proc_list s ! c) = PROC_RUNNING" by blast
    then have "c < 20" using ok_curr [OF assms c(1)] by simp
    moreover have "\<forall>j. 0 \<le> j \<and> j < c \<longrightarrow> status (proc_list s ! j) \<noteq> PROC_RUNNING"
      using only c(1) \<open>c < 20\<close> by fastforce
    ultimately have "find_first (\<lambda>i. status (proc_list s ! i) = PROC_RUNNING) 0 20 = Some c"
      using c(2) by (simp only: find_first_Some) simp
    then show ?thesis using c by simp
  next
    case False
    then have "find_first (\<lambda>i. status (proc_list s ! i) = PROC_RUNNING) 0 20 = None"
      unfolding find_first_None using only by blast
    then show ?thesis using False by (auto split: option.split)
  qed
qed

lemma proc_pick_Some:
  assumes "proc_ok0 s" "proc_pick s = Some i"
  shows "i < 20" "status (proc_list s ! i) \<in> {PROC_READY, PROC_RUNNING}"
    "status (proc_list s ! i) = PROC_RUNNING \<Longrightarrow> \<forall>j < 20. status (proc_list s ! j) \<noteq> PROC_READY"
proof -
  have len: "length (proc_list s) = 20" using assms(1) by simp
  let ?c = "find_first (\<lambda>i. status (proc_list s ! i) = PROC_RUNNING) 0 20"
  let ?st = "case ?c of None \<Rightarrow> 0 | Some c \<Rightarrow> Suc c"
  let ?f = "find_first (\<lambda>i. status (proc_list s ! ((i + ?st) mod 20)) = PROC_READY) 0 20"
  have "proc_pick s = (case ?f of Some i \<Rightarrow> Some ((i + ?st) mod 20) | None \<Rightarrow> ?c)"
    by (simp add: proc_pick_def Let_def len)
  then consider (ready) k where "?f = Some k" "i = (k + ?st) mod 20" | (run) "?f = None" "?c = Some i"
    using assms(2) by (auto split: option.splits)
  then have "i < 20 \<and> status (proc_list s ! i) \<in> {PROC_READY, PROC_RUNNING} \<and>
      (status (proc_list s ! i) = PROC_RUNNING \<longrightarrow> (\<forall>j < 20. status (proc_list s ! j) \<noteq> PROC_READY))"
  proof cases
    case ready
    then show ?thesis by (simp add: find_first_Some)
  next
    case run
    have "\<not> (\<exists>i < 20. status (proc_list s ! ((i + ?st) mod 20)) = PROC_READY)"
      using run(1) by (auto simp: find_first_None)
    then have "\<not> (\<exists>j < 20. status (proc_list s ! j) = PROC_READY)"
      by (subst (asm) cyclic_index [of 20 "\<lambda>j. status (proc_list s ! j) = PROC_READY"])
    then show ?thesis using run(2) by (auto simp: find_first_Some)
  qed
  then show "i < 20" "status (proc_list s ! i) \<in> {PROC_READY, PROC_RUNNING}"
    "status (proc_list s ! i) = PROC_RUNNING \<Longrightarrow> \<forall>j < 20. status (proc_list s ! j) \<noteq> PROC_READY"
    by auto
qed


section \<open>What the operations do to the table\<close>

lemma sint_small: "unat (w :: u32) \<le> 20 \<Longrightarrow> sint w = int (unat w)"
proof -
  assume "unat w \<le> 20"
  then have "int (unat w) \<le> 20" by linarith
  then have "uint w \<le> 20" by simp
  then have "sint w = uint w"
    unfolding sint_uint by (intro signed_take_bit_int_eq_self) (auto intro: order_trans [of _ 0])
  then show ?thesis by simp
qed

lemma proc_alloc_ok:
  assumes "proc_ok0 s"
  shows "unat (curr_pid s) = 20 \<Longrightarrow> proc_alloc s = (None, s)"
    and "unat (curr_pid s) < 20 \<Longrightarrow> proc_alloc s =
      (Some (unat (curr_pid s)), upd_proc (unat (curr_pid s))
         (\<lambda>p. p\<lparr>status := PROC_READY, pid := int (unat (curr_pid s)) + 1\<rparr>)
         (s\<lparr>curr_pid := curr_pid s + 1\<rparr>))"
proof -
  let ?n = "unat (curr_pid s)"
  have new: "status (proc_list s ! i) = PROC_NEW \<longleftrightarrow> ?n \<le> i" if "i < 20" for i
    using ok_slot [OF assms that] by (simp add: slot_ok_def)
  show "proc_alloc s = (None, s)" if "?n = 20"
  proof -
    have "find_first (\<lambda>i. status (proc_list s ! i) = PROC_NEW) 0 20 = None"
      unfolding find_first_None using new that by auto
    then show ?thesis by (simp add: proc_alloc_def assms)
  qed
  show "proc_alloc s = (Some ?n, upd_proc ?n
         (\<lambda>p. p\<lparr>status := PROC_READY, pid := int ?n + 1\<rparr>) (s\<lparr>curr_pid := curr_pid s + 1\<rparr>))"
    if "?n < 20"
  proof -
    have "find_first (\<lambda>i. status (proc_list s ! i) = PROC_NEW) 0 20 = Some ?n"
      unfolding find_first_Some using new that by auto
    moreover have "unat (curr_pid s + 1) = ?n + 1"
      using that by (simp add: unat_word_ariths)
    then have "sint (curr_pid s + 1) = int ?n + 1" using that sint_small [of "curr_pid s + 1"] by simp
    ultimately show ?thesis using that
      by (simp add: proc_alloc_def assms upd_proc_def Let_def)
  qed
qed

lemma proc_alloc_inv:
  assumes "proc_ok0 s" "proc_alloc s = (Some i, s')"
  shows "proc_ok0 s'" "i = unat (curr_pid s)" "i < 20" "unat (curr_pid s') = Suc i"
    "curr_proc s' = curr_proc s" "k_tty s' = k_tty s" "k_ram s' = k_ram s" "k_io s' = k_io s"
    "proc_list s' = (proc_list s)[i := (proc_list s ! i)\<lparr>status := PROC_READY, pid := int i + 1\<rparr>]"
    "kstate.more s' = kstate.more s" "cpu_eflags s' = cpu_eflags s"
proof -
  let ?n = "unat (curr_pid s)"
  have n: "?n < 20"
    using assms proc_alloc_ok(1) [OF assms(1)] by (fastforce simp: proc_ok0_def table_ok_def)
  then have e: "i = ?n" "s' = upd_proc ?n
         (\<lambda>p. p\<lparr>status := PROC_READY, pid := int ?n + 1\<rparr>) (s\<lparr>curr_pid := curr_pid s + 1\<rparr>)"
    using assms(2) proc_alloc_ok(2) [OF assms(1)] by auto
  have n1: "unat (curr_pid s + 1) = Suc ?n" using n by (simp add: unat_word_ariths)
  show "i = ?n" "i < 20" "unat (curr_pid s') = Suc i"
    "curr_proc s' = curr_proc s" "k_tty s' = k_tty s" "k_ram s' = k_ram s" "k_io s' = k_io s"
    "proc_list s' = (proc_list s)[i := (proc_list s ! i)\<lparr>status := PROC_READY, pid := int i + 1\<rparr>]"
    "kstate.more s' = kstate.more s" "cpu_eflags s' = cpu_eflags s"
    using e n n1 by simp_all
  have "slot_ok (curr_proc s) (Suc ?n) j (proc_list s' ! j)" if "j < 20" for j
    using ok_slot [OF assms(1) that] e that assms(1)
    by (auto simp: slot_ok_def nth_list_update less_Suc_eq)
  then show "proc_ok0 s'"
    using assms(1) n n1 e by (auto simp: proc_ok0_def table_ok_def)
qed

definition demoted :: "process list \<Rightarrow> nat option \<Rightarrow> process list" where
  "demoted pl c =
     (case c of
        None \<Rightarrow> pl
      | Some k \<Rightarrow> if status (pl ! k) = PROC_RUNNING then pl[k := (pl ! k)\<lparr>status := PROC_READY\<rparr>] else pl)"

lemma demoted_nth:
  "i < length pl \<Longrightarrow> demoted pl c ! i =
     (if c = Some i \<and> status (pl ! i) = PROC_RUNNING then (pl ! i)\<lparr>status := PROC_READY\<rparr> else pl ! i)"
  by (cases c; cases "c = Some i") (auto simp: demoted_def nth_list_update)

lemma length_demoted [simp]: "length (demoted pl c) = length pl"
  by (auto simp: demoted_def split: option.split)

text \<open>The state that \<^verbatim>\<open>proc_switch\<close> leaves.\<close>

definition switched :: "nat \<Rightarrow> 'a kstate_scheme \<Rightarrow> 'a kstate_scheme" where
  "switched pp s = s\<lparr>
     proc_list := (demoted (proc_list s) (curr_proc s))
       [pp := (proc_list s ! pp)\<lparr>status := PROC_RUNNING, tick := MAX_TICK\<rparr>],
     curr_proc := Some pp,
     k_tty := (k_tty s)\<lparr>tmp_terminal := Some (nat (p_terminal (proc_list s ! pp)))\<rparr>,
     k_tss := tss_set_stack KERNEL_DS (cpu_esp s) (k_tss s),
     k_io := (interruptdone 0 (k_io s))\<lparr>if_flag := bit (r_eflags (regImg (proc_list s ! pp))) 9\<rparr>\<rparr>"

lemma proc_switch_eq:
  assumes "proc_ok0 s" "pp < 20" "status (proc_list s ! pp) \<noteq> PROC_NEW"
  shows "proc_switch pp s = Some (Switches (regImg (proc_list s ! pp)) (switched pp s))"
proof -
  have slot: "slot_ok (curr_proc s) (unat (curr_pid s)) pp (proc_list s ! pp)"
    by (rule ok_slot [OF assms(1,2)])
  then have "pp < unat (curr_pid s)" using assms(3) by (simp add: slot_ok_def)
  then have nz: "curr_pid s \<noteq> 0" by auto
  have len: "length (terminal_list (k_tty s)) = 4"
    using assms(1) by (auto simp: proc_ok0_def tty_inv_def elim: tty_okE)
  have trm: "set_tmp_terminal (p_terminal (proc_list s ! pp)) (k_tty s) =
      Some ((k_tty s)\<lparr>tmp_terminal := Some (nat (p_terminal (proc_list s ! pp)))\<rparr>)"
    using slot len by (simp add: set_tmp_terminal_def slot_ok_def nat_less_iff)
  let ?d = "s\<lparr>proc_list := demoted (proc_list s) (curr_proc s)\<rparr>"
  have dem: "(case curr_proc s of None \<Rightarrow> s
      | Some c \<Rightarrow> if status (proc_list s ! c) = PROC_RUNNING
                 then upd_proc c (\<lambda>p. p\<lparr>status := PROC_READY\<rparr>) s else s) = ?d"
    by (auto simp: demoted_def upd_proc_def split: option.split)
  have same: "regImg (demoted (proc_list s) (curr_proc s) ! pp) = regImg (proc_list s ! pp)"
    "p_terminal (demoted (proc_list s) (curr_proc s) ! pp) = p_terminal (proc_list s ! pp)"
    "(demoted (proc_list s) (curr_proc s) ! pp)\<lparr>tick := MAX_TICK, status := PROC_RUNNING\<rparr> =
      (proc_list s ! pp)\<lparr>status := PROC_RUNNING, tick := MAX_TICK\<rparr>"
    using assms by (simp_all add: demoted_nth)
  show ?thesis
    using nz trm same assms(1,2)
    by (simp add: proc_switch_def dem reset_time_def upd_proc_def switched_def Let_def)
qed

lemma switched_nth:
  "i < length (proc_list s) \<Longrightarrow> proc_list (switched pp s) ! i =
     (if i = pp then (proc_list s ! pp)\<lparr>status := PROC_RUNNING, tick := MAX_TICK\<rparr>
      else if curr_proc s = Some i \<and> status (proc_list s ! i) = PROC_RUNNING
      then (proc_list s ! i)\<lparr>status := PROC_READY\<rparr> else proc_list s ! i)"
  by (auto simp: switched_def nth_list_update demoted_nth)

lemma switched_ok:
  assumes "proc_ok0 s" "pp < 20" "status (proc_list s ! pp) \<noteq> PROC_NEW"
  shows "proc_ok (switched pp s)"
proof -
  have slot: "slot_ok (curr_proc s) (unat (curr_pid s)) pp (proc_list s ! pp)"
    by (rule ok_slot [OF assms(1,2)])
  then have pp: "pp < unat (curr_pid s)" using assms(3) by (simp add: slot_ok_def)
  have "slot_ok (Some pp) (unat (curr_pid s)) i (proc_list (switched pp s) ! i)" if i: "i < 20" for i
  proof (cases "i = pp")
    case True
    then show ?thesis using slot pp assms by (simp add: switched_nth slot_ok_def MAX_TICK_def)
  next
    case False
    then show ?thesis
      using ok_slot [OF assms(1) i] i assms(1) by (auto simp: switched_nth slot_ok_def)
  qed
  moreover have "tty_inv (k_tty (switched pp s))"
    using assms(1) slot by (auto simp: proc_ok0_def switched_def slot_ok_def intro!: tty_inv_terminals(1))
  moreover have "curr_proc (switched pp s) = Some pp" "curr_pid (switched pp s) = curr_pid s"
    "length (proc_list (switched pp s)) = 20"
    using assms(1) by (simp_all add: switched_def)
  moreover have "status (proc_list (switched pp s) ! pp) = PROC_RUNNING"
    using assms(1,2) by (simp add: switched_nth)
  moreover have "unat (curr_pid s) \<le> 20" using assms(1) by (simp add: proc_ok0_def table_ok_def)
  ultimately show ?thesis
    using pp unfolding proc_ok_def proc_ok0_def table_ok_def by simp
qed


lemma schedule_eq:
  assumes "proc_ok0 s"
  shows "schedule_proc s =
    (case proc_pick s of
       None \<Rightarrow> Some (Returns () s)
     | Some pp \<Rightarrow> Some (Switches (regImg (proc_list s ! pp)) (switched pp s)))"
proof (cases "proc_pick s")
  case (Some pp)
  note p = proc_pick_Some [OF assms Some]
  then have "proc_switch pp s = Some (Switches (regImg (proc_list s ! pp)) (switched pp s))"
    by (intro proc_switch_eq assms) auto
  then show ?thesis by (simp add: schedule_proc_def Some)
qed (simp add: schedule_proc_def)

text \<open>Scheduling always leaves a state in which the invariant holds.\<close>

lemma schedule_ok:
  assumes "proc_ok0 s"
  shows "\<exists>out. schedule_proc s = Some out \<and> proc_ok (out_state out) \<and>
    (\<forall>s'. out = Returns () s' \<longrightarrow> s' = s \<and> (\<forall>i < 20. status (proc_list s ! i) \<noteq> PROC_READY)) \<and>
    (\<forall>s'. out \<noteq> Shell s')"
proof (cases "proc_pick s")
  case None
  then have none: "\<forall>i < 20. status (proc_list s ! i) \<notin> {PROC_READY, PROC_RUNNING}"
    using proc_pick_None [of s] assms by simp
  then have "proc_ok s" using assms ok_curr [OF assms] by (auto simp: proc_ok_def)
  then show ?thesis using none by (simp add: schedule_eq [OF assms] None)
next
  case (Some pp)
  have "proc_ok (switched pp s)"
    using proc_pick_Some [OF assms Some] by (intro switched_ok assms) auto
  then show ?thesis by (simp add: schedule_eq [OF assms] Some)
qed

lemma and_then_schedule:
  assumes "proc_ok0 s" and "\<And>s'. proc_ok s' \<Longrightarrow> proc_ok (g s')"
  shows "\<exists>out. and_then (schedule_proc s) (\<lambda>_ s. Some (Returns () (g s))) = Some out \<and> proc_ok (out_state out)"
proof -
  obtain o1 where o1: "schedule_proc s = Some o1" "proc_ok (out_state o1)"
    using schedule_ok [OF assms(1)] by blast
  then show ?thesis by (cases o1) (auto intro: assms(2))
qed

lemma status_upd_ok:
  assumes "proc_ok0 s" "i < 20" "status (proc_list s ! i) \<noteq> PROC_NEW"
    and "v \<in> {PROC_READY, PROC_WAITING, PROC_TERMINATED}"
  shows "proc_ok0 (upd_proc i (\<lambda>p. p\<lparr>status := v\<rparr>) s)"
  using ok_slot [OF assms(1,2)] assms(3,4) by (intro ok_upd assms(1)) (auto simp: slot_ok_def)

lemma ok_taken:
  assumes "proc_ok0 s" "curr_proc s = Some c"
  shows "c < 20" "status (proc_list s ! c) \<noteq> PROC_NEW" "pid (proc_list s ! c) = int c + 1"
  using ok_curr [OF assms] ok_slot [OF assms(1), of c] by (auto simp: slot_ok_def)

lemma proc_ok_ok0: "proc_ok s \<Longrightarrow> proc_ok0 s"
  by (simp add: proc_ok_def)

lemma save_proc_ok:
  assumes "proc_ok s"
  shows "proc_ok (save_proc r s)"
proof (cases "curr_proc s")
  case (Some c)
  note c = ok_taken [OF proc_ok_ok0 [OF assms] Some]
  have "proc_ok0 (save_proc r s)"
    using Some ok_slot [OF proc_ok_ok0 [OF assms] c(1)] proc_ok_ok0 [OF assms]
    by (simp add: save_proc_def) (intro ok_upd; simp add: slot_ok_def)
  then show ?thesis using assms Some c(1) by (simp add: proc_ok_def save_proc_def)
qed (simp add: save_proc_def assms)

lemma pit_handler_ok:
  assumes "proc_ok s"
  shows "\<exists>out. pit_handler_main r s = Some out \<and> proc_ok (out_state out)"
proof -
  let ?s = "s\<lparr>k_pit := (k_pit s)\<lparr>pit_ticks := pit_ticks (k_pit s) + 1\<rparr>\<rparr>"
  have ok: "proc_ok ?s" using assms by simp
  show ?thesis
  proof (cases "curr_proc s")
    case None
    then show ?thesis
      using and_then_schedule [OF proc_ok_ok0 [OF ok], of "\<lambda>s. s\<lparr>k_io := interruptdone 0 (k_io s)\<rparr>"] assms
      by (simp add: pit_handler_main_def Let_def)
  next
    case (Some c)
    note c = ok_taken [OF proc_ok_ok0 [OF assms] Some]
    show ?thesis
    proof (cases "0 < tick (proc_list s ! c)")
      case True
      have "proc_ok0 (upd_proc c (\<lambda>p. p\<lparr>tick := tick p - 1\<rparr>) ?s)"
        using ok_slot [OF proc_ok_ok0 [OF assms] c(1)] True
        by (intro ok_upd proc_ok_ok0 [OF ok]) (auto simp: slot_ok_def)
      then have "proc_ok (upd_proc c (\<lambda>p. p\<lparr>tick := tick p - 1\<rparr>) ?s)"
        using assms Some c(1) by (simp add: proc_ok_def)
      then show ?thesis using Some True by (simp add: pit_handler_main_def Let_def)
    next
      case False
      then show ?thesis
        using Some and_then_schedule [OF proc_ok_ok0 [OF save_proc_ok [OF ok, of r]],
            of "\<lambda>s. s\<lparr>k_io := interruptdone 0 (k_io s)\<rparr>"]
        by (simp add: pit_handler_main_def Let_def)
    qed
  qed
qed

lemma wakeup_ok:
  assumes "proc_ok s"
  shows "\<exists>out. wakeup p s = Some out \<and> proc_ok (out_state out)"
proof -
  let ?s = "disable_k s"
  have ok: "proc_ok0 ?s" using assms by (simp add: proc_ok_def)
  let ?f = "find_first (\<lambda>i. pid (proc_list s ! i) = uint p \<and> status (proc_list s ! i) = PROC_WAITING) 0 20"
  show ?thesis
  proof (cases ?f)
    case None
    then show ?thesis using assms by (simp add: wakeup_def proc_ok_ok0)
  next
    case (Some i)
    then have "i < 20" "status (proc_list s ! i) = PROC_WAITING" by (simp_all add: find_first_Some)
    then have "proc_ok0 (upd_proc i (\<lambda>p. p\<lparr>status := PROC_READY\<rparr>) ?s)"
      using ok by (intro status_upd_ok) auto
    from and_then_schedule [OF this, of "\<lambda>s. s\<lparr>k_io := enable (k_io s)\<rparr>"] show ?thesis
      using Some assms by (simp add: wakeup_def proc_ok_ok0)
  qed
qed

lemma do_wait_ok:
  assumes "proc_ok s" "curr_proc s = Some c"
  shows "\<exists>out. do_wait s = Some out \<and> proc_ok (out_state out)"
proof -
  have "proc_ok0 (upd_proc c (\<lambda>p. p\<lparr>status := PROC_WAITING\<rparr>) (disable_k s))"
    using ok_taken [OF proc_ok_ok0 [OF assms(1)] assms(2)] proc_ok_ok0 [OF assms(1)]
    by (intro status_upd_ok) auto
  from and_then_schedule [OF this, of "\<lambda>s. s\<lparr>k_io := enable (k_io s)\<rparr>"] show ?thesis
    using assms(2) by (simp add: do_wait_def)
qed

lemma do_exit_ok:
  assumes "proc_ok s" "curr_proc s = Some c"
  shows "\<exists>out. do_exit s = Some out \<and> proc_ok (out_state out)"
proof -
  note c = ok_taken [OF proc_ok_ok0 [OF assms(1)] assms(2)]
  let ?s = "upd_proc c (\<lambda>p. p\<lparr>status := PROC_TERMINATED\<rparr>) (disable_k s)"
  have "proc_ok0 ?s" using c proc_ok_ok0 [OF assms(1)] by (intro status_upd_ok) auto
  then have ok: "proc_ok ?s" using assms(2) c(1) proc_ok_ok0 [OF assms(1)]
    by (simp add: proc_ok_def)
  show ?thesis
  proof (cases "parent (proc_list s ! c)")
    case None
    then show ?thesis using ok assms c proc_ok_ok0 [OF assms(1)] by (simp add: do_exit_def)
  next
    case (Some q)
    obtain o1 where "wakeup (word_of_int (pid (proc_list ?s ! q))) ?s = Some o1" "proc_ok (out_state o1)"
      using wakeup_ok [OF ok] by blast
    then show ?thesis
      using Some assms c proc_ok_ok0 [OF assms(1)] by (cases o1) (auto simp: do_exit_def)
  qed
qed


lemma proc_alloc_fst:
  "fst (proc_alloc s) =
    find_first (\<lambda>i. status (proc_list s ! i) = PROC_NEW) 0 (length (proc_list s))"
  by (simp add: proc_alloc_def Let_def split: option.split)

text \<open>The table of processes is a table of slots in the sense of the interface: nothing ever
  gives a slot back, so what the interface proves limits the number of processes.\<close>

interpretation proc_slots: slot_table proc_list "\<lambda>p. status p = PROC_NEW" proc_alloc
proof
  fix s s' :: "'a kstate_scheme"
  assume a: "proc_alloc s = (None, s')"
  then have f: "find_first (\<lambda>i. status (proc_list s ! i) = PROC_NEW) 0 (length (proc_list s)) = None"
    using proc_alloc_fst [of s] by simp
  have "s' = s" using a f by (simp add: proc_alloc_def)
  moreover have "status p \<noteq> PROC_NEW" if "p \<in> set (proc_list s)" for p
    using f that unfolding find_first_None in_set_conv_nth by blast
  ultimately show "s' = s \<and> (\<forall>p \<in> set (proc_list s). \<not> status p = PROC_NEW)" by blast
next
  fix s s' :: "'a kstate_scheme" and i
  assume a: "proc_alloc s = (Some i, s')"
  then have f: "find_first (\<lambda>i. status (proc_list s ! i) = PROC_NEW) 0 (length (proc_list s)) = Some i"
    using proc_alloc_fst [of s] by simp
  then have "i < length (proc_list s)" by (simp add: find_first_Some)
  moreover have "proc_list s' = (proc_list s)
      [i := (proc_list s ! i)\<lparr>status := PROC_READY, pid := sint (curr_pid s + 1)\<rparr>]"
    using a f calculation by (auto simp: proc_alloc_def Let_def)
  ultimately show "i < length (proc_list s) \<and> status (proc_list s ! i) = PROC_NEW \<and>
      (\<forall>j < i. \<not> status (proc_list s ! j) = PROC_NEW) \<and>
      (\<exists>p. \<not> status p = PROC_NEW \<and> proc_list s' = (proc_list s)[i := p])"
    using f by (auto simp: find_first_Some
        intro!: exI [of _ "(proc_list s ! i)\<lparr>status := PROC_READY, pid := sint (curr_pid s + 1)\<rparr>"])
qed

section \<open>Fork\<close>

text \<open>The registers of a child: the stack moved, 0 in \<open>eax\<close>.\<close>

definition child_regs :: "nat \<Rightarrow> regs \<Rightarrow> regs" where
  "child_regs n r = r\<lparr>r_ebp := r_ebp r + of_nat ((n + 1) * 0x100),
     r_user_esp := r_user_esp r + of_nat ((n + 1) * 0x100), r_eax := 0\<rparr>"

definition child_ram :: "nat \<Rightarrow> regs \<Rightarrow> ram \<Rightarrow> ram" where
  "child_ram n r m = ram_memcpy m (unat (r_user_esp r + of_nat ((n + 1) * 0x100)))
     (unat (r_user_esp r)) (unat ((r_ebp r - r_user_esp r) * 2))"

definition forked :: "nat \<Rightarrow> 'a kstate_scheme \<Rightarrow> 'a kstate_scheme" where
  "forked c s =
     (let n = unat (curr_pid s)
      in (disable_k s)\<lparr>curr_pid := curr_pid s + 1,
           k_ram := child_ram n (regImg (proc_list s ! c)) (k_ram s),
           proc_list := (proc_list s)[n := (proc_list s ! n)\<lparr>pid := int n + 1, regImg :=
               child_regs n (regImg (proc_list s ! c)), parent := Some c,
               status := PROC_READY, tick := MAX_TICK\<rparr>]\<rparr>)"

lemma child_offset: "word_of_int ((int n + 1) * 0x100) = (of_nat ((n + 1) * 0x100) :: u32)"
proof -
  have "(int n + 1) * 0x100 = int ((n + 1) * 0x100)" by simp
  then show ?thesis by (simp only: of_int_of_nat_eq)
qed

lemma alloc_child_eq:
  assumes ok: "proc_ok s" and c: "curr_proc s = Some c" and n: "unat (curr_pid s) < 20"
    and a: "proc_alloc (disable_k s) = (Some i, s1)"
  shows "i = unat (curr_pid s) \<and> curr_proc s1 = Some c \<and>
    set_child i c (copy_context i c s1) = forked c s"
proof -
  let ?n = "unat (curr_pid s)"
  have ok0: "proc_ok0 (disable_k s)" using ok by (simp add: proc_ok_def)
  note c' = ok_curr [OF proc_ok_ok0 [OF ok] c]
  then have ne: "c \<noteq> ?n" by simp
  have s1: "i = ?n" "s1 = upd_proc ?n (\<lambda>p. p\<lparr>status := PROC_READY, pid := int ?n + 1\<rparr>)
      ((disable_k s)\<lparr>curr_pid := curr_pid s + 1\<rparr>)"
    using a proc_alloc_ok(2) [OF ok0] n by auto
  have len: "length (proc_list s) = 20" using ok by (simp add: proc_ok_def)
  show ?thesis
    using ne c len n unfolding s1
    by (simp add: copy_context_def set_child_def reset_time_def upd_proc_def forked_def child_offset
        child_regs_def child_ram_def Let_def add.commute)
qed

lemma do_fork_eq:
  assumes "proc_ok s" "curr_proc s = Some c"
  shows "do_fork s = (if unat (curr_pid s) = 20 then Some (-1, enable_k (disable_k s))
     else Some (int (unat (curr_pid s)) + 1, forked c s))"
proof -
  let ?n = "unat (curr_pid s)"
  have ok0: "proc_ok0 (disable_k s)" and len: "length (proc_list s) = 20"
    using assms(1) by (simp_all add: proc_ok_def)
  have "?n \<le> 20" using assms(1) by (simp add: proc_ok_def proc_ok0_def table_ok_def)
  then consider "?n = 20" | "?n < 20" by linarith
  then show ?thesis
  proof cases
    case 1
    then show ?thesis using proc_alloc_ok(1) [OF ok0] by (simp add: do_fork_def)
  next
    case 2
    obtain s1 where a: "proc_alloc (disable_k s) = (Some ?n, s1)"
      using proc_alloc_ok(2) [OF ok0] 2 by simp
    have "pid (proc_list (forked c s) ! ?n) = int ?n + 1"
      using 2 len by (simp add: forked_def Let_def)
    then show ?thesis
      using alloc_child_eq [OF assms 2 a] 2 by (simp add: do_fork_def a)
  qed
qed

lemma forked_ok:
  assumes "proc_ok s" "curr_proc s = Some c" "unat (curr_pid s) < 20"
  shows "proc_ok (forked c s)"
proof -
  let ?n = "unat (curr_pid s)"
  have ok0: "proc_ok0 s" and len: "length (proc_list s) = 20"
    using assms(1) by (simp_all add: proc_ok_def)
  have n1: "unat (curr_pid s + 1) = Suc ?n" using assms(3) by (simp add: unat_word_ariths)
  note c = ok_curr [OF ok0 assms(2)]
  have "slot_ok (Some c) (Suc ?n) i (proc_list (forked c s) ! i)" if "i < 20" for i
    using ok_slot [OF ok0 that] that c len assms(2)
    by (auto simp: slot_ok_def forked_def Let_def nth_list_update less_Suc_eq MAX_TICK_def)
  moreover have "status (proc_list (forked c s) ! c) = status (proc_list s ! c)"
    using c by (simp add: forked_def Let_def)
  ultimately show ?thesis
    using assms c len n1
    by (auto simp: proc_ok_def proc_ok0_def table_ok_def forked_def Let_def)
qed


section \<open>Round robin\<close>

text \<open>How many steps after \<open>c\<close> the table entry \<open>j\<close> comes, counting cyclically from 1 to 20.\<close>

definition dist :: "nat \<Rightarrow> nat \<Rightarrow> nat" where
  "dist c j = (if c < j then j - c else j + 20 - c)"

lemma cyclic_mod:
  "i < 20 \<Longrightarrow> c < 20 \<Longrightarrow> (i + Suc c) mod 20 = (if i + Suc c < 20 then i + Suc c else i + Suc c - 20)"
  by (simp add: mod_if)

lemma dist_step:
  assumes "c < 20" "j < 20" "i < dist c j - 1" "k = (i + Suc c) mod 20"
  shows "dist k j < dist c j"
proof -
  have "i < 20" using assms(1-3) by (auto simp: dist_def split: if_splits)
  then show ?thesis using assms(1-3) unfolding assms(4) cyclic_mod [OF \<open>i < 20\<close> assms(1)]
    by (auto simp: dist_def split: if_splits)
qed

lemma dist_range: "c < 20 \<Longrightarrow> j < 20 \<Longrightarrow> 1 \<le> dist c j \<and> dist c j \<le> 20"
  by (auto simp: dist_def)

lemma dist_hit: "c < 20 \<Longrightarrow> j < 20 \<Longrightarrow> (dist c j - 1 + Suc c) mod 20 = j"
  using dist_range [of c j] by (subst cyclic_mod) (auto simp: dist_def)

text \<open>The choice of \<^verbatim>\<open>proc_pick\<close> when a process runs: the first one that is ready behind it.\<close>

lemma proc_pick_running:
  assumes "proc_ok0 s" "curr_proc s = Some c" "status (proc_list s ! c) = PROC_RUNNING"
    and "j < 20" "status (proc_list s ! j) = PROC_READY"
  shows "\<exists>k. proc_pick s = Some k \<and> k < 20 \<and> status (proc_list s ! k) = PROC_READY \<and>
    (k = j \<or> dist k j < dist c j)"
proof -
  let ?P = "\<lambda>i. status (proc_list s ! ((i + Suc c) mod 20)) = PROC_READY"
  have c: "c < 20" using ok_curr [OF assms(1,2)] by simp
  have pick: "proc_pick s = (case find_first ?P 0 20 of
      Some i \<Rightarrow> Some ((i + Suc c) mod 20) | None \<Rightarrow> Some c)"
  proof -
    have "find_first (\<lambda>i. status (proc_list s ! i) = PROC_RUNNING) 0 20 = Some c"
      using running_index [OF assms(1)] assms(2,3) by simp
    then show ?thesis
      unfolding proc_pick_def Let_def ok_length [OF assms(1)] by (simp only: option.case)
  qed
  have hit: "?P (dist c j - 1)" using dist_hit [OF c assms(4)] assms(5) by simp
  moreover have "dist c j - 1 < 20" using dist_range [OF c assms(4)] by linarith
  ultimately have "find_first ?P 0 20 \<noteq> None" unfolding find_first_None by blast
  then obtain i where i: "find_first ?P 0 20 = Some i" by blast
  then have P: "?P i" "i \<le> dist c j - 1"
    using hit unfolding find_first_Some by (blast, metis leI le0)
  have "(i + Suc c) mod 20 = j \<or> dist ((i + Suc c) mod 20) j < dist c j"
  proof (cases "i = dist c j - 1")
    case True
    then show ?thesis using dist_hit [OF c assms(4)] by simp
  next
    case False
    then show ?thesis using P(2) dist_step [OF c assms(4) _ refl, of i] by simp
  qed
  then show ?thesis using pick i P(1) by simp
qed


text \<open>Timer interrupts, with the registers the processor has at each.\<close>

definition timer_step :: "regs \<Rightarrow> 'a kstate_scheme \<Rightarrow> 'a kstate_scheme option" where
  "timer_step r s = map_option out_state (pit_handler_main r s)"

fun timer_run :: "regs list \<Rightarrow> 'a kstate_scheme \<Rightarrow> 'a kstate_scheme option" where
  "timer_run [] s = Some s"
| "timer_run (r # rs) s = do { s' \<leftarrow> timer_step r s; timer_run rs s' }"

definition running :: "'a kstate_scheme \<Rightarrow> nat \<Rightarrow> bool" where
  "running s c \<longleftrightarrow> curr_proc s = Some c \<and> status (proc_list s ! c) = PROC_RUNNING"

text \<open>An upper bound for the timer interrupts until process \<open>j\<close> runs.\<close>

definition rank :: "'a kstate_scheme \<Rightarrow> nat \<Rightarrow> nat \<Rightarrow> nat" where
  "rank s c j = 2 * (dist c j - 1) + nat (tick (proc_list s ! c))"

lemma timer_step_tick:
  assumes "proc_ok s" "running s c" "0 < tick (proc_list s ! c)"
  shows "\<exists>s'. timer_step r s = Some s' \<and> proc_ok s' \<and> running s' c \<and>
    tick (proc_list s' ! c) = tick (proc_list s ! c) - 1 \<and>
    (\<forall>j. status (proc_list s' ! j) = status (proc_list s ! j))"
proof -
  have c: "curr_proc s = Some c" "c < 20" "length (proc_list s) = 20"
    using assms ok_curr [OF proc_ok_ok0 [OF assms(1)]] by (auto simp: running_def proc_ok_def)
  obtain out where out: "pit_handler_main r s = Some out" "proc_ok (out_state out)"
    using pit_handler_ok [OF assms(1)] by blast
  then have "proc_list (out_state out) =
      (proc_list s)[c := (proc_list s ! c)\<lparr>tick := tick (proc_list s ! c) - 1\<rparr>]"
      "curr_proc (out_state out) = Some c"
    using c assms(3) by (auto simp: pit_handler_main_def)
  then show ?thesis
    using out assms(2) c by (auto simp: timer_step_def running_def nth_list_update)
qed

lemma timer_step_switch:
  assumes "proc_ok s" "running s c" "tick (proc_list s ! c) = 0"
    and "j < 20" "status (proc_list s ! j) = PROC_READY"
  shows "\<exists>s' k. timer_step r s = Some s' \<and> proc_ok s' \<and> running s' k \<and> k < 20 \<and>
    tick (proc_list s' ! k) = MAX_TICK \<and>
    (k = j \<or> dist k j < dist c j \<and> status (proc_list s' ! j) = PROC_READY)"
proof -
  let ?s = "save_proc r (s\<lparr>k_pit := (k_pit s)\<lparr>pit_ticks := pit_ticks (k_pit s) + 1\<rparr>\<rparr>)"
  have ok: "proc_ok ?s" using assms(1) by (intro save_proc_ok) simp
  have c: "curr_proc s = Some c" "c < 20" "length (proc_list s) = 20"
    using assms(1,2) ok_curr [OF proc_ok_ok0 [OF assms(1)]] by (auto simp: running_def proc_ok_def)
  have st: "status (proc_list ?s ! i) = status (proc_list s ! i)" for i
    using c by (simp add: save_proc_def nth_list_update)
  have cur: "curr_proc ?s = Some c" using c by (simp add: save_proc_def)
  obtain k where k: "proc_pick ?s = Some k" "k < 20" "status (proc_list ?s ! k) = PROC_READY"
      "k = j \<or> dist k j < dist c j"
    using proc_pick_running [OF proc_ok_ok0 [OF ok] cur _ assms(4)] assms(2,5) st
    by (auto simp: running_def)
  have step: "timer_step r s = Some (switched k ?s)"
    using c assms(3) schedule_eq [OF proc_ok_ok0 [OF ok]] k(1)
    by (simp add: timer_step_def pit_handler_main_def Let_def)
  have len: "length (proc_list ?s) = 20" using c by (simp add: save_proc_def)
  have "proc_ok (switched k ?s)" using k by (intro switched_ok proc_ok_ok0 [OF ok]) auto
  moreover have "running (switched k ?s) k" "tick (proc_list (switched k ?s) ! k) = MAX_TICK"
    using k(2) len by (simp_all add: running_def switched_nth) (simp add: switched_def)
  moreover have "status (proc_list (switched k ?s) ! j) = PROC_READY" if "k \<noteq> j"
    using that assms(4,5) len st by (simp add: switched_nth)
  ultimately show ?thesis using step k(2,4) by blast
qed

lemma timer_progress:
  assumes "proc_ok s" "running s c" "j < 20" "status (proc_list s ! j) = PROC_READY"
  shows "\<exists>s' k. timer_step r s = Some s' \<and> proc_ok s' \<and> running s' k \<and>
    (k = j \<or> rank s' k j < rank s c j \<and> status (proc_list s' ! j) = PROC_READY)"
proof (cases "tick (proc_list s ! c) = 0")
  case True
  obtain s' k where s': "timer_step r s = Some s'" "proc_ok s'" "running s' k" "k < 20"
      "tick (proc_list s' ! k) = MAX_TICK"
      "k = j \<or> dist k j < dist c j \<and> status (proc_list s' ! j) = PROC_READY"
    using timer_step_switch [OF assms(1,2) True assms(3,4)] by blast
  moreover have "rank s' k j < rank s c j" if "dist k j < dist c j"
  proof -
    have "nat (tick (proc_list s' ! k)) = 1" using s'(5) by (simp add: MAX_TICK_def)
    then show ?thesis unfolding rank_def using that dist_range [OF s'(4) assms(3)] by linarith
  qed
  ultimately show ?thesis by blast
next
  case False
  moreover have "0 \<le> tick (proc_list s ! c)"
    using assms(1,2) ok_slot [OF proc_ok_ok0 [OF assms(1)], of c] ok_curr [OF proc_ok_ok0 [OF assms(1)]]
    by (auto simp: running_def slot_ok_def)
  ultimately have t: "0 < tick (proc_list s ! c)" by simp
  obtain s' where s': "timer_step r s = Some s'" "proc_ok s'" "running s' c"
      "tick (proc_list s' ! c) = tick (proc_list s ! c) - 1"
      "\<forall>j. status (proc_list s' ! j) = status (proc_list s ! j)"
    using timer_step_tick [OF assms(1,2) t] by blast
  then have "rank s' c j < rank s c j" using t by (simp add: rank_def)
  then show ?thesis using s' assms(4) by metis
qed

lemma timer_run_reaches:
  assumes "proc_ok s" "running s c" "j < 20" "status (proc_list s ! j) = PROC_READY"
  shows "rank s c j < length rs \<Longrightarrow>
    \<exists>n s'. n \<le> Suc (rank s c j) \<and> timer_run (take n rs) s = Some s' \<and> running s' j"
  using assms
proof (induction "rank s c j" arbitrary: s c rs rule: less_induct)
  case less
  obtain r rs' where rs: "rs = r # rs'" using less.prems(1) by (cases rs) auto
  obtain s' k where s': "timer_step r s = Some s'" "proc_ok s'" "running s' k"
      "k = j \<or> rank s' k j < rank s c j \<and> status (proc_list s' ! j) = PROC_READY"
    using timer_progress [OF less.prems(2-5)] by blast
  show ?case
  proof (cases "k = j")
    case True
    then show ?thesis using s' rs by (intro exI [of _ 1] exI [of _ s']) simp
  next
    case False
    then have lt: "rank s' k j < rank s c j" "status (proc_list s' ! j) = PROC_READY" using s'(4) by auto
    then obtain n t where "n \<le> Suc (rank s' k j)" "timer_run (take n rs') s' = Some t" "running t j"
      using less.hyps [OF lt(1), of rs'] less.prems(1,4) s' rs by auto
    then show ?thesis
      using s'(1) lt(1) rs by (intro exI [of _ "Suc n"] exI [of _ t]) simp
  qed
qed

text \<open>C11: no ready process starves: while processes only compute, a process that is ready runs
  after at most 38 timer interrupts, whatever the registers are at each of them.\<close>

theorem round_robin_fair:
  assumes "proc_ok s" "running s c" "j < 20" "status (proc_list s ! j) = PROC_READY"
    and "length rs = 38"
  shows "\<exists>n s'. n \<le> 38 \<and> timer_run (take n rs) s = Some s' \<and> running s' j"
proof -
  have c: "c < 20" "tick (proc_list s ! c) \<le> 1"
    using assms(1,2) ok_slot [OF proc_ok_ok0 [OF assms(1)], of c] ok_curr [OF proc_ok_ok0 [OF assms(1)]]
    by (auto simp: running_def slot_ok_def MAX_TICK_def)
  moreover have "c \<noteq> j" using assms(2,4) by (auto simp: running_def)
  ultimately have "rank s c j \<le> 37" using assms(3) by (auto simp: rank_def dist_def)
  moreover obtain n s' where "n \<le> Suc (rank s c j)" "timer_run (take n rs) s = Some s'" "running s' j"
    using timer_run_reaches [OF assms(1-4), of rs] assms(5) calculation by auto
  ultimately show ?thesis by (intro exI [of _ n] exI [of _ s']) simp
qed


section \<open>A small system\<close>

text \<open>Two processes, the first one running, the second one its child.\<close>

definition free_process :: process where
  "free_process = \<lparr>regImg = zero_regs, pid = 0, parent = None, p_next = None, priority = PRIOR_USER,
     status = PROC_NEW, tick = 0, p_terminal = 0\<rparr>"

definition demo_process :: "nat \<Rightarrow> nat option \<Rightarrow> proc_status \<Rightarrow> process" where
  "demo_process i q st = free_process\<lparr>regImg := zero_regs\<lparr>r_user_esp := 0x2FF00, r_ebp := 0x2FF40\<rparr>,
     pid := int i + 1, parent := q, status := st, tick := 1\<rparr>"

definition demo_procs :: "proc_status \<Rightarrow> proc_status \<Rightarrow> process list" where
  "demo_procs a b = demo_process 0 None a # demo_process 1 (Some 0) b # replicate 18 free_process"

definition demo_io :: io where
  "demo_io = \<lparr>port_log = [], port_in = (\<lambda>_. []), if_flag = True\<rparr>"

definition demo_kernel :: kstate where
  "demo_kernel = \<lparr>proc_list = demo_procs PROC_RUNNING PROC_READY, curr_proc = Some 0, curr_pid = 2, k_tty = demo_tty,
     k_io = demo_io, k_pit = \<lparr>pit_ticks = 0, pit_bIsInit = True\<rparr>, k_tss = zero_tss,
     k_ram = (\<lambda>_. 0), cpu_esp = 0x90000, cpu_eflags = 2\<rparr>"

text \<open>The same with the parent waiting and the child running.\<close>

definition demo_child :: kstate where
  "demo_child = demo_kernel\<lparr>proc_list := demo_procs PROC_WAITING PROC_RUNNING, curr_proc := Some 1\<rparr>"

lemma demo_table:
  assumes "a \<noteq> PROC_NEW" "b \<noteq> PROC_NEW" "c < 2"
    and "a = PROC_RUNNING \<longrightarrow> c = 0" "b = PROC_RUNNING \<longrightarrow> c = 1"
  shows "table_ok (demo_procs a b) (Some c) 2"
proof -
  have "slot_ok (Some c) 2 i (demo_procs a b ! i)" if "i < 20" for i
  proof (cases i)
    case 0
    then show ?thesis using assms
      by (simp add: demo_procs_def slot_ok_def demo_process_def free_process_def MAX_TICK_def)
  next
    case (Suc j)
    then show ?thesis using that assms
      by (cases j) (simp_all add: demo_procs_def slot_ok_def demo_process_def free_process_def
          MAX_TICK_def)
  qed
  then show ?thesis using assms(3) by (simp add: table_ok_def demo_procs_def)
qed

lemma demo_kernel_ok: "proc_ok demo_kernel" "curr_proc demo_kernel = Some 0" "running demo_kernel 0"
  using demo_table [of PROC_RUNNING PROC_READY 0] demo_inv
  by (simp_all add: proc_ok_def proc_ok0_def demo_kernel_def running_def demo_procs_def
      demo_process_def free_process_def)

lemma demo_child_ok: "proc_ok demo_child" "curr_proc demo_child = Some 1" "running demo_child 1"
  using demo_table [of PROC_WAITING PROC_RUNNING 1] demo_inv
  by (simp_all add: proc_ok_def proc_ok0_def demo_child_def demo_kernel_def running_def demo_procs_def
      demo_process_def free_process_def)

lemma round_robin_fair_witness:
  "\<exists>n s'. n \<le> 38 \<and> timer_run (take n (replicate 38 zero_regs)) demo_kernel = Some s' \<and> running s' 1"
proof -
  have "status (proc_list demo_kernel ! 1) = PROC_READY"
    by (simp add: demo_kernel_def demo_procs_def demo_process_def free_process_def)
  then show ?thesis using round_robin_fair [OF demo_kernel_ok(1,3), of 1 "replicate 38 zero_regs"] by simp
qed

text \<open>C12: \<^verbatim>\<open>do_fork\<close> gives the next number to a new process, returns that number to the parent
  and 0 (in \<open>eax\<close>) to the child, whose other registers are the parent's with the stack moved up by
  256 bytes for each process number. The child is ready and knows its parent, all other slots are
  unchanged. When the stack frame is not larger than that distance the child's stack starts with a
  copy of the parent's. The child writes to the terminal that its slot already had, not to its
  parent's.\<close>

theorem fork_child:
  assumes "proc_ok s" "curr_proc s = Some c" "unat (curr_pid s) < 20"
  shows "\<exists>s'. let n = unat (curr_pid s); r = regImg (proc_list s ! c);
        d = of_nat ((n + 1) * 0x100); len = unat ((r_ebp r - r_user_esp r) * 2);
        child = proc_list s' ! n
    in do_fork s = Some (int n + 1, s') \<and> proc_ok s' \<and> curr_proc s' = Some c \<and>
      regImg child = r\<lparr>r_eax := 0, r_ebp := r_ebp r + d, r_user_esp := r_user_esp r + d\<rparr> \<and>
      pid child = int n + 1 \<and> parent child = Some c \<and> status child = PROC_READY \<and>
      p_terminal child = p_terminal (proc_list s ! n) \<and>
      (\<forall>i. i \<noteq> n \<longrightarrow> proc_list s' ! i = proc_list s ! i) \<and>
      (unat (r_user_esp r) + (n + 1) * 0x100 < 2 ^ 32 \<and> len \<le> (n + 1) * 0x100 \<longrightarrow>
        (\<forall>i < len. k_ram s' (unat (r_user_esp (regImg child)) + i) =
           k_ram s (unat (r_user_esp r) + i)))"
proof -
  let ?n = "unat (curr_pid s)" and ?r = "regImg (proc_list s ! c)"
  let ?s = "forked c s"
  let ?len = "unat ((r_ebp ?r - r_user_esp ?r) * 2)"
  have len: "length (proc_list s) = 20" using assms(1) by (simp add: proc_ok_def)
  have "do_fork s = Some (int ?n + 1, ?s)" using do_fork_eq [OF assms(1,2)] assms(3) by simp
  moreover have "proc_ok ?s" by (rule forked_ok [OF assms])
  moreover have "k_ram ?s (unat (r_user_esp ?r + of_nat ((?n + 1) * 0x100)) + i) =
      k_ram s (unat (r_user_esp ?r) + i)"
    if "unat (r_user_esp ?r) + (?n + 1) * 0x100 < 2 ^ 32" "?len \<le> (?n + 1) * 0x100" "i < ?len" for i
  proof -
    have "take_bit LENGTH(32) ((?n + 1) * 0x100) = (?n + 1) * 0x100"
      using assms(3) by (intro take_bit_nat_eq_self) simp
    then have "unat (of_nat ((?n + 1) * 0x100) :: u32) = (?n + 1) * 0x100"
      by (simp only: unsigned_of_nat of_nat_id)
    then have "unat (r_user_esp ?r + of_nat ((?n + 1) * 0x100)) = unat (r_user_esp ?r) + (?n + 1) * 0x100"
      using that(1) by (simp add: unat_word_ariths)
    then show ?thesis
      using that ram_memcpy_copies [of "unat (r_user_esp ?r)" ?len
          "unat (r_user_esp ?r) + (?n + 1) * 0x100" i "k_ram s"]
      by (simp add: forked_def child_ram_def Let_def)
  qed
  ultimately show ?thesis
    using assms len
    by (intro exI [of _ ?s]) (simp add: forked_def child_regs_def Let_def)
qed


lemma fork_child_witness:
  "\<exists>s'. do_fork demo_kernel = Some (3, s') \<and> parent (proc_list s' ! 2) = Some 0"
proof -
  have n: "unat (curr_pid demo_kernel) = 2" by (simp add: demo_kernel_def)
  then have lt: "unat (curr_pid demo_kernel) < 20" by simp
  obtain s' where "do_fork demo_kernel = Some (int 2 + 1, s')" "parent (proc_list s' ! 2) = Some 0"
    using fork_child [OF demo_kernel_ok(1,2) lt] unfolding n Let_def by blast
  then show ?thesis by (intro exI [of _ s']) simp
qed

text \<open>when the table is full \<^verbatim>\<open>do_fork\<close> returns -1 and changes nothing but the interrupt
  flag; and since no slot is ever given back, any number of allocations in a row has at most 20
  successes, as many as there are free slots.\<close>

theorem process_limit:
  assumes "proc_ok s" "curr_proc s = Some c"
  shows "(unat (curr_pid s) = 20 \<longrightarrow> do_fork s = Some (-1, enable_k (disable_k s))) \<and>
    (\<forall>m rs s'. alloc_times proc_alloc m s = (rs, s') \<longrightarrow>
       length (filter (\<lambda>r. r \<noteq> None) rs) = min m (20 - unat (curr_pid s)))"
proof -
  have ok: "proc_ok0 s" and len: "length (proc_list s) = 20" using assms(1) by (simp_all add: proc_ok_def)
  have le: "unat (curr_pid s) \<le> 20" using ok by (simp add: proc_ok0_def table_ok_def)
  have "free_slots (\<lambda>p. status p = PROC_NEW) (proc_list s) =
      card {i. i < 20 \<and> status (proc_list s ! i) = PROC_NEW}"
    by (simp add: free_slots_def length_filter_conv_card len)
  also have "{i. i < 20 \<and> status (proc_list s ! i) = PROC_NEW} = {unat (curr_pid s)..<20}"
    using ok_slot [OF ok] by (auto simp: slot_ok_def)
  finally have "free_slots (\<lambda>p. status p = PROC_NEW) (proc_list s) = 20 - unat (curr_pid s)" by simp
  then show ?thesis
    using do_fork_eq [OF assms] proc_slots.alloc_times_count by metis
qed

lemma process_limit_witness:
  "length (filter (\<lambda>r. r \<noteq> None) (fst (alloc_times proc_alloc 50 demo_kernel))) = 18"
proof -
  have n: "unat (curr_pid demo_kernel) = 2" by (simp add: demo_kernel_def)
  obtain rs s' where a: "alloc_times proc_alloc 50 demo_kernel = (rs, s')"
    by (cases "alloc_times proc_alloc 50 demo_kernel")
  have "length (filter (\<lambda>r. r \<noteq> None) rs) = min 50 (20 - 2)"
    using conjunct2 [OF process_limit [OF demo_kernel_ok(1,2)], rule_format, OF a] unfolding n .
  then show ?thesis unfolding a fst_conv by simp
qed

section \<open>Creation\<close>

lemma upd_upd:
  "i < length (proc_list s) \<Longrightarrow> upd_proc i f (upd_proc i g s) = upd_proc i (\<lambda>p. f (g p)) s"
  by (simp add: upd_proc_def)

lemma upd_ram: "upd_proc i f (s\<lparr>k_ram := m\<rparr>) = (upd_proc i f s)\<lparr>k_ram := m\<rparr>"
  by (simp add: upd_proc_def)

text \<open>The process that \<^verbatim>\<open>proc_create\<close> leaves in its slot.\<close>

definition created_process :: "nat \<Rightarrow> u32 \<Rightarrow> u32 \<Rightarrow> u32 \<Rightarrow> u32 \<Rightarrow> int \<Rightarrow> process \<Rightarrow> process" where
  "created_process n sel_c sel_d addr fl t p = p
     \<lparr>status := PROC_READY, pid := int n + 1, tick := MAX_TICK,
      regImg := (regImg p)
        \<lparr>r_cs := sel_c, r_ss := sel_d, r_gs := sel_d, r_fs := sel_d, r_es := sel_d, r_ds := sel_d,
         r_eflags := fl OR 0x200, r_eip := addr, r_ebp := addr + PROC_SIZE,
         r_esp := addr + PROC_SIZE, r_user_esp := addr + PROC_SIZE - 4\<rparr>,
      p_terminal := t\<rparr>"

definition created ::
  "u32 \<Rightarrow> u32 \<Rightarrow> u32 \<Rightarrow> u32 \<Rightarrow> int \<Rightarrow> 'a kstate_scheme \<Rightarrow> 'a kstate_scheme" where
  "created ra sel_c sel_d addr t s =
     (let n = unat (curr_pid s)
      in (disable_k s)\<lparr>curr_pid := curr_pid s + 1,
           proc_list := (proc_list s)
             [n := created_process n sel_c sel_d addr (cpu_eflags s) t (proc_list s ! n)],
           k_ram := ram_store32 (k_ram s) (unat (addr + PROC_SIZE - 4)) ra\<rparr>)"

lemma proc_create_eq:
  assumes "proc_ok s" "unat (curr_pid s) < 20"
  shows "\<exists>t < 4. get_current_terminal (k_tty s) = Some (int t) \<and>
    proc_create ra sel_c sel_d addr s =
      Some (unat (curr_pid s), created ra sel_c sel_d addr (int t) s)"
proof -
  let ?n = "unat (curr_pid s)"
  have ok0: "proc_ok0 (disable_k s)" and len: "length (proc_list s) = 20"
    using assms(1) by (simp_all add: proc_ok_def)
  have a: "proc_alloc (disable_k s) = (Some ?n, upd_proc ?n
         (\<lambda>p. p\<lparr>status := PROC_READY, pid := int ?n + 1\<rparr>) ((disable_k s)\<lparr>curr_pid := curr_pid s + 1\<rparr>))"
    using proc_alloc_ok(2) [OF ok0] assms(2) by simp
  obtain t where t: "t < 4" "get_current_terminal (k_tty s) = Some (int t)"
    using assms(1) by (auto simp: proc_ok_def proc_ok0_def tty_inv_def get_current_terminal_def term_of_def elim!: tty_okE)
  show ?thesis
    using t len assms(2)
    by (intro exI [of _ t])
      (simp add: proc_create_def a reset_time_def Let_def upd_upd upd_ram,
       simp add: upd_proc_def created_def created_process_def Let_def)
qed


lemma created_ok:
  assumes "proc_ok s" "unat (curr_pid s) < 20" "0 \<le> t" "t < 4"
  shows "proc_ok (created ra sel_c sel_d addr t s)"
proof -
  let ?n = "unat (curr_pid s)"
  have ok0: "proc_ok0 s" and len: "length (proc_list s) = 20"
    using assms(1) by (simp_all add: proc_ok_def)
  have n1: "unat (curr_pid s + 1) = Suc ?n" using assms(2) by (simp add: unat_word_ariths)
  have slot: "slot_ok (curr_proc s) (Suc ?n) i
      (proc_list (created ra sel_c sel_d addr t s) ! i)" if "i < 20" for i
    using ok_slot [OF ok0 that] that len assms(3,4)
    by (auto simp: slot_ok_def created_def created_process_def Let_def nth_list_update less_Suc_eq
        MAX_TICK_def)
  have "status (proc_list (created ra sel_c sel_d addr t s) ! c) = status (proc_list s ! c)"
    if "curr_proc s = Some c" for c
    using ok_curr [OF ok0 that] by (simp add: created_def Let_def)
  then show ?thesis
    using assms len n1 slot ok_curr [OF ok0]
    by (auto simp: proc_ok_def proc_ok0_def table_ok_def created_def Let_def)
qed

lemma proc_create_full:
  assumes "proc_ok s" "unat (curr_pid s) = 20"
  shows "proc_create ra sel_c sel_d addr s = None"
proof -
  have "proc_alloc (disable_k s) = (None, disable_k s)"
    using assms by (intro proc_alloc_ok(1)) (simp_all add: proc_ok_def)
  then show ?thesis by (simp add: proc_create_def)
qed

text \<open>C16: \<^verbatim>\<open>proc_create\<close> makes a process that is ready to start at the given address with the
  given selectors, interrupts enabled in its flags, its stack at the end of its 64 KB with the return
  address \<^verbatim>\<open>user_process_return\<close> on top, and the terminal that is shown; all other slots stay.
  When the table is full it has no defined result (it does not test for the null pointer).\<close>

theorem proc_create_ready:
  assumes "proc_ok s"
  shows "case proc_create ra sel_c sel_d addr s of
      None \<Rightarrow> unat (curr_pid s) = 20
    | Some (i, s') \<Rightarrow> i = unat (curr_pid s) \<and> proc_ok s' \<and>
        (let p = proc_list s' ! i; r = regImg p in
          status p = PROC_READY \<and> pid p = int i + 1 \<and> tick p = MAX_TICK \<and>
          get_current_terminal (k_tty s) = Some (p_terminal p) \<and>
          r_eip r = addr \<and> r_cs r = sel_c \<and>
          (\<forall>sel \<in> {r_ds r, r_es r, r_fs r, r_gs r, r_ss r}. sel = sel_d) \<and>
          bit (r_eflags r) 9 \<and> r_ebp r = addr + PROC_SIZE \<and> r_user_esp r = addr + PROC_SIZE - 4 \<and>
          ram_load32 (k_ram s') (unat (r_user_esp r)) = ra) \<and>
        (\<forall>j. j \<noteq> i \<longrightarrow> proc_list s' ! j = proc_list s ! j)"
proof (cases "unat (curr_pid s) = 20")
  case True
  then show ?thesis by (simp add: proc_create_full assms)
next
  case False
  moreover have "unat (curr_pid s) \<le> 20" using assms by (simp add: proc_ok_def proc_ok0_def table_ok_def)
  ultimately have n: "unat (curr_pid s) < 20" by simp
  obtain t where t: "t < 4" "get_current_terminal (k_tty s) = Some (int t)"
    "proc_create ra sel_c sel_d addr s = Some (unat (curr_pid s), created ra sel_c sel_d addr (int t) s)"
    using proc_create_eq [OF assms n] by blast
  have "length (proc_list s) = 20" using assms by (simp add: proc_ok_def)
  moreover have "bit (cpu_eflags s OR 0x200) 9" by (simp add: bit_simps)
  ultimately show ?thesis
    using t n created_ok [OF assms n, of "int t"]
    by (simp add: created_def created_process_def Let_def ram_load_store)
qed

lemma proc_create_ready_witness:
  "\<exists>s'. proc_create 0x1234 USER_CS USER_DS 0x30000 demo_kernel = Some (2, s') \<and>
     r_eip (regImg (proc_list s' ! 2)) = 0x30000"
proof -
  have n: "unat (curr_pid demo_kernel) = 2" by (simp add: demo_kernel_def)
  show ?thesis
    using proc_create_ready [OF demo_kernel_ok(1),
        where ra = "0x1234" and sel_c = USER_CS
        and sel_d = USER_DS and addr = "0x30000"] n
    by (simp split: option.splits prod.splits add: Let_def)
qed


section \<open>Waiting and ending\<close>

text \<open>When some process is ready, scheduling runs one: its registers are loaded.\<close>

lemma schedule_ready:
  assumes "proc_ok0 s" "j < 20" "status (proc_list s ! j) = PROC_READY"
  shows "\<exists>k. schedule_proc s = Some (Switches (regImg (proc_list s ! k)) (switched k s)) \<and>
    k < 20 \<and> status (proc_list s ! k) = PROC_READY \<and> proc_ok (switched k s)"
proof (cases "proc_pick s")
  case None
  then show ?thesis using proc_pick_None [of s] assms by auto
next
  case (Some k)
  note p = proc_pick_Some [OF assms(1) Some]
  then have "status (proc_list s ! k) = PROC_READY" using assms(2,3) by auto
  then show ?thesis
    using p switched_ok [OF assms(1), of k]
    by (intro exI [of _ k]) (simp add: schedule_eq [OF assms(1)] Some)
qed

lemma pid_byte:
  assumes "proc_ok0 s" "i < 20" "q < 20" "status (proc_list s ! q) \<noteq> PROC_NEW"
  shows "pid (proc_list s ! i) = uint (word_of_int (pid (proc_list s ! q)) :: u8) \<longleftrightarrow> i = q"
proof -
  have q: "pid (proc_list s ! q) = int q + 1"
    using ok_slot [OF assms(1,3)] assms(4) by (auto simp: slot_ok_def split: if_splits)
  then have "uint (word_of_int (pid (proc_list s ! q)) :: u8) = int q + 1"
    unfolding q using assms(3) by (intro uint_byte) auto
  then show ?thesis using ok_slot [OF assms(1,2)] q by (auto simp: slot_ok_def split: if_splits)
qed

lemma wakeup_find:
  assumes "proc_ok0 s" "q < 20" "status (proc_list s ! q) \<noteq> PROC_NEW"
  shows "find_first (\<lambda>i. pid (proc_list s ! i) = uint (word_of_int (pid (proc_list s ! q)) :: u8) \<and>
      status (proc_list s ! i) = PROC_WAITING) 0 20 =
    (if status (proc_list s ! q) = PROC_WAITING then Some q else None)"
proof (cases "status (proc_list s ! q) = PROC_WAITING")
  case True
  then have "find_first (\<lambda>i. pid (proc_list s ! i) = uint (word_of_int (pid (proc_list s ! q)) :: u8) \<and>
      status (proc_list s ! i) = PROC_WAITING) 0 20 = Some q"
    unfolding find_first_Some using pid_byte [OF assms(1) _ assms(2,3)] assms(2) by fastforce
  then show ?thesis using True by simp
next
  case False
  then have "find_first (\<lambda>i. pid (proc_list s ! i) = uint (word_of_int (pid (proc_list s ! q)) :: u8) \<and>
      status (proc_list s ! i) = PROC_WAITING) 0 20 = None"
    unfolding find_first_None using pid_byte [OF assms(1) _ assms(2,3)] by blast
  then show ?thesis using False by simp
qed

lemma wakeup_eq:
  assumes "proc_ok0 s" "q < 20" "status (proc_list s ! q) \<noteq> PROC_NEW"
  shows "wakeup (word_of_int (pid (proc_list s ! q))) s =
    (if status (proc_list s ! q) = PROC_WAITING
     then and_then (schedule_proc (upd_proc q (\<lambda>p. p\<lparr>status := PROC_READY\<rparr>) (disable_k s)))
            (\<lambda>_ s. Some (Returns () (enable_k s)))
     else Some (Returns () (enable_k (disable_k s))))"
  using wakeup_find [OF assms] assms(1) by (simp add: wakeup_def)

lemma wakeup_switches:
  assumes "proc_ok0 s" "q < 20" "status (proc_list s ! q) = PROC_WAITING"
  shows "\<exists>k. wakeup (word_of_int (pid (proc_list s ! q))) s =
      Some (Switches (regImg (proc_list s ! k))
        (switched k (upd_proc q (\<lambda>p. p\<lparr>status := PROC_READY\<rparr>) (disable_k s)))) \<and>
    k < 20 \<and> (k = q \<or> status (proc_list s ! k) = PROC_READY) \<and>
    proc_ok (switched k (upd_proc q (\<lambda>p. p\<lparr>status := PROC_READY\<rparr>) (disable_k s)))"
proof -
  let ?s = "upd_proc q (\<lambda>p. p\<lparr>status := PROC_READY\<rparr>) (disable_k s)"
  have len: "length (proc_list s) = 20" using assms(1) by simp
  have ok: "proc_ok0 ?s" using assms by (intro status_upd_ok) auto
  obtain k where k: "schedule_proc ?s = Some (Switches (regImg (proc_list ?s ! k)) (switched k ?s))"
      "k < 20" "status (proc_list ?s ! k) = PROC_READY" "proc_ok (switched k ?s)"
    using schedule_ready [OF ok assms(2)] assms(2) len by auto
  have "regImg (proc_list ?s ! k) = regImg (proc_list s ! k)"
    using len assms(2) by (simp add: nth_list_update)
  moreover have "k = q \<or> status (proc_list s ! k) = PROC_READY"
    using k(3) len assms(2) by (auto simp: nth_list_update split: if_splits)
  moreover have "status (proc_list s ! q) \<noteq> PROC_NEW" using assms(3) by simp
  ultimately show ?thesis
    using wakeup_eq [OF assms(1,2)] assms(3) k by auto
qed

text \<open>The current process ended, and what the notice to its parent does then.\<close>

abbreviation ended :: "nat \<Rightarrow> 'a kstate_scheme \<Rightarrow> 'a kstate_scheme" where
  "ended c s \<equiv> upd_proc c (\<lambda>p. p\<lparr>status := PROC_TERMINATED\<rparr>) (disable_k s)"

abbreviation notify_parent ::
  "nat \<Rightarrow> 'a kstate_scheme \<Rightarrow> 'a kstate_scheme \<Rightarrow> (unit, 'a kstate_scheme) outcome option" where
  "notify_parent c s t \<equiv>
     (case parent (proc_list s ! c) of
        None \<Rightarrow> Some (Returns () t)
      | Some q \<Rightarrow> wakeup (word_of_int (pid (proc_list t ! q))) t)"

definition parent_waits :: "nat \<Rightarrow> 'a kstate_scheme \<Rightarrow> nat \<Rightarrow> bool" where
  "parent_waits c s q \<longleftrightarrow>
     parent (proc_list s ! c) = Some q \<and> q \<noteq> c \<and> status (proc_list s ! q) = PROC_WAITING"

lemma parent_taken:
  assumes "proc_ok s" "curr_proc s = Some c" "parent (proc_list s ! c) = Some q"
  shows "q < 20" "status (proc_list s ! q) \<noteq> PROC_NEW"
proof -
  note c = ok_taken [OF proc_ok_ok0 [OF assms(1)] assms(2)]
  have "q < unat (curr_pid s)"
    using assms(3) ok_slot [OF proc_ok_ok0 [OF assms(1)] c(1)] by (simp add: slot_ok_def)
  moreover have "unat (curr_pid s) \<le> 20"
    using assms(1) by (simp add: proc_ok_def proc_ok0_def table_ok_def)
  ultimately show "q < 20" "status (proc_list s ! q) \<noteq> PROC_NEW"
    using ok_slot [OF proc_ok_ok0 [OF assms(1)], of q] by (auto simp: slot_ok_def)
qed

lemma ended_ok:
  assumes "proc_ok s" "curr_proc s = Some c"
  shows "proc_ok (ended c s)"
proof -
  note c = ok_taken [OF proc_ok_ok0 [OF assms(1)] assms(2)]
  have "proc_ok0 (ended c s)" using c proc_ok_ok0 [OF assms(1)] by (intro status_upd_ok) auto
  then show ?thesis using assms(2) c(1) proc_ok_ok0 [OF assms(1)] by (simp add: proc_ok_def)
qed

lemma notify_waiting:
  assumes "proc_ok s" "curr_proc s = Some c" "parent_waits c s q"
  obtains k where "notify_parent c s (ended c s) = Some (Switches (regImg (proc_list s ! k))
      (switched k (upd_proc q (\<lambda>p. p\<lparr>status := PROC_READY\<rparr>) (disable_k (ended c s)))))"
    "k < 20" "k \<noteq> c" "q < 20" "k = q \<or> status (proc_list s ! k) = PROC_READY"
    "proc_ok (switched k (upd_proc q (\<lambda>p. p\<lparr>status := PROC_READY\<rparr>) (disable_k (ended c s))))"
proof -
  note c = ok_taken [OF proc_ok_ok0 [OF assms(1)] assms(2)]
  have len: "length (proc_list s) = 20" using assms(1) by (simp add: proc_ok_def)
  have q: "parent (proc_list s ! c) = Some q" "q \<noteq> c" "status (proc_list s ! q) = PROC_WAITING"
    using assms(3) by (simp_all add: parent_waits_def)
  have q20: "q < 20" using parent_taken [OF assms(1,2) q(1)] by simp
  have sq: "status (proc_list (ended c s) ! q) = PROC_WAITING" using q by simp
  obtain k where k: "wakeup (word_of_int (pid (proc_list (ended c s) ! q))) (ended c s) =
      Some (Switches (regImg (proc_list (ended c s) ! k))
        (switched k (upd_proc q (\<lambda>p. p\<lparr>status := PROC_READY\<rparr>) (disable_k (ended c s)))))"
    "k < 20" "k = q \<or> status (proc_list (ended c s) ! k) = PROC_READY"
    "proc_ok (switched k (upd_proc q (\<lambda>p. p\<lparr>status := PROC_READY\<rparr>) (disable_k (ended c s))))"
    using wakeup_switches [OF proc_ok_ok0 [OF ended_ok [OF assms(1,2)]] q20 sq] by blast
  have "k \<noteq> c" using k(3) q(2) c(1) len by auto
  moreover from this have "k = q \<or> status (proc_list s ! k) = PROC_READY" using k(3) by auto
  ultimately show ?thesis using that k q20 q(1) by auto
qed

lemma notify_not_waiting:
  assumes "proc_ok s" "curr_proc s = Some c" "\<not> (\<exists>q. parent_waits c s q)"
  shows "\<exists>b. notify_parent c s (ended c s) = Some (Returns () ((ended c s)\<lparr>k_io := b\<rparr>))"
proof (cases "parent (proc_list s ! c)")
  case None
  then show ?thesis by (auto intro: exI [of _ "k_io (ended c s)"])
next
  case (Some q)
  note c = ok_taken [OF proc_ok_ok0 [OF assms(1)] assms(2)]
  have len: "length (proc_list s) = 20" using assms(1) by (simp add: proc_ok_def)
  have "q < 20" "status (proc_list (ended c s) ! q) \<noteq> PROC_NEW" "status (proc_list (ended c s) ! q) \<noteq> PROC_WAITING"
    using parent_taken [OF assms(1,2) Some] assms(3) Some c(1) len by (auto simp: nth_list_update parent_waits_def)
  then have "wakeup (word_of_int (pid (proc_list (ended c s) ! q))) (ended c s) =
      Some (Returns () (enable_k (disable_k (ended c s))))"
    using wakeup_eq [OF proc_ok_ok0 [OF ended_ok [OF assms(1,2)]]] by auto
  then show ?thesis using Some by auto
qed

text \<open>C15: \<^verbatim>\<open>do_exit\<close> ends the current process. When its parent waits, the parent is made ready
  and some ready process gets the processor, with the registers saved for it. When the parent does
  not wait (or there is none), \<^verbatim>\<open>do_exit\<close> returns to the process that it has just ended, which
  stays the current one.\<close>

theorem exit_outcome:
  assumes "proc_ok s" "curr_proc s = Some c"
  shows "if \<exists>q. parent (proc_list s ! c) = Some q \<and> q \<noteq> c \<and> status (proc_list s ! q) = PROC_WAITING
    then \<exists>r s' k q. do_exit s = Some (Switches r s') \<and> proc_ok s' \<and> running s' k \<and>
      r = regImg (proc_list s ! k) \<and> status (proc_list s' ! c) = PROC_TERMINATED \<and>
      parent (proc_list s ! c) = Some q \<and> status (proc_list s' ! q) \<in> {PROC_READY, PROC_RUNNING} \<and>
      (\<forall>i < 20. i \<notin> {c, q, k} \<longrightarrow> proc_list s' ! i = proc_list s ! i)
    else \<exists>s'. do_exit s = Some (Returns () s') \<and> proc_ok s' \<and> curr_proc s' = Some c \<and>
      proc_list s' = (proc_list s)[c := (proc_list s ! c)\<lparr>status := PROC_TERMINATED\<rparr>]"
proof -
  note c = ok_taken [OF proc_ok_ok0 [OF assms(1)] assms(2)]
  have len: "length (proc_list s) = 20" using assms(1) by (simp add: proc_ok_def)
  have exit: "do_exit s = and_then (notify_parent c s (ended c s)) (\<lambda>_ s. Some (Returns () (enable_k s)))"
    using assms(2) c(1) len by (simp add: do_exit_def Let_def)
  show ?thesis
  proof (cases "\<exists>q. parent_waits c s q")
    case True
    then obtain q where q: "parent_waits c s q" by blast
    let ?t = "upd_proc q (\<lambda>p. p\<lparr>status := PROC_READY\<rparr>) (disable_k (ended c s))"
    obtain k where k: "notify_parent c s (ended c s) = Some (Switches (regImg (proc_list s ! k)) (switched k ?t))"
      "k < 20" "k \<noteq> c" "q < 20" "proc_ok (switched k ?t)"
      using notify_waiting [OF assms q] by metis
    let ?s' = "switched k ?t"
    have "running ?s' k" using k(2) len by (simp add: running_def switched_nth) (simp add: switched_def)
    moreover have "status (proc_list ?s' ! c) = PROC_TERMINATED"
      using c(1) len k(3) q by (simp add: switched_nth parent_waits_def)
    moreover have "status (proc_list ?s' ! q) \<in> {PROC_READY, PROC_RUNNING}"
      using k(4) len by (simp add: switched_nth)
    moreover have "\<forall>i < 20. i \<notin> {c, q, k} \<longrightarrow> proc_list ?s' ! i = proc_list s ! i"
      using len assms(2) by (simp add: switched_nth)
    ultimately show ?thesis
      using True k(1,5) q unfolding exit parent_waits_def by (simp only: if_True and_then.simps) blast
  next
    case False
    obtain b where "do_exit s = Some (Returns () (enable_k ((ended c s)\<lparr>k_io := b\<rparr>)))"
      using notify_not_waiting [OF assms False] unfolding exit by auto
    then have "\<exists>s'. do_exit s = Some (Returns () s') \<and> proc_ok s' \<and> curr_proc s' = Some c \<and>
        proc_list s' = (proc_list s)[c := (proc_list s ! c)\<lparr>status := PROC_TERMINATED\<rparr>]"
      using ended_ok [OF assms] assms(2) by simp
    then show ?thesis using False unfolding parent_waits_def by (simp only: if_False)
  qed
qed

lemma exit_outcome_witness:
  "\<exists>r s'. do_exit demo_child = Some (Switches r s') \<and> status (proc_list s' ! 1) = PROC_TERMINATED"
proof -
  have "parent (proc_list demo_child ! 1) = Some 0" "status (proc_list demo_child ! 0) = PROC_WAITING"
    by (simp_all add: demo_child_def demo_procs_def demo_process_def)
  then have "\<exists>q. parent (proc_list demo_child ! 1) = Some q \<and> q \<noteq> 1 \<and>
      status (proc_list demo_child ! q) = PROC_WAITING" by simp
  then show ?thesis using exit_outcome [OF demo_child_ok(1,2)] by (simp only: if_True) blast
qed

text \<open>The two ways \<^verbatim>\<open>do_wait\<close> goes on.\<close>

abbreviation waiting :: "nat \<Rightarrow> 'a kstate_scheme \<Rightarrow> 'a kstate_scheme" where
  "waiting c s \<equiv> upd_proc c (\<lambda>p. p\<lparr>status := PROC_WAITING\<rparr>) (disable_k s)"

lemma do_wait_ready:
  assumes "proc_ok s" "curr_proc s = Some c" "\<exists>j < 20. status (proc_list s ! j) = PROC_READY"
  shows "\<exists>k. do_wait s = Some (Switches (regImg (proc_list s ! k)) (switched k (waiting c s))) \<and>
    k < 20 \<and> k \<noteq> c \<and> status (proc_list s ! k) = PROC_READY \<and> proc_ok (switched k (waiting c s))"
proof -
  note c = ok_taken [OF proc_ok_ok0 [OF assms(1)] assms(2)]
  have len: "length (proc_list s) = 20" using assms(1) by (simp add: proc_ok_def)
  have ok: "proc_ok0 (waiting c s)" using c proc_ok_ok0 [OF assms(1)] by (intro status_upd_ok) auto
  obtain j where j: "j < 20" "status (proc_list s ! j) = PROC_READY" using assms(3) by blast
  then have "j \<noteq> c" using assms(1,2) by (auto simp: proc_ok_def)
  then have "status (proc_list (waiting c s) ! j) = PROC_READY" using j by simp
  then obtain k where k: "schedule_proc (waiting c s) =
      Some (Switches (regImg (proc_list (waiting c s) ! k)) (switched k (waiting c s)))"
      "k < 20" "status (proc_list (waiting c s) ! k) = PROC_READY" "proc_ok (switched k (waiting c s))"
    using schedule_ready [OF ok j(1)] by blast
  have "k \<noteq> c" using k(3) c(1) len by auto
  then show ?thesis using k assms(2) by (intro exI [of _ k]) (simp add: do_wait_def)
qed

lemma do_wait_alone:
  assumes "proc_ok s" "curr_proc s = Some c" "\<not> (\<exists>j < 20. status (proc_list s ! j) = PROC_READY)"
  shows "do_wait s = Some (Returns () (enable_k (waiting c s)))" "proc_ok (waiting c s)"
proof -
  note c = ok_taken [OF proc_ok_ok0 [OF assms(1)] assms(2)]
  have len: "length (proc_list s) = 20" using assms(1) by (simp add: proc_ok_def)
  have "status (proc_list (waiting c s) ! i) \<notin> {PROC_READY, PROC_RUNNING}" if "i < 20" for i
    using assms(3) that c(1) len ok_slot [OF proc_ok_ok0 [OF assms(1)] that] assms(2)
    by (auto simp: nth_list_update slot_ok_def)
  then have "proc_pick (waiting c s) = None" using proc_pick_None [of "waiting c s"] len by simp
  then show w: "do_wait s = Some (Returns () (enable_k (waiting c s)))"
    using assms(2) by (simp add: do_wait_def schedule_proc_def)
  show "proc_ok (waiting c s)" using do_wait_ok [OF assms(1,2)] w by simp
qed

text \<open>\<^verbatim>\<open>do_wait\<close> blocks the current process when another one is ready: that one gets the
  processor, and the current one is waiting. When none is ready, \<^verbatim>\<open>do_wait\<close> returns although the
  process is marked as waiting.\<close>

theorem wait_outcome:
  assumes "proc_ok s" "curr_proc s = Some c"
  shows "if \<exists>j < 20. status (proc_list s ! j) = PROC_READY
    then \<exists>s' k. do_wait s = Some (Switches (regImg (proc_list s ! k)) s') \<and> proc_ok s' \<and>
      k \<noteq> c \<and> running s' k \<and> status (proc_list s' ! c) = PROC_WAITING \<and>
      (\<forall>i < 20. i \<notin> {c, k} \<longrightarrow> proc_list s' ! i = proc_list s ! i)
    else \<exists>s'. do_wait s = Some (Returns () s') \<and> proc_ok s' \<and> curr_proc s' = Some c \<and>
      proc_list s' = (proc_list s)[c := (proc_list s ! c)\<lparr>status := PROC_WAITING\<rparr>] \<and>
      if_flag (k_io s')"
proof (cases "\<exists>j < 20. status (proc_list s ! j) = PROC_READY")
  case True
  have len: "length (proc_list s) = 20" using assms(1) by (simp add: proc_ok_def)
  obtain k where k: "do_wait s = Some (Switches (regImg (proc_list s ! k)) (switched k (waiting c s)))"
      "k < 20" "k \<noteq> c" "proc_ok (switched k (waiting c s))"
    using do_wait_ready [OF assms True] by blast
  have "running (switched k (waiting c s)) k"
    using k(2) len by (simp add: running_def switched_nth) (simp add: switched_def)
  moreover have "status (proc_list (switched k (waiting c s)) ! c) = PROC_WAITING"
    using ok_curr [OF proc_ok_ok0 [OF assms(1)] assms(2)] len k(3) by (simp add: switched_nth)
  moreover have "\<forall>i < 20. i \<notin> {c, k} \<longrightarrow> proc_list (switched k (waiting c s)) ! i = proc_list s ! i"
    using len assms(2) by (simp add: switched_nth)
  ultimately show ?thesis unfolding if_P [OF True] using k(1,3,4) by blast
next
  case False
  then show ?thesis
    unfolding if_not_P [OF False] using do_wait_alone [OF assms False] assms(2) by simp
qed

lemma wait_outcome_witness:
  "\<exists>s' k. do_wait demo_kernel = Some (Switches (regImg (proc_list demo_kernel ! k)) s') \<and>
     status (proc_list s' ! 0) = PROC_WAITING"
proof -
  have "status (proc_list demo_kernel ! 1) = PROC_READY"
    by (simp add: demo_kernel_def demo_procs_def demo_process_def)
  then have "\<exists>j < 20. status (proc_list demo_kernel ! j) = PROC_READY" by (intro exI [of _ 1]) simp
  then show ?thesis using wait_outcome [OF demo_kernel_ok(1,2)] by (simp only: if_True) blast
qed


end
