(* ===== verification/Semaphore.thy ===== *)
theory Semaphore
  imports Process
begin

text \<open>
  Semaphores: \<^verbatim>\<open>include/semaphore.h\<close>. The processes that wait for a semaphore form a linked list
  through the field \<^verbatim>\<open>next\<close> of the process structures. A semaphore number outside the array has
  no defined result. The value is a mathematical integer (the C code has no defined result when it
  leaves the range of \<^verbatim>\<open>int\<close>).
\<close>

section \<open>State and operations\<close>

record semaphore =
  sem_val :: int
  sem_used :: bool
  sem_head :: "nat option"

record kernel = kstate +
  sem_list :: "semaphore list"

definition sem_init :: "'a kernel_scheme \<Rightarrow> 'a kernel_scheme" where
  "sem_init s = s\<lparr>sem_list := replicate 100 \<lparr>sem_val = 0, sem_used = False, sem_head = None\<rparr>\<rparr>"

definition sem_index :: "int \<Rightarrow> 'a kernel_scheme \<Rightarrow> nat option" where
  "sem_index i s = (if 0 \<le> i \<and> nat i < length (sem_list s) then Some (nat i) else None)"

definition upd_sem ::
  "nat \<Rightarrow> (semaphore \<Rightarrow> semaphore) \<Rightarrow> 'a kernel_scheme \<Rightarrow> 'a kernel_scheme" where
  "upd_sem i f s = s\<lparr>sem_list := (sem_list s)[i := f (sem_list s ! i)]\<rparr>"

definition do_sem_p :: "int \<Rightarrow> 'a kernel_scheme \<Rightarrow> (unit, 'a kernel_scheme) outcome option" where
  "do_sem_p sem_id s =
     do { let s = disable_k s;
          i \<leftarrow> sem_index sem_id s;
          let s = upd_sem i (\<lambda>x. x\<lparr>sem_val := sem_val x - 1\<rparr>) s;
          if sem_val (sem_list s ! i) < 0 then
            do { c \<leftarrow> curr_proc s;
                 let s = upd_proc c (\<lambda>p. p\<lparr>p_next := sem_head (sem_list s ! i)\<rparr>) s;
                 let s = upd_sem i (\<lambda>x. x\<lparr>sem_head := Some c\<rparr>) s;
                 and_then (do_wait s) (\<lambda>_ s. Some (Returns () (enable_k s))) }
          else Some (Returns () (enable_k s)) }"

definition do_sem_v :: "int \<Rightarrow> 'a kernel_scheme \<Rightarrow> (unit, 'a kernel_scheme) outcome option" where
  "do_sem_v sem_id s =
     do { let s = disable_k s;
          i \<leftarrow> sem_index sem_id s;
          let s = upd_sem i (\<lambda>x. x\<lparr>sem_val := sem_val x + 1\<rparr>) s;
          if sem_val (sem_list s ! i) \<le> 0 then
            do { h \<leftarrow> sem_head (sem_list s ! i);
                 let p = pid (proc_list s ! h);
                 c \<leftarrow> curr_proc s;
                 let s = upd_sem i (\<lambda>x. x\<lparr>sem_head := p_next (proc_list s ! c)\<rparr>) s;
                 and_then (wakeup (word_of_int p) s) (\<lambda>_ s. Some (Returns () (enable_k s))) }
          else Some (Returns () (enable_k s)) }"

text \<open>The search of \<^verbatim>\<open>do_getsem\<close>, which returns the slot it took.\<close>

definition sem_alloc :: "int \<Rightarrow> 'a kernel_scheme \<Rightarrow> nat option \<times> 'a kernel_scheme" where
  "sem_alloc val s =
     (case find_first (\<lambda>i. \<not> sem_used (sem_list s ! i)) 0 (length (sem_list s)) of
        Some i \<Rightarrow> (Some i, upd_sem i (\<lambda>x. x\<lparr>sem_val := val, sem_used := True\<rparr>) s)
      | None \<Rightarrow> (None, s))"

definition do_getsem :: "int \<Rightarrow> 'a kernel_scheme \<Rightarrow> int \<times> 'a kernel_scheme" where
  "do_getsem val s =
     (case sem_alloc val s of (Some i, s) \<Rightarrow> (int i, s) | (None, s) \<Rightarrow> (-1, s))"

definition do_freesem :: "int \<Rightarrow> 'a kernel_scheme \<Rightarrow> 'a kernel_scheme option" where
  "do_freesem sem_id s =
     do { i \<leftarrow> sem_index sem_id s;
          Some (upd_sem i (\<lambda>x. x\<lparr>sem_used := False, sem_head := None\<rparr>) s) }"

definition mutex_get :: "'a kernel_scheme \<Rightarrow> int \<times> 'a kernel_scheme" where
  "mutex_get s = do_getsem 1 s"

definition mutex_lock :: "int \<Rightarrow> 'a kernel_scheme \<Rightarrow> (unit, 'a kernel_scheme) outcome option" where
  "mutex_lock lock_id s = do_sem_p lock_id s"

definition mutex_unlock :: "int \<Rightarrow> 'a kernel_scheme \<Rightarrow> (unit, 'a kernel_scheme) outcome option" where
  "mutex_unlock lock_id s = do_sem_v lock_id s"

section \<open>Access\<close>

lemma upd_sem_simps [simp]:
  "sem_list (upd_sem i f s) = (sem_list s)[i := f (sem_list s ! i)]"
  "proc_list (upd_sem i f s) = proc_list s" "curr_proc (upd_sem i f s) = curr_proc s"
  "curr_pid (upd_sem i f s) = curr_pid s" "k_tty (upd_sem i f s) = k_tty s"
  "k_io (upd_sem i f s) = k_io s" "k_ram (upd_sem i f s) = k_ram s"
  "proc_ok0 (upd_sem i f s) = proc_ok0 s" "proc_ok (upd_sem i f s) = proc_ok s"
  by (simp_all add: upd_sem_def proc_ok_def proc_ok0_def)

lemma sem_frame [simp]:
  "sem_list (upd_proc i f s) = sem_list s" "sem_list (switched k s) = sem_list s"
  by (simp_all add: upd_proc_def switched_def)

lemma sem_index_Some: "sem_index i s = Some n \<longleftrightarrow> i = int n \<and> n < length (sem_list s)"
  by (auto simp: sem_index_def)

interpretation sem_slots: slot_table sem_list "\<lambda>x. \<not> sem_used x" "sem_alloc val"
proof
  fix s s' :: "'a kernel_scheme"
  assume a: "sem_alloc val s = (None, s')"
  then have f: "find_first (\<lambda>i. \<not> sem_used (sem_list s ! i)) 0 (length (sem_list s)) = None"
    by (simp add: sem_alloc_def split: option.splits)
  have "sem_used x" if "x \<in> set (sem_list s)" for x
    using f that unfolding find_first_None in_set_conv_nth by blast
  moreover have "s' = s" using a f by (simp add: sem_alloc_def)
  ultimately show "s' = s \<and> (\<forall>x \<in> set (sem_list s). \<not> \<not> sem_used x)" by blast
next
  fix s s' :: "'a kernel_scheme" and i
  assume a: "sem_alloc val s = (Some i, s')"
  then have f: "find_first (\<lambda>i. \<not> sem_used (sem_list s ! i)) 0 (length (sem_list s)) = Some i"
    by (simp add: sem_alloc_def split: option.splits)
  then have "sem_list s' = (sem_list s)[i := (sem_list s ! i)\<lparr>sem_val := val, sem_used := True\<rparr>]"
    using a by (auto simp: sem_alloc_def)
  then show "i < length (sem_list s) \<and> \<not> sem_used (sem_list s ! i) \<and>
      (\<forall>j < i. \<not> \<not> sem_used (sem_list s ! j)) \<and>
      (\<exists>x. \<not> \<not> sem_used x \<and> sem_list s' = (sem_list s)[i := x])"
    using f unfolding find_first_Some
    by (auto intro!: exI [of _ "(sem_list s ! i)\<lparr>sem_val := val, sem_used := True\<rparr>"])
qed

section \<open>The waiting list\<close>

text \<open>\<open>waiters pl h ws\<close>: from the pointer \<open>h\<close> on, the processes \<open>ws\<close> are linked by \<^verbatim>\<open>next\<close>.\<close>

primrec waiters :: "process list \<Rightarrow> nat option \<Rightarrow> nat list \<Rightarrow> bool" where
  "waiters pl h [] \<longleftrightarrow> h = None"
| "waiters pl h (w # ws) \<longleftrightarrow> h = Some w \<and> w < length pl \<and> waiters pl (p_next (pl ! w)) ws"

lemma waiters_cong:
  assumes "waiters pl h ws" "length pl' = length pl"
    and "\<And>w. w \<in> set ws \<Longrightarrow> p_next (pl' ! w) = p_next (pl ! w)"
  shows "waiters pl' h ws"
  using assms by (induction ws arbitrary: h) auto

lemma waiters_unique: "waiters pl h ws \<Longrightarrow> waiters pl h vs \<Longrightarrow> ws = vs"
  by (induction ws arbitrary: h vs) (case_tac vs; auto)+

text \<open>Changes of the status leave the list alone.\<close>

lemma waiters_switched:
  assumes "length (proc_list s) = 20" "k < 20" "waiters (proc_list s) h ws"
  shows "waiters (proc_list (switched k s)) h ws"
  using assms(3)
proof (rule waiters_cong)
  show "length (proc_list (switched k s)) = length (proc_list s)" by (simp add: switched_def)
next
  have lt: "w < 20" if "waiters (proc_list s) h' vs" "w \<in> set vs" for h' vs w
    using that assms(1) by (induction vs arbitrary: h') auto
  fix w
  assume "w \<in> set ws"
  then have "w < 20" using lt assms(3) by blast
  then show "p_next (proc_list (switched k s) ! w) = p_next (proc_list s ! w)"
    using assms(1) by (auto simp: switched_nth)
qed

section \<open>Properties\<close>

lemma waiters_head: "waiters pl h ws \<Longrightarrow> waiters pl h' ws \<Longrightarrow> h = h'"
  by (cases ws) auto

lemma upd_next_ok:
  assumes "proc_ok s"
  shows "proc_ok (upd_proc c (\<lambda>p. p\<lparr>p_next := h\<rparr>) s)"
proof -
  have "proc_ok0 (upd_proc c (\<lambda>p. p\<lparr>p_next := h\<rparr>) s)"
    using ok_slot [OF proc_ok_ok0 [OF assms]] proc_ok_ok0 [OF assms]
    by (intro ok_upd) (auto simp: slot_ok_def)
  moreover have "status (proc_list (upd_proc c (\<lambda>p. p\<lparr>p_next := h\<rparr>) s) ! k) = status (proc_list s ! k)" for k
    by (cases "c < length (proc_list s)") (auto simp: nth_list_update list_update_beyond)
  ultimately show ?thesis using assms by (auto simp: proc_ok_def)
qed



text \<open>The state in which \<^verbatim>\<open>do_sem_v\<close> wakes the process at the head of the list.\<close>

lemma sem_v_eq:
  assumes "curr_proc s = Some c" "i < length (sem_list s)" "sem_val (sem_list s ! i) < 0"
    and "sem_head (sem_list s ! i) = Some w"
  shows "do_sem_v (int i) s = and_then (wakeup (word_of_int (pid (proc_list s ! w)))
      (upd_sem i (\<lambda>x. x\<lparr>sem_val := sem_val x + 1, sem_head := p_next (proc_list s ! c)\<rparr>) (disable_k s)))
      (\<lambda>_ s. Some (Returns () (enable_k s)))"
  using assms by (simp add: do_sem_v_def sem_index_def upd_sem_def Let_def)

abbreviation v_taken :: "nat \<Rightarrow> nat \<Rightarrow> 'a kernel_scheme \<Rightarrow> 'a kernel_scheme" where
  "v_taken i c s \<equiv> upd_sem i (\<lambda>x. x\<lparr>sem_val := sem_val x + 1, sem_head := p_next (proc_list s ! c)\<rparr>)
     (disable_k s)"

abbreviation v_woken :: "nat \<Rightarrow> nat \<Rightarrow> nat \<Rightarrow> 'a kernel_scheme \<Rightarrow> 'a kernel_scheme" where
  "v_woken i c w s \<equiv> upd_proc w (\<lambda>p. p\<lparr>status := PROC_READY\<rparr>) (disable_k (v_taken i c s))"

lemma sem_v_switch:
  assumes "proc_ok s" "curr_proc s = Some c" "i < length (sem_list s)" "sem_val (sem_list s ! i) < 0"
    and "sem_head (sem_list s ! i) = Some w" "w < 20" "status (proc_list s ! w) = PROC_WAITING"
  shows "\<exists>k r. do_sem_v (int i) s = Some (Switches r (switched k (v_woken i c w s))) \<and> k < 20 \<and>
    (k = w \<or> status (proc_list s ! k) = PROC_READY) \<and> proc_ok (switched k (v_woken i c w s))"
proof -
  have ok: "proc_ok0 (v_taken i c s)" using assms(1) by (simp add: proc_ok_def)
  have st: "status (proc_list (v_taken i c s) ! w) = PROC_WAITING" using assms(7) by simp
  obtain k where k: "wakeup (word_of_int (pid (proc_list (v_taken i c s) ! w))) (v_taken i c s) =
        Some (Switches (regImg (proc_list (v_taken i c s) ! k)) (switched k (v_woken i c w s)))"
      "k < 20" "k = w \<or> status (proc_list (v_taken i c s) ! k) = PROC_READY"
      "proc_ok (switched k (v_woken i c w s))"
    using wakeup_switches [OF ok assms(6) st] by blast
  have "do_sem_v (int i) s =
      Some (Switches (regImg (proc_list (v_taken i c s) ! k)) (switched k (v_woken i c w s)))"
    using sem_v_eq [OF assms(2,3,4,5)] k(1) by simp
  moreover have "k = w \<or> status (proc_list s ! k) = PROC_READY" using k(3) by simp
  ultimately show ?thesis using k(2,4) by blast
qed


section \<open>A semaphore with two waiting processes\<close>

text \<open>Process 1 runs and holds the semaphore; process 2 and then process 3 have asked for it.\<close>

definition demo_sem_procs :: "process list" where
  "demo_sem_procs = demo_process 0 None PROC_RUNNING # demo_process 1 (Some 0) PROC_WAITING #
     (demo_process 2 (Some 0) PROC_WAITING)\<lparr>p_next := Some 1\<rparr> # replicate 17 free_process"

definition demo_sem :: kernel where
  "demo_sem = kstate.extend (demo_kernel\<lparr>proc_list := demo_sem_procs, curr_pid := 3\<rparr>)
     \<lparr>sem_list = \<lparr>sem_val = -2, sem_used = True, sem_head = Some 2\<rparr> #
        replicate 99 \<lparr>sem_val = 0, sem_used = False, sem_head = None\<rparr>\<rparr>"

lemma demo_sem_ok: "proc_ok demo_sem" "curr_proc demo_sem = Some 0"
  "waiters (proc_list demo_sem) (sem_head (sem_list demo_sem ! 0)) [2, 1]"
proof -
  have "slot_ok (Some 0) 3 i (demo_sem_procs ! i)" if "i < 20" for i
  proof -
    consider "i = 0" | "i = 1" | "i = 2" | "3 \<le> i" by linarith
    then show ?thesis using that
      by cases (auto simp: demo_sem_procs_def slot_ok_def demo_process_def free_process_def
          MAX_TICK_def nth_Cons')
  qed
  then have "table_ok demo_sem_procs (Some 0) 3" by (simp add: table_ok_def demo_sem_procs_def)
  then show "proc_ok demo_sem"
    using demo_inv
    by (simp add: proc_ok_def proc_ok0_def demo_sem_def demo_kernel_def demo_sem_procs_def
        demo_process_def kstate.extend_def)
qed (simp_all add: demo_sem_def demo_kernel_def kstate.extend_def demo_sem_procs_def demo_process_def
  free_process_def)



lemma demo_sem_facts:
  "0 < length (sem_list demo_sem)" "sem_val (sem_list demo_sem ! 0) = -2"
  "\<forall>v \<in> set [2, 1]. status (proc_list demo_sem ! v) = PROC_WAITING"
  "p_next (proc_list demo_sem ! 0) = None"
  by (simp_all add: demo_sem_def kstate.extend_def demo_kernel_def demo_sem_procs_def demo_process_def
      free_process_def)


text \<open>when two processes wait and the caller of \<^verbatim>\<open>do_sem_v\<close> has never waited behind another
  one (its \<^verbatim>\<open>next\<close> is null), the call wakes the last comer and empties the list although the
  value says that one more process waits: that process is lost, and the next \<^verbatim>\<open>do_sem_v\<close> follows
  the null pointer.\<close>

theorem sem_v_loses_waiter:
  assumes "proc_ok s" "curr_proc s = Some c" "i < length (sem_list s)"
    and "waiters (proc_list s) (sem_head (sem_list s ! i)) [w, v]"
    and "status (proc_list s ! w) = PROC_WAITING" "status (proc_list s ! v) = PROC_WAITING" "v \<noteq> w"
    and "sem_val (sem_list s ! i) = -2" "p_next (proc_list s ! c) = None"
  shows "\<exists>r s'. do_sem_v (int i) s = Some (Switches r s') \<and> sem_val (sem_list s' ! i) = -1 \<and>
    status (proc_list s' ! v) = PROC_WAITING \<and> waiters (proc_list s') (sem_head (sem_list s' ! i)) [] \<and>
    do_sem_v (int i) s' = None"
proof -
  have len: "length (proc_list s) = 20" using assms(1) by (simp add: proc_ok_def)
  have w: "sem_head (sem_list s ! i) = Some w" "w < 20" "v < 20" using assms(4) len by simp_all
  have neg: "sem_val (sem_list s ! i) < 0" using assms(8) by simp
  obtain k r where k: "do_sem_v (int i) s = Some (Switches r (switched k (v_woken i c w s)))"
      "k < 20" "k = w \<or> status (proc_list s ! k) = PROC_READY"
    using sem_v_switch [OF assms(1-3) neg w(1,2) assms(5)] by blast
  let ?u = "switched k (v_woken i c w s)"
  have "sem_list ?u ! i = (sem_list s ! i)\<lparr>sem_val := -1, sem_head := None\<rparr>"
    using assms(3,8,9) by simp
  moreover have "i < length (sem_list ?u)" using assms(3) by simp
  ultimately have "sem_val (sem_list ?u ! i) = -1" "sem_head (sem_list ?u ! i) = None"
      "do_sem_v (int i) ?u = None"
    by (simp_all add: do_sem_v_def sem_index_def Let_def del: sem_frame)
  moreover have "v \<noteq> k" using k(3) assms(6,7) by auto
  then have "status (proc_list ?u ! v) = PROC_WAITING"
    using w(3) len assms(6,7) by (simp add: switched_nth)
  ultimately show ?thesis using k(1)
    by (intro exI [of _ r] exI [of _ ?u] conjI) (simp_all only: waiters.simps)
qed

lemma sem_v_loses_waiter_witness:
  "\<exists>r s'. do_sem_v (int 0) demo_sem = Some (Switches r s') \<and> do_sem_v (int 0) s' = None"
proof -
  have st: "status (proc_list demo_sem ! 2) = PROC_WAITING" "status (proc_list demo_sem ! 1) = PROC_WAITING"
    "(1 :: nat) \<noteq> 2"
    using demo_sem_facts(3) by simp_all
  show ?thesis
    using sem_v_loses_waiter [OF demo_sem_ok(1,2) demo_sem_facts(1) demo_sem_ok(3) st
        demo_sem_facts(2,4)] by blast
qed

text \<open>\<^verbatim>\<open>do_getsem\<close> gives the first semaphore that is not in use, with the value asked for,
  and leaves all others alone; only when all are in use it gives -1 and changes nothing. Between
  two of its calls numbers never repeat unless \<^verbatim>\<open>do_freesem\<close> gives one back: of any number of calls
  in a row exactly as many succeed as there are unused semaphores.\<close>

theorem getsem_first_unused:
  "case do_getsem val s of (n, s') \<Rightarrow>
     (if \<exists>x \<in> set (sem_list s). \<not> sem_used x
      then \<exists>i < length (sem_list s). n = int i \<and> \<not> sem_used (sem_list s ! i) \<and>
        (\<forall>j < i. sem_used (sem_list s ! j)) \<and>
        sem_list s' = (sem_list s)[i := (sem_list s ! i)\<lparr>sem_val := val, sem_used := True\<rparr>]
      else n = -1 \<and> s' = s) \<and>
     (\<forall>m rs t. alloc_times (sem_alloc val) m s = (rs, t) \<longrightarrow>
        length (filter (\<lambda>r. r \<noteq> None) rs) = min m (free_slots (\<lambda>x. \<not> sem_used x) (sem_list s)))"
proof (cases "sem_alloc val s")
  case (Pair r s')
  show ?thesis
  proof (cases r)
    case None
    then have "s' = s \<and> (\<forall>x \<in> set (sem_list s). sem_used x)"
      using sem_slots.alloc_full Pair by blast
    then show ?thesis using None Pair sem_slots.alloc_times_count by (auto simp: do_getsem_def)
  next
    case (Some i)
    then have i: "i < length (sem_list s)" "\<not> sem_used (sem_list s ! i)" "\<forall>j < i. sem_used (sem_list s ! j)"
      using sem_slots.alloc_slot [of val s i s'] Pair by auto
    moreover have "s' = upd_sem i (\<lambda>x. x\<lparr>sem_val := val, sem_used := True\<rparr>) s"
      using Pair Some by (auto simp: sem_alloc_def split: option.splits)
    moreover have "\<exists>x \<in> set (sem_list s). \<not> sem_used x" using i(1,2) nth_mem by blast
    ultimately show ?thesis
      using Some Pair sem_slots.alloc_times_count by (auto simp: do_getsem_def)
  qed
qed

lemma getsem_first_unused_witness:
  "case do_getsem 1 demo_sem of (n, s') \<Rightarrow> 0 \<le> n"
proof -
  have "\<exists>x \<in> set (sem_list demo_sem). \<not> sem_used x"
    by (simp add: demo_sem_def kstate.extend_def)
  then show ?thesis
    using getsem_first_unused [of demo_sem 1] by (auto split: prod.splits)
qed


end
