(* ===== verification/Ide_Disk.thy ===== *)
theory Ide_Disk
  imports Format Semaphore
begin

text \<open>
  The disk driver \<^verbatim>\<open>include/ide.h\<close>. The drive is modelled by its task file registers, the sectors
  it holds and the answers that its status port will give. A transfer always passes through the
  RAM at \<^verbatim>\<open>TMP_USER_ADDR\<close>; where it goes from there is an argument, the \<open>sink\<close>: \<open>sink off n s\<close> is the
  \<^verbatim>\<open>memcpy\<close> of \<open>n\<close> bytes from \<^verbatim>\<open>TMP_USER_ADDR\<close> to offset \<open>off\<close> of the destination.
\<close>

section \<open>The drive\<close>

record ide =
  ide_count :: u8
  ide_low :: u8
  ide_mid :: u8
  ide_high :: u8
  ide_drive :: u8
  ide_command :: u8
  ide_status :: "u8 list"
  ide_sectors :: "nat \<Rightarrow> buf"

record machine = kernel +
  k_ide :: ide
  cpu_edi :: u32

definition ide_out :: "u16 \<Rightarrow> u8 \<Rightarrow> ide \<Rightarrow> ide" where
  "ide_out port v d =
     (if port = 0x1F2 then d\<lparr>ide_count := v\<rparr>
      else if port = 0x1F3 then d\<lparr>ide_low := v\<rparr>
      else if port = 0x1F4 then d\<lparr>ide_mid := v\<rparr>
      else if port = 0x1F5 then d\<lparr>ide_high := v\<rparr>
      else if port = 0x1F6 then d\<lparr>ide_drive := v\<rparr>
      else if port = 0x1F7 then d\<lparr>ide_command := v\<rparr>
      else d)"

text \<open>The sector that the registers select (28-bit logical block address).\<close>

definition lba :: "ide \<Rightarrow> nat" where
  "lba d = unat (ide_low d) + 256 * unat (ide_mid d) + 65536 * unat (ide_high d) +
     16777216 * (unat (ide_drive d) mod 16)"

fun wait_status :: "u8 list \<Rightarrow> u8 list option" where
  "wait_status [] = None"
| "wait_status (c # cs) = (if c AND 0xC0 \<noteq> 0x40 then wait_status cs else Some cs)"

definition waitdisk :: "ide \<Rightarrow> ide option" where
  "waitdisk d = do { st \<leftarrow> wait_status (ide_status d); Some (d\<lparr>ide_status := st\<rparr>) }"

definition ram_bytes :: "ram \<Rightarrow> nat \<Rightarrow> nat \<Rightarrow> buf" where
  "ram_bytes m a n = map m [a..<a + n]"

definition TMP_USER_ADDR :: nat where "TMP_USER_ADDR = 0x1000"

section \<open>Sectors\<close>

text \<open>
  \<^verbatim>\<open>insw\<close> loads the destination by \<^verbatim>\<open>mov di,ax\<close>: the upper half of \<^verbatim>\<open>edi\<close> stays what it is.
\<close>

definition insw :: "u32 \<Rightarrow> nat \<Rightarrow> 'a machine_scheme \<Rightarrow> 'a machine_scheme option" where
  "insw addr cnt s =
     (if ide_command (k_ide s) = 0x20 then
        (let edi = (cpu_edi s AND 0xFFFF0000) OR (addr AND 0xFFFF)
         in Some (s\<lparr>k_ram := ram_put (k_ram s) (unat edi) (take (2 * cnt) (ide_sectors (k_ide s) (lba (k_ide s))))\<rparr>))
      else None)"

definition outsw :: "buf \<Rightarrow> 'a machine_scheme \<Rightarrow> 'a machine_scheme option" where
  "outsw b s =
     (if ide_command (k_ide s) = 0x30 then
        Some (s\<lparr>k_ide := (k_ide s)\<lparr>ide_sectors := (ide_sectors (k_ide s))(lba (k_ide s) := b)\<rparr>\<rparr>)
      else None)"

definition ide_select :: "u32 \<Rightarrow> u8 \<Rightarrow> ide \<Rightarrow> ide" where
  "ide_select secno cmd d =
     (let d = ide_out 0x1F2 1 d;
          d = ide_out 0x1F3 (ucast (secno AND 0xFF)) d;
          d = ide_out 0x1F4 (ucast (drop_bit 8 secno AND 0xFF)) d;
          d = ide_out 0x1F5 (ucast (drop_bit 16 secno AND 0xFF)) d;
          d = ide_out 0x1F6 (ucast ((drop_bit 24 secno AND 0xF) OR 0xE0)) d
      in ide_out 0x1F7 cmd d)"

definition readsect :: "u32 \<Rightarrow> u32 \<Rightarrow> 'a machine_scheme \<Rightarrow> 'a machine_scheme option" where
  "readsect dst secno s =
     do { let s = disable_k s;
          let s = s\<lparr>k_ide := ide_select secno 0x20 (k_ide s)\<rparr>;
          d \<leftarrow> waitdisk (k_ide s);
          let s = s\<lparr>k_ide := d\<rparr>;
          insw dst (512 div 2) s }"

function read_sectors ::
  "(nat \<Rightarrow> 'a machine_scheme \<Rightarrow> 'a machine_scheme option) \<Rightarrow> u32 \<Rightarrow> nat \<Rightarrow> nat \<Rightarrow>
   'a machine_scheme \<Rightarrow> 'a machine_scheme option" where
  "read_sectors copy startsec cnt i s =
     (if i < cnt then
        do { s \<leftarrow> readsect (of_nat (TMP_USER_ADDR + i * 512)) (startsec + of_nat i) s;
             s \<leftarrow> copy (cnt * 512) s;
             read_sectors copy startsec cnt (Suc i) s }
      else Some s)"
  by pat_completeness auto
termination
  by (relation "measure (\<lambda>(c, st, cnt, i, s). cnt - i)") auto

declare read_sectors.simps [simp del]

text \<open>The 512 bytes to write are an argument, since the source may be any array.\<close>

definition writesect :: "buf \<Rightarrow> u32 \<Rightarrow> 'a machine_scheme \<Rightarrow> 'a machine_scheme option" where
  "writesect b secno s =
     do { let s = disable_k s;
          d \<leftarrow> waitdisk (k_ide s);
          let s = s\<lparr>k_ide := ide_select secno 0x30 d\<rparr>;
          d \<leftarrow> waitdisk (k_ide s);
          outsw b (s\<lparr>k_ide := d\<rparr>) }"

text \<open>\<open>src off s\<close> are the 512 bytes at an offset of the source.\<close>

function write_sectors ::
  "(nat \<Rightarrow> 'a machine_scheme \<Rightarrow> buf option) \<Rightarrow> u32 \<Rightarrow> nat \<Rightarrow> nat \<Rightarrow>
   'a machine_scheme \<Rightarrow> 'a machine_scheme option" where
  "write_sectors src startsec cnt i s =
     (if i < cnt then
        do { b \<leftarrow> src (i * 512) s;
             s \<leftarrow> writesect b (startsec + of_nat i) s;
             write_sectors src startsec cnt (Suc i) s }
      else Some (enable_k s))"
  by pat_completeness auto
termination
  by (relation "measure (\<lambda>(c, st, cnt, i, s). cnt - i)") auto

declare write_sectors.simps [simp del]

section \<open>Destinations\<close>

definition ram_sink :: "nat \<Rightarrow> nat \<Rightarrow> nat \<Rightarrow> 'a machine_scheme \<Rightarrow> 'a machine_scheme option" where
  "ram_sink addr off n s = Some (s\<lparr>k_ram := ram_memcpy (k_ram s) (addr + off) TMP_USER_ADDR n\<rparr>)"

section \<open>Showing sectors\<close>

definition on_tty :: "(tty \<Rightarrow> tty option) \<Rightarrow> 'a kstate_scheme \<Rightarrow> 'a kstate_scheme option" where
  "on_tty f s = do { t \<leftarrow> f (k_tty s); Some (s\<lparr>k_tty := t\<rparr>) }"

abbreviation printf_lit :: "string \<Rightarrow> arg list \<Rightarrow> tty \<Rightarrow> tty option" where
  "printf_lit fmt args \<equiv> printf (lit fmt) 0 args"

abbreviation nl :: string where "nl \<equiv> [CHR 0x0A]"

text \<open>The bytes from \<open>i\<close> up to \<open>n\<close>, a space behind every second.\<close>

function show_bytes :: "(nat \<Rightarrow> u8) \<Rightarrow> nat \<Rightarrow> nat \<Rightarrow> tty \<Rightarrow> tty option" where
  "show_bytes sector j n t =
     (if j < n then
        do { t \<leftarrow> printf_lit ''%x'' [Arg_int (ucast (sector j))] t;
             t \<leftarrow> (if j mod 2 = 1 then printf_lit '' '' [] t else Some t);
             show_bytes sector (Suc j) n t }
      else Some t)"
  by pat_completeness auto
termination
  by (relation "measure (\<lambda>(s, j, n, t). n - j)") auto

declare show_bytes.simps [simp del]

definition show_one_sector :: "nat \<Rightarrow> ram \<Rightarrow> tty \<Rightarrow> tty option" where
  "show_one_sector addr m t =
     do { t \<leftarrow> printf_lit (''Addr: %xh'' @ nl) [Arg_int (of_nat addr)] t;
          t \<leftarrow> show_bytes (\<lambda>j. m (addr + j)) 0 128 t;
          t \<leftarrow> show_bytes (\<lambda>j. m (addr + 128 + j)) 0 128 t;
          t \<leftarrow> show_bytes (\<lambda>j. m (addr + 256 + j)) 0 128 t;
          t \<leftarrow> show_bytes (\<lambda>j. m (addr + 384 + j)) 0 128 t;
          printf_lit nl [] t }"

definition show_hex :: "nat \<Rightarrow> nat \<Rightarrow> ram \<Rightarrow> tty \<Rightarrow> tty option" where
  "show_hex addr cnt m t =
     do { t \<leftarrow> printf_lit (''Addr: %xh'' @ nl) [Arg_int (of_nat addr)] t;
          t \<leftarrow> show_bytes (\<lambda>j. m (addr + j)) 0 cnt t;
          printf_lit nl [] t }"

text \<open>The result is what is left of the keys.\<close>

definition read_disk_test ::
  "u8 list \<Rightarrow> 'a machine_scheme \<Rightarrow> (u8 list \<times> 'a machine_scheme) option" where
  "read_disk_test keys s =
     do { s \<leftarrow> on_tty (printf_lit ''Please enter the sector number: '' []) s;
          (ds, keys, t) \<leftarrow> scanf keys (lit ''%d'') 0 [Dest_int 0] (k_tty s);
          num \<leftarrow> (case ds of [Dest_int n] \<Rightarrow> Some n | _ \<Rightarrow> None);
          let s = s\<lparr>k_tty := t\<rparr>;
          s \<leftarrow> on_tty (printf_lit (''Reading sector %d...'' @ nl) [Arg_int num]) s;
          s \<leftarrow> read_sectors (ram_sink 0x1000 0) num 1 0 s;
          s \<leftarrow> on_tty (printf_lit (''Address: %x'' @ nl) [Arg_int 0x1000]) s;
          s \<leftarrow> on_tty (show_one_sector 0x1000 (k_ram s)) s;
          Some (keys, s) }"

section \<open>The drive's registers\<close>

lemma ide_select_fields:
  "ide_low (ide_select n c d) = ucast (n AND 0xFF)"
  "ide_mid (ide_select n c d) = ucast (drop_bit 8 n AND 0xFF)"
  "ide_high (ide_select n c d) = ucast (drop_bit 16 n AND 0xFF)"
  "ide_drive (ide_select n c d) = ucast ((drop_bit 24 n AND 0xF) OR 0xE0)"
  "ide_command (ide_select n c d) = c" "ide_status (ide_select n c d) = ide_status d"
  "ide_sectors (ide_select n c d) = ide_sectors d"
  by (simp_all add: ide_select_def ide_out_def Let_def)

lemma unat_drop_bit: "unat (drop_bit k (n :: u32)) = unat n div 2 ^ k"
proof -
  have "unat (drop_bit k n) = drop_bit k (take_bit LENGTH(32) (unat n))"
    by (simp only: unsigned_drop_bit_eq)
  also have "take_bit LENGTH(32) (unat n) = unat n" using unat_u32 [of n] by (simp add: take_bit_nat_eq_self)
  finally show ?thesis by (simp only: drop_bit_eq_div)
qed

lemma byte_of_word: "unat (ucast (drop_bit k (n :: u32) AND 0xFF) :: u8) = unat n div 2 ^ k mod 256"
proof -
  have "drop_bit k n AND 0xFF = take_bit 8 (drop_bit k n)" by (simp add: mask_consts take_bit_eq_mask)
  then have "unat (ucast (drop_bit k n AND 0xFF) :: u8) = take_bit 8 (unat (drop_bit k n))"
    by (simp add: unsigned_ucast_eq unsigned_take_bit_eq)
  also have "\<dots> = unat n div 2 ^ k mod 256"
    unfolding unat_drop_bit by (simp add: take_bit_eq_mod)
  finally show ?thesis .
qed

lemma nibble_of_word: "unat (ucast ((drop_bit 24 (n :: u32) AND 0xF) OR 0xE0) :: u8) mod 16 = unat n div 2 ^ 24 mod 16"
proof -
  have "take_bit 4 (ucast ((drop_bit 24 n AND 0xF) OR 0xE0) :: u8) = take_bit 4 (ucast (drop_bit 24 n) :: u8)"
  proof (rule bit_word_eqI)
    fix i
    have "bit (0xE0 :: u32) i \<Longrightarrow> 4 \<le> i"
    proof -
      have "(0xE0 :: u32) = push_bit 4 14" by (simp add: push_bit_eq_mult)
      then show "bit (0xE0 :: u32) i \<Longrightarrow> 4 \<le> i" by (simp only: bit_push_bit_iff)
    qed
    then show "bit (take_bit 4 (ucast ((drop_bit 24 n AND 0xF) OR 0xE0) :: u8)) i \<longleftrightarrow>
        bit (take_bit 4 (ucast (drop_bit 24 n) :: u8)) i"
      using mask_bits_word(3) [where 'a = 32, of i] by (auto simp: bit_simps)
  qed
  then have "unat (take_bit 4 (ucast ((drop_bit 24 n AND 0xF) OR 0xE0) :: u8)) =
      unat (take_bit 4 (ucast (drop_bit 24 n) :: u8))" by simp
  then have "take_bit 4 (unat (ucast ((drop_bit 24 n AND 0xF) OR 0xE0) :: u8)) =
      take_bit 4 (take_bit 8 (unat (drop_bit 24 n)))"
    by (simp only: unsigned_take_bit_eq unsigned_ucast_eq) simp
  then show ?thesis unfolding unat_drop_bit by (simp add: take_bit_eq_mod mod_mod_cancel)
qed

lemma lba_select: "lba (ide_select n c d) = unat n mod 2 ^ 28"
proof -
  define x where "x = unat n"
  have "lba (ide_select n c d) = x mod 256 + 256 * (x div 256 mod 256) +
      65536 * (x div 65536 mod 256) + 16777216 * (x div 16777216 mod 16)"
    using byte_of_word [of 0 n] byte_of_word [of 8 n] byte_of_word [of 16 n] nibble_of_word [of n]
    by (simp add: lba_def ide_select_fields x_def)
  also have "\<dots> = x mod 268435456"
    using mod_mult2_eq [of x 256 1048576] mod_mult2_eq [of "x div 256" 256 4096]
      mod_mult2_eq [of "x div 65536" 256 16] by (simp add: div_mult2_eq [symmetric])
  finally show ?thesis by (simp add: x_def)
qed

text \<open>Each wait uses up one answer that says ready and those before it.\<close>

definition ready :: "u8 \<Rightarrow> bool" where "ready c \<longleftrightarrow> c AND 0xC0 = 0x40"

definition readies :: "ide \<Rightarrow> nat" where "readies d = length (filter ready (ide_status d))"

lemma wait_status_ready:
  "wait_status cs = (case dropWhile (\<lambda>c. \<not> ready c) cs of [] \<Rightarrow> None | c # r \<Rightarrow> Some r)"
  by (induction cs) (auto simp: ready_def)

lemma filter_dropWhile: "filter p (dropWhile (\<lambda>c. \<not> p c) cs) = filter p cs"
  by (induction cs) auto

lemma waitdisk_readies:
  "0 < readies d \<Longrightarrow> \<exists>st. waitdisk d = Some (d\<lparr>ide_status := st\<rparr>) \<and> length (filter ready st) = readies d - 1"
proof -
  assume "0 < readies d"
  then obtain c r where d: "dropWhile (\<lambda>c. \<not> ready c) (ide_status d) = c # r" and "ready c"
    using filter_dropWhile [of ready "ide_status d"] hd_dropWhile [of "\<lambda>c. \<not> ready c" "ide_status d"]
    by (cases "dropWhile (\<lambda>c. \<not> ready c) (ide_status d)") (auto simp: readies_def)
  then have "filter ready (ide_status d) = c # filter ready r"
    using filter_dropWhile [of ready "ide_status d"] by simp
  then have "waitdisk d = Some (d\<lparr>ide_status := r\<rparr>)" "length (filter ready r) = readies d - 1"
    using d by (simp_all add: waitdisk_def wait_status_ready readies_def)
  then show ?thesis by blast
qed

lemma waitdisk_hangs: "waitdisk d = None \<longleftrightarrow> readies d = 0"
proof
  assume "waitdisk d = None"
  then show "readies d = 0" using waitdisk_readies [of d] by (cases "readies d") auto
next
  assume "readies d = 0"
  then have "dropWhile (\<lambda>c. \<not> ready c) (ide_status d) = []"
    by (auto simp: readies_def dropWhile_eq_Nil_conv filter_empty_conv)
  then have "wait_status (ide_status d) = None" by (simp only: wait_status_ready list.case)
  then show "waitdisk d = None" by (simp add: waitdisk_def)
qed

section \<open>One sector\<close>

definition sector_of :: "'a machine_scheme \<Rightarrow> u32 \<Rightarrow> buf" where
  "sector_of s n = ide_sectors (k_ide s) (unat n mod 2 ^ 28)"

text \<open>The drive holds sectors of 512 bytes and answers; the upper half of \<^verbatim>\<open>edi\<close> is zero.\<close>

definition disk_ok :: "nat \<Rightarrow> 'a machine_scheme \<Rightarrow> bool" where
  "disk_ok n s \<longleftrightarrow> (\<forall>i. length (ide_sectors (k_ide s) i) = 512) \<and> n \<le> readies (k_ide s) \<and>
     cpu_edi s AND 0xFFFF0000 = 0"

text \<open>What only changes by a transfer: the flag, the RAM area, the registers of the drive.\<close>

definition disk_read :: "ram \<Rightarrow> io \<Rightarrow> ide \<Rightarrow> 'a machine_scheme \<Rightarrow> 'a machine_scheme" where
  "disk_read m a d s = s\<lparr>k_ram := m, k_io := a, k_ide := d\<rparr>"

lemma readsect_ok:
  assumes "disk_ok (Suc n) s" "unat dst < 65536"
  shows "\<exists>a d. readsect dst secno s =
      Some (disk_read (ram_put (k_ram s) (unat dst) (sector_of s secno)) a d s) \<and>
    ide_sectors d = ide_sectors (k_ide s) \<and> n \<le> readies d \<and> a = disable (k_io s)"
proof -
  let ?d = "ide_select secno 0x20 (k_ide s)"
  have "0 < readies ?d" using assms(1) by (auto simp: disk_ok_def readies_def ide_select_fields)
  then obtain st where w: "waitdisk ?d = Some (?d\<lparr>ide_status := st\<rparr>)"
    "length (filter ready st) = readies ?d - 1"
    using waitdisk_readies by blast
  have "dst AND 0xFFFF = dst"
  proof -
    have "dst = take_bit 16 dst"
      using assms(2) by (simp only: word_unat_eq_iff unsigned_take_bit_eq) (simp add: take_bit_nat_eq_self)
    then show ?thesis by (simp add: mask_consts take_bit_eq_mask)
  qed
  then have e: "(cpu_edi s AND 0xFFFF0000) OR (dst AND 0xFFFF) = dst"
    using assms(1) by (simp add: disk_ok_def)
  have sec: "take 512 (sector_of s secno) = sector_of s secno"
    using assms(1) by (simp add: disk_ok_def sector_of_def)
  have "n \<le> readies (?d\<lparr>ide_status := st\<rparr>)"
    using w(2) assms(1) unfolding readies_def disk_ok_def ide_select_fields by (simp add: ide_select_fields) linarith
  moreover have "readsect dst secno s =
      Some (disk_read (ram_put (k_ram s) (unat dst) (sector_of s secno)) (disable (k_io s)) (?d\<lparr>ide_status := st\<rparr>) s)"
    using w(1) e sec lba_select [of secno "0x20" "k_ide s"]
    by (simp add: readsect_def insw_def disk_read_def ide_select_fields sector_of_def lba_def)
  ultimately show ?thesis by (auto simp: ide_select_fields)
qed


section \<open>Several sectors\<close>

text \<open>The first \<open>k\<close> sectors from \<open>n\<close> are in the RAM area.\<close>

definition in_area :: "(nat \<Rightarrow> buf) \<Rightarrow> u32 \<Rightarrow> nat \<Rightarrow> ram \<Rightarrow> bool" where
  "in_area img n k m \<longleftrightarrow>
     ram_bytes m 0x1000 (k * 512) = concat (map (\<lambda>i. img (unat (n + of_nat i) mod 2 ^ 28)) [0..<k])"

lemma in_area_step:
  assumes "in_area img n k m" "length (img (unat (n + of_nat k) mod 2 ^ 28)) = 512"
  shows "in_area img n (Suc k) (ram_put m (0x1000 + k * 512) (img (unat (n + of_nat k) mod 2 ^ 28)))"
proof -
  let ?b = "img (unat (n + of_nat k) mod 2 ^ 28)"
  have "[0x1000..<0x1000 + Suc k * 512] = [0x1000..<0x1000 + k * 512] @ [0x1000 + k * 512..<0x1000 + k * 512 + 512]"
    by (subst upt_add_eq_append [symmetric]) (simp_all add: algebra_simps)
  moreover have "map (ram_put m (0x1000 + k * 512) ?b) [0x1000..<0x1000 + k * 512] = map m [0x1000..<0x1000 + k * 512]"
    by (auto simp: ram_put_val)
  moreover have "map (ram_put m (0x1000 + k * 512) ?b) [0x1000 + k * 512..<0x1000 + k * 512 + 512] = ?b"
    using assms(2) by (intro nth_equalityI) (auto simp: ram_put_val)
  ultimately show ?thesis
    using assms(1) by (simp only: in_area_def ram_bytes_def map_append concat_append upt_Suc_append le0
        list.map concat.simps append_Nil2)
qed

text \<open>The sectors from \<open>n\<close> on.\<close>

abbreviation sectors_of :: "'a machine_scheme \<Rightarrow> u32 \<Rightarrow> nat \<Rightarrow> buf" where
  "sectors_of s n cnt \<equiv> concat (map (\<lambda>i. sector_of s (n + of_nat i)) [0..<cnt])"

lemma buf_put_twice:
  "length x = length y \<Longrightarrow> d + length x \<le> length b \<Longrightarrow> buf_put (buf_put b d x) d y = buf_put b d y"
  by (rule nth_equalityI) (auto simp: nth_buf_put)

text \<open>
  A destination of transfers: \<open>content\<close> is what it holds, \<open>kept\<close> what the client needs unchanged.
  The area between \<^verbatim>\<open>TMP_USER_ADDR\<close> and 0x10000 is not part of it.
\<close>

locale copy_target =
  fixes sink :: "nat \<Rightarrow> nat \<Rightarrow> 'a machine_scheme \<Rightarrow> 'a machine_scheme option"
    and content :: "'a machine_scheme \<Rightarrow> buf"
    and kept :: "'a machine_scheme \<Rightarrow> 'b"
  assumes sink_copies: "off + n \<le> length (content s) \<Longrightarrow> n \<le> 0xF000 \<Longrightarrow>
      \<exists>s'. sink off n s = Some s' \<and>
        content s' = buf_put (content s) off (ram_bytes (k_ram s) TMP_USER_ADDR n) \<and>
        (\<forall>x. 0x1000 \<le> x \<and> x < 0x10000 \<longrightarrow> k_ram s' x = k_ram s x) \<and>
        k_ide s' = k_ide s \<and> cpu_edi s' = cpu_edi s \<and> kept s' = kept s"
    and content_read: "(\<And>x. x < 0x1000 \<or> 0x10000 \<le> x \<Longrightarrow> m x = k_ram s x) \<Longrightarrow>
      content (disk_read m a d s) = content s"
    and kept_read: "kept (disk_read m a d s) = kept s"
    and content_flag: "content (enable_k s) = content s" "kept (enable_k s) = kept s"
begin

lemma read_sectors_target:
  assumes "disk_ok (cnt - k + r) s" "k < cnt" "cnt \<le> 120"
    and "off + cnt * 512 \<le> length (content s)" "in_area (ide_sectors (k_ide s)) n k (k_ram s)"
  shows "\<exists>s'. read_sectors (sink off) n cnt k s = Some s' \<and>
    content s' = buf_put (content s) off (sectors_of s n cnt) \<and>
    ide_sectors (k_ide s') = ide_sectors (k_ide s) \<and> disk_ok r s' \<and> kept s' = kept s"
  using assms
proof (induction "cnt - k" arbitrary: k s)
  case (Suc m)
  let ?dst = "of_nat (TMP_USER_ADDR + k * 512) :: u32" and ?sec = "n + of_nat k"
  have dst: "unat ?dst = 0x1000 + k * 512"
    using Suc.prems(2,3) unfolding unat_of_nat TMP_USER_ADDR_def
    by (subst mod_less) simp_all
  have "cnt - k + r = Suc (m + r)" using Suc.hyps(2) by simp
  then have "disk_ok (Suc (m + r)) s" using Suc.prems(1) by (simp only:)
  moreover have "unat ?dst < 65536" using dst Suc.prems(2,3) by simp
  ultimately obtain a d where rs: "readsect ?dst ?sec s =
      Some (disk_read (ram_put (k_ram s) (0x1000 + k * 512) (sector_of s ?sec)) a d s)"
    and d: "ide_sectors d = ide_sectors (k_ide s)" "m + r \<le> readies d"
    using readsect_ok [of "m + r" s ?dst ?sec] dst by auto
  let ?m = "ram_put (k_ram s) (0x1000 + k * 512) (sector_of s ?sec)"
  let ?s1 = "disk_read ?m a d s"
  have sec: "length (sector_of s ?sec) = 512" using Suc.prems(1) by (simp add: disk_ok_def sector_of_def)
  have c1: "content ?s1 = content s"
    using Suc.prems(2,3) sec by (intro content_read) (auto simp: ram_put_val)
  have area: "in_area (ide_sectors (k_ide s)) n (Suc k) ?m"
    unfolding sector_of_def using Suc.prems(1,5) by (intro in_area_step) (auto simp: disk_ok_def)
  obtain s2 where s2: "sink off (cnt * 512) ?s1 = Some s2"
      "content s2 = buf_put (content s) off (ram_bytes ?m TMP_USER_ADDR (cnt * 512))"
      "\<And>x. 0x1000 \<le> x \<and> x < 0x10000 \<Longrightarrow> k_ram s2 x = ?m x"
      "k_ide s2 = d" "cpu_edi s2 = cpu_edi s" "kept s2 = kept s"
    using sink_copies [of off "cnt * 512" ?s1] Suc.prems(3,4) c1 kept_read
    by (auto simp: disk_read_def)
  have step: "read_sectors (sink off) n cnt k s = read_sectors (sink off) n cnt (Suc k) s2"
    using Suc.prems(2) rs s2(1) by (subst read_sectors.simps) simp
  have ok2: "disk_ok (m + r) s2" using Suc.prems(1) d s2 by (simp add: disk_ok_def)
  have same: "sector_of s2 = sector_of s" using s2(4) d(1) by (simp add: sector_of_def fun_eq_iff)
  have len: "length (ram_bytes ?m TMP_USER_ADDR (cnt * 512)) = cnt * 512" by (simp add: ram_bytes_def)
  show ?case
  proof (cases "Suc k = cnt")
    case True
    then have "read_sectors (sink off) n cnt k s = Some s2"
      unfolding step by (subst read_sectors.simps) simp
    moreover have "ram_bytes ?m TMP_USER_ADDR (cnt * 512) = sectors_of s n cnt"
      using area True by (simp add: in_area_def TMP_USER_ADDR_def sector_of_def)
    moreover have "disk_ok r s2" using ok2 by (auto simp: disk_ok_def)
    ultimately show ?thesis using s2 d(1) by auto
  next
    case False
    have "ram_bytes (k_ram s2) 0x1000 (Suc k * 512) = ram_bytes ?m 0x1000 (Suc k * 512)"
      using s2(3) Suc.prems(2,3) by (auto simp: ram_bytes_def)
    then have "in_area (ide_sectors (k_ide s2)) n (Suc k) (k_ram s2)"
      using area s2(4) d(1) by (simp add: in_area_def)
    moreover have l2: "length (content s2) = length (content s)" using s2(2) len Suc.prems(4) by simp
    moreover have "m = cnt - Suc k" using Suc.hyps(2) by simp
    ultimately obtain s3 where s3: "read_sectors (sink off) n cnt (Suc k) s2 = Some s3"
      "content s3 = buf_put (content s2) off (sectors_of s2 n cnt)"
      "ide_sectors (k_ide s3) = ide_sectors (k_ide s2)" "disk_ok r s3" "kept s3 = kept s2"
      using Suc.hyps(1) [of "Suc k" s2] ok2 Suc.prems False by auto
    have "length (sectors_of s n cnt) = cnt * 512"
      using Suc.prems(1) by (simp add: length_concat disk_ok_def sector_of_def o_def sum_list_triv)
    then have "content s3 = buf_put (content s) off (sectors_of s n cnt)"
      using s3(2) s2(2) len Suc.prems(4) by (simp add: same buf_put_twice)
    then show ?thesis using s3 s2 d(1) unfolding step by auto
  qed
qed simp

end


lemma length_ram_bytes [simp]: "length (ram_bytes m a n) = n"
  by (simp add: ram_bytes_def)

lemma nth_ram_bytes: "i < n \<Longrightarrow> ram_bytes m a n ! i = m (a + i)"
  by (simp add: ram_bytes_def)

lemma copy_target_ram:
  "ram_bytes (ram_memcpy m d s n) a (length b) = buf_put b (d - a) (ram_bytes m s n)"
  if "b = ram_bytes m a (length b)" "a \<le> d" "d - a + n \<le> length b" "s + n \<le> d"
proof (rule nth_equalityI)
  show l: "length (ram_bytes (ram_memcpy m d s n) a (length b)) = length (buf_put b (d - a) (ram_bytes m s n))"
    using that(3) by (simp add: ram_bytes_def)
  fix i
  assume "i < length (ram_bytes (ram_memcpy m d s n) a (length b))"
  then have i: "i < length b" by (simp add: ram_bytes_def)
  have b: "b ! i = m (a + i)" using i that(1) by (metis (no_types, lifting) add.commute length_upt nth_map
      nth_upt nat_add_left_cancel_less add_diff_cancel_left' ram_bytes_def)
  show "ram_bytes (ram_memcpy m d s n) a (length b) ! i = buf_put b (d - a) (ram_bytes m s n) ! i"
  proof (cases "d - a \<le> i \<and> i < d - a + n")
    case True
    then have e: "a + i = d + (i - (d - a))" using that(2) by linarith
    have "ram_memcpy m d s n (a + i) = m (s + (i - (d - a)))"
      unfolding e using that(4) True by (intro ram_memcpy_copies) auto
    moreover have "ram_bytes m s n ! (i - (d - a)) = m (s + (i - (d - a)))"
      using True by (intro nth_ram_bytes) auto
    ultimately show ?thesis using True i that(3) by (simp add: nth_ram_bytes nth_buf_put)
  next
    case False
    then have "ram_memcpy m d s n (a + i) = m (a + i)" using that(2) by (intro ram_memcpy_outside) auto
    then show ?thesis using False i that(3) b by (auto simp: nth_ram_bytes nth_buf_put)
  qed
qed

text \<open>The \<open>cap\<close> bytes from an address above the area of the driver.\<close>

definition ram_content :: "nat \<Rightarrow> nat \<Rightarrow> 'a machine_scheme \<Rightarrow> buf" where
  "ram_content addr cap s = (if 0x10000 \<le> addr then ram_bytes (k_ram s) addr cap else [])"

interpretation ram_target: copy_target "ram_sink addr" "ram_content addr cap"
  "\<lambda>s. (k_tty s, machine.more s)"
proof
  fix off n :: nat and s :: "'a machine_scheme"
  assume le: "off + n \<le> length (ram_content addr cap s)" "n \<le> 0xF000"
  let ?m = "ram_memcpy (k_ram s) (addr + off) TMP_USER_ADDR n"
  have s: "ram_sink addr off n s = Some (s\<lparr>k_ram := ?m\<rparr>)" by (simp add: ram_sink_def)
  show "\<exists>s'. ram_sink addr off n s = Some s' \<and>
        ram_content addr cap s' = buf_put (ram_content addr cap s) off (ram_bytes (k_ram s) TMP_USER_ADDR n) \<and>
        (\<forall>x. 0x1000 \<le> x \<and> x < 0x10000 \<longrightarrow> k_ram s' x = k_ram s x) \<and>
        k_ide s' = k_ide s \<and> cpu_edi s' = cpu_edi s \<and>
        (k_tty s', machine.more s') = (k_tty s, machine.more s)"
  proof (cases "0x10000 \<le> addr")
    case True
    have "length (ram_bytes (k_ram s) addr cap) = cap" by (simp add: ram_bytes_def)
    then have "ram_bytes ?m addr cap =
        buf_put (ram_bytes (k_ram s) addr cap) off (ram_bytes (k_ram s) TMP_USER_ADDR n)"
      using copy_target_ram [of "ram_bytes (k_ram s) addr cap" "k_ram s" addr "addr + off" n TMP_USER_ADDR]
        le True by (simp add: ram_content_def TMP_USER_ADDR_def)
    moreover have "?m x = k_ram s x" if "0x1000 \<le> x" "x < 0x10000" for x
      using that True by (intro ram_memcpy_outside) auto
    ultimately show ?thesis using s True by (simp add: ram_content_def)
  next
    case False
    then show ?thesis using s le by (simp add: ram_content_def ram_bytes_def)
  qed
qed (auto simp: ram_content_def disk_read_def ram_bytes_def)

lemma read_sectors_ram:
  assumes "disk_ok (cnt + r) s" "0 < cnt" "cnt \<le> 120" "0x10000 \<le> addr"
  shows "\<exists>s'. read_sectors (ram_sink addr 0) n cnt 0 s = Some s' \<and>
    ram_bytes (k_ram s') addr (cnt * 512) = sectors_of s n cnt \<and>
    ide_sectors (k_ide s') = ide_sectors (k_ide s) \<and> disk_ok r s' \<and> k_tty s' = k_tty s \<and>
    machine.more s' = machine.more s"
proof -
  let ?c = "ram_content addr (cnt * 512)"
  have "length (?c s) = cnt * 512" using assms(4) by (simp add: ram_content_def ram_bytes_def)
  moreover have "length (sectors_of s n cnt) = cnt * 512"
    using assms(1) by (simp add: length_concat disk_ok_def sector_of_def o_def sum_list_triv)
  moreover have "in_area (ide_sectors (k_ide s)) n 0 (k_ram s)"
    by (simp add: in_area_def ram_bytes_def)
  ultimately show ?thesis
    using ram_target.read_sectors_target [of cnt 0 r s 0 addr "cnt * 512" n] assms
    by (auto simp: ram_content_def buf_put_def)
qed

section \<open>Writing\<close>

lemma writesect_ok:
  assumes "disk_ok (Suc (Suc n)) s" "length b = 512"
  shows "\<exists>s'. writesect b secno s = Some s' \<and> disk_ok n s' \<and>
    ide_sectors (k_ide s') = (ide_sectors (k_ide s))(unat secno mod 2 ^ 28 := b) \<and>
    k_ram s' = k_ram s \<and> k_tty s' = k_tty s \<and> machine.more s' = machine.more s"
proof -
  have "0 < readies (k_ide s)" using assms(1) by (simp add: disk_ok_def)
  then obtain st where w: "waitdisk (k_ide s) = Some ((k_ide s)\<lparr>ide_status := st\<rparr>)"
    "length (filter ready st) = readies (k_ide s) - 1"
    using waitdisk_readies by blast
  let ?d = "ide_select secno 0x30 ((k_ide s)\<lparr>ide_status := st\<rparr>)"
  have "readies ?d = length (filter ready st)" by (simp add: readies_def ide_select_fields)
  then have r: "Suc n \<le> readies ?d" using w(2) assms(1) unfolding disk_ok_def by linarith
  then obtain st' where w': "waitdisk ?d = Some (?d\<lparr>ide_status := st'\<rparr>)"
    "length (filter ready st') = readies ?d - 1"
    using waitdisk_readies [of ?d] by (metis Suc_le_lessD less_nat_zero_code not_gr_zero)
  have "n \<le> length (filter ready st')" using w'(2) r by linarith
  moreover have "lba (?d\<lparr>ide_status := st'\<rparr>) = unat secno mod 2 ^ 28"
    using lba_select [of secno "0x30" "(k_ide s)\<lparr>ide_status := st\<rparr>"] by (simp add: lba_def)
  ultimately show ?thesis
    using w(1) w'(1) assms
    by (simp add: writesect_def outsw_def ide_select_fields disk_ok_def readies_def)
qed


text \<open>The image after \<open>cnt\<close> sectors have been written from \<open>n\<close> on.\<close>

fun written :: "(nat \<Rightarrow> buf) \<Rightarrow> u32 \<Rightarrow> buf list \<Rightarrow> (nat \<Rightarrow> buf)" where
  "written img n [] = img"
| "written img n (b # bs) = written (img(unat n mod 2 ^ 28 := b)) (n + 1) bs"

lemma write_sectors_ok:
  assumes "disk_ok (2 * length bs + r) s" "\<forall>b \<in> set bs. length b = 512"
    and "\<And>j s. j < length bs \<Longrightarrow> src ((i + j) * 512) s = Some (bs ! j)" "cnt = i + length bs"
  shows "\<exists>s'. write_sectors src n cnt i s = Some s' \<and> disk_ok r s' \<and>
    ide_sectors (k_ide s') = written (ide_sectors (k_ide s)) (n + of_nat i) bs \<and>
    k_ram s' = k_ram s \<and> k_tty s' = k_tty s \<and> machine.more s' = machine.more s"
  using assms
proof (induction bs arbitrary: i s)
  case Nil
  then show ?case by (subst write_sectors.simps) (simp add: disk_ok_def)
next
  case (Cons b bs)
  have "src (i * 512) s = Some b" using Cons.prems(3) [of 0 s] by simp
  moreover obtain s1 where s1: "writesect b (n + of_nat i) s = Some s1" "disk_ok (2 * length bs + r) s1"
    "ide_sectors (k_ide s1) = (ide_sectors (k_ide s))(unat (n + of_nat i) mod 2 ^ 28 := b)"
    "k_ram s1 = k_ram s" "k_tty s1 = k_tty s" "machine.more s1 = machine.more s"
    using writesect_ok [of "2 * length bs + r" s b "n + of_nat i"] Cons.prems(1,2) by auto
  moreover have "i < cnt" using Cons.prems(4) by simp
  ultimately have "write_sectors src n cnt i s = write_sectors src n cnt (Suc i) s1"
    by (subst write_sectors.simps) simp
  moreover have "\<And>j s. j < length bs \<Longrightarrow> src ((Suc i + j) * 512) s = Some (bs ! j)"
    using Cons.prems(3) [of "Suc _"] by simp
  ultimately obtain s' where s': "write_sectors src n cnt i s = Some s'" "disk_ok r s'"
    "ide_sectors (k_ide s') = written (ide_sectors (k_ide s1)) (n + of_nat (Suc i)) bs"
    "k_ram s' = k_ram s" "k_tty s' = k_tty s" "machine.more s' = machine.more s"
    using Cons.IH [OF s1(2), of "Suc i"] Cons.prems(2,4) s1(4-6) by auto
  have "written (ide_sectors (k_ide s)) (n + of_nat i) (b # bs) =
      written (ide_sectors (k_ide s1)) (n + of_nat (Suc i)) bs"
    unfolding s1(3) by (simp add: ac_simps)
  then show ?case using s' by auto
qed

lemma unat_next: "unat (n :: u32) + 1 < 4294967296 \<Longrightarrow> unat (n + 1) = unat n + 1"
  by (simp add: unat_word_ariths)

lemma written_other:
  "unat n + length bs \<le> 2 ^ 28 \<Longrightarrow> k < unat n \<or> unat n + length bs \<le> k \<Longrightarrow> written img n bs k = img k"
proof (induction bs arbitrary: img n)
  case (Cons b bs)
  have "unat (n + 1) = unat n + 1" using Cons.prems(1) by (intro unat_next) simp
  then show ?case using Cons.IH [of "n + 1"] Cons.prems by auto
qed simp

lemma written_nth:
  "unat n + length bs \<le> 2 ^ 28 \<Longrightarrow> j < length bs \<Longrightarrow> written img n bs (unat n + j) = bs ! j"
proof (induction bs arbitrary: img n j)
  case (Cons b bs)
  have s: "unat (n + 1) = unat n + 1" using Cons.prems(1) by (intro unat_next) simp
  show ?case
  proof (cases j)
    case 0
    then show ?thesis using written_other [of "n + 1" bs "unat n"] Cons.prems s by simp
  next
    case (Suc i)
    then show ?thesis using Cons.IH [of "n + 1" i] Cons.prems s by simp
  qed
qed simp

section \<open>Properties\<close>

text \<open>\<^verbatim>\<open>read_sectors\<close> into memory above the driver's transfer area fills it with the sectors
  asked for, in order (each pass copies all of them again; the last pass leaves the right ones), and
  changes neither disk nor screen nor the rest of the kernel's data.\<close>

theorem read_sectors_memory:
  assumes "disk_ok cnt s" "0 < cnt" "cnt \<le> 120" "0x10000 \<le> addr"
  shows "\<exists>s'. read_sectors (ram_sink addr 0) n cnt 0 s = Some s' \<and>
    ram_bytes (k_ram s') addr (cnt * 512) = concat (map (\<lambda>i. sector_of s (n + of_nat i)) [0..<cnt]) \<and>
    ide_sectors (k_ide s') = ide_sectors (k_ide s) \<and> k_tty s' = k_tty s \<and>
    machine.more s' = machine.more s"
  using read_sectors_ram [of cnt 0 s addr n] assms by auto

text \<open>C22: what \<^verbatim>\<open>write_sectors\<close> wrote, \<^verbatim>\<open>read_sectors\<close> brings back; the sectors around are
  unchanged.\<close>

theorem write_read_sectors:
  assumes "disk_ok (3 * length bs) s" "\<forall>b \<in> set bs. length b = 512" "0 < length bs" "length bs \<le> 120"
    and "unat n + length bs \<le> 2 ^ 28" "0x10000 \<le> addr"
    and "\<And>j s. j < length bs \<Longrightarrow> src (j * 512) s = Some (bs ! j)"
  shows "\<exists>s1 s2. write_sectors src n (length bs) 0 s = Some s1 \<and>
    read_sectors (ram_sink addr 0) n (length bs) 0 s1 = Some s2 \<and>
    ram_bytes (k_ram s2) addr (length bs * 512) = concat bs \<and>
    (\<forall>k. k < unat n \<or> unat n + length bs \<le> k \<longrightarrow>
       ide_sectors (k_ide s2) k = ide_sectors (k_ide s) k)"
proof -
  have "3 * length bs = 2 * length bs + length bs" by simp
  then have "disk_ok (2 * length bs + length bs) s" using assms(1) by (simp only:)
  then obtain s1 where s1: "write_sectors src n (length bs) 0 s = Some s1" "disk_ok (length bs) s1"
    "ide_sectors (k_ide s1) = written (ide_sectors (k_ide s)) n bs"
    using write_sectors_ok [of bs "length bs" s src 0 "length bs" n] assms(2,7) by auto
  obtain s2 where s2: "read_sectors (ram_sink addr 0) n (length bs) 0 s1 = Some s2"
    "ram_bytes (k_ram s2) addr (length bs * 512) = sectors_of s1 n (length bs)"
    "ide_sectors (k_ide s2) = ide_sectors (k_ide s1)"
    using read_sectors_ram [of "length bs" 0 s1 addr n] s1(2) assms(3,4,6) by auto
  have "sector_of s1 (n + of_nat i) = bs ! i" if i: "i < length bs" for i
  proof -
    have "unat (n + of_nat i) = unat n + i"
      using i assms(4,5) by (simp add: unat_word_ariths unat_of_nat)
    then show ?thesis using i assms(5) written_nth [of n bs i] s1(3) by (simp add: sector_of_def)
  qed
  then have "map (\<lambda>i. sector_of s1 (n + of_nat i)) [0..<length bs] = bs"
    by (intro nth_equalityI) auto
  then have "ram_bytes (k_ram s2) addr (length bs * 512) = concat bs"
    using s2(2) by simp
  then show ?thesis using s1 s2 assms(5) written_other [of n bs] by auto
qed

text \<open>C23: a transfer waits for ever exactly when the drive never reports that it is ready.\<close>

theorem readsect_returns:
  "readsect dst secno s = None \<longleftrightarrow> (\<forall>c \<in> set (ide_status (k_ide s)). c AND 0xC0 \<noteq> 0x40)"
proof -
  have "readsect dst secno s = None \<longleftrightarrow> waitdisk (ide_select secno 0x20 (k_ide s)) = None"
  proof (cases "waitdisk (ide_select secno 0x20 (k_ide s))")
    case (Some d)
    then have "ide_command d = 0x20"
      by (auto simp: waitdisk_def bind_Some_iff ide_select_fields)
    then show ?thesis using Some by (simp add: readsect_def insw_def Let_def)
  qed (simp add: readsect_def)
  also have "\<dots> \<longleftrightarrow> readies (k_ide s) = 0"
    by (simp add: waitdisk_hangs) (simp add: readies_def ide_select_fields)
  also have "\<dots> \<longleftrightarrow> (\<forall>c \<in> set (ide_status (k_ide s)). c AND 0xC0 \<noteq> 0x40)"
    by (auto simp: readies_def filter_empty_conv ready_def)
  finally show ?thesis .
qed


subsection \<open>A machine for the examples\<close>

definition demo_ide :: ide where
  "demo_ide = \<lparr>ide_count = 0, ide_low = 0, ide_mid = 0, ide_high = 0, ide_drive = 0, ide_command = 0,
     ide_status = [0x80, 0x40, 0x80, 0x80, 0x50, 0x58, 0x40], ide_sectors = \<lambda>i. replicate 512 (of_nat i)\<rparr>"

definition demo_machine :: machine where
  "demo_machine = kernel.extend demo_sem (machine.fields demo_ide 0)"

lemma demo_machine_fields [simp]:
  "k_ide demo_machine = demo_ide" "cpu_edi demo_machine = 0" "k_tty demo_machine = k_tty demo_sem"
  by (simp_all add: demo_machine_def kernel.defs machine.defs)

lemma demo_disk_ok: "disk_ok 4 demo_machine"
  by (simp add: disk_ok_def demo_ide_def readies_def ready_def)

lemma readsect_returns_witness:
  "readsect 0x1000 7 demo_machine \<noteq> None \<and>
    readsect 0x1000 7 (demo_machine\<lparr>k_ide := demo_ide\<lparr>ide_status := [0x80, 0xD0]\<rparr>\<rparr>) = None"
  using readsect_returns [of "0x1000" 7 demo_machine]
    readsect_returns [of "0x1000" 7 "demo_machine\<lparr>k_ide := demo_ide\<lparr>ide_status := [0x80, 0xD0]\<rparr>\<rparr>"]
  by (simp add: demo_ide_def)

lemma read_sectors_memory_witness:
  "\<exists>s'. read_sectors (ram_sink 0x20000 0) 5 2 0 demo_machine = Some s' \<and> k_ram s' 0x20200 = 6"
proof -
  have "disk_ok 2 demo_machine" using demo_disk_ok by (simp add: disk_ok_def)
  from read_sectors_memory [OF this, of "0x20000" 5] obtain s' where
    "read_sectors (ram_sink 0x20000 0) 5 2 0 demo_machine = Some s'"
    "ram_bytes (k_ram s') 0x20000 1024 = replicate 512 5 @ replicate 512 6"
    by (auto simp: sector_of_def demo_ide_def upt_rec)
  moreover from this(2) have "ram_bytes (k_ram s') 0x20000 1024 ! 512 = 6"
    by (simp only:) (simp add: nth_append)
  ultimately show ?thesis using nth_ram_bytes [of 512 1024 "k_ram s'" "0x20000"] by auto
qed

lemma write_read_sectors_witness:
  "\<exists>s1 s2. write_sectors (\<lambda>off s. Some (replicate 512 7)) 9 1 0 demo_machine = Some s1 \<and>
    read_sectors (ram_sink 0x20000 0) 9 1 0 s1 = Some s2 \<and>
    ram_bytes (k_ram s2) 0x20000 512 = replicate 512 7"
proof -
  have "disk_ok 3 demo_machine" using demo_disk_ok by (simp add: disk_ok_def)
  then show ?thesis
    using write_read_sectors [of "[replicate 512 7]" demo_machine 9 "0x20000"
        "\<lambda>off s. Some (replicate 512 7)"] by auto
qed

end
