(* ===== verification/Fat_Table.thy ===== *)
theory Fat_Table
  imports Ide_Disk "HOL-Library.Signed_Division"
begin

text \<open>
  The first half of the file system \<^verbatim>\<open>include/fat12.h\<close>: the packed and the unpacked file allocation
  table, the date and time fields, the cluster chains and their transfers, the names of directory
  entries. A directory is the array of its bytes, an entry the index of its first byte.
\<close>

section \<open>State\<close>

text \<open>
  The static variables. \<open>cp_buf\<close> is the local array of \<^verbatim>\<open>fat12_cp\<close>, which is part of the state so
  that transfers can go to it.
\<close>

record fs = machine +
  bootsector :: buf
  phys_fat :: buf
  fat :: "u32 list"
  root_dir :: buf
  subdir :: buf
  cp_buf :: buf

definition FAT_ROOT_REGION_START :: int where "FAT_ROOT_REGION_START = 19"

definition rd32 :: "u32 list \<Rightarrow> nat \<Rightarrow> u32 option" where
  "rd32 f i = (if i < length f then Some (f ! i) else None)"

definition wr32 :: "u32 list \<Rightarrow> nat \<Rightarrow> u32 \<Rightarrow> u32 list option" where
  "wr32 f i v = (if i < length f then Some (f[i := v]) else None)"

text \<open>A field of two bytes, little-endian, and one of four.\<close>

definition get16 :: "buf \<Rightarrow> nat \<Rightarrow> u16 option" where
  "get16 b i = do { x \<leftarrow> rd b i; y \<leftarrow> rd b (i + 1); Some (ucast x + 256 * ucast y) }"

definition put16 :: "buf \<Rightarrow> nat \<Rightarrow> u16 \<Rightarrow> buf option" where
  "put16 b i v = do { b \<leftarrow> wr b i (ucast v); wr b (i + 1) (ucast (drop_bit 8 v)) }"

definition get32 :: "buf \<Rightarrow> nat \<Rightarrow> u32 option" where
  "get32 b i = do { x \<leftarrow> get16 b i; y \<leftarrow> get16 b (i + 2); Some (ucast x + 65536 * ucast y) }"

definition put32 :: "buf \<Rightarrow> nat \<Rightarrow> u32 \<Rightarrow> buf option" where
  "put32 b i v = do { b \<leftarrow> put16 b i (ucast v); put16 b (i + 2) (ucast (drop_bit 16 v)) }"

text \<open>The fields of a directory entry at index \<open>p\<close> (\<^verbatim>\<open>FileEntry_t\<close>) and one of the boot sector.\<close>

definition entry_attribute :: "buf \<Rightarrow> nat \<Rightarrow> u8 option" where
  "entry_attribute b p = rd b (p + 11)"

definition entry_time :: "buf \<Rightarrow> nat \<Rightarrow> u16 option" where
  "entry_time b p = get16 b (p + 22)"

definition entry_date :: "buf \<Rightarrow> nat \<Rightarrow> u16 option" where
  "entry_date b p = get16 b (p + 24)"

definition startCluster :: "buf \<Rightarrow> nat \<Rightarrow> u16 option" where
  "startCluster b p = get16 b (p + 26)"

definition fileLength :: "buf \<Rightarrow> nat \<Rightarrow> u32 option" where
  "fileLength b p = get32 b (p + 28)"

definition BPB_RootDirectoryEntries :: "buf \<Rightarrow> u16 option" where
  "BPB_RootDirectoryEntries b = get16 b 17"

section \<open>The table in its two forms\<close>

function unpack_fat :: "buf \<Rightarrow> nat \<Rightarrow> nat \<Rightarrow> u32 list \<Rightarrow> u32 list option" where
  "unpack_fat ph i j f =
     (if i < 4608 then
        do { x \<leftarrow> rd ph i; y \<leftarrow> rd ph (i + 1); z \<leftarrow> rd ph (i + 2);
             f \<leftarrow> wr32 f j ((ucast x + push_bit 8 (ucast y)) AND 0x0FFF);
             f \<leftarrow> wr32 f (j + 1) (drop_bit 4 (ucast y + push_bit 8 (ucast z)));
             unpack_fat ph (i + 3) (j + 2) f }
      else Some f)"
  by pat_completeness auto
termination
  by (relation "measure (\<lambda>(ph, i, j, f). 4608 - i)") auto

function pack_fat :: "u32 list \<Rightarrow> nat \<Rightarrow> nat \<Rightarrow> buf \<Rightarrow> buf option" where
  "pack_fat f i j ph =
     (if j < 3072 then
        do { a \<leftarrow> rd32 f j; b \<leftarrow> rd32 f (j + 1);
             ph \<leftarrow> wr ph i (ucast a);
             ph \<leftarrow> wr ph (i + 1) ((ucast (drop_bit 8 a) AND 0x0F) OR (ucast (push_bit 4 b) AND 0xF0));
             ph \<leftarrow> wr ph (i + 2) (ucast (drop_bit 4 b));
             pack_fat f (i + 3) (j + 2) ph }
      else Some ph)"
  by pat_completeness auto
termination
  by (relation "measure (\<lambda>(f, i, j, ph). 3072 - j)") auto

declare unpack_fat.simps [simp del] pack_fat.simps [simp del]

definition fat12_write_back_fat :: "'a fs_scheme \<Rightarrow> 'a fs_scheme option" where
  "fat12_write_back_fat s = do { ph \<leftarrow> pack_fat (fat s) 0 0 (phys_fat s); Some (s\<lparr>phys_fat := ph\<rparr>) }"

section \<open>Dates and times\<close>

record fat_date =
  d_year :: int
  d_month :: int
  d_day :: int

record fat_time =
  t_hour :: int
  t_minute :: int
  t_second :: int

definition int_to_date :: "u16 \<Rightarrow> fat_date" where
  "int_to_date date =
     (let year = uint date div 512;
          month = (uint date - year * 512) div 32
      in \<lparr>d_year = year, d_month = month, d_day = uint date - year * 512 - month * 32\<rparr>)"

definition int_to_time :: "u16 \<Rightarrow> fat_time" where
  "int_to_time t =
     (let hour = uint t div 2048;
          minute = (uint t - hour * 2048) div 32
      in \<lparr>t_hour = hour, t_minute = minute, t_second = (uint t - hour * 2048 - minute * 32) * 2\<rparr>)"

definition date_to_int :: "int \<Rightarrow> int \<Rightarrow> int \<Rightarrow> int" where
  "date_to_int year month day = push_bit 9 (year - 1980) + push_bit 5 month + day"

definition time_to_int :: "int \<Rightarrow> int \<Rightarrow> int \<Rightarrow> int" where
  "time_to_int hour minute second = push_bit 11 hour + push_bit 5 minute + second sdiv 2"

section \<open>Names\<close>

function copy_base :: "buf \<Rightarrow> nat \<Rightarrow> nat \<Rightarrow> buf \<Rightarrow> buf option" where
  "copy_base b p i name =
     (if i < 8 then
        do { c \<leftarrow> rd b (p + i);
             if c = 32 then wr name i 0
             else do { name \<leftarrow> wr name i c; copy_base b p (Suc i) name } }
      else Some name)"
  by pat_completeness auto
termination
  by (relation "measure (\<lambda>(b, p, i, n). 8 - i)") auto

function copy_ext :: "buf \<Rightarrow> nat \<Rightarrow> nat \<Rightarrow> nat \<Rightarrow> buf \<Rightarrow> buf option" where
  "copy_ext b p k i name =
     (if i < 3 then
        do { c \<leftarrow> rd b (p + 8 + i);
             if c = 32 then wr name (i + k) 0
             else do { name \<leftarrow> wr name (i + k) c; copy_ext b p k (Suc i) name } }
      else Some name)"
  by pat_completeness auto
termination
  by (relation "measure (\<lambda>(b, p, k, i, n). 3 - i)") auto

declare copy_base.simps [simp del] copy_ext.simps [simp del]

definition fat12_construct_file_name :: "buf \<Rightarrow> buf \<Rightarrow> nat \<Rightarrow> buf option" where
  "fat12_construct_file_name name b p =
     do { name \<leftarrow> memset name 0 0 13;
          name \<leftarrow> copy_base b p 0 name;
          c \<leftarrow> rd b (p + 8);
          name \<leftarrow> (if c \<noteq> 32 then
                     do { name \<leftarrow> strcat name 0 (lit ''.'') 0;
                          k \<leftarrow> strlen name 0;
                          copy_ext b p k 0 name }
                   else Some name);
          name \<leftarrow> wr name 12 0;
          tolower name 0 }"

section \<open>Cluster chains\<close>

text \<open>The result: whether there is a next cluster, and the entry that says so.\<close>

definition fat12_next_sector :: "u32 list \<Rightarrow> u32 \<Rightarrow> (bool \<times> u32) option" where
  "fat12_next_sector f actual =
     do { next \<leftarrow> rd32 f (unat actual); Some (\<not> (next = 0 \<or> 0x0FF0 \<le> next), next) }"

text \<open>
  The transfer loops. They end at the end of the chain; on a chain that runs in a circle they do
  not end (unless the destination does). \<open>stop\<close> says after which index the loop of
  \<^verbatim>\<open>fat12_read_bytes\<close> stops as well.
\<close>

partial_function (option) read_chain ::
  "(nat \<Rightarrow> bool) \<Rightarrow> (nat \<Rightarrow> nat \<Rightarrow> 'a fs_scheme \<Rightarrow> 'a fs_scheme option) \<Rightarrow> nat \<Rightarrow> u32 \<Rightarrow>
   'a fs_scheme \<Rightarrow> (nat \<times> 'a fs_scheme) option" where
  "read_chain stop sink i clust s =
     do { s \<leftarrow> read_sectors (sink (i * 512)) (clust + 33 - 2) 1 0 s;
          (more, clust) \<leftarrow> fat12_next_sector (fat s) clust;
          if \<not> more \<or> stop i then Some (i, enable_k s)
          else read_chain stop sink (i + 1) clust (enable_k s) }"

partial_function (option) write_chain ::
  "(nat \<Rightarrow> bool) \<Rightarrow> (nat \<Rightarrow> 'a fs_scheme \<Rightarrow> buf option) \<Rightarrow> nat \<Rightarrow> u32 \<Rightarrow>
   'a fs_scheme \<Rightarrow> (nat \<times> 'a fs_scheme) option" where
  "write_chain stop src i clust s =
     do { s \<leftarrow> write_sectors (\<lambda>off. src (i * 512 + off)) (clust + 33 - 2) 1 0 s;
          (more, clust) \<leftarrow> fat12_next_sector (fat s) clust;
          if \<not> more \<or> stop i then Some (i, enable_k s)
          else write_chain stop src (i + 1) clust (enable_k s) }"

definition sectors_for :: "nat \<Rightarrow> nat" where
  "sectors_for numBytes = (if numBytes mod 512 = 0 then numBytes div 512 else numBytes div 512 + 1)"

definition fat12_read_bytes ::
  "(nat \<Rightarrow> nat \<Rightarrow> 'a fs_scheme \<Rightarrow> 'a fs_scheme option) \<Rightarrow> u32 \<Rightarrow> u32 \<Rightarrow> 'a fs_scheme \<Rightarrow>
   (nat \<times> 'a fs_scheme) option" where
  "fat12_read_bytes sink cstart numBytes s =
     read_chain (\<lambda>i. sectors_for (unat numBytes) < i + 1) sink 0 cstart s"

definition fat12_read_clusters ::
  "(nat \<Rightarrow> nat \<Rightarrow> 'a fs_scheme \<Rightarrow> 'a fs_scheme option) \<Rightarrow> u32 \<Rightarrow> 'a fs_scheme \<Rightarrow>
   (nat \<times> 'a fs_scheme) option" where
  "fat12_read_clusters sink cstart s = read_chain (\<lambda>i. False) sink 0 cstart s"

definition fat12_write_bytes ::
  "(nat \<Rightarrow> 'a fs_scheme \<Rightarrow> buf option) \<Rightarrow> u32 \<Rightarrow> u32 \<Rightarrow> 'a fs_scheme \<Rightarrow> (nat \<times> 'a fs_scheme) option" where
  "fat12_write_bytes src cstart numBytes s =
     write_chain (\<lambda>i. sectors_for (unat numBytes) < i + 1) src 0 cstart s"

definition fat12_write_clusters ::
  "(nat \<Rightarrow> 'a fs_scheme \<Rightarrow> buf option) \<Rightarrow> u32 \<Rightarrow> 'a fs_scheme \<Rightarrow> (nat \<times> 'a fs_scheme) option" where
  "fat12_write_clusters src cstart s = write_chain (\<lambda>i. False) src 0 cstart s"

text \<open>\<^verbatim>\<open>memset\<close> gets the entry's value as its pointer: four bytes of RAM at that address are cleared.\<close>

partial_function (option) del_loop :: "u32 \<Rightarrow> 'a fs_scheme \<Rightarrow> 'a fs_scheme option" where
  "del_loop clust s =
     do { (flag, new_clust) \<leftarrow> fat12_next_sector (fat s) clust;
          e \<leftarrow> rd32 (fat s) (unat clust);
          let s = s\<lparr>k_ram := ram_memset (k_ram s) (unat e) 0 4\<rparr>;
          if \<not> flag then Some s else del_loop new_clust s }"

definition fat12_del_fat_entry :: "u32 \<Rightarrow> 'a fs_scheme \<Rightarrow> 'a fs_scheme option" where
  "fat12_del_fat_entry cstart s = do { s \<leftarrow> del_loop cstart s; fat12_write_back_fat s }"

partial_function (option) count_clusters :: "u32 list \<Rightarrow> u32 \<Rightarrow> nat \<Rightarrow> nat option" where
  "count_clusters f cl c =
     do { (more, cl) \<leftarrow> fat12_next_sector f cl;
          if more then count_clusters f cl (c + 1) else Some c }"

definition fat12_get_num_cluster :: "u32 \<Rightarrow> 'a fs_scheme \<Rightarrow> nat option" where
  "fat12_get_num_cluster start s =
     (if start = 0 then
        do { n \<leftarrow> BPB_RootDirectoryEntries (bootsector s); Some (unat n * 32 div 512) }
      else count_clusters (fat s) start 1)"

section \<open>Allocation of a chain\<close>

text \<open>The loop of \<^verbatim>\<open>fat12_create_file\<close>: \<open>prev\<close> is \<open>None\<close> for the index -1.\<close>

function alloc_clusters ::
  "int \<Rightarrow> nat \<Rightarrow> int \<Rightarrow> nat option \<Rightarrow> nat \<Rightarrow> u32 list \<Rightarrow> (nat \<times> u32 list) option" where
  "alloc_clusters numCluster i cnt prev cstart f =
     (if i < 3072 then
        do { e \<leftarrow> rd32 f i;
             if e = 0 then
               do { let cstart = (if cnt = 0 then i else cstart);
                    f \<leftarrow> (case prev of None \<Rightarrow> Some f | Some p \<Rightarrow> wr32 f p (of_nat i));
                    if cnt + 1 = numCluster then do { f \<leftarrow> wr32 f i 0x0FFF; Some (cstart, f) }
                    else alloc_clusters numCluster (Suc i) (cnt + 1) (Some i) cstart f }
             else alloc_clusters numCluster (Suc i) cnt prev cstart f }
      else Some (cstart, f))"
  by pat_completeness auto
termination
  by (relation "measure (\<lambda>(n, i, c, p, cs, f). 3072 - i)") auto

declare alloc_clusters.simps [simp del]

section \<open>Initialisation\<close>

text \<open>The transfer to a static array.\<close>

definition array_sink ::
  "('s \<Rightarrow> buf) \<Rightarrow> (buf \<Rightarrow> 's \<Rightarrow> 's) \<Rightarrow> ('s \<Rightarrow> ram) \<Rightarrow> nat \<Rightarrow> nat \<Rightarrow> 's \<Rightarrow> 's option" where
  "array_sink get put mem off n s =
     do { b \<leftarrow> memcpy (get s) off (ram_bytes (mem s) TMP_USER_ADDR n) 0 n; Some (put b s) }"

abbreviation boot_sink where
  "boot_sink \<equiv> array_sink bootsector (\<lambda>b s. s\<lparr>bootsector := b\<rparr>) k_ram"

abbreviation phys_sink where
  "phys_sink \<equiv> array_sink phys_fat (\<lambda>b s. s\<lparr>phys_fat := b\<rparr>) k_ram"

abbreviation root_sink where
  "root_sink \<equiv> array_sink root_dir (\<lambda>b s. s\<lparr>root_dir := b\<rparr>) k_ram"

abbreviation subdir_sink where
  "subdir_sink \<equiv> array_sink subdir (\<lambda>b s. s\<lparr>subdir := b\<rparr>) k_ram"

abbreviation cp_sink where
  "cp_sink \<equiv> array_sink cp_buf (\<lambda>b s. s\<lparr>cp_buf := b\<rparr>) k_ram"

definition fat12_init :: "'a fs_scheme \<Rightarrow> (bool \<times> 'a fs_scheme) option" where
  "fat12_init s =
     do { s \<leftarrow> read_sectors (boot_sink 0) 0 1 0 s;
          s \<leftarrow> read_sectors (phys_sink 0) 1 9 0 s;
          f \<leftarrow> unpack_fat (phys_fat s) 0 0 (fat s);
          let s = s\<lparr>fat := f\<rparr>;
          s \<leftarrow> read_sectors (root_sink 0) 19 14 0 s;
          let s = s\<lparr>k_tty := (k_tty s)\<lparr>curr_dir := FAT_ROOT_REGION_START\<rparr>\<rparr>;
          p \<leftarrow> strcpy (curr_path (k_tty s)) 0 (lit ''/'') 0;
          Some (True, s\<lparr>k_tty := (k_tty s)\<lparr>curr_path := p\<rparr>\<rparr>) }"

section \<open>Packing\<close>

text \<open>Three bytes hold two entries of twelve bits.\<close>

definition entry_even :: "u8 \<Rightarrow> u8 \<Rightarrow> u32" where
  "entry_even x y = (ucast x + push_bit 8 (ucast y)) AND 0x0FFF"

definition entry_odd :: "u8 \<Rightarrow> u8 \<Rightarrow> u32" where
  "entry_odd y z = drop_bit 4 (ucast y + push_bit 8 (ucast z))"

definition byte_mid :: "u32 \<Rightarrow> u32 \<Rightarrow> u8" where
  "byte_mid a b = (ucast (drop_bit 8 a) AND 0x0F) OR (ucast (push_bit 4 b) AND 0xF0)"

lemma add_or: "ucast x + push_bit 8 (ucast y) = (ucast (x :: u8) OR push_bit 8 (ucast (y :: u8)) :: u32)"
  by (rule disjunctive_add_eq_or) (auto simp: bit_eq_iff bit_simps dest: bit_imp_le_length)

lemma masks_12:
  "(0x0FFF :: u32) = mask 12" "(0x0F :: u8) = mask 4" "(0xF0 :: u8) = push_bit 4 (mask 4)"
  by (simp_all add: mask_numeral push_bit_eq_mult)

lemma pack_unpack_entry:
  "ucast (entry_even x y) = x" "byte_mid (entry_even x y) (entry_odd y z) = y"
  "ucast (drop_bit 4 (entry_odd y z)) = z"
  unfolding entry_even_def entry_odd_def byte_mid_def add_or masks_12
  by (rule bit_eqI, auto simp: bit_simps dest: bit_imp_le_length)+

lemma unpack_pack_entry:
  assumes "a < 4096" "b < 4096"
  shows "entry_even (ucast a) (byte_mid a b) = a" "entry_odd (byte_mid a b) (ucast (drop_bit 4 b)) = b"
proof -
  have small: "n < 12" if "w < 4096" "bit w n" for w :: u32 and n
  proof -
    have "take_bit 12 w = w" using that(1) by (simp add: take_bit_eq_mod word_less_nat_alt unat_mod word_unat_eq_iff)
    then show ?thesis using that(2) by (metis bit_take_bit_iff)
  qed
  note ab = small [OF assms(1)] small [OF assms(2)]
  show "entry_even (ucast a) (byte_mid a b) = a"
    unfolding entry_even_def byte_mid_def add_or masks_12
    by (rule bit_eqI) (auto simp: bit_simps dest: bit_imp_le_length ab)
  show "entry_odd (byte_mid a b) (ucast (drop_bit 4 b)) = b"
  proof (rule bit_eqI)
    fix n
    show "bit (entry_odd (byte_mid a b) (ucast (drop_bit 4 b))) n \<longleftrightarrow> bit b n"
      unfolding entry_odd_def byte_mid_def add_or masks_12
      by (cases "n < 4") (auto simp: bit_simps dest: bit_imp_le_length ab)
  qed
qed

lemma entry_small: "entry_even x y < 4096" "entry_odd y z < 4096"
proof -
  have "w < 4096" if "\<And>n. bit w n \<Longrightarrow> n < 12" for w :: u32
  proof -
    have "take_bit 12 w = w" by (rule bit_eqI) (use that in \<open>auto simp: bit_simps\<close>)
    then have "unat w = take_bit 12 (unat w)" by (metis unsigned_take_bit_eq)
    then have "unat w < 2 ^ 12" by (metis take_bit_nat_less_exp)
    then show ?thesis by (simp add: word_less_nat_alt)
  qed
  moreover have "n < 12" if "bit (entry_even x y) n" for n
    using that unfolding entry_even_def masks_12 by (simp add: bit_simps)
  moreover have "n < 12" if "bit (entry_odd y z) n" for n
    using that unfolding entry_odd_def add_or by (auto simp: bit_simps dest: bit_imp_le_length)
  ultimately show "entry_even x y < 4096" "entry_odd y z < 4096" by blast+
qed

text \<open>The two forms as functions on lists.\<close>

fun unpacked :: "buf \<Rightarrow> u32 list" where
  "unpacked (x # y # z # r) = entry_even x y # entry_odd y z # unpacked r"
| "unpacked r = []"

fun packed :: "u32 list \<Rightarrow> buf" where
  "packed (a # b # r) = ucast a # byte_mid a b # ucast (drop_bit 4 b) # packed r"
| "packed r = []"

lemma packed_unpacked: "length ph = 3 * n \<Longrightarrow> packed (unpacked ph) = ph"
proof (induction ph arbitrary: n rule: unpacked.induct)
  case (1 x y z r)
  then show ?case by (cases n) (auto simp: pack_unpack_entry)
qed (simp_all, (presburger+)?)

lemma unpacked_packed: "length f = 2 * n \<Longrightarrow> \<forall>e \<in> set f. e < 4096 \<Longrightarrow> unpacked (packed f) = f"
proof (induction f arbitrary: n rule: packed.induct)
  case (1 a b r)
  then show ?case by (cases n) (auto simp: unpack_pack_entry)
qed (simp_all, (presburger+)?)

lemma unpacked_small: "e \<in> set (unpacked ph) \<Longrightarrow> e < 4096"
  by (induction ph rule: unpacked.induct) (auto simp: entry_small)

lemma length_unpacked: "length ph = 3 * n \<Longrightarrow> length (unpacked ph) = 2 * n"
proof (induction ph arbitrary: n rule: unpacked.induct)
  case (1 x y z r)
  then show ?case by (cases n) auto
qed (simp_all, (presburger+)?)

lemma length_packed: "length f = 2 * n \<Longrightarrow> length (packed f) = 3 * n"
proof (induction f arbitrary: n rule: packed.induct)
  case (1 a b r)
  then show ?case by (cases n) auto
qed (simp_all, (presburger+)?)

lemma drop_3: "i + 2 < length xs \<Longrightarrow> drop i xs = xs ! i # xs ! (i + 1) # xs ! (i + 2) # drop (i + 3) xs"
  by (simp add: Cons_nth_drop_Suc [symmetric] numeral_3_eq_3)

lemma drop_2: "i + 1 < length xs \<Longrightarrow> drop i xs = xs ! i # xs ! (i + 1) # drop (i + 2) xs"
  by (simp add: Cons_nth_drop_Suc [symmetric])

lemma unpack_fat_spec:
  assumes "length ph = 4608" "length f = 3072"
  shows "i = 3 * m \<Longrightarrow> j = 2 * m \<Longrightarrow> m \<le> 1536 \<Longrightarrow> length f = 3072 \<Longrightarrow>
    unpack_fat ph i j f = Some (take j f @ unpacked (drop i ph))"
proof (induction "1536 - m" arbitrary: m i j f)
  case 0
  then show ?case using assms by (subst unpack_fat.simps) simp
next
  case (Suc n)
  have m: "m < 1536" using Suc.hyps(2) by simp
  let ?f = "f[j := entry_even (ph ! i) (ph ! (i + 1)), j + 1 := entry_odd (ph ! (i + 1)) (ph ! (i + 2))]"
  have "unpack_fat ph i j f = unpack_fat ph (i + 3) (j + 2) ?f"
    using m Suc.prems assms
    by (subst unpack_fat.simps) (simp add: wr32_def entry_even_def entry_odd_def)
  also have "\<dots> = Some (take (j + 2) ?f @ unpacked (drop (i + 3) ph))"
    using Suc by (intro Suc.hyps(1) [of "Suc m"]) auto
  also have "take (j + 2) ?f = take j f @ [entry_even (ph ! i) (ph ! (i + 1)), entry_odd (ph ! (i + 1)) (ph ! (i + 2))]"
    using Suc by (intro nth_equalityI) (auto simp: nth_append nth_list_update nth_Cons' less_Suc_eq)
  finally show ?case using Suc drop_3 [of i ph] assms by simp
qed

lemma pack_fat_spec:
  assumes "length f = 3072"
  shows "i = 3 * m \<Longrightarrow> j = 2 * m \<Longrightarrow> m \<le> 1536 \<Longrightarrow> length ph = 4608 \<Longrightarrow>
    pack_fat f i j ph = Some (take i ph @ packed (drop j f))"
proof (induction "1536 - m" arbitrary: m i j ph)
  case 0
  then show ?case using assms by (subst pack_fat.simps) simp
next
  case (Suc n)
  have m: "m < 1536" using Suc.hyps(2) by simp
  let ?ph = "ph[i := ucast (f ! j), i + 1 := byte_mid (f ! j) (f ! (j + 1)), i + 2 := ucast (drop_bit 4 (f ! (j + 1)))]"
  have "pack_fat f i j ph = pack_fat f (i + 3) (j + 2) ?ph"
    using m Suc.prems assms
    by (subst pack_fat.simps) (simp add: rd32_def byte_mid_def)
  also have "\<dots> = Some (take (i + 3) ?ph @ packed (drop (j + 2) f))"
    using Suc by (intro Suc.hyps(1) [of "Suc m"]) auto
  also have "take (i + 3) ?ph = take i ph @ [ucast (f ! j), byte_mid (f ! j) (f ! (j + 1)), ucast (drop_bit 4 (f ! (j + 1)))]"
    using Suc by (intro nth_equalityI) (auto simp: nth_append nth_list_update nth_Cons' less_Suc_eq numeral_3_eq_3)
  finally show ?case using Suc drop_2 [of j f] assms by simp
qed


lemma unpack_fat_unpacked:
  "length ph = 4608 \<Longrightarrow> length f = 3072 \<Longrightarrow> unpack_fat ph 0 0 f = Some (unpacked ph)"
  using unpack_fat_spec [of ph f 0 0 0] by simp

lemma pack_fat_packed:
  "length f = 3072 \<Longrightarrow> length ph = 4608 \<Longrightarrow> pack_fat f 0 0 ph = Some (packed f)"
  using pack_fat_spec [of f 0 0 0 ph] by simp

section \<open>Chains\<close>

definition chain_end :: "u32 \<Rightarrow> bool" where
  "chain_end e \<longleftrightarrow> e = 0 \<or> 0x0FF0 \<le> e"

text \<open>\<open>chain f c ks\<close>: the clusters of the chain that starts at \<open>c\<close> are \<open>ks\<close>.\<close>

fun chain :: "u32 list \<Rightarrow> u32 \<Rightarrow> nat list \<Rightarrow> bool" where
  "chain f c [] = False"
| "chain f c (k # ks) = (k < length f \<and> unat c = k \<and>
     (if ks = [] then chain_end (f ! k) else \<not> chain_end (f ! k) \<and> chain f (f ! k) ks))"

lemma next_sector_chain:
  "chain f c (k # ks) \<Longrightarrow> fat12_next_sector f c = Some (ks \<noteq> [], f ! k)"
  by (auto simp: fat12_next_sector_def rd32_def chain_end_def split: if_splits)

lemma chain_unique: "chain f c ks \<Longrightarrow> chain f c ls \<Longrightarrow> ks = ls"
proof (induction ks arbitrary: c ls)
  case (Cons k ks)
  then obtain l ls' where "ls = l # ls'" by (cases ls) auto
  then show ?case using Cons by (auto split: if_splits)
qed simp

lemma chain_range: "chain f c ks \<Longrightarrow> k \<in> set ks \<Longrightarrow> k < length f"
  by (induction ks arbitrary: c) (auto split: if_splits)

lemma chain_last: "chain f c ks \<Longrightarrow> chain_end (f ! last ks)"
  by (induction ks arbitrary: c) (auto split: if_splits)

text \<open>A chain of clusters is followed once, so it does not come back.\<close>

lemma chain_suffix: "chain f c (ks @ k # ls) \<Longrightarrow> chain f (of_nat k) (k # ls)"
proof (induction ks arbitrary: c)
  case Nil
  then have "of_nat k = c" by auto
  then show ?case using Nil by simp
next
  case (Cons x xs)
  then show ?case by (auto split: if_splits)
qed

lemma chain_distinct: "chain f c ks \<Longrightarrow> distinct ks"
proof (rule ccontr)
  assume c: "chain f c ks" "\<not> distinct ks"
  then obtain xs k ys zs where k: "ks = xs @ [k] @ ys @ [k] @ zs" by (meson not_distinct_decomp)
  then have "chain f (of_nat k) (k # ys @ k # zs)" using chain_suffix [of f c xs k] c(1) by simp
  moreover have "chain f (of_nat k) (k # zs)"
    using chain_suffix [of f c "xs @ [k] @ ys" k zs] c(1) k by simp
  ultimately have "k # ys @ k # zs = k # zs" by (rule chain_unique)
  then show False by simp
qed

lemma chain_cong:
  "chain f c ks \<Longrightarrow> (\<And>k. k \<in> set ks \<Longrightarrow> f' ! k = f ! k) \<Longrightarrow> length f' = length f \<Longrightarrow> chain f' c ks"
  by (induction ks arbitrary: c) (auto split: if_splits)

lemma count_clusters_chain: "chain f c ks \<Longrightarrow> count_clusters f c n = Some (n + length ks - 1)"
proof (induction ks arbitrary: c n)
  case (Cons k ks)
  show ?case
  proof (cases ks)
    case Nil
    then show ?thesis using Cons.prems next_sector_chain [OF Cons.prems]
      by (subst count_clusters.simps) simp
  next
    case (Cons l ls)
    then have "count_clusters f c n = count_clusters f (f ! k) (n + 1)"
      using Cons.prems next_sector_chain [OF Cons.prems] by (subst count_clusters.simps) simp
    then show ?thesis using Cons.IH [of "f ! k" "n + 1"] Cons.prems Cons by simp
  qed
qed simp

lemma count_clusters_returns:
  assumes "count_clusters f c n = Some m"
  shows "\<exists>ks. chain f c ks"
proof (rule count_clusters.raw_induct [where P = "\<lambda>f c n m. \<exists>ks. chain f c ks", OF _ assms])
  fix g f cl c m
  assume IH: "\<And>f cl c m. g f cl c = Some m \<Longrightarrow> \<exists>ks. chain f cl ks"
    and eq: "do { (more, cl) \<leftarrow> fat12_next_sector f cl; if more then g f cl (c + 1) else Some c } = Some m"
  then obtain more e where n: "fat12_next_sector f cl = Some (more, e)"
    and r: "(if more then g f e (c + 1) else Some c) = Some m"
    by (auto simp: bind_Some_iff)
  from n have e: "unat cl < length f" "e = f ! unat cl" "more \<longleftrightarrow> \<not> chain_end e"
    by (auto simp: fat12_next_sector_def rd32_def chain_end_def split: if_splits)
  show "\<exists>ks. chain f cl ks"
  proof (cases more)
    case True
    then obtain ks where "chain f e ks" using IH [of f e "c + 1" m] r by auto
    then have "chain f cl (unat cl # ks)" using e True by (cases ks) auto
    then show ?thesis ..
  next
    case False
    then have "chain f cl [unat cl]" using e by simp
    then show ?thesis ..
  qed
qed

text \<open>Deleting a chain.\<close>

lemma del_loop_chain:
  "chain (fat s) c ks \<Longrightarrow> \<exists>m. del_loop c s = Some (s\<lparr>k_ram := m\<rparr>) \<and>
    (\<forall>x. m x = (if \<exists>k \<in> set ks. unat (fat s ! k) \<le> x \<and> x < unat (fat s ! k) + 4 then 0 else k_ram s x))"
proof (induction ks arbitrary: c s)
  case (Cons k ks)
  let ?m = "ram_memset (k_ram s) (unat (fat s ! k)) 0 4"
  let ?s = "s\<lparr>k_ram := ?m\<rparr>"
  have e: "rd32 (fat s) (unat c) = Some (fat s ! k)" using Cons.prems by (simp add: rd32_def)
  show ?case
  proof (cases ks)
    case Nil
    then have "del_loop c s = Some ?s"
      using next_sector_chain [OF Cons.prems] e by (subst del_loop.simps) simp
    moreover have "?m x = (if \<exists>k \<in> set (k # ks). unat (fat s ! k) \<le> x \<and> x < unat (fat s ! k) + 4
        then 0 else k_ram s x)" for x
      using Nil by (simp add: ram_memset_val)
    ultimately show ?thesis by blast
  next
    case (Cons l ls)
    have d: "del_loop c s = del_loop (fat s ! k) ?s"
      using next_sector_chain [OF Cons.prems] e Cons by (subst del_loop.simps) simp
    have "chain (fat ?s) (fat s ! k) ks" using Cons.prems Cons by simp
    from Cons.IH [OF this] obtain m where "del_loop (fat s ! k) ?s = Some (?s\<lparr>k_ram := m\<rparr>)"
      and m': "\<forall>x. m x = (if \<exists>k \<in> set ks. unat (fat ?s ! k) \<le> x \<and> x < unat (fat ?s ! k) + 4
        then 0 else k_ram ?s x)" by blast
    then have m: "del_loop c s = Some (s\<lparr>k_ram := m\<rparr>)" unfolding d by simp
    have m2: "m x = (if \<exists>k \<in> set ks. unat (fat s ! k) \<le> x \<and> x < unat (fat s ! k) + 4 then 0 else ?m x)" for x
      unfolding m' [rule_format] by auto
    have "m x = (if \<exists>k \<in> set (k # ks). unat (fat s ! k) \<le> x \<and> x < unat (fat s ! k) + 4
        then 0 else k_ram s x)" for x
      unfolding m2 by (auto simp: ram_memset_val)
    then show ?thesis using m by blast
  qed
qed simp


section \<open>Allocation\<close>

definition free_from :: "u32 list \<Rightarrow> nat \<Rightarrow> nat list" where
  "free_from f i = filter (\<lambda>j. f ! j = 0) [i..<3072]"

lemma free_from_step:
  "i < 3072 \<Longrightarrow> free_from f i = (if f ! i = 0 then i # free_from f (Suc i) else free_from f (Suc i))"
  by (simp add: free_from_def upt_conv_Cons)

text \<open>The links \<open>p \<rightarrow> k1 \<rightarrow> k2 \<dots>\<close> and the end mark behind the last.\<close>

fun link_from :: "u32 list \<Rightarrow> nat \<Rightarrow> nat list \<Rightarrow> u32 list" where
  "link_from f p [] = f[p := 0x0FFF]"
| "link_from f p (k # ks) = link_from (f[p := of_nat k]) k ks"

lemma length_link [simp]: "length (link_from f p ks) = length f"
  by (induction ks arbitrary: f p) auto

text \<open>The same without the end mark.\<close>

fun link_open :: "u32 list \<Rightarrow> nat \<Rightarrow> nat list \<Rightarrow> u32 list" where
  "link_open f p [] = f"
| "link_open f p (k # ks) = link_open (f[p := of_nat k]) k ks"

lemma length_link_open [simp]: "length (link_open f p ks) = length f"
  by (induction ks arbitrary: f p) auto

lemma free_from_upd: "p < i \<Longrightarrow> free_from (f[p := v]) i = free_from f i"
  by (auto simp: free_from_def intro!: filter_cong)

lemma alloc_skip:
  assumes "length f = 3072" "i < 3072" "f ! i \<noteq> 0"
  shows "alloc_clusters num i cnt prev c f = alloc_clusters num (Suc i) cnt prev c f"
  using assms by (subst alloc_clusters.simps) (simp add: rd32_def)

lemma alloc_take:
  assumes "length f = 3072" "i < 3072" "f ! i = 0" "p < 3072" "cnt \<noteq> 0"
  shows "alloc_clusters num i cnt (Some p) c f =
    (if cnt + 1 = num then Some (c, f[p := of_nat i, i := 0x0FFF])
     else alloc_clusters num (Suc i) (cnt + 1) (Some i) c (f[p := of_nat i]))"
  using assms by (subst alloc_clusters.simps) (simp add: rd32_def wr32_def)

lemma alloc_rest:
  "length f = 3072 \<Longrightarrow> 1 \<le> n \<Longrightarrow> n \<le> length (free_from f i) \<Longrightarrow> p < i \<Longrightarrow> 1 \<le> cnt \<Longrightarrow>
    alloc_clusters (cnt + int n) i cnt (Some p) c f = Some (c, link_from f p (take n (free_from f i)))"
proof (induction "3072 - i" arbitrary: i n p cnt f)
  case 0
  then show ?case by (simp add: free_from_def)
next
  case (Suc d)
  then have i: "i < 3072" by simp
  show ?case
  proof (cases "f ! i = 0")
    case False
    then show ?thesis
      using alloc_skip [OF Suc.prems(1) i False] Suc.hyps(1) [of "Suc i" f n p cnt] Suc.hyps(2) Suc.prems i
      by (simp add: free_from_step)
  next
    case True
    have "p < 3072" using Suc.prems(4) i by simp
    note take = alloc_take [OF Suc.prems(1) i True this, of cnt "cnt + int n" c]
    have fr: "free_from f i = i # free_from f (Suc i)" using True i by (simp add: free_from_step)
    show ?thesis
    proof (cases "n = 1")
      case True
      then show ?thesis using take Suc.prems(5) fr by simp
    next
      case False
      then obtain m where m: "n = Suc m" "1 \<le> m" using Suc.prems(2) by (cases n) auto
      have "alloc_clusters (cnt + 1 + int m) (Suc i) (cnt + 1) (Some i) c (f[p := of_nat i]) =
          Some (c, link_from (f[p := of_nat i]) i (take m (free_from (f[p := of_nat i]) (Suc i))))"
        using Suc.hyps(2) Suc.prems m fr by (intro Suc.hyps(1)) (auto simp: free_from_upd)
      then show ?thesis
        using take Suc.prems(4,5) fr m by (simp add: free_from_upd algebra_simps)
    qed
  qed
qed

lemma alloc_none:
  "length f = 3072 \<Longrightarrow> p < i \<Longrightarrow> 1 \<le> cnt \<Longrightarrow>
    num \<le> cnt \<or> cnt + int (length (free_from f i)) < num \<Longrightarrow>
    alloc_clusters num i cnt (Some p) c f = Some (c, link_open f p (free_from f i))"
proof (induction "3072 - i" arbitrary: i p cnt f)
  case 0
  then show ?case by (subst alloc_clusters.simps) (simp add: free_from_def)
next
  case (Suc d)
  then have i: "i < 3072" by simp
  show ?case
  proof (cases "f ! i = 0")
    case False
    then show ?thesis
      using alloc_skip [OF Suc.prems(1) i False] Suc.hyps(1) [of "Suc i" f p cnt] Suc.hyps(2) Suc.prems i
      by (simp add: free_from_step)
  next
    case True
    have fr: "free_from f i = i # free_from f (Suc i)" using True i by (simp add: free_from_step)
    have "p < 3072" using Suc.prems(2) i by simp
    note take = alloc_take [OF Suc.prems(1) i True this, of cnt num c]
    have "alloc_clusters num (Suc i) (cnt + 1) (Some i) c (f[p := of_nat i]) =
        Some (c, link_open (f[p := of_nat i]) i (free_from (f[p := of_nat i]) (Suc i)))"
      using Suc.hyps(2) Suc.prems fr by (intro Suc.hyps(1)) (auto simp: free_from_upd)
    then show ?thesis using take Suc.prems fr by (auto simp: free_from_upd)
  qed
qed

lemma alloc_start:
  "length f = 3072 \<Longrightarrow> free_from f i = k # ks \<Longrightarrow>
    alloc_clusters num i 0 None c f =
      (if num = 1 then Some (k, f[k := 0x0FFF]) else alloc_clusters num (Suc k) 1 (Some k) k f) \<and>
    ks = free_from f (Suc k) \<and> i \<le> k \<and> k < 3072 \<and> f ! k = 0"
proof (induction "3072 - i" arbitrary: i)
  case 0
  then show ?case by (simp add: free_from_def)
next
  case (Suc d)
  then have i: "i < 3072" by simp
  show ?case
  proof (cases "f ! i = 0")
    case False
    have "d = 3072 - Suc i" using Suc.hyps(2) by simp
    moreover have "free_from f (Suc i) = k # ks" using Suc.prems(2) False i by (simp add: free_from_step)
    ultimately show ?thesis
      using alloc_skip [OF Suc.prems(1) i False] Suc.hyps(1) [of "Suc i"] Suc.prems(1) by auto
  next
    case True
    then have "k = i" "ks = free_from f (Suc i)" using Suc.prems(2) i by (auto simp: free_from_step)
    then show ?thesis using True i Suc.prems(1)
      by (subst alloc_clusters.simps) (auto simp: rd32_def wr32_def)
  qed
qed

lemma alloc_clusters_enough:
  assumes "length f = 3072" "1 \<le> n" "n \<le> length (free_from f 2)"
  shows "\<exists>k ks. take n (free_from f 2) = k # ks \<and> alloc_clusters (int n) 2 0 None 0 f = Some (k, link_from f k ks)"
proof -
  obtain k ks where k: "free_from f 2 = k # ks" using assms(2,3) by (cases "free_from f 2") auto
  note st = alloc_start [OF assms(1) k, of "int n" 0]
  show ?thesis
  proof (cases "n = 1")
    case True
    then show ?thesis using st k by simp
  next
    case False
    then obtain m where m: "n = Suc m" "1 \<le> m" using assms(2) by (cases n) auto
    have "alloc_clusters (1 + int m) (Suc k) 1 (Some k) k f = Some (k, link_from f k (take m (free_from f (Suc k))))"
      using assms m k st by (intro alloc_rest) auto
    then show ?thesis using st k m False by simp
  qed
qed

lemma link_from_other: "x \<noteq> p \<Longrightarrow> x \<notin> set ks \<Longrightarrow> link_from f p ks ! x = f ! x"
  by (induction ks arbitrary: f p) auto

lemma link_open_other: "x \<noteq> p \<Longrightarrow> x \<notin> set ks \<Longrightarrow> link_open f p ks ! x = f ! x"
  by (induction ks arbitrary: f p) auto

lemma cluster_no_end:
  assumes "0 < k" "k < 3072"
  shows "\<not> chain_end (of_nat k)" "unat (of_nat k :: u32) = k"
proof -
  show u: "unat (of_nat k :: u32) = k" using assms by (simp add: unat_of_nat)
  then show "\<not> chain_end (of_nat k)" using assms
    by (auto simp: chain_end_def word_le_nat_alt) 
qed

lemma link_chain:
  "distinct (p # ks) \<Longrightarrow> \<forall>k \<in> set (p # ks). 0 < k \<and> k < length f \<Longrightarrow> length f = 3072 \<Longrightarrow>
    chain (link_from f p ks) (of_nat p) (p # ks)"
proof (induction ks arbitrary: f p)
  case Nil
  then show ?case using cluster_no_end [of p] by (simp add: chain_end_def)
next
  case (Cons k ks)
  let ?f = "f[p := of_nat k]"
  have "link_from ?f k ks ! p = of_nat k" using Cons.prems by (simp add: link_from_other)
  moreover have "chain (link_from ?f k ks) (of_nat k) (k # ks)" using Cons by auto
  moreover have "chain_end 0x0FFF" by (simp add: chain_end_def)
  ultimately show ?case using Cons.prems cluster_no_end [of p] cluster_no_end [of k] by simp
qed

lemma free_from_props:
  "distinct (free_from f i)" "k \<in> set (free_from f i) \<longleftrightarrow> i \<le> k \<and> k < 3072 \<and> f ! k = 0"
  by (auto simp: free_from_def)


section \<open>Reading a chain\<close>

text \<open>A destination that leaves the table alone.\<close>

locale chain_target = copy_target sink content kept
  for sink :: "nat \<Rightarrow> nat \<Rightarrow> 'a fs_scheme \<Rightarrow> 'a fs_scheme option"
    and content :: "'a fs_scheme \<Rightarrow> buf"
    and kept :: "'a fs_scheme \<Rightarrow> 'b" +
  assumes kept_fat: "kept s' = kept s \<Longrightarrow> fat s' = fat s"
begin

lemma read_cluster:
  assumes "disk_ok (Suc r) s" "off + 512 \<le> length (content s)"
  shows "\<exists>s'. read_sectors (sink off) n 1 0 s = Some s' \<and>
    content s' = buf_put (content s) off (sector_of s n) \<and>
    ide_sectors (k_ide s') = ide_sectors (k_ide s) \<and> disk_ok r s' \<and> kept s' = kept s"
  using read_sectors_target [of 1 0 r s off n] assms
  by (simp add: in_area_def ram_bytes_def)

lemma read_chain_content:
  assumes "chain (fat s) c ks" "disk_ok (length ks + r) s" "(j + length ks) * 512 \<le> length (content s)"
  shows "\<exists>s'. read_chain (\<lambda>i. False) sink j c s = Some (j + length ks - 1, s') \<and>
    content s' = buf_put (content s) (j * 512)
      (concat (map (\<lambda>k. sector_of s (of_nat k + 31)) ks)) \<and>
    ide_sectors (k_ide s') = ide_sectors (k_ide s) \<and> disk_ok r s' \<and> kept s' = kept s"
  using assms
proof (induction ks arbitrary: c j s)
  case (Cons k ks)
  have k: "of_nat k = c" using Cons.prems(1) by auto
  have "c + 33 - 2 = of_nat k + 31" using k by simp
  then obtain s1 where s1: "read_sectors (sink (j * 512)) (c + 33 - 2) 1 0 s = Some s1"
    "content s1 = buf_put (content s) (j * 512) (sector_of s (of_nat k + 31))"
    "ide_sectors (k_ide s1) = ide_sectors (k_ide s)" "disk_ok (length ks + r) s1" "kept s1 = kept s"
    using read_cluster [of "length ks + r" s "j * 512" "of_nat k + 31"] Cons.prems(2,3) by auto
  let ?s1 = "enable_k s1"
  have nx: "fat12_next_sector (fat s1) c = Some (ks \<noteq> [], fat s ! k)"
    using next_sector_chain [OF Cons.prems(1)] kept_fat [OF s1(5)] by simp
  have sec: "length (sector_of s n) = 512" for n
    using Cons.prems(2) by (simp add: disk_ok_def sector_of_def)
  have e: "content ?s1 = content s1" "kept ?s1 = kept s" using content_flag s1(5) by simp_all
  show ?case
  proof (cases ks)
    case Nil
    then have "read_chain (\<lambda>i. False) sink j c s = Some (j, ?s1)"
      using s1(1) nx by (subst read_chain.simps) simp
    then show ?thesis using Nil s1 e by (simp add: disk_ok_def)
  next
    case (Cons l ls)
    have step: "read_chain (\<lambda>i. False) sink j c s = read_chain (\<lambda>i. False) sink (j + 1) (fat s ! k) ?s1"
      using s1(1) nx Cons by (subst read_chain.simps) simp
    have "chain (fat ?s1) (fat s ! k) ks" using Cons.prems(1) Cons kept_fat [OF s1(5)] by simp
    moreover have "disk_ok (length ks + r) ?s1" using s1(4) by (simp add: disk_ok_def)
    moreover have "length (content ?s1) = length (content s)"
      using s1(2) e sec Cons.prems(3) by simp
    ultimately obtain s' where s': "read_chain (\<lambda>i. False) sink (j + 1) (fat s ! k) ?s1 = Some (j + 1 + length ks - 1, s')"
      "content s' = buf_put (content s1) ((j + 1) * 512) (concat (map (\<lambda>k. sector_of ?s1 (of_nat k + 31)) ks))"
      "ide_sectors (k_ide s') = ide_sectors (k_ide s)" "disk_ok r s'" "kept s' = kept s"
      using Cons.IH [of ?s1 "fat s ! k" "j + 1"] Cons.prems(3) s1 e by auto
    have "sector_of ?s1 = sector_of s" using s1(3) by (simp add: sector_of_def fun_eq_iff)
    moreover have "length (concat (map (\<lambda>k. sector_of s (of_nat k + 31)) ks)) = length ks * 512"
      using sec by (simp add: length_concat o_def sum_list_triv)
    ultimately have "content s' = buf_put (content s) (j * 512) (concat (map (\<lambda>k. sector_of s (of_nat k + 31)) (k # ks)))"
      using s'(2) s1(2) sec Cons.prems(3) by (simp add: buf_put_append algebra_simps)
    then show ?thesis using s' step by auto
  qed
qed simp

end

text \<open>Static arrays as destinations.\<close>

lemma array_copies:
  assumes "off + n \<le> length (get s)"
  shows "array_sink get put mem off n s = Some (put (buf_put (get s) off (ram_bytes (mem s) TMP_USER_ADDR n)) s)"
  using assms by (simp add: array_sink_def memcpy_put)

interpretation subdir_target: chain_target subdir_sink subdir
  "\<lambda>s. (k_tty s, bootsector s, phys_fat s, fat s, root_dir s, cp_buf s, fs.more s)"
  by unfold_locales (auto simp: array_copies disk_read_def)

interpretation cp_target: chain_target cp_sink cp_buf
  "\<lambda>s. (k_tty s, bootsector s, phys_fat s, fat s, root_dir s, subdir s, fs.more s)"
  by unfold_locales (auto simp: array_copies disk_read_def)

text \<open>The data of the kernel that no transfer from the disk touches.\<close>

abbreviation kernel_data ::
  "'a kernel_scheme \<Rightarrow> process list \<times> nat option \<times> u32 \<times> pit \<times> tss_entry \<times> semaphore list" where
  "kernel_data s \<equiv> (proc_list s, curr_proc s, curr_pid s, k_pit s, k_tss s, sem_list s)"

interpretation boot_target: copy_target boot_sink bootsector
  "\<lambda>s. (k_tty s, kernel_data s, phys_fat s, fat s, root_dir s, subdir s, cp_buf s, fs.more s)"
  by unfold_locales (auto simp: array_copies disk_read_def)

interpretation phys_target: copy_target phys_sink phys_fat
  "\<lambda>s. (k_tty s, kernel_data s, bootsector s, fat s, root_dir s, subdir s, cp_buf s, fs.more s)"
  by unfold_locales (auto simp: array_copies disk_read_def)

interpretation root_target: copy_target root_sink root_dir
  "\<lambda>s. (k_tty s, kernel_data s, bootsector s, phys_fat s, fat s, subdir s, cp_buf s, fs.more s)"
  by unfold_locales (auto simp: array_copies disk_read_def)

interpretation ram_chain: chain_target "ram_sink addr" "ram_content addr cap"
  "\<lambda>s. (k_tty s, machine.more s)"
proof
  fix s s' :: "'a fs_scheme"
  assume "(k_tty s', machine.more s') = (k_tty s, machine.more s)"
  then show "fat s' = fat s" by (cases s; cases s') simp
qed

section \<open>Properties\<close>

text \<open>C24: the two forms of the allocation table hold the same: unpacking a packed table gives
  entries of twelve bits which pack to the same bytes, and packing a table of twelve-bit entries gives
  bytes which unpack to it.\<close>

theorem fat_pack_roundtrip:
  assumes "length ph = 4608" "length ph' = 4608" "length f = 3072" "length f' = 3072"
    and "\<forall>e \<in> set f'. e < 4096"
  shows "(\<exists>g. unpack_fat ph 0 0 f = Some g \<and> (\<forall>e \<in> set g. e < 4096) \<and> length g = 3072 \<and>
      pack_fat g 0 0 ph' = Some ph) \<and>
    (\<exists>q. pack_fat f' 0 0 ph' = Some q \<and> length q = 4608 \<and> unpack_fat q 0 0 f = Some f')"
proof -
  have "length (unpacked ph) = 3072" using length_unpacked [of ph 1536] assms(1) by simp
  moreover have "length (packed f') = 4608" using length_packed [of f' 1536] assms(4) by simp
  ultimately show ?thesis
    using assms packed_unpacked [of ph 1536] unpacked_packed [of f' 1536]
    by (auto simp: unpack_fat_unpacked pack_fat_packed dest: unpacked_small)
qed

lemma fat_pack_roundtrip_witness:
  "\<exists>q. pack_fat (replicate 3072 0xFF8) 0 0 (replicate 4608 0) = Some q \<and>
    unpack_fat q 0 0 (replicate 3072 0) = Some (replicate 3072 0xFF8)"
  using fat_pack_roundtrip [of "replicate 4608 0" "replicate 4608 0" "replicate 3072 0" "replicate 3072 0xFF8"]
  by auto

lemma uint_word16: "0 \<le> x \<Longrightarrow> x < 65536 \<Longrightarrow> uint (word_of_int x :: u16) = x"
  by (subst unsigned_of_int) (simp add: take_bit_int_eq_self)

lemma date_time_bounds:
  "d_month (int_to_date w) < 16 \<and> d_day (int_to_date w) < 32 \<and> d_year (int_to_date w) < 128 \<and>
    t_hour (int_to_time w) < 32 \<and> t_minute (int_to_time w) < 64 \<and> t_second (int_to_time w) < 64"
proof -
  have w: "uint w < 65536" using uint_bounded [of w] by simp
  have "x div 32 < k" if "x < 32 * k" for x k :: int using that by linarith
  moreover have "uint w mod 512 < 32 * 16" "uint w mod 2048 < 32 * 64" by simp_all
  ultimately have a: "uint w mod 512 div 32 < 16" "uint w mod 2048 div 32 < 64" by blast+
  have b: "uint w div 512 < 128" "uint w div 2048 < 32" using w by linarith+
  have c: "uint w mod 512 - uint w mod 512 div 32 * 32 < 32" "(uint w mod 2048 - uint w mod 2048 div 32 * 32) * 2 < 64"
    by (simp_all add: minus_div_mult_eq_mod)
  have "uint w - uint w div 512 * 512 = uint w mod 512" "uint w - uint w div 2048 * 2048 = uint w mod 2048"
    by (simp_all add: minus_div_mult_eq_mod)
  then show ?thesis using a b c by (simp only: int_to_date_def int_to_time_def Let_def fat_date.simps fat_time.simps)
qed

text \<open>the date and time fields of an entry: a stored date or time decodes to what was stored (year
  from 1980, seconds rounded down to even), and every field is in the range of its bits.\<close>

theorem date_time_roundtrip:
  assumes "1980 \<le> y" "y < 2108" "0 \<le> m" "m < 16" "0 \<le> d" "d < 32"
    and "0 \<le> h" "h < 32" "0 \<le> mi" "mi < 64" "0 \<le> sec" "sec < 64"
  shows "int_to_date (word_of_int (date_to_int y m d)) = \<lparr>d_year = y - 1980, d_month = m, d_day = d\<rparr> \<and>
    int_to_time (word_of_int (time_to_int h mi sec)) =
      \<lparr>t_hour = h, t_minute = mi, t_second = sec - sec mod 2\<rparr> \<and>
    d_month (int_to_date w) < 16 \<and> d_day (int_to_date w) < 32 \<and> d_year (int_to_date w) < 128 \<and>
    t_hour (int_to_time w) < 32 \<and> t_minute (int_to_time w) < 64 \<and> t_second (int_to_time w) < 64"
proof -
  have d: "date_to_int y m d = (y - 1980) * 512 + m * 32 + d"
    by (simp add: date_to_int_def push_bit_eq_mult)
  have "uint (word_of_int (date_to_int y m d) :: u16) = (y - 1980) * 512 + m * 32 + d"
    unfolding d using assms by (intro uint_word16) auto
  moreover have "((y - 1980) * 512 + m * 32 + d) div 512 = y - 1980" using assms by simp
  moreover have "(m * 32 + d) div 32 = m" using assms by simp
  ultimately have 1: "int_to_date (word_of_int (date_to_int y m d)) = \<lparr>d_year = y - 1980, d_month = m, d_day = d\<rparr>"
    by (simp add: int_to_date_def Let_def)
  have "sec sdiv 2 = sec div 2" using assms by (intro sdiv_pos) auto
  then have t: "time_to_int h mi sec = h * 2048 + mi * 32 + sec div 2"
    by (simp add: time_to_int_def push_bit_eq_mult)
  have "uint (word_of_int (h * 2048 + mi * 32 + sec div 2) :: u16) = h * 2048 + mi * 32 + sec div 2"
    using assms by (intro uint_word16) auto
  moreover have "(h * 2048 + mi * 32 + sec div 2) div 2048 = h" using assms by simp
  moreover have "(mi * 32 + sec div 2) div 32 = mi" using assms by simp
  moreover have "sec div 2 * 2 = sec - sec mod 2" by (simp add: minus_mod_eq_div_mult)
  ultimately have 2: "int_to_time (word_of_int (time_to_int h mi sec)) =
      \<lparr>t_hour = h, t_minute = mi, t_second = sec - sec mod 2\<rparr>"
    unfolding t by (simp add: int_to_time_def Let_def)
  show ?thesis using 1 2 date_time_bounds [of w] by blast
qed

lemma date_time_roundtrip_witness:
  "int_to_date (word_of_int (date_to_int 2019 6 23)) = \<lparr>d_year = 39, d_month = 6, d_day = 23\<rparr>"
  using date_time_roundtrip [of 2019 6 23 1 2 3] by simp


lemma alloc_chain_library:
  assumes "length f = 3072" "1 \<le> n" "n \<le> length (free_from f 2)"
  shows "\<exists>c f'. alloc_clusters (int n) 2 0 None 0 f = Some (c, f') \<and> length f' = 3072 \<and>
    chain f' (of_nat c) (take n (free_from f 2)) \<and> c = hd (take n (free_from f 2)) \<and>
    (\<forall>k. k \<notin> set (take n (free_from f 2)) \<longrightarrow> f' ! k = f ! k)"
proof -
  obtain k ks where k: "take n (free_from f 2) = k # ks"
    and a: "alloc_clusters (int n) 2 0 None 0 f = Some (k, link_from f k ks)"
    using alloc_clusters_enough [OF assms] by auto
  have "distinct (k # ks)" using free_from_props(1) [of f 2] k by (metis distinct_take)
  moreover have "\<forall>x \<in> set (k # ks). 0 < x \<and> x < length f"
    using assms(1) free_from_props(2) [of _ f 2] set_take_subset [of n "free_from f 2"] unfolding k by fastforce
  ultimately have "chain (link_from f k ks) (of_nat k) (k # ks)" using assms(1) by (intro link_chain)
  then show ?thesis using a k assms(1) by (auto simp: link_from_other)
qed

text \<open>C25: allocating \<open>n\<close> clusters, with at least \<open>n\<close> free, takes the first \<open>n\<close> free ones and links
  them to a chain in that order; every other entry keeps its value, and every finished chain stays the
  chain it was and shares no cluster with the new one.\<close>

theorem alloc_chain:
  assumes "length f = 3072" "1 \<le> n" "n \<le> length (free_from f 2)"
  shows "\<exists>c f'. alloc_clusters (int n) 2 0 None 0 f = Some (c, f') \<and> length f' = 3072 \<and>
    chain f' (of_nat c) (take n (free_from f 2)) \<and>
    (\<forall>k. k \<notin> set (take n (free_from f 2)) \<longrightarrow> f' ! k = f ! k) \<and>
    (\<forall>d ls. chain f d ls \<and> (\<forall>k \<in> set ls. f ! k \<noteq> 0) \<longrightarrow>
       chain f' d ls \<and> set ls \<inter> set (take n (free_from f 2)) = {})"
proof -
  obtain c f' where a: "alloc_clusters (int n) 2 0 None 0 f = Some (c, f')" "length f' = 3072"
    "chain f' (of_nat c) (take n (free_from f 2))"
    "\<forall>k. k \<notin> set (take n (free_from f 2)) \<longrightarrow> f' ! k = f ! k"
    using alloc_chain_library [OF assms] by auto
  have free: "f ! k = 0" if "k \<in> set (take n (free_from f 2))" for k
    using that free_from_props(2) [of k f 2] by (meson in_set_takeD)
  have "chain f' d ls \<and> set ls \<inter> set (take n (free_from f 2)) = {}"
    if "chain f d ls" "\<forall>k \<in> set ls. f ! k \<noteq> 0" for d ls
  proof -
    have "set ls \<inter> set (take n (free_from f 2)) = {}" using that(2) free by blast
    then show ?thesis using that(1) a(2,4) assms(1) by (auto intro!: chain_cong [OF that(1)])
  qed
  with a show ?thesis by blast
qed

text \<open>A table with one file, in the clusters 2 and 4.\<close>

definition demo_fat :: "u32 list" where
  "demo_fat = [0xFF0, 0xFFF, 4, 0, 0xFFF] @ replicate 3067 0"

lemma demo_fat_free:
  "free_from demo_fat 2 = 3 # 5 # free_from demo_fat 6" "length demo_fat = 3072"
  "chain demo_fat 2 [2, 4]"
  by (simp_all add: free_from_step demo_fat_def chain_end_def del: upt_rec_numeral)

lemma alloc_chain_witness:
  "\<exists>c f'. alloc_clusters 2 2 0 None 0 demo_fat = Some (c, f') \<and> chain f' (of_nat c) [3, 5] \<and> chain f' 2 [2, 4]"
proof -
  have "\<forall>k \<in> set [2, 4]. demo_fat ! k \<noteq> 0" by (simp add: demo_fat_def)
  moreover have "take 2 (free_from demo_fat 2) = [3, 5]" by (simp add: demo_fat_free)
  ultimately show ?thesis using alloc_chain [of demo_fat 2] demo_fat_free by (auto simp: numeral_2_eq_2)
qed

lemma link_open_free:
  "length f = 3072 \<Longrightarrow> distinct (p # ks) \<Longrightarrow> \<forall>k \<in> set (p # ks). 0 < k \<and> k < 3072 \<Longrightarrow>
    k \<in> set (p # ks) \<Longrightarrow> link_open f p ks ! k = 0 \<Longrightarrow> k = last (p # ks)"
proof (induction ks arbitrary: f p)
  case (Cons x ks)
  show ?case
  proof (cases "k = p")
    case True
    have "link_open (f[p := of_nat x]) x ks ! p = of_nat x"
      using Cons.prems by (simp add: link_open_other)
    moreover have "(of_nat x :: u32) \<noteq> 0"
      using cluster_no_end(2) [of x] Cons.prems(3) by fastforce
    ultimately show ?thesis using Cons.prems(5) True by simp
  next
    case False
    then show ?thesis using Cons.IH [of "f[p := of_nat x]" x] Cons.prems by simp
  qed
qed simp

text \<open>for an empty file (no cluster is asked for), and likewise when there are not enough, the loop
  takes all free clusters: at most one is left, the last, which the chain runs into and which is
  still marked free.\<close>

theorem alloc_takes_all:
  assumes "length f = 3072" "n \<le> 0 \<or> int (length (free_from f 2)) < n"
  shows "\<exists>c f'. alloc_clusters n 2 0 None 0 f = Some (c, f') \<and> length (free_from f' 2) \<le> 1"
proof (cases "free_from f 2")
  case Nil
  have skip: "alloc_clusters n i 0 None 0 f = Some (0, f)" if "2 \<le> i" for i
    using that
  proof (induction "3072 - i" arbitrary: i)
    case 0
    then show ?case by (subst alloc_clusters.simps) simp
  next
    case (Suc d)
    then have "f ! i \<noteq> 0" using Nil free_from_props(2) [of i f 2] by auto
    moreover have "alloc_clusters n (Suc i) 0 None 0 f = Some (0, f)" using Suc by simp
    ultimately show ?case using alloc_skip [OF assms(1), of i n 0 None 0] Suc.hyps(2) by simp
  qed
  from skip [of 2] show ?thesis using Nil by simp
next
  case (Cons k ks)
  note st = alloc_start [OF assms(1) Cons, of n 0]
  have "n \<noteq> 1" using assms(2) Cons by auto
  then have "alloc_clusters n 2 0 None 0 f = Some (k, link_open f k ks)"
    using alloc_none [of f k "Suc k" 1 n k] st assms Cons by auto
  moreover have "length (free_from (link_open f k ks) 2) \<le> 1"
  proof -
    have "distinct (k # ks)" using free_from_props(1) [of f 2] Cons by simp
    moreover have "\<forall>x \<in> set (k # ks). 0 < x \<and> x < 3072"
      using free_from_props(2) [of _ f 2] unfolding Cons by fastforce
    ultimately have d: "distinct (k # ks)" "\<forall>x \<in> set (k # ks). 0 < x \<and> x < 3072" .
    have "set (free_from (link_open f k ks) 2) \<subseteq> {last (k # ks)}"
    proof
      fix x
      assume "x \<in> set (free_from (link_open f k ks) 2)"
      then have x: "2 \<le> x" "x < 3072" "link_open f k ks ! x = 0" by (auto simp: free_from_props)
      have "x \<in> set (k # ks)"
      proof (rule ccontr)
        assume n: "x \<notin> set (k # ks)"
        then have "f ! x = 0" using x(3) by (simp add: link_open_other)
        then show False using n x free_from_props(2) [of x f 2] Cons by simp
      qed
      then show "x \<in> {last (k # ks)}" using link_open_free [OF assms(1) d _ x(3)] by simp
    qed
    then have "card (set (free_from (link_open f k ks) 2)) \<le> card {last (k # ks)}"
      by (intro card_mono) auto
    then show ?thesis using distinct_card [OF free_from_props(1)] by simp
  qed
  ultimately show ?thesis by blast
qed

lemma alloc_takes_all_witness:
  "\<exists>c f'. alloc_clusters 0 2 0 None 0 demo_fat = Some (c, f') \<and> length (free_from f' 2) \<le> 1"
  by (rule alloc_takes_all) (simp_all add: demo_fat_free)


text \<open>A file system for the examples: the disk of \<open>demo_machine\<close>, which answers at once, the table
  \<open>demo_fat\<close>, and a root directory with the file \<^verbatim>\<open>a.txt\<close> (cluster 2, 600 bytes) and the directory
  \<^verbatim>\<open>sub\<close> (cluster 0x10).\<close>

definition demo_entry :: "buf \<Rightarrow> buf \<Rightarrow> u8 \<Rightarrow> u8 \<Rightarrow> u8 \<Rightarrow> u8 \<Rightarrow> buf" where
  "demo_entry base ext attr c l h = base @ replicate (8 - length base) 32 @ ext @ replicate (3 - length ext) 32 @
     attr # replicate 14 0 @ [c, 0, l, h, 0, 0]"

definition demo_root :: buf where
  "demo_root = demo_entry [65] [84, 88, 84] 0x20 2 88 2 @ demo_entry [83, 85, 66] [] 0x10 4 0 0 @
     replicate 7104 0"

definition demo_fs :: fs where
  "demo_fs = machine.extend (demo_machine\<lparr>k_ide := demo_ide\<lparr>ide_status := replicate 40 0x40\<rparr>\<rparr>)
     (fs.fields (replicate 512 0) (replicate 4608 0) demo_fat demo_root (replicate 512 0) (replicate 15360 0))"

lemma demo_fs_fields [simp]:
  "fat demo_fs = demo_fat" "root_dir demo_fs = demo_root" "length (subdir demo_fs) = 512"
  "length (phys_fat demo_fs) = 4608" "length (bootsector demo_fs) = 512" "length (cp_buf demo_fs) = 15360"
  "k_tty demo_fs = k_tty demo_sem" "k_ide demo_fs = demo_ide\<lparr>ide_status := replicate 40 0x40\<rparr>"
  by (simp_all add: demo_fs_def machine.defs fs.defs)

lemma demo_root_length [simp]: "length demo_root = 7168"
  by (simp add: demo_root_def demo_entry_def)

lemma demo_fs_disk: "disk_ok 40 demo_fs"
proof -
  have "cpu_edi demo_fs = 0" by (simp add: demo_fs_def machine.defs fs.defs)
  then show ?thesis by (simp add: disk_ok_def readies_def ready_def demo_ide_def)
qed

lemma disk_ok_less: "disk_ok m s \<Longrightarrow> n \<le> m \<Longrightarrow> disk_ok n s"
  by (auto simp: disk_ok_def)


text \<open>counting the clusters of a directory ends exactly when its chain does, with the length of
  the chain.\<close>

theorem num_cluster_terminates:
  assumes "start \<noteq> 0"
  shows "fat12_get_num_cluster start s = Some n \<longleftrightarrow> (\<exists>ks. chain (fat s) start ks \<and> n = length ks)"
proof
  assume n: "fat12_get_num_cluster start s = Some n"
  then obtain ks where "chain (fat s) start ks"
    using count_clusters_returns [of "fat s" start 1 n] assms by (auto simp: fat12_get_num_cluster_def)
  then show "\<exists>ks. chain (fat s) start ks \<and> n = length ks"
    using count_clusters_chain [of "fat s" start ks 1] n assms
    by (intro exI [of _ ks]) (simp add: fat12_get_num_cluster_def)
next
  assume "\<exists>ks. chain (fat s) start ks \<and> n = length ks"
  then show "fat12_get_num_cluster start s = Some n"
    using count_clusters_chain [of "fat s" start _ 1] assms by (auto simp: fat12_get_num_cluster_def)
qed

lemma num_cluster_terminates_witness:
  "fat12_get_num_cluster 2 demo_fs = Some 2 \<and>
    fat12_get_num_cluster 2 (demo_fs\<lparr>fat := [0xFF0, 0xFFF, 3, 2]\<rparr>) = None"
proof -
  let ?f = "[0xFF0, 0xFFF, 3, 2] :: u32 list"
  have "fat12_get_num_cluster 2 demo_fs = Some 2"
    using num_cluster_terminates [of 2 demo_fs 2] demo_fat_free(3) by (auto intro!: exI [of _ "[2, 4]"])
  moreover have "\<not> chain ?f c ks" if "c = 2 \<or> c = 3" for c ks
    using that
  proof (induction ks arbitrary: c)
    case (Cons k ks)
    have "\<not> chain_end 2" "\<not> chain_end 3" by (simp_all add: chain_end_def)
    then show ?case using Cons by (auto split: if_splits)
  qed simp
  ultimately show ?thesis
    using num_cluster_terminates [of 2 "demo_fs\<lparr>fat := ?f\<rparr>"]
    by (cases "fat12_get_num_cluster 2 (demo_fs\<lparr>fat := ?f\<rparr>)") auto
qed

text \<open>C27: \<^verbatim>\<open>fat12_del_fat_entry\<close>, which \<^verbatim>\<open>fat12_rm\<close> calls, frees nothing: it leaves the allocation
  table as it is, and clears the four bytes of memory at the address which each entry of the chain is as
  a number.\<close>

theorem del_frees_nothing:
  assumes "chain (fat s) c ks" "length (fat s) = 3072" "length (phys_fat s) = 4608"
  shows "\<exists>s'. fat12_del_fat_entry c s = Some s' \<and> fat s' = fat s \<and>
    (\<forall>x. k_ram s' x = (if \<exists>k \<in> set ks. unat (fat s ! k) \<le> x \<and> x < unat (fat s ! k) + 4 then 0 else k_ram s x))"
proof -
  obtain m where m: "del_loop c s = Some (s\<lparr>k_ram := m\<rparr>)"
    "\<forall>x. m x = (if \<exists>k \<in> set ks. unat (fat s ! k) \<le> x \<and> x < unat (fat s ! k) + 4 then 0 else k_ram s x)"
    using del_loop_chain [OF assms(1)] by blast
  then show ?thesis using assms(2,3)
    by (simp add: fat12_del_fat_entry_def fat12_write_back_fat_def pack_fat_packed)
qed

lemma del_frees_nothing_witness:
  "\<exists>s'. fat12_del_fat_entry 2 demo_fs = Some s' \<and> fat s' = demo_fat \<and> k_ram s' 4 = 0 \<and> k_ram s' 0xFFF = 0"
  using del_frees_nothing [of demo_fs 2 "[2, 4]"] demo_fat_free by (auto simp: demo_fat_def)

text \<open>after \<^verbatim>\<open>fat12_init\<close> the boot sector, the allocation table (unpacked from its nine sectors) and
  the root directory are those of the disk, and the current directory is the root.\<close>

theorem fat12_init_loads:
  assumes "disk_ok (24 + r) s" "length (bootsector s) = 512" "length (phys_fat s) = 4608"
    "length (fat s) = 3072" "length (root_dir s) = 7168" "2 \<le> length (curr_path (k_tty s))"
  shows "\<exists>s'. fat12_init s = Some (True, s') \<and> bootsector s' = sector_of s 0 \<and>
    pack_fat (fat s') 0 0 (phys_fat s') = Some (concat (map (\<lambda>i. sector_of s (1 + of_nat i)) [0..<9])) \<and>
    length (fat s') = 3072 \<and> (\<forall>e \<in> set (fat s'). e < 4096) \<and>
    root_dir s' = concat (map (\<lambda>i. sector_of s (19 + of_nat i)) [0..<14]) \<and>
    curr_dir (k_tty s') = 19 \<and> is_cstr (curr_path (k_tty s')) 0 [47] \<and>
    (\<exists>p. k_tty s' = (k_tty s)\<lparr>curr_dir := 19, curr_path := p\<rparr> \<and> length p = length (curr_path (k_tty s))) \<and>
    kernel_data s' = kernel_data s \<and> fs.more s' = fs.more s \<and> disk_ok r s' \<and>
    ide_sectors (k_ide s') = ide_sectors (k_ide s) \<and>
    fat s' = unpacked (concat (map (\<lambda>i. sector_of s (1 + of_nat i)) [0..<9]))"
proof -
  have zero: "in_area img n 0 m" for img n m by (simp add: in_area_def ram_bytes_def)
  have len: "length (sectors_of t n c) = c * 512" if "disk_ok r t" for t :: "'a fs_scheme" and r n c
    using that by (simp add: length_concat disk_ok_def sector_of_def o_def sum_list_triv)
  have put: "buf_put b 0 x = x" if "length x = length b" for b x :: buf
    using that by (simp add: buf_put_def)
  obtain s1 where s1: "read_sectors (boot_sink 0) 0 1 0 s = Some s1" "bootsector s1 = sectors_of s 0 1"
    "ide_sectors (k_ide s1) = ide_sectors (k_ide s)" "disk_ok (23 + r) s1"
    "(k_tty s1, kernel_data s1, phys_fat s1, fat s1, root_dir s1, subdir s1, cp_buf s1, fs.more s1) =
     (k_tty s, kernel_data s, phys_fat s, fat s, root_dir s, subdir s, cp_buf s, fs.more s)"
    using boot_target.read_sectors_target [of 1 0 "23 + r" s 0 0] zero assms(1,2) len [OF assms(1), of 0 1] put
    by auto
  obtain s2 where s2: "read_sectors (phys_sink 0) 1 9 0 s1 = Some s2" "phys_fat s2 = sectors_of s1 1 9"
    "ide_sectors (k_ide s2) = ide_sectors (k_ide s)" "disk_ok (14 + r) s2"
    "(k_tty s2, kernel_data s2, bootsector s2, fat s2, root_dir s2, subdir s2, cp_buf s2, fs.more s2) =
     (k_tty s1, kernel_data s1, bootsector s1, fat s1, root_dir s1, subdir s1, cp_buf s1, fs.more s1)"
    using phys_target.read_sectors_target [of 9 0 "14 + r" s1 0 1] zero s1(3,4,5) assms(3) len [OF s1(4), of 1 9] put
    by auto
  have ph: "length (phys_fat s2) = 4608" using s2(2) len [OF s1(4), of 1 9] by simp
  let ?g = "unpacked (phys_fat s2)"
  have g: "unpack_fat (phys_fat s2) 0 0 (fat s2) = Some ?g"
    using unpack_fat_unpacked [OF ph] s1(5) s2(5) assms(4) by simp
  let ?s3 = "s2\<lparr>fat := ?g\<rparr>"
  have ok3: "disk_ok (14 + r) ?s3" using s2(4) by (simp add: disk_ok_def)
  have "length (root_dir ?s3) = 7168" using s1(5) s2(5) assms(5) by simp
  then obtain s4 where s4: "read_sectors (root_sink 0) 19 14 0 ?s3 = Some s4" "root_dir s4 = sectors_of ?s3 19 14"
    "ide_sectors (k_ide s4) = ide_sectors (k_ide ?s3)" "disk_ok r s4"
    "(k_tty s4, kernel_data s4, bootsector s4, phys_fat s4, fat s4, subdir s4, cp_buf s4, fs.more s4) =
     (k_tty ?s3, kernel_data ?s3, bootsector ?s3, phys_fat ?s3, fat ?s3, subdir ?s3, cp_buf ?s3, fs.more ?s3)"
    using root_target.read_sectors_target [of 14 0 r ?s3 0 19] zero ok3 len [OF ok3, of 19 14] put
    by auto
  have same: "sector_of s1 = sector_of s" "sector_of ?s3 = sector_of s"
    using s1(3) s2(3) by (simp_all add: sector_of_def fun_eq_iff)
  have "is_cstr [47, 0] 0 [47]" by (simp add: rd_def)
  moreover have path: "2 \<le> length (curr_path (k_tty s4))" using s1(5) s2(5) s4(5) assms(6) by simp
  ultimately have cp: "strcpy (curr_path (k_tty s4)) 0 [47, 0] 0 = Some (buf_put (curr_path (k_tty s4)) 0 [47, 0])"
    using strcpy_cstr [of "[47, 0]" 0 "[47]" 0 "curr_path (k_tty s4)"] by simp
  have "is_cstr (buf_put (curr_path (k_tty s4)) 0 [47, 0]) 0 [47]"
    using buf_put_cstr [of 0 "[47]" "curr_path (k_tty s4)"] path by simp
  moreover have "pack_fat ?g 0 0 (phys_fat s2) = Some (phys_fat s2)"
    using pack_fat_packed [of ?g "phys_fat s2"] packed_unpacked [of "phys_fat s2" 1536]
      length_unpacked [of "phys_fat s2" 1536] ph by simp
  moreover let ?p = "buf_put (curr_path (k_tty s4)) 0 [47, 0]"
  have "\<exists>p. (k_tty s4)\<lparr>curr_dir := 19, curr_path := ?p\<rparr> = (k_tty s4)\<lparr>curr_dir := 19, curr_path := p\<rparr> \<and>
      length p = length (curr_path (k_tty s4))" using path by (intro exI [of _ ?p]) simp
  moreover have "disk_ok r (s4\<lparr>k_tty := t\<rparr>)" for t using s4(4) by (simp add: disk_ok_def)
  ultimately show ?thesis
    using s1 s2 g s4 cp same length_unpacked [of "phys_fat s2" 1536] ph unpacked_small [of _ "phys_fat s2"]
    by (auto simp: fat12_init_def lit_def FAT_ROOT_REGION_START_def)
qed

lemma demo_tty_dir [simp]: "curr_dir (k_tty demo_sem) = 19" "length (curr_path (k_tty demo_sem)) = 50"
  by (simp_all add: demo_sem_def demo_kernel_def kstate.extend_def demo_tty_def)

lemma fat12_init_loads_witness:
  "\<exists>s'. fat12_init demo_fs = Some (True, s') \<and> take 512 (root_dir s') = replicate 512 19 \<and>
    curr_dir (k_tty s') = 19"
proof -
  have "sector_of demo_fs 19 = replicate 512 19" by (simp add: sector_of_def demo_ide_def)
  then show ?thesis
    using fat12_init_loads [of 0 demo_fs] disk_ok_less [OF demo_fs_disk, of 24] demo_fat_free
    by (fastforce simp: upt_conv_Cons)
qed

end
