(* ===== verification/Fat_Files.thy ===== *)
theory Fat_Files
  imports Fat_Table
begin

text \<open>
  The second half of the file system \<^verbatim>\<open>include/fat12.h\<close>: files and directories by name, the current
  directory and its path, listing, removing, creating and copying files.
\<close>

section \<open>Reading a file of the root directory\<close>

text \<open>A file name is a string in the array \<open>nb\<close> at \<open>q\<close>. The search goes over entries of \<open>b\<close>.\<close>

function find_name :: "buf \<Rightarrow> nat \<Rightarrow> buf \<Rightarrow> nat \<Rightarrow> nat \<Rightarrow> nat option option" where
  "find_name nb q b i n =
     (if i < n then
        do { entry_name \<leftarrow> fat12_construct_file_name (replicate 13 0) b (32 * i);
             r \<leftarrow> strcmp nb q entry_name 0;
             if r \<noteq> 0 then find_name nb q b (Suc i) n else Some (Some i) }
      else Some None)"
  by pat_completeness auto
termination
  by (relation "measure (\<lambda>(nb, q, b, i, n). n - i)") auto

declare find_name.simps [simp del]

definition fat12_read_file ::
  "buf \<Rightarrow> nat \<Rightarrow> (nat \<Rightarrow> nat \<Rightarrow> 'a fs_scheme \<Rightarrow> 'a fs_scheme option) \<Rightarrow> 'a fs_scheme \<Rightarrow>
   (bool \<times> u32 option \<times> 'a fs_scheme) option" where
  "fat12_read_file nb q sink s =
     do { r \<leftarrow> find_name nb q (root_dir s) 0 224;
          case r of
            Some i \<Rightarrow>
              do { c \<leftarrow> startCluster (root_dir s) (32 * i);
                   (n, s) \<leftarrow> fat12_read_clusters sink (ucast c) s;
                   size \<leftarrow> fileLength (root_dir s) (32 * i);
                   Some (True, Some size, s) }
          | None \<Rightarrow>
              do { s \<leftarrow> on_tty (put_error (lit ''FAT No this file!'') 0) s; Some (False, None, s) } }"

section \<open>Listing\<close>

definition fat12_show_file_attrib :: "u8 \<Rightarrow> tty \<Rightarrow> tty option" where
  "fat12_show_file_attrib attr t =
     (if bit attr 3 then printf_lit ''<label> '' [] t
      else
        do { t \<leftarrow> printf_lit ''%c'' [Arg_int (if bit attr 4 then 100 else 45)] t;
             t \<leftarrow> printf_lit ''%c'' [Arg_int (if bit attr 0 then 114 else 45)] t;
             t \<leftarrow> printf_lit ''%c'' [Arg_int (if bit attr 1 then 104 else 45)] t;
             t \<leftarrow> printf_lit ''%c'' [Arg_int (if bit attr 2 then 115 else 45)] t;
             printf_lit ''%c'' [Arg_int (if bit attr 5 then 97 else 45)] t })"

text \<open>Hidden from the list are the volume label, entries without a name and deleted ones.\<close>

definition fat12_show_file_entry ::
  "buf \<Rightarrow> nat \<Rightarrow> 'a fs_scheme \<Rightarrow> (bool \<times> 'a fs_scheme) option" where
  "fat12_show_file_entry b p s =
     do { attr \<leftarrow> entry_attribute b p;
          visible \<leftarrow>
            (if bit attr 3 then Some False
             else do { n \<leftarrow> strlen b p;
                       if n = 0 then Some False
                       else do { c \<leftarrow> rd b p; Some (c AND 0xE5 \<noteq> 0xE5) } });
          if visible then
            do { date \<leftarrow> entry_date b p;
                 time \<leftarrow> entry_time b p;
                 let d = int_to_date date;
                 let t = int_to_time time;
                 s \<leftarrow> on_tty (fat12_show_file_attrib attr) s;
                 s \<leftarrow> on_tty (printf_lit ''  %04d/%02d/%02d''
                        [Arg_int (word_of_int (d_year d + 1980)), Arg_int (word_of_int (d_month d)),
                         Arg_int (word_of_int (d_day d))]) s;
                 s \<leftarrow> on_tty (printf_lit ''  %02d:%02d:%02d''
                        [Arg_int (word_of_int (t_hour t)), Arg_int (word_of_int (t_minute t)),
                         Arg_int (word_of_int (t_second t))]) s;
                 size \<leftarrow> (if bit attr 4 then
                            do { c \<leftarrow> startCluster b p;
                                 n \<leftarrow> fat12_get_num_cluster (ucast c) s;
                                 Some (of_nat (n * 512)) }
                          else fileLength b p);
                 s \<leftarrow> on_tty (printf_lit ''  %10d'' [Arg_int size]) s;
                 let s = (if bit attr 4 then s\<lparr>k_tty := set_color 9 0 (k_tty s)\<rparr> else s);
                 let s = (if bit attr 1 then s\<lparr>k_tty := set_color 8 0 (k_tty s)\<rparr> else s);
                 let s = (if bit attr 2 then s\<lparr>k_tty := set_color 5 0 (k_tty s)\<rparr> else s);
                 name \<leftarrow> fat12_construct_file_name (replicate 13 0) b p;
                 s \<leftarrow> on_tty (printf_lit (''  %s'' @ nl) [Arg_str name 0]) s;
                 Some (True, s\<lparr>k_tty := set_color 15 0 (k_tty s)\<rparr>) }
          else Some (False, s) }"

function show_entries :: "buf \<Rightarrow> nat \<Rightarrow> nat \<Rightarrow> 'a fs_scheme \<Rightarrow> 'a fs_scheme option" where
  "show_entries b i n s =
     (if i < n then
        do { (shown, s) \<leftarrow> fat12_show_file_entry b (32 * i) s; show_entries b (Suc i) n s }
      else Some s)"
  by pat_completeness auto
termination
  by (relation "measure (\<lambda>(b, i, n, s). n - i)") auto

declare show_entries.simps [simp del]

text \<open>The current directory is the number of its first cluster; the root is 19.\<close>

definition in_root :: "'a fs_scheme \<Rightarrow> bool" where
  "in_root s \<longleftrightarrow> curr_dir (k_tty s) = FAT_ROOT_REGION_START"

definition read_subdir :: "'a fs_scheme \<Rightarrow> 'a fs_scheme option" where
  "read_subdir s =
     do { (n, s) \<leftarrow> fat12_read_clusters subdir_sink (word_of_int (curr_dir (k_tty s))) s; Some s }"

definition fat12_ls :: "'a fs_scheme \<Rightarrow> 'a fs_scheme option" where
  "fat12_ls s =
     (if in_root s then show_entries (root_dir s) 0 224 s
      else do { s \<leftarrow> read_subdir s; show_entries (subdir s) 0 16 s })"

section \<open>The current directory\<close>

definition fat12_set_dir :: "int \<Rightarrow> buf \<Rightarrow> nat \<Rightarrow> tty \<Rightarrow> tty option" where
  "fat12_set_dir new_dir nb q t =
     (if curr_dir t = FAT_ROOT_REGION_START then
        do { let t = t\<lparr>curr_dir := new_dir\<rparr>;
             p \<leftarrow> strcpy (curr_path t) 0 (lit ''/'') 0;
             p \<leftarrow> strcat p 0 nb q;
             Some (t\<lparr>curr_path := p\<rparr>) }
      else
        do { let new_dir = (if new_dir = 0 then FAT_ROOT_REGION_START else new_dir);
             let t = t\<lparr>curr_dir := new_dir\<rparr>;
             dot \<leftarrow> strcmp nb q (lit ''.'') 0;
             if dot = 0 then Some t
             else
               do { dots \<leftarrow> strcmp nb q (lit ''..'') 0;
                    if dots = 0 then
                      do { p \<leftarrow> reverse (curr_path t) 0;
                           (tok, tmp_path, p) \<leftarrow> strsep p (Some 0) (lit ''/'');
                           k \<leftarrow> tmp_path;
                           p \<leftarrow> reverse p k;
                           p \<leftarrow> strcpy_same p 0 k;
                           p \<leftarrow> (if curr_dir t = FAT_ROOT_REGION_START then strcpy p 0 (lit ''/'') 0
                                else Some p);
                           Some (t\<lparr>curr_path := p\<rparr>) }
                    else
                      do { p \<leftarrow> strcat (curr_path t) 0 (lit ''/'') 0;
                           p \<leftarrow> strcat p 0 nb q;
                           Some (t\<lparr>curr_path := p\<rparr>) } } })"

text \<open>A pointer to an entry found.\<close>

datatype entry_ref = Root_entry nat | Sub_entry nat

fun entry_bytes :: "entry_ref \<Rightarrow> 'a fs_scheme \<Rightarrow> buf \<times> nat" where
  "entry_bytes (Root_entry i) s = (root_dir s, 32 * i)"
| "entry_bytes (Sub_entry i) s = (subdir s, 32 * i)"

definition fat12_find_entry ::
  "buf \<Rightarrow> nat \<Rightarrow> 'a fs_scheme \<Rightarrow> (entry_ref option \<times> 'a fs_scheme) option" where
  "fat12_find_entry nb q s =
     (if in_root s then
        do { r \<leftarrow> find_name nb q (root_dir s) 0 224; Some (map_option Root_entry r, s) }
      else
        do { s \<leftarrow> read_subdir s;
             r \<leftarrow> find_name nb q (subdir s) 0 16;
             Some (map_option Sub_entry r, s) })"

definition no_such_file :: "'a fs_scheme \<Rightarrow> 'a fs_scheme option" where
  "no_such_file s = on_tty (put_error (lit ''No such file or directory!'') 0) s"

definition entry_cluster :: "entry_ref \<Rightarrow> 'a fs_scheme \<Rightarrow> u16 option" where
  "entry_cluster fe s = (case entry_bytes fe s of (b, p) \<Rightarrow> startCluster b p)"

definition fat12_cd :: "buf \<Rightarrow> nat \<Rightarrow> 'a fs_scheme \<Rightarrow> (bool \<times> 'a fs_scheme) option" where
  "fat12_cd nb q s =
     do { (r, s) \<leftarrow> fat12_find_entry nb q s;
          case r of
            None \<Rightarrow> do { s \<leftarrow> no_such_file s; Some (False, s) }
          | Some fe \<Rightarrow>
              do { c \<leftarrow> entry_cluster fe s;
                   t \<leftarrow> fat12_set_dir (uint c) nb q (k_tty s);
                   let s = s\<lparr>k_tty := t\<rparr>;
                   (n, s) \<leftarrow> fat12_read_clusters subdir_sink (ucast c) s;
                   Some (True, s) } }"

section \<open>Removing\<close>

fun mark_deleted :: "entry_ref \<Rightarrow> 'a fs_scheme \<Rightarrow> 'a fs_scheme option" where
  "mark_deleted (Root_entry i) s =
     do { b \<leftarrow> wr (root_dir s) (32 * i) 0xE5; Some (s\<lparr>root_dir := b\<rparr>) }"
| "mark_deleted (Sub_entry i) s =
     do { b \<leftarrow> wr (subdir s) (32 * i) 0xE5; Some (s\<lparr>subdir := b\<rparr>) }"

definition fat12_rm :: "buf \<Rightarrow> nat \<Rightarrow> 'a fs_scheme \<Rightarrow> (bool \<times> 'a fs_scheme) option" where
  "fat12_rm nb q s =
     do { (r, s) \<leftarrow> fat12_find_entry nb q s;
          case r of
            None \<Rightarrow> do { s \<leftarrow> no_such_file s; Some (False, s) }
          | Some fe \<Rightarrow>
              do { s \<leftarrow> mark_deleted fe s;
                   c \<leftarrow> entry_cluster fe s;
                   s \<leftarrow> fat12_del_fat_entry (ucast c) s;
                   Some (True, s) } }"

section \<open>Creating and copying\<close>

text \<open>Spaces from \<open>j\<close> up to \<open>n\<close> behind the field at \<open>p\<close>.\<close>

function pad_field :: "buf \<Rightarrow> nat \<Rightarrow> nat \<Rightarrow> nat \<Rightarrow> buf option" where
  "pad_field b p j n = (if j < n then do { b \<leftarrow> wr b (p + j) 32; pad_field b p (Suc j) n } else Some b)"
  by pat_completeness auto
termination
  by (relation "measure (\<lambda>(b, p, j, n). n - j)") auto

declare pad_field.simps [simp del]

definition fill_entry :: "buf \<Rightarrow> nat \<Rightarrow> nat \<Rightarrow> int \<Rightarrow> buf \<Rightarrow> nat \<Rightarrow> buf option" where
  "fill_entry nb q cstart len b p =
     do { tmp_name \<leftarrow> strcpy (replicate 20 0) 0 nb q;
          (tok, ext, tmp_name) \<leftarrow> strsep tmp_name (Some 0) (lit ''.'');
          b \<leftarrow> strcpy b p tmp_name 0;
          j \<leftarrow> strlen b p;
          b \<leftarrow> pad_field b p j 8;
          e \<leftarrow> ext;
          b \<leftarrow> strcpy b (p + 8) tmp_name e;
          j \<leftarrow> strlen b (p + 8);
          b \<leftarrow> pad_field b (p + 8) j 3;
          attr \<leftarrow> rd b (p + 11);
          b \<leftarrow> wr b (p + 11) (attr OR 0x20);
          b \<leftarrow> put16 b (p + 26) (of_nat cstart);
          b \<leftarrow> put32 b (p + 28) (word_of_int len);
          b \<leftarrow> put16 b (p + 24) (word_of_int (date_to_int 2019 6 23));
          put16 b (p + 22) (word_of_int (time_to_int 0 0 0)) }"

definition fat12_create_file :: "int \<Rightarrow> buf \<Rightarrow> nat \<Rightarrow> 'a fs_scheme \<Rightarrow> 'a fs_scheme option" where
  "fat12_create_file len nb q s =
     do { let numCluster = (if len smod 512 = 0 then len sdiv 512 else len sdiv 512 + 1);
          (cstart, f) \<leftarrow> alloc_clusters numCluster 2 0 None 0 (fat s);
          let s = s\<lparr>fat := f\<rparr>;
          case find_first (\<lambda>i. rd (root_dir s) (32 * i) = Some 0) 0 224 of
            None \<Rightarrow> Some s
          | Some i \<Rightarrow> do { b \<leftarrow> fill_entry nb q cstart len (root_dir s) (32 * i);
                         Some (s\<lparr>root_dir := b\<rparr>) } }"

definition fat12_cp :: "buf \<Rightarrow> nat \<Rightarrow> buf \<Rightarrow> nat \<Rightarrow> 'a fs_scheme \<Rightarrow> (bool \<times> 'a fs_scheme) option" where
  "fat12_cp src p dst q s =
     do { (ok, size, s) \<leftarrow> fat12_read_file src p cp_sink s;
          if ok then
            do { n \<leftarrow> size; s \<leftarrow> fat12_create_file (sint n) dst q s; Some (True, s) }
          else Some (False, s) }"

section \<open>The name of an entry\<close>

lemma copy_base_frame:
  "p + 8 \<le> length b \<Longrightarrow> length name = 13 \<Longrightarrow> i \<le> 8 \<Longrightarrow>
    \<exists>name'. copy_base b p i name = Some name' \<and> length name' = 13 \<and> drop 8 name' = drop 8 name"
proof (induction "8 - i" arbitrary: i name)
  case 0
  then show ?case by (subst copy_base.simps) simp
next
  case (Suc n)
  have i: "i < 8" using Suc.hyps(2) by simp
  show ?case
  proof (cases "b ! (p + i) = 32")
    case True
    then show ?thesis using Suc by (subst copy_base.simps) simp
  next
    case False
    let ?n = "name[i := b ! (p + i)]"
    have "\<exists>name'. copy_base b p (Suc i) ?n = Some name' \<and> length name' = 13 \<and> drop 8 name' = drop 8 ?n"
      using Suc.hyps(2) Suc.prems by (intro Suc.hyps(1)) auto
    moreover have "copy_base b p i name = copy_base b p (Suc i) ?n"
      using i Suc.prems False by (subst copy_base.simps) simp
    ultimately show ?thesis using Suc.hyps(2) by simp
  qed
qed

lemma copy_ext_frame:
  "p + 11 \<le> length b \<Longrightarrow> length name = 13 \<Longrightarrow> i \<le> 3 \<Longrightarrow> k + 3 \<le> 13 \<Longrightarrow>
    \<exists>name'. copy_ext b p k i name = Some name' \<and> length name' = 13"
proof (induction "3 - i" arbitrary: i name)
  case 0
  then show ?case by (subst copy_ext.simps) simp
next
  case (Suc n)
  have i: "i < 3" using Suc.hyps(2) by simp
  show ?case
  proof (cases "b ! (p + 8 + i) = 32")
    case True
    then show ?thesis using Suc by (subst copy_ext.simps) simp
  next
    case False
    let ?n = "name[i + k := b ! (p + 8 + i)]"
    have "\<exists>name'. copy_ext b p k (Suc i) ?n = Some name' \<and> length name' = 13"
      using Suc.hyps(2) Suc.prems by (intro Suc.hyps(1)) auto
    moreover have "copy_ext b p k i name = copy_ext b p k (Suc i) ?n"
      using i Suc.prems False by (subst copy_ext.simps) simp
    ultimately show ?thesis by simp
  qed
qed

text \<open>A string that starts an array with a NUL at \<open>n\<close>.\<close>

definition str_of :: "buf \<Rightarrow> buf" where "str_of b = takeWhile (\<lambda>c. c \<noteq> 0) b"

lemma str_of_cstr: "is_cstr b 0 s \<Longrightarrow> str_of b = s"
proof -
  assume "is_cstr b 0 s"
  then obtain r where "b = s @ 0 # r" "0 \<notin> set s" by (auto simp: is_cstr_take_drop)
  then show ?thesis by (auto simp: str_of_def takeWhile_append)
qed

lemma cstr_str_of: "n < length b \<Longrightarrow> b ! n = 0 \<Longrightarrow> is_cstr b 0 (str_of b) \<and> length (str_of b) \<le> n"
proof -
  assume n: "n < length b" "b ! n = 0"
  then have "0 \<in> set b" by (metis nth_mem)
  then obtain s r where b: "b = s @ 0 # r" "0 \<notin> set s" by (metis split_list_first)
  then have s: "is_cstr b 0 s" by (auto simp: is_cstr_take_drop)
  then have "str_of b = s" by (rule str_of_cstr)
  moreover have "length s \<le> n"
  proof (rule ccontr)
    assume "\<not> length s \<le> n"
    then have "b ! n = s ! n" "n < length s" using b(1) by (auto simp: nth_append)
    then show False using n(2) b(2) by (metis nth_mem)
  qed
  ultimately show ?thesis using s by simp
qed

lemma construct_name_defined:
  assumes "p + 32 \<le> length b" "length name = 13"
  shows "\<exists>nm. fat12_construct_file_name name b p = Some nm \<and> length nm = 13 \<and> is_cstr nm 0 (str_of nm)"
proof -
  have ms: "memset name 0 0 13 = Some (replicate 13 0)"
    using memset_put [of 0 13 name 0] assms(2) by (simp add: buf_put_def)
  obtain n1 where n1: "copy_base b p 0 (replicate 13 0) = Some n1" "length n1 = 13"
    "drop 8 n1 = drop 8 (replicate 13 0)"
    using copy_base_frame [of p b "replicate 13 0" 0] assms(1) by auto
  have "n1 ! 8 = drop 8 n1 ! 0" using n1(2) by simp
  then have "n1 ! 8 = 0" unfolding n1(3) by simp
  then have s1: "is_cstr n1 0 (str_of n1)" "length (str_of n1) \<le> 8"
    using cstr_str_of [of 8 n1] n1(2) by auto
  have dot: "is_cstr (lit ''.'') 0 [46]" by (simp add: lit_def rd_def)
  have "\<exists>n2. (if b ! (p + 8) \<noteq> 32 then
                     do { name \<leftarrow> strcat n1 0 (lit ''.'') 0;
                          k \<leftarrow> strlen name 0;
                          copy_ext b p k 0 name }
                   else Some n1) = Some n2 \<and> length n2 = 13"
  proof (cases "b ! (p + 8) \<noteq> 32")
    case True
    let ?n = "buf_put n1 (length (str_of n1)) ([46] @ [0])"
    have c: "strcat n1 0 (lit ''.'') 0 = Some ?n"
      using strcat_cstr [OF s1(1) dot] s1(2) n1(2) by simp
    then have k: "strlen ?n 0 = Some (length (str_of n1) + 1)"
      using strcat_is_cstr [OF s1(1) dot _ c] s1(2) n1(2) by simp
    have "\<exists>n2. copy_ext b p (length (str_of n1) + 1) 0 ?n = Some n2 \<and> length n2 = 13"
      using assms(1) n1(2) s1(2) by (intro copy_ext_frame) auto
    then show ?thesis using True c k by simp
  qed (use n1 in simp)
  then obtain n2 where n2: "(if b ! (p + 8) \<noteq> 32 then
                     do { name \<leftarrow> strcat n1 0 (lit ''.'') 0;
                          k \<leftarrow> strlen name 0;
                          copy_ext b p k 0 name }
                   else Some n1) = Some n2" "length n2 = 13" by blast
  let ?n3 = "n2[12 := 0]"
  have s3: "is_cstr ?n3 0 (str_of ?n3)" using cstr_str_of [of 12 ?n3] n2(2) by simp
  have low: "tolower ?n3 0 = Some (buf_put ?n3 0 (map lower (str_of ?n3)))" by (rule tolower_cstr [OF s3])
  have "length (str_of ?n3) \<le> 12" using cstr_str_of [of 12 ?n3] n2(2) by simp
  then have "length (buf_put ?n3 0 (map lower (str_of ?n3))) = 13" "buf_put ?n3 0 (map lower (str_of ?n3)) ! 12 = 0"
    using n2(2) by (auto simp: nth_buf_put)
  then have "is_cstr (buf_put ?n3 0 (map lower (str_of ?n3))) 0 (str_of (buf_put ?n3 0 (map lower (str_of ?n3))))"
    using cstr_str_of [of 12] by simp
  then show ?thesis
    using ms n1 n2 low assms \<open>length (buf_put ?n3 0 (map lower (str_of ?n3))) = 13\<close>
    by (simp add: fat12_construct_file_name_def)
qed


text \<open>The name that the search compares with.\<close>

definition name_at :: "buf \<Rightarrow> nat \<Rightarrow> buf" where
  "name_at b p = str_of (the (fat12_construct_file_name (replicate 13 0) b p))"

lemma construct_name_at:
  "p + 32 \<le> length b \<Longrightarrow>
    \<exists>nm. fat12_construct_file_name (replicate 13 0) b p = Some nm \<and> is_cstr nm 0 (name_at b p)"
  using construct_name_defined [of p b "replicate 13 0"] by (auto simp: name_at_def)

lemma name_atI: "fat12_construct_file_name (replicate 13 0) b p = Some nm \<Longrightarrow> is_cstr nm 0 s \<Longrightarrow> name_at b p = s"
  by (simp add: name_at_def str_of_cstr)

lemma find_name_first:
  "is_cstr nb q s \<Longrightarrow> 32 * n \<le> length b \<Longrightarrow>
    find_name nb q b i n = Some (find_first (\<lambda>j. name_at b (32 * j) = s) i n)"
proof (induction "n - i" arbitrary: i)
  case 0
  then show ?case by (subst find_name.simps, subst find_first.simps) simp
next
  case (Suc d)
  then have i: "i < n" "32 * i + 32 \<le> length b" by auto
  obtain nm where nm: "fat12_construct_file_name (replicate 13 0) b (32 * i) = Some nm"
    "is_cstr nm 0 (name_at b (32 * i))"
    using construct_name_at [OF i(2)] by blast
  obtain r where r: "strcmp nb q nm 0 = Some r" "r = 0 \<longleftrightarrow> s = name_at b (32 * i)"
    using strcmp_cstr [OF Suc.prems(1) nm(2)] by auto
  have "find_name nb q b (Suc i) n = Some (find_first (\<lambda>j. name_at b (32 * j) = s) (Suc i) n)"
    using Suc by (intro Suc.hyps(1)) auto
  then show ?case using i nm(1) r by (subst find_name.simps, subst find_first.simps) auto
qed

subsection \<open>Names of the form 8.3\<close>

definition field :: "buf \<Rightarrow> nat \<Rightarrow> nat \<Rightarrow> buf" where
  "field b p n = takeWhile (\<lambda>c. c \<noteq> 32) (take n (drop p b))"

lemma field_step:
  "p < length b \<Longrightarrow> field b p (Suc n) = (if b ! p = 32 then [] else b ! p # field b (Suc p) n)"
  by (simp add: field_def Cons_nth_drop_Suc [symmetric])

lemma length_field: "length (field b p n) \<le> n"
  unfolding field_def by (rule order_trans [OF length_takeWhile_le]) simp

definition padded :: "buf \<Rightarrow> buf" where "padded x = x @ replicate (13 - length x) 0"

lemma length_padded [simp]: "length x \<le> 13 \<Longrightarrow> length (padded x) = 13"
  by (simp add: padded_def)

lemma padded_snoc: "length x < 13 \<Longrightarrow> (padded x)[length x := c] = padded (x @ [c])"
  by (rule nth_equalityI) (auto simp: padded_def nth_append nth_list_update)

lemma padded_zero: "length x \<le> n \<Longrightarrow> n < 13 \<Longrightarrow> (padded x)[n := 0] = padded x"
  by (rule nth_equalityI) (auto simp: padded_def nth_append nth_list_update)

lemma padded_cstr: "length x < 13 \<Longrightarrow> 0 \<notin> set x \<Longrightarrow> is_cstr (padded x) 0 x"
  by (auto simp: is_cstr_iff padded_def nth_append)

lemma padded_put: "length x + length y < 13 \<Longrightarrow> buf_put (padded x) (length x) (y @ [0]) = padded (x @ y)"
  by (rule nth_equalityI) (auto simp: nth_buf_put padded_def nth_append)

lemma padded_same: "length y = length x \<Longrightarrow> length x < 13 \<Longrightarrow> buf_put (padded x) 0 y = padded y"
  by (rule nth_equalityI) (auto simp: nth_buf_put padded_def nth_append)

lemma copy_base_field:
  "p + 8 \<le> length b \<Longrightarrow> length x = i \<Longrightarrow> i \<le> 8 \<Longrightarrow>
    copy_base b p i (padded x) = Some (padded (x @ field b (p + i) (8 - i)))"
proof (induction "8 - i" arbitrary: i x)
  case 0
  then show ?case by (subst copy_base.simps) (simp add: field_def)
next
  case (Suc n)
  have i: "i < 8" using Suc.hyps(2) by simp
  have f: "field b (p + i) (8 - i) = (if b ! (p + i) = 32 then [] else b ! (p + i) # field b (Suc (p + i)) n)"
    unfolding Suc.hyps(2) [symmetric] using Suc.prems(1) i by (intro field_step) simp
  show ?case
  proof (cases "b ! (p + i) = 32")
    case True
    then show ?thesis using Suc.prems i f by (subst copy_base.simps) (simp add: padded_zero)
  next
    case False
    have "copy_base b p i (padded x) = copy_base b p (Suc i) (padded (x @ [b ! (p + i)]))"
      using i Suc.prems False padded_snoc [of x "b ! (p + i)"] by (subst copy_base.simps) simp
    also have "\<dots> = Some (padded ((x @ [b ! (p + i)]) @ field b (p + Suc i) (8 - Suc i)))"
      using Suc.hyps(2) Suc.prems i by (intro Suc.hyps(1)) auto
    finally have "copy_base b p i (padded x) = Some (padded ((x @ [b ! (p + i)]) @ field b (p + Suc i) (8 - Suc i)))" .
    moreover have "7 - i = n" using Suc.hyps(2) by simp
    ultimately show ?thesis using False f by simp
  qed
qed

lemma copy_ext_field:
  "p + 11 \<le> length b \<Longrightarrow> length x = i + k \<Longrightarrow> i \<le> 3 \<Longrightarrow> k \<le> 9 \<Longrightarrow>
    copy_ext b p k i (padded x) = Some (padded (x @ field b (p + 8 + i) (3 - i)))"
proof (induction "3 - i" arbitrary: i x)
  case 0
  then show ?case by (subst copy_ext.simps) (simp add: field_def)
next
  case (Suc n)
  have i: "i < 3" using Suc.hyps(2) by simp
  have f: "field b (p + 8 + i) (3 - i) =
      (if b ! (p + 8 + i) = 32 then [] else b ! (p + 8 + i) # field b (Suc (p + 8 + i)) n)"
    unfolding Suc.hyps(2) [symmetric] using Suc.prems(1) i by (intro field_step) simp
  show ?case
  proof (cases "b ! (p + 8 + i) = 32")
    case True
    then show ?thesis using Suc.prems i f by (subst copy_ext.simps) (simp add: padded_zero)
  next
    case False
    have "copy_ext b p k i (padded x) = copy_ext b p k (Suc i) (padded (x @ [b ! (p + 8 + i)]))"
      using i Suc.prems False padded_snoc [of x "b ! (p + 8 + i)"] by (subst copy_ext.simps) simp
    also have "\<dots> = Some (padded ((x @ [b ! (p + 8 + i)]) @ field b (p + 8 + Suc i) (3 - Suc i)))"
      using Suc.hyps(2) Suc.prems i by (intro Suc.hyps(1)) auto
    finally have "copy_ext b p k i (padded x) = Some (padded ((x @ [b ! (p + 8 + i)]) @ field b (p + 8 + Suc i) (3 - Suc i)))" .
    moreover have "2 - i = n" using Suc.hyps(2) by simp
    ultimately show ?thesis using False f by simp
  qed
qed

definition dotted :: "buf \<Rightarrow> buf \<Rightarrow> buf" where
  "dotted base ext = (if ext = [] then base else base @ 46 # ext)"

lemma lower_zero: "lower c = 0 \<longleftrightarrow> c = 0"
proof
  assume l: "lower c = 0"
  show "c = 0"
  proof (cases "65 \<le> sint c \<and> sint c \<le> 90")
    case True
    then have "c + 32 = 0" using l by (simp add: lower_def)
    then have "c = -32" by (simp add: eq_neg_iff_add_eq_0)
    then have "sint c = -32" by simp
    then show ?thesis using True by simp
  next
    case False
    show ?thesis using l unfolding lower_def if_not_P [OF False] .
  qed
qed (simp add: lower_def)

lemma lower_no_nul: "0 \<notin> set s \<Longrightarrow> 0 \<notin> set (map lower s)"
proof
  assume "0 \<notin> set s" "0 \<in> set (map lower s)"
  then obtain c where "c \<in> set s" "lower c = 0" by (metis imageE set_map)
  then show False using \<open>0 \<notin> set s\<close> lower_zero by simp
qed

lemma name_at_83:
  assumes "p + 32 \<le> length b" "0 \<notin> set (field b p 8)" "0 \<notin> set (field b (p + 8) 3)"
  shows "name_at b p = map lower (dotted (field b p 8) (field b (p + 8) 3))"
proof -
  let ?x = "field b p 8" and ?e = "field b (p + 8) 3"
  have lx: "length ?x \<le> 8" "length ?e \<le> 3" by (rule length_field)+
  have z: "replicate 13 0 = padded []" by (simp add: padded_def)
  have ms: "memset (replicate 13 0) 0 0 13 = Some (padded [])"
    using memset_put [of 0 13 "replicate 13 0" 0] by (simp add: buf_put_def padded_def)
  have base: "copy_base b p 0 (padded []) = Some (padded ?x)"
    using copy_base_field [of p b "[]" 0] assms(1) by simp
  have e: "?e = [] \<longleftrightarrow> b ! (p + 8) = 32"
    using field_step [of "p + 8" b 2] assms(1) by (simp add: numeral_3_eq_3)
  have dot: "is_cstr (lit ''.'') 0 [46]" by (simp add: lit_def rd_def)
  have "strcat (padded ?x) 0 (lit ''.'') 0 = Some (padded (?x @ [46]))"
    using strcat_cstr [OF padded_cstr dot, of ?x] padded_put [of ?x "[46]"] lx assms(2) by simp
  moreover have "strlen (padded (?x @ [46])) 0 = Some (length ?x + 1)"
    using padded_cstr [of "?x @ [46]"] lx assms(2) by simp
  moreover have "copy_ext b p (length ?x + 1) 0 (padded (?x @ [46])) = Some (padded ((?x @ [46]) @ ?e))"
    using copy_ext_field [of p b "?x @ [46]" 0 "length ?x + 1"] assms(1) lx by simp
  ultimately have name: "(if b ! (p + 8) \<noteq> 32 then
                     do { name \<leftarrow> strcat (padded ?x) 0 (lit ''.'') 0;
                          k \<leftarrow> strlen name 0;
                          copy_ext b p k 0 name }
                   else Some (padded ?x)) = Some (padded (dotted ?x ?e))"
    using e by (simp add: dotted_def)
  let ?d = "dotted ?x ?e"
  have d: "length ?d \<le> 12" "0 \<notin> set ?d" using lx assms(2,3) by (auto simp: dotted_def)
  have "tolower (padded ?d) 0 = Some (padded (map lower ?d))"
    using tolower_cstr [OF padded_cstr, of ?d] padded_same [of "map lower ?d" ?d] d by simp
  then have "fat12_construct_file_name (replicate 13 0) b p = Some (padded (map lower ?d))"
    using ms base name d padded_zero [of ?d 12] assms(1)
    by (simp add: fat12_construct_file_name_def)
  moreover have "is_cstr (padded (map lower ?d)) 0 (map lower ?d)"
    using d by (intro padded_cstr lower_no_nul) simp_all
  ultimately show ?thesis by (rule name_atI)
qed


section \<open>Filling an entry\<close>

lemma put16_ok:
  assumes "i + 2 \<le> length b"
  shows "\<exists>b'. put16 b i v = Some b' \<and> length b' = length b \<and> get16 b' i = Some v \<and>
    (\<forall>j. j < i \<or> i + 2 \<le> j \<longrightarrow> b' ! j = b ! j)"
proof -
  have v: "ucast (ucast v :: u8) + 256 * ucast (ucast (drop_bit 8 v) :: u8) = (v :: u16)"
  proof -
    let ?x = "ucast (ucast v :: u8) :: u16" and ?y = "push_bit 8 (ucast (ucast (drop_bit 8 v) :: u8) :: u16)"
    have "256 * ucast (ucast (drop_bit 8 v) :: u8) = ?y" by (simp add: push_bit_eq_mult)
    moreover have "?x + ?y = ?x OR ?y"
      by (rule disjunctive_add_eq_or) (auto simp: bit_eq_iff bit_simps)
    moreover have "?x OR ?y = v" by (rule bit_eqI) (auto simp: bit_simps)
    ultimately show ?thesis by (simp only:)
  qed
  have "put16 b i v = Some (b[i := ucast v, i + 1 := ucast (drop_bit 8 v)])"
    using assms by (simp add: put16_def)
  then show ?thesis using assms v by (simp add: get16_def)
qed

lemma put32_ok:
  assumes "i + 4 \<le> length b"
  shows "\<exists>b'. put32 b i v = Some b' \<and> length b' = length b \<and> get32 b' i = Some v \<and>
    (\<forall>j. j < i \<or> i + 4 \<le> j \<longrightarrow> b' ! j = b ! j)"
proof -
  have v: "ucast (ucast v :: u16) + 65536 * ucast (ucast (drop_bit 16 v) :: u16) = (v :: u32)"
  proof -
    let ?x = "ucast (ucast v :: u16) :: u32" and ?y = "push_bit 16 (ucast (ucast (drop_bit 16 v) :: u16) :: u32)"
    have "65536 * ucast (ucast (drop_bit 16 v) :: u16) = ?y" by (simp add: push_bit_eq_mult)
    moreover have "?x + ?y = ?x OR ?y"
      by (rule disjunctive_add_eq_or) (auto simp: bit_eq_iff bit_simps)
    moreover have "?x OR ?y = v" by (rule bit_eqI) (auto simp: bit_simps)
    ultimately show ?thesis by (simp only:)
  qed
  obtain b1 where b1: "put16 b i (ucast v) = Some b1" "length b1 = length b" "get16 b1 i = Some (ucast v)"
    "\<forall>j. j < i \<or> i + 2 \<le> j \<longrightarrow> b1 ! j = b ! j"
    using put16_ok [of i b "ucast v"] assms by auto
  obtain b2 where b2: "put16 b1 (i + 2) (ucast (drop_bit 16 v)) = Some b2" "length b2 = length b1"
    "get16 b2 (i + 2) = Some (ucast (drop_bit 16 v))"
    "\<forall>j. j < i + 2 \<or> i + 2 + 2 \<le> j \<longrightarrow> b2 ! j = b1 ! j"
    using put16_ok [of "i + 2" b1 "ucast (drop_bit 16 v)"] b1(2) assms by auto
  have "get16 b2 i = get16 b1 i" using b2(2,4) by (simp add: get16_def rd_def)
  then have "get32 b2 i = Some v" using b1(3) b2(3) v by (simp add: get32_def)
  then show ?thesis using b1 b2 by (auto simp: put32_def)
qed

lemma get16_frame: "length b' = length b \<Longrightarrow> b' ! i = b ! i \<Longrightarrow> b' ! (i + 1) = b ! (i + 1) \<Longrightarrow> get16 b' i = get16 b i"
  by (simp add: get16_def rd_def)

lemma get32_frame:
  "length b' = length b \<Longrightarrow> (\<And>j. i \<le> j \<Longrightarrow> j < i + 4 \<Longrightarrow> b' ! j = b ! j) \<Longrightarrow> get32 b' i = get32 b i"
  by (simp add: get32_def get16_def rd_def)

lemma pad_field_put:
  "p + n \<le> length b \<Longrightarrow> j \<le> n \<Longrightarrow> pad_field b p j n = Some (buf_put b (p + j) (replicate (n - j) 32))"
proof (induction "n - j" arbitrary: j b)
  case 0
  then show ?case by (subst pad_field.simps) simp
next
  case (Suc d)
  then have j: "j < n" by simp
  then have "n - j = Suc (n - Suc j)" by simp
  then have r: "replicate (n - j) 32 = (32 :: u8) # replicate (n - Suc j) 32" by (simp only: replicate_Suc)
  have "pad_field b p j n = pad_field (b[p + j := 32]) p (Suc j) n"
    using j Suc.prems by (subst pad_field.simps) simp
  also have "\<dots> = Some (buf_put (b[p + j := 32]) (p + Suc j) (replicate (n - Suc j) 32))"
    using Suc by (intro Suc.hyps(1)) auto
  finally show ?case unfolding r using Suc.prems j by (simp add: buf_put_Cons)
qed

text \<open>A text field of \<open>n\<close> characters: the string is stored, then spaces.\<close>

lemma text_field:
  assumes "is_cstr src s x" "length x \<le> n" "p + n < length b"
  shows "\<exists>b'. do { b \<leftarrow> strcpy b p src s; j \<leftarrow> strlen b p; pad_field b p j n } = Some b' \<and>
    length b' = length b \<and> (\<forall>j < length b. j < p \<or> p + n < j \<longrightarrow> b' ! j = b ! j) \<and>
    take n (drop p b') = x @ replicate (n - length x) 32"
proof -
  let ?b = "buf_put b p (x @ [0])" and ?r = "replicate (n - length x) (32 :: u8)"
  have "strcpy b p src s = Some ?b" using assms by (intro strcpy_cstr) auto
  moreover have "is_cstr ?b p x" using assms is_cstr_nonzero [OF assms(1)] by (intro buf_put_cstr) auto
  moreover have "pad_field ?b p (length x) n = Some (buf_put ?b (p + length x) ?r)"
    using assms by (intro pad_field_put) auto
  moreover have "take n (drop p (buf_put ?b (p + length x) ?r)) = x @ ?r"
    using assms by (intro nth_equalityI) (auto simp: nth_buf_put nth_append)
  ultimately show ?thesis using assms
    by (intro exI [of _ "buf_put ?b (p + length x) ?r"]) (auto simp: nth_buf_put nth_append)
qed


lemma field_text: "take n (drop p b) = x @ replicate (n - length x) 32 \<Longrightarrow> 32 \<notin> set x \<Longrightarrow> field b p n = x"
  by (auto simp: field_def takeWhile_append)

lemma take_drop_cong:
  "length b' = length b \<Longrightarrow> (\<And>j. p \<le> j \<Longrightarrow> j < p + n \<Longrightarrow> j < length b \<Longrightarrow> b' ! j = b ! j) \<Longrightarrow>
    take n (drop p b') = take n (drop p b)"
  by (rule nth_equalityI) auto

lemma fill_entry_ok:
  assumes "is_cstr nb q (base @ 46 # ext)" "46 \<notin> set base" "length base \<le> 8" "length ext \<le> 3"
    and "32 \<notin> set base" "32 \<notin> set ext" "p + 32 \<le> length b"
  shows "\<exists>b'. fill_entry nb q c n b p = Some b' \<and> length b' = length b \<and>
    field b' p 8 = base \<and> field b' (p + 8) 3 = ext \<and>
    startCluster b' p = Some (of_nat c) \<and> fileLength b' p = Some (word_of_int n) \<and>
    entry_date b' p = Some (word_of_int (date_to_int 2019 6 23)) \<and>
    (\<forall>j < length b. j < p \<or> p + 32 \<le> j \<longrightarrow> b' ! j = b ! j)"
proof -
  let ?tmp = "buf_put (replicate 20 0) 0 (base @ 46 # ext @ [0])"
  have tmp: "strcpy (replicate 20 0) 0 nb q = Some ?tmp"
    using strcpy_cstr [OF assms(1), of 0 "replicate 20 0"] assms(3,4) by simp
  have "is_cstr ?tmp 0 (base @ 46 # ext)"
    using buf_put_cstr [of 0 "base @ 46 # ext" "replicate 20 0"] is_cstr_nonzero [OF assms(1)] assms(3,4) by simp
  moreover have "is_cstr (lit ''.'') 0 [46]" by (simp add: lit_def rd_def)
  ultimately obtain t e where t: "strsep ?tmp (Some 0) (lit ''.'') = Some (Some 0, Some e, t)"
    "is_cstr t 0 base" "is_cstr t e ext"
    using strsep_found [of "lit ''.''" "[46]" ?tmp 0 base 46 ext] assms(2) by auto
  obtain b1 where b1: "do { b \<leftarrow> strcpy b p t 0; j \<leftarrow> strlen b p; pad_field b p j 8 } = Some b1"
    "length b1 = length b" "\<forall>j < length b. j < p \<or> p + 8 < j \<longrightarrow> b1 ! j = b ! j"
    "take 8 (drop p b1) = base @ replicate (8 - length base) 32"
    using text_field [OF t(2) assms(3), of p b] assms(7) by auto
  obtain b2 where b2: "do { b \<leftarrow> strcpy b1 (p + 8) t e; j \<leftarrow> strlen b (p + 8); pad_field b (p + 8) j 3 } = Some b2"
    "length b2 = length b1" "\<forall>j < length b1. j < p + 8 \<or> p + 8 + 3 < j \<longrightarrow> b2 ! j = b1 ! j"
    "take 3 (drop (p + 8) b2) = ext @ replicate (3 - length ext) 32"
    using text_field [OF t(3) assms(4), of "p + 8" b1] assms(7) b1(2) by auto
  let ?b3 = "b2[p + 11 := b2 ! (p + 11) OR 0x20]"
  obtain b4 where b4: "put16 ?b3 (p + 26) (of_nat c) = Some b4" "length b4 = length ?b3"
    "get16 b4 (p + 26) = Some (of_nat c)" "\<forall>j. j < p + 26 \<or> p + 26 + 2 \<le> j \<longrightarrow> b4 ! j = ?b3 ! j"
    using put16_ok [of "p + 26" ?b3 "of_nat c"] assms(7) b1(2) b2(2) by auto
  obtain b5 where b5: "put32 b4 (p + 28) (word_of_int n) = Some b5" "length b5 = length b4"
    "get32 b5 (p + 28) = Some (word_of_int n)" "\<forall>j. j < p + 28 \<or> p + 28 + 4 \<le> j \<longrightarrow> b5 ! j = b4 ! j"
    using put32_ok [of "p + 28" b4 "word_of_int n"] assms(7) b1(2) b2(2) b4(2) by auto
  let ?d = "word_of_int (date_to_int 2019 6 23) :: u16" and ?t = "word_of_int (time_to_int 0 0 0) :: u16"
  obtain b6 where b6: "put16 b5 (p + 24) ?d = Some b6" "length b6 = length b5"
    "get16 b6 (p + 24) = Some ?d" "\<forall>j. j < p + 24 \<or> p + 24 + 2 \<le> j \<longrightarrow> b6 ! j = b5 ! j"
    using put16_ok [of "p + 24" b5 ?d] assms(7) b1(2) b2(2) b4(2) b5(2) by auto
  obtain b7 where b7: "put16 b6 (p + 22) ?t = Some b7" "length b7 = length b6"
    "\<forall>j. j < p + 22 \<or> p + 22 + 2 \<le> j \<longrightarrow> b7 ! j = b6 ! j"
    using put16_ok [of "p + 22" b6 ?t] assms(7) b1(2) b2(2) b4(2) b5(2) b6(2) by auto
  have len: "length b7 = length b" "length b2 = length b" using b1(2) b2(2) b4(2) b5(2) b6(2) b7(2) by simp_all
  have run: "fill_entry nb q c n b p = Some b7"
  proof -
    have e: "do { b \<leftarrow> strcpy b p t 0; j \<leftarrow> strlen b p; b \<leftarrow> pad_field b p j 8; f b } = f b1" for f
      using b1(1) by (auto simp: bind_Some_iff)
    have e': "do { b \<leftarrow> strcpy b1 (p + 8) t e; j \<leftarrow> strlen b (p + 8); b \<leftarrow> pad_field b (p + 8) j 3; f b } = f b2" for f
      using b2(1) by (auto simp: bind_Some_iff)
    have "rd b2 (p + 11) = Some (b2 ! (p + 11))" "wr b2 (p + 11) (b2 ! (p + 11) OR 0x20) = Some ?b3"
      using assms(7) len(2) by simp_all
    then show ?thesis unfolding fill_entry_def
      by (simp add: tmp t(1) e e' b4(1) b5(1) b6(1) b7(1))
  qed
  have low: "b7 ! j = b2 ! j" if "j < p + 11" for j
    using that b4(4) b5(4) b6(4) b7(3) by simp
  have "take 8 (drop p b7) = base @ replicate (8 - length base) 32"
    using b1(4) b2(3) low len assms(7) b1(2) by (subst take_drop_cong [of b7 b1]) auto
  then have f1: "field b7 p 8 = base" using assms(5) by (rule field_text)
  have "take 3 (drop (p + 8) b7) = ext @ replicate (3 - length ext) 32"
    using b2(4) low len assms(7) by (subst take_drop_cong [of b7 b2]) auto
  then have f2: "field b7 (p + 8) 3 = ext" using assms(6) by (rule field_text)
  have f3: "startCluster b7 p = Some (of_nat c)"
    using get16_frame [of b7 b4 "p + 26"] b4(3) b5(2,4) b6(2,4) b7(2,3) by (simp add: startCluster_def)
  have f4: "fileLength b7 p = Some (word_of_int n)"
    using get32_frame [of b7 b5 "p + 28"] b5(3) b6(2,4) b7(2,3) by (simp add: fileLength_def)
  have f5: "entry_date b7 p = Some ?d"
    using get16_frame [of b7 b6 "p + 24"] b6(3) b7(2,3) by (simp add: entry_date_def)
  have f6: "b7 ! j = b ! j" if "j < length b" "j < p \<or> p + 32 \<le> j" for j
    using that b1(2,3) b2(3) b4(4) b5(4) b6(4) b7(3) by auto
  show ?thesis using run len f1 f2 f3 f4 f5 f6 by blast
qed

section \<open>The entry found\<close>

lemma is_root: "in_root s \<longleftrightarrow> curr_dir (k_tty s) = 19"
  by (simp add: in_root_def FAT_ROOT_REGION_START_def)

lemma find_entry_root:
  assumes "in_root s" "is_cstr nb q x" "length (root_dir s) = 7168"
  shows "fat12_find_entry nb q s =
    Some (map_option Root_entry (find_first (\<lambda>j. name_at (root_dir s) (32 * j) = x) 0 224), s)"
  using find_name_first [OF assms(2), of 224 "root_dir s" 0] assms by (simp add: fat12_find_entry_def)

lemma name_at_frame:
  assumes "length b' = length b" "p + 32 \<le> length b" "\<And>j. p \<le> j \<Longrightarrow> j < p + 32 \<Longrightarrow> b' ! j = b ! j"
  shows "name_at b' p = name_at b p"
proof -
  have c: "copy_base b' p i n = copy_base b p i n" for i n
  proof (induction "8 - i" arbitrary: i n)
    case 0
    then show ?case by (subst copy_base.simps [of b'], subst copy_base.simps [of b]) simp
  next
    case (Suc d)
    then have r: "rd b' (p + i) = rd b (p + i)" using assms by (simp add: rd_def)
    have t: "copy_base b' p (Suc i) = copy_base b p (Suc i)" using Suc by (intro ext) simp
    show ?case by (subst copy_base.simps [of b'], subst copy_base.simps [of b]) (simp only: r t)
  qed
  have e: "copy_ext b' p k i n = copy_ext b p k i n" for k i n
  proof (induction "3 - i" arbitrary: i n)
    case 0
    then show ?case by (subst copy_ext.simps [of b'], subst copy_ext.simps [of b]) simp
  next
    case (Suc d)
    then have r: "rd b' (p + 8 + i) = rd b (p + 8 + i)" using assms by (simp add: rd_def)
    have t: "copy_ext b' p k (Suc i) = copy_ext b p k (Suc i)" using Suc by (intro ext) simp
    show ?case by (subst copy_ext.simps [of b'], subst copy_ext.simps [of b]) (simp only: r t)
  qed
  have r: "rd b' (p + 8) = rd b (p + 8)" using assms by (simp add: rd_def)
  show ?thesis unfolding name_at_def fat12_construct_file_name_def c e r ..
qed

text \<open>An entry never used (all zero) has the name \<^verbatim>\<open>"."\<close>.\<close>

lemma name_at_unused:
  assumes "p + 32 \<le> length b" "\<And>j. p \<le> j \<Longrightarrow> j < p + 11 \<Longrightarrow> b ! j = 0"
  shows "name_at b p = [46]"
proof -
  have "field b p 8 = replicate 8 0" "field b (p + 8) 3 = replicate 3 0"
  proof -
    have "take 8 (drop p b) = replicate 8 0" "take 3 (drop (p + 8) b) = replicate 3 0"
      using assms by (intro nth_equalityI; simp)+
    then show "field b p 8 = replicate 8 0" "field b (p + 8) 3 = replicate 3 0"
      by (simp_all add: field_def)
  qed
  moreover have "padded (replicate 8 0) = padded []" "padded ([46] @ replicate 3 0) = padded [46]"
    by (simp_all add: padded_def replicate_add [symmetric])
  ultimately have f: "copy_base b p 0 (padded []) = Some (padded [])"
    "copy_ext b p 1 0 (padded [46]) = Some (padded [46])"
    using copy_base_field [of p b "[]" 0] copy_ext_field [of p b "[46]" 0 1] assms(1) by auto
  have ms: "memset (replicate 13 0) 0 0 13 = Some (padded [])"
    using memset_put [of 0 13 "replicate 13 0" 0] by (simp add: buf_put_def padded_def)
  have dot: "is_cstr (lit ''.'') 0 [46]" by (simp add: lit_def rd_def)
  have "strcat (padded []) 0 (lit ''.'') 0 = Some (padded [46])"
    using strcat_cstr [OF padded_cstr dot, of "[]"] padded_put [of "[]" "[46]"] by simp
  moreover have "strlen (padded [46]) 0 = Some 1" using strlen_cstr [OF padded_cstr, of "[46]"] by simp
  moreover have "tolower (padded [46]) 0 = Some (padded [46])"
    using tolower_cstr [OF padded_cstr, of "[46]"] padded_same [of "[46]" "[46]"] by (simp add: lower_def)
  moreover have "b ! (p + 8) = 0" using assms(2) by simp
  ultimately have "fat12_construct_file_name (replicate 13 0) b p = Some (padded [46])"
    using f ms padded_zero [of "[46]" 12] assms(1) by (simp add: fat12_construct_file_name_def)
  moreover have "is_cstr (padded [46]) 0 [46]" by (rule padded_cstr) simp_all
  ultimately show ?thesis by (rule name_atI)
qed

section \<open>Creating a file and finding it\<close>

text \<open>A name in the form 8.3, in lower case.\<close>

definition valid_name :: "buf \<Rightarrow> buf \<Rightarrow> bool" where
  "valid_name base ext \<longleftrightarrow> length base \<le> 8 \<and> ext \<noteq> [] \<and> length ext \<le> 3 \<and> 46 \<notin> set base \<and>
     32 \<notin> set (base @ ext) \<and> map lower (base @ 46 # ext) = base @ 46 # ext"

definition clusters_for :: "int \<Rightarrow> nat" where "clusters_for n = nat ((n + 511) div 512)"

lemma clusters_for:
  assumes "1 \<le> n"
  shows "(if n smod 512 = 0 then n sdiv 512 else n sdiv 512 + 1) = int (clusters_for n)" "1 \<le> clusters_for n"
proof -
  have "n smod 512 = n mod 512" "n sdiv 512 = n div 512"
    using assms sdiv_pos [of n 512] by (auto simp: signed_modulo_int_def)
  moreover have "(n + 511) div 512 = (if n mod 512 = 0 then n div 512 else n div 512 + 1)"
  proof -
    have "n = 512 * (n div 512) + n mod 512" "0 \<le> n mod 512" "n mod 512 < 512" by simp_all
    then have "n mod 512 = 0 \<longrightarrow> (n + 511) div 512 = n div 512"
      "n mod 512 \<noteq> 0 \<longrightarrow> (n + 511) div 512 = n div 512 + 1" by linarith+
    then show ?thesis by (simp only: if_split)
  qed
  moreover have pos: "1 \<le> (n + 511) div 512" using assms by linarith
  moreover have "int (clusters_for n) = (n + 511) div 512" using pos unfolding clusters_for_def by linarith
  ultimately show "(if n smod 512 = 0 then n sdiv 512 else n sdiv 512 + 1) = int (clusters_for n)"
    by (simp only:)
  show "1 \<le> clusters_for n" using pos unfolding clusters_for_def by linarith
qed

definition first_unused :: "buf \<Rightarrow> nat option" where
  "first_unused b = find_first (\<lambda>i. rd b (32 * i) = Some 0) 0 224"

lemma create_file_ok:
  assumes "is_cstr nb q (base @ 46 # ext)" "valid_name base ext" "1 \<le> n"
    and "length (fat s) = 3072" "clusters_for n \<le> length (free_from (fat s) 2)"
    and "length (root_dir s) = 7168" "first_unused (root_dir s) = Some i"
  shows "\<exists>s'. fat12_create_file n nb q s = Some s' \<and> length (fat s') = 3072 \<and>
    length (root_dir s') = 7168 \<and> name_at (root_dir s') (32 * i) = base @ 46 # ext \<and>
    (\<forall>j < 224. j \<noteq> i \<longrightarrow> name_at (root_dir s') (32 * j) = name_at (root_dir s) (32 * j)) \<and>
    fileLength (root_dir s') (32 * i) = Some (word_of_int n) \<and>
    (\<exists>c. startCluster (root_dir s') (32 * i) = Some c \<and>
       chain (fat s') (ucast c) (take (clusters_for n) (free_from (fat s) 2))) \<and>
    k_ide s' = k_ide s \<and> k_tty s' = k_tty s"
proof -
  obtain c f where a: "alloc_clusters (int (clusters_for n)) 2 0 None 0 (fat s) = Some (c, f)" "length f = 3072"
    "chain f (of_nat c) (take (clusters_for n) (free_from (fat s) 2))"
    "c = hd (take (clusters_for n) (free_from (fat s) 2))"
    using alloc_chain_library [OF assms(4) clusters_for(2) [OF assms(3)] assms(5)] by auto
  have "take (clusters_for n) (free_from (fat s) 2) \<noteq> []" using a(3) by (metis chain.simps(1))
  then have "c \<in> set (free_from (fat s) 2)" using a(4) by (metis hd_in_set in_set_takeD)
  then have c: "c < 3072" by (simp add: free_from_props)
  have u: "ucast (of_nat c :: u16) = (of_nat c :: u32)"
    using c by (simp add: word_unat_eq_iff unsigned_ucast_eq unat_of_nat take_bit_nat_eq_self)
  have i: "i < 224" using assms(7) by (simp add: first_unused_def find_first_Some)
  let ?r = "root_dir s"
  have v: "46 \<notin> set base" "length base \<le> 8" "length ext \<le> 3" "32 \<notin> set base" "32 \<notin> set ext"
    using assms(2) by (auto simp: valid_name_def)
  obtain b where b: "fill_entry nb q c n ?r (32 * i) = Some b" "length b = 7168"
    "field b (32 * i) 8 = base" "field b (32 * i + 8) 3 = ext" "startCluster b (32 * i) = Some (of_nat c)"
    "fileLength b (32 * i) = Some (word_of_int n)"
    "\<forall>j < 7168. j < 32 * i \<or> 32 * i + 32 \<le> j \<longrightarrow> b ! j = ?r ! j"
    using fill_entry_ok [OF assms(1) v, of "32 * i" ?r c n] i assms(6) by auto
  have "0 \<notin> set base" "0 \<notin> set ext" using is_cstr_nonzero [OF assms(1)] by auto
  then have nm: "name_at b (32 * i) = base @ 46 # ext"
    using name_at_83 [of "32 * i" b] b(2,3,4) i assms(2) by (simp add: valid_name_def dotted_def)
  have other: "name_at b (32 * j) = name_at ?r (32 * j)" if "j < 224" "j \<noteq> i" for j
  proof -
    have "32 * j + 32 \<le> 32 * i \<or> 32 * i + 32 \<le> 32 * j" using that(2) by arith
    then show ?thesis using that(1) b(2,7) assms(6) by (intro name_at_frame) auto
  qed
  have "fat12_create_file n nb q s = Some (s\<lparr>fat := f, root_dir := b\<rparr>)"
    using a(1) b(1) assms(7) clusters_for(1) [OF assms(3)] by (simp add: fat12_create_file_def first_unused_def)
  then show ?thesis using a b nm other u by auto
qed


lemma find_first_cong:
  "(\<And>j. j < n \<Longrightarrow> p j = q j) \<Longrightarrow> find_first p i n = find_first q i n"
  by (induction p i n rule: find_first.induct) (subst (1 2) find_first.simps, simp)

section \<open>The path\<close>

text \<open>A directory as the list of the names on the way to it, and its path.\<close>

definition slashed :: "buf list \<Rightarrow> buf" where
  "slashed cs = concat (map (\<lambda>c. 47 # c) cs)"

definition path_str :: "buf list \<Rightarrow> buf" where
  "path_str cs = (if cs = [] then [47] else slashed cs)"

definition cd_spec :: "buf list \<Rightarrow> buf \<Rightarrow> buf list" where
  "cd_spec cs a = (if a = [46] then cs else if a = [46, 46] then butlast cs else cs @ [a])"

text \<open>The path kept agrees with the list; only the root has the number 19.\<close>

definition at_dir :: "buf list \<Rightarrow> tty \<Rightarrow> bool" where
  "at_dir cs t \<longleftrightarrow> length (curr_path t) = 50 \<and> is_cstr (curr_path t) 0 (path_str cs) \<and>
     (\<forall>c \<in> set cs. 47 \<notin> set c) \<and> (curr_dir t = 19 \<longleftrightarrow> cs = [])"

lemma slashed_snoc: "slashed (cs @ [a]) = slashed cs @ 47 # a"
  by (simp add: slashed_def)

lemma path_snoc: "path_str (cs @ [a]) = slashed cs @ 47 # a"
  by (simp add: path_str_def slashed_snoc)

lemmas lits = lit_def rd_def

lemma lit_slash: "is_cstr (lit ''/'') 0 [47]" by (simp add: lits)

lemma lit_dots: "is_cstr (lit ''.'') 0 [46]" "is_cstr (lit ''..'') 0 [46, 46]" by (simp_all add: lits)

lemma set_dir_from_root:
  assumes "at_dir [] t" "is_cstr nb q a" "47 \<notin> set a" "length a < 49" "d \<noteq> 19"
  shows "\<exists>t'. fat12_set_dir d nb q t = Some t' \<and> at_dir [a] t' \<and> curr_dir t' = d"
proof -
  let ?p1 = "buf_put (curr_path t) 0 ([47] @ [0])"
  have l: "length (curr_path t) = 50" "curr_dir t = 19" using assms(1) by (auto simp: at_dir_def)
  have p1: "strcpy (curr_path t) 0 (lit ''/'') 0 = Some ?p1"
    using strcpy_cstr [OF lit_slash, of 0 "curr_path t"] l by simp
  have c1: "is_cstr ?p1 0 [47]" using l by (intro buf_put_cstr) auto
  have p2: "strcat ?p1 0 nb q = Some (buf_put ?p1 1 (a @ [0]))"
    using strcat_cstr [OF c1 assms(2)] l assms(4) by simp
  have "is_cstr (buf_put ?p1 1 (a @ [0])) 0 (47 # a)"
    using strcat_is_cstr [OF c1 assms(2) _ p2] l assms(4) by simp
  moreover have "length (buf_put ?p1 1 (a @ [0])) = 50" using l assms(4) by simp
  ultimately show ?thesis using p1 p2 l assms(3,5)
    by (simp add: fat12_set_dir_def FAT_ROOT_REGION_START_def at_dir_def path_str_def slashed_def)
qed

lemma strcmp_lit:
  assumes "is_cstr nb q a" "is_cstr b p x"
  obtains r where "strcmp nb q b p = Some r" "r = 0 \<longleftrightarrow> a = x"
  using strcmp_cstr [OF assms] by auto

lemma set_dir_down:
  assumes "at_dir cs t" "cs \<noteq> []" "is_cstr nb q a" "a \<noteq> [46]" "a \<noteq> [46, 46]" "47 \<notin> set a"
    and "length (path_str cs) + length a < 49" "d \<noteq> 19" "d \<noteq> 0"
  shows "\<exists>t'. fat12_set_dir d nb q t = Some t' \<and> at_dir (cs @ [a]) t' \<and> curr_dir t' = d"
proof -
  let ?p = "curr_path t" and ?x = "path_str cs"
  have l: "length ?p = 50" "curr_dir t \<noteq> 19" "is_cstr ?p 0 ?x" using assms(1,2) by (auto simp: at_dir_def)
  obtain r1 where r1: "strcmp nb q (lit ''.'') 0 = Some r1" "r1 \<noteq> 0"
    using strcmp_lit [OF assms(3) lit_dots(1)] assms(4) by metis
  obtain r2 where r2: "strcmp nb q (lit ''..'') 0 = Some r2" "r2 \<noteq> 0"
    using strcmp_lit [OF assms(3) lit_dots(2)] assms(5) by metis
  let ?p1 = "buf_put ?p (length ?x) ([47] @ [0])"
  have p1: "strcat ?p 0 (lit ''/'') 0 = Some ?p1"
    using strcat_cstr [OF l(3) lit_slash] l(1) assms(7) by simp
  have c1: "is_cstr ?p1 0 (?x @ [47])" using strcat_is_cstr [OF l(3) lit_slash _ p1] l(1) assms(7) by simp
  have len1: "length ?p1 = 50" using l(1) assms(7) by simp
  let ?p2 = "buf_put ?p1 (length (?x @ [47])) (a @ [0])"
  have p2: "strcat ?p1 0 nb q = Some ?p2"
    using strcat_cstr [OF c1 assms(3)] len1 assms(7) by simp
  have "is_cstr ?p2 0 ((?x @ [47]) @ a)"
    using strcat_is_cstr [OF c1 assms(3) _ p2] len1 assms(7) by simp
  moreover have "path_str (cs @ [a]) = ?x @ 47 # a" using assms(2) by (simp add: path_snoc) (simp add: path_str_def)
  moreover have "length ?p2 = 50" using len1 assms(7) by simp
  ultimately show ?thesis using p1 p2 l r1 r2 assms(1,6,8,9)
    by (simp add: fat12_set_dir_def FAT_ROOT_REGION_START_def at_dir_def)
qed

lemma set_dir_up:
  assumes "at_dir (ds @ [c]) t" "is_cstr nb q [46, 46]" "(if d = 0 then 19 else d) = 19 \<longleftrightarrow> ds = []"
  shows "\<exists>t'. fat12_set_dir d nb q t = Some t' \<and> at_dir ds t' \<and> curr_dir t' = (if d = 0 then 19 else d)"
proof -
  let ?p = "curr_path t" and ?P = "slashed ds" and ?d = "if d = 0 then 19 else d"
  have l: "length ?p = 50" "curr_dir t \<noteq> 19" "is_cstr ?p 0 (?P @ 47 # c)" "47 \<notin> set c"
    using assms(1) by (auto simp: at_dir_def path_snoc)
  have len: "length (?P @ 47 # c) < 50" using is_cstr_length [OF l(3)] l(1) by simp
  obtain r1 where r1: "strcmp nb q (lit ''.'') 0 = Some r1" "r1 \<noteq> 0"
    using strcmp_lit [OF assms(2) lit_dots(1)] by (metis list.inject not_Cons_self2)
  obtain r2 where r2: "strcmp nb q (lit ''..'') 0 = Some r2" "r2 = 0"
    using strcmp_lit [OF assms(2) lit_dots(2)] by metis
  let ?p1 = "buf_put ?p 0 (rev (?P @ 47 # c))"
  have p1: "reverse ?p 0 = Some ?p1" by (rule reverse_cstr [OF l(3)])
  have c1: "is_cstr ?p1 0 (rev c @ 47 # rev ?P)"
    using l(3) len is_cstr_end [OF l(3)] l(1) is_cstr_nonzero [OF l(3)]
    by (auto simp: is_cstr_iff nth_buf_put add.commute)
  obtain p2 k where p2: "strsep ?p1 (Some 0) (lit ''/'') = Some (Some 0, Some k, p2)"
    "length p2 = 50" "is_cstr p2 k (rev ?P)"
    using strsep_found [OF lit_slash c1] l(4) len l(1) by auto
  let ?p3 = "buf_put p2 k ?P"
  have p3: "reverse p2 k = Some ?p3" using reverse_cstr [OF p2(3)] by simp
  have k: "k + length ?P < 50" using is_cstr_length [OF p2(3)] p2(2) by simp
  have c3: "is_cstr ?p3 k ?P"
    using p2(2) k is_cstr_end [OF p2(3)] is_cstr_nonzero [OF p2(3)] by (auto simp: is_cstr_iff nth_buf_put)
  let ?p4 = "buf_put ?p3 0 (?P @ [0])"
  have p4: "strcpy_same ?p3 0 k = Some ?p4" by (rule strcpy_same_cstr [OF c3]) simp
  have len3: "length ?p3 = 50" using p2(2) k by simp
  then have c4: "is_cstr ?p4 0 ?P" "length ?p4 = 50"
    using k is_cstr_nonzero [OF c3] by (auto intro!: buf_put_cstr)
  let ?p5 = "buf_put ?p4 0 ([47] @ [0])"
  have "0 + length [47 :: u8] < length ?p4" using c4(2) by simp
  then have p5: "is_cstr ?p5 0 [47]" by (intro buf_put_cstr) auto
  have p5': "strcpy ?p4 0 (lit ''/'') 0 = Some ?p5" "length ?p5 = 50"
    using strcpy_cstr [OF lit_slash, of 0 ?p4] c4(2) by auto
  have run: "fat12_set_dir d nb q t = Some (t\<lparr>curr_dir := ?d, curr_path := if ?d = 19 then ?p5 else ?p4\<rparr>)"
    using l(2) r1 r2 p1 p2(1) p3 p4 p5'(1) by (simp add: fat12_set_dir_def FAT_ROOT_REGION_START_def)
  have dsn: "\<forall>c \<in> set ds. 47 \<notin> set c" using assms(1) by (simp add: at_dir_def)
  show ?thesis
  proof (cases "ds = []")
    case True
    then have "?d = 19" using assms(3) by simp
    then show ?thesis using run p5 p5'(2) True by (simp add: at_dir_def path_str_def)
  next
    case False
    then have "?d \<noteq> 19" using assms(3) by simp
    then show ?thesis using run c4 False dsn by (simp add: at_dir_def path_str_def)
  qed
qed

lemma set_dir_dot:
  assumes "at_dir cs t" "cs \<noteq> []" "is_cstr nb q [46]" "d \<noteq> 19" "d \<noteq> 0"
  shows "\<exists>t'. fat12_set_dir d nb q t = Some t' \<and> at_dir cs t' \<and> curr_dir t' = d"
proof -
  obtain r1 where r1: "strcmp nb q (lit ''.'') 0 = Some r1" "r1 = 0"
    using strcmp_lit [OF assms(3) lit_dots(1)] by metis
  then show ?thesis using assms by (simp add: fat12_set_dir_def FAT_ROOT_REGION_START_def at_dir_def)
qed

section \<open>Properties\<close>

text \<open>The name of an entry: nothing but a dot if it was never used.\<close>

definition entry_name :: "buf \<Rightarrow> nat \<Rightarrow> buf" where
  "entry_name b p = (if \<forall>j < 11. b ! (p + j) = 0 then [46]
     else map lower (dotted (field b p 8) (field b (p + 8) 3)))"

definition entry_ok :: "buf \<Rightarrow> nat \<Rightarrow> bool" where
  "entry_ok b p \<longleftrightarrow> (\<forall>j < 11. b ! (p + j) = 0) \<or> 0 \<notin> set (field b p 8) \<union> set (field b (p + 8) 3)"

lemma name_at_entry:
  assumes "p + 32 \<le> length b" "entry_ok b p"
  shows "name_at b p = entry_name b p"
proof (cases "\<forall>j < 11. b ! (p + j) = 0")
  case True
  have "b ! j = 0" if "p \<le> j" "j < p + 11" for j
  proof -
    have "j = p + (j - p)" "j - p < 11" using that by simp_all
    then show ?thesis using True by metis
  qed
  then show ?thesis using name_at_unused [OF assms(1)] True by (simp add: entry_name_def)
next
  case False
  then have "0 \<notin> set (field b p 8)" "0 \<notin> set (field b (p + 8) 3)" using assms(2) by (auto simp: entry_ok_def)
  then have "name_at b p = map lower (dotted (field b p 8) (field b (p + 8) 3))"
    by (rule name_at_83 [OF assms(1)])
  then show ?thesis unfolding entry_name_def if_not_P [OF False] .
qed

text \<open>C28: in the root directory \<^verbatim>\<open>fat12_find_entry\<close> finds the first entry whose name, as
  \<^verbatim>\<open>base.ext\<close> in lower case, is the one asked for, and nothing exactly when no entry has it; the
  disk is not read.\<close>

theorem find_entry_first:
  assumes "curr_dir (k_tty s) = 19" "is_cstr nb q x" "length (root_dir s) = 7168"
    and "\<And>j. j < 224 \<Longrightarrow> entry_ok (root_dir s) (32 * j)"
  shows "fat12_find_entry nb q s =
    Some (map_option Root_entry (find_first (\<lambda>j. entry_name (root_dir s) (32 * j) = x) 0 224), s)"
proof -
  have "find_first (\<lambda>j. name_at (root_dir s) (32 * j) = x) 0 224 =
      find_first (\<lambda>j. entry_name (root_dir s) (32 * j) = x) 0 224"
    using name_at_entry [of _ "root_dir s"] assms(3,4) by (intro find_first_cong) auto
  then show ?thesis using find_entry_root [OF _ assms(2,3)] assms(1) by (simp add: is_root)
qed

text \<open>C29: creating a file of \<open>n\<close> bytes, under a name of the form 8.3 not in the root directory yet,
  makes it found under that name with its length and a chain of as many clusters as it needs, all
  free before. But nothing is written to the disk, neither the file's bytes nor table and directory.\<close>

theorem create_then_find:
  assumes "curr_dir (k_tty s) = 19" "is_cstr nb q (base @ 46 # ext)" "valid_name base ext" "1 \<le> n"
    and "length (fat s) = 3072" "clusters_for n \<le> length (free_from (fat s) 2)"
    and "length (root_dir s) = 7168" "first_unused (root_dir s) = Some i"
    and "\<And>j. j < i \<Longrightarrow> name_at (root_dir s) (32 * j) \<noteq> base @ 46 # ext"
  shows "\<exists>s' c ks. fat12_create_file n nb q s = Some s' \<and>
    fat12_find_entry nb q s' = Some (Some (Root_entry i), s') \<and>
    fileLength (root_dir s') (32 * i) = Some (word_of_int n) \<and>
    startCluster (root_dir s') (32 * i) = Some c \<and> chain (fat s') (ucast c) ks \<and>
    length ks = clusters_for n \<and> (\<forall>k \<in> set ks. fat s ! k = 0) \<and> k_ide s' = k_ide s"
proof -
  obtain s' c where s': "fat12_create_file n nb q s = Some s'" "length (root_dir s') = 7168"
    "name_at (root_dir s') (32 * i) = base @ 46 # ext"
    "\<forall>j < 224. j \<noteq> i \<longrightarrow> name_at (root_dir s') (32 * j) = name_at (root_dir s) (32 * j)"
    "fileLength (root_dir s') (32 * i) = Some (word_of_int n)" "startCluster (root_dir s') (32 * i) = Some c"
    "chain (fat s') (ucast c) (take (clusters_for n) (free_from (fat s) 2))"
    "k_ide s' = k_ide s" "k_tty s' = k_tty s"
    using create_file_ok [OF assms(2-8)] by blast
  have "i < 224" using assms(8) by (simp add: first_unused_def find_first_Some)
  then have "find_first (\<lambda>j. name_at (root_dir s') (32 * j) = base @ 46 # ext) 0 224 = Some i"
    using s'(3,4) assms(9) by (simp add: find_first_Some)
  then have "fat12_find_entry nb q s' = Some (Some (Root_entry i), s')"
    using find_entry_root [OF _ assms(2) s'(2)] s'(9) assms(1) by (simp add: is_root)
  moreover have "\<forall>k \<in> set (take (clusters_for n) (free_from (fat s) 2)). fat s ! k = 0"
    using free_from_props(2) [of _ "fat s" 2] by (meson in_set_takeD)
  moreover have "length (take (clusters_for n) (free_from (fat s) 2)) = clusters_for n" using assms(6) by simp
  ultimately show ?thesis using s' by blast
qed

text \<open>in the root directory \<^verbatim>\<open>cd .\<close> does not stay there: an entry never used has the name
  \<^verbatim>\<open>"."\<close> for the search, so the command succeeds, the path becomes \<^verbatim>\<open>"/."\<close> and the current
  directory the cluster 0.\<close>

theorem cd_dot_in_root:
  assumes "curr_dir (k_tty s) = 19" "is_cstr nb q [46]" "length (root_dir s) = 7168"
    and "i < 224" "\<And>j. 32 * i \<le> j \<Longrightarrow> j < 32 * i + 32 \<Longrightarrow> root_dir s ! j = 0"
    and "\<And>j. j < i \<Longrightarrow> name_at (root_dir s) (32 * j) \<noteq> [46]"
    and "fat s \<noteq> []" "chain_end (fat s ! 0)" "disk_ok 1 s" "length (subdir s) = 512"
    and "3 \<le> length (curr_path (k_tty s))"
  shows "\<exists>s'. fat12_cd nb q s = Some (True, s') \<and> curr_dir (k_tty s') = 0 \<and>
    is_cstr (curr_path (k_tty s')) 0 [47, 46]"
proof -
  have "name_at (root_dir s) (32 * i) = [46]" using assms(3-5) by (intro name_at_unused) auto
  then have "find_first (\<lambda>j. name_at (root_dir s) (32 * j) = [46]) 0 224 = Some i"
    using assms(4,6) by (simp add: find_first_Some)
  then have fe: "fat12_find_entry nb q s = Some (Some (Root_entry i), s)"
    using find_entry_root [OF _ assms(2,3)] assms(1) by (simp add: is_root)
  have cl: "entry_cluster (Root_entry i) s = Some 0"
    using assms(3-5) by (simp add: entry_cluster_def startCluster_def get16_def)
  let ?p = "curr_path (k_tty s)"
  have lit: "is_cstr (lit ''/'') 0 [47]" by (simp add: lit_def rd_def)
  let ?p1 = "buf_put ?p 0 ([47] @ [0])"
  have p1: "strcpy ?p 0 (lit ''/'') 0 = Some ?p1"
    using strcpy_cstr [OF lit, of 0 ?p] assms(11) by simp
  have c1: "is_cstr ?p1 0 [47]" using assms(11) by (intro buf_put_cstr) auto
  obtain p2 where p2: "strcat ?p1 0 nb q = Some p2" "is_cstr p2 0 [47, 46]"
    using strcat_cstr [OF c1 assms(2)] strcat_is_cstr [OF c1 assms(2)] assms(11) by auto
  let ?t = "(k_tty s)\<lparr>curr_dir := 0, curr_path := p2\<rparr>"
  have sd: "fat12_set_dir 0 nb q (k_tty s) = Some ?t"
    using p1 p2(1) assms(1) by (simp add: fat12_set_dir_def FAT_ROOT_REGION_START_def)
  let ?s = "s\<lparr>k_tty := ?t\<rparr>"
  have "chain (fat ?s) 0 [0]" using assms(7,8) by simp
  moreover have "disk_ok 1 ?s" using assms(9) by (simp add: disk_ok_def)
  ultimately obtain s' where "read_chain (\<lambda>i. False) subdir_sink 0 0 ?s = Some (0, s')" "k_tty s' = ?t"
    using subdir_target.read_chain_content [of ?s 0 "[0]" 0 0] assms(10) by auto
  then show ?thesis using fe cl sd p2(2) by (simp add: fat12_cd_def fat12_read_clusters_def)
qed

text \<open>removing a file found in the root directory marks its entry as deleted, but its clusters
  stay allocated and the disk is not changed.\<close>

theorem rm_marks_entry:
  assumes "curr_dir (k_tty s) = 19" "is_cstr nb q x" "length (root_dir s) = 7168"
    and "find_first (\<lambda>j. name_at (root_dir s) (32 * j) = x) 0 224 = Some i"
    and "startCluster (root_dir s) (32 * i) = Some c" "chain (fat s) (ucast c) ks"
    and "length (fat s) = 3072" "length (phys_fat s) = 4608"
  shows "\<exists>s'. fat12_rm nb q s = Some (True, s') \<and> root_dir s' = (root_dir s)[32 * i := 0xE5] \<and>
    fat s' = fat s \<and> k_ide s' = k_ide s"
proof -
  have i: "32 * i < length (root_dir s)" using assms(3,4) by (simp add: find_first_Some)
  let ?s = "s\<lparr>root_dir := (root_dir s)[32 * i := 0xE5]\<rparr>"
  have fe: "fat12_find_entry nb q s = Some (Some (Root_entry i), s)"
    using find_entry_root [OF _ assms(2,3)] assms(1,4) by (simp add: is_root)
  have "entry_cluster (Root_entry i) ?s = Some c"
    using assms(5) get16_frame [of "root_dir ?s" "root_dir s" "32 * i + 26"]
    by (simp add: entry_cluster_def startCluster_def)
  moreover obtain m where "del_loop (ucast c) ?s = Some (?s\<lparr>k_ram := m\<rparr>)"
    using del_loop_chain [of ?s "ucast c" ks] assms(6) by auto
  ultimately show ?thesis using fe i assms(7,8)
    by (simp add: fat12_rm_def fat12_del_fat_entry_def fat12_write_back_fat_def pack_fat_packed)
qed


text \<open>C30: \<^verbatim>\<open>fat12_set_dir\<close> implements the walk through the tree: with the current path being the names
  on the way from the root, a name goes one level down, \<^verbatim>\<open>".."\<close> one level up and \<^verbatim>\<open>"."\<close>
  nowhere (the entry \<^verbatim>\<open>".."\<close> of a directory in the root has cluster 0, which becomes 19). The
  names with dots are excepted in the root, where the code treats them as any other.\<close>

theorem set_dir_path:
  assumes "at_dir cs t" "is_cstr nb q a" "47 \<notin> set a" "cs = [] \<Longrightarrow> a \<noteq> [46] \<and> a \<noteq> [46, 46]"
    and "length (path_str cs) + length a < 49" "d \<noteq> 19" "d = 0 \<longleftrightarrow> cd_spec cs a = []"
  shows "\<exists>t'. fat12_set_dir d nb q t = Some t' \<and> at_dir (cd_spec cs a) t' \<and>
    curr_dir t' = (if d = 0 then 19 else d)"
proof -
  consider "cs = []" | "cs \<noteq> []" "a = [46]" | ds c where "cs = ds @ [c]" "a = [46, 46]"
    | "cs \<noteq> []" "a \<noteq> [46]" "a \<noteq> [46, 46]" by (metis append_butlast_last_id)
  then show ?thesis
  proof cases
    case 1
    then show ?thesis using set_dir_from_root [of t nb q a d] assms by (simp add: cd_spec_def path_str_def)
  next
    case 2
    then show ?thesis using set_dir_dot [of cs t nb q d] assms by (simp add: cd_spec_def)
  next
    case 3
    then show ?thesis using set_dir_up [of ds c t nb q d] assms by (simp add: cd_spec_def)
  next
    case 4
    then show ?thesis using set_dir_down [of cs t nb q a d] assms by (simp add: cd_spec_def)
  qed
qed

lemma set_dir_path_witness:
  "\<exists>t1 t2. fat12_set_dir 5 [97, 0] 0 demo_tty = Some t1 \<and> is_cstr (curr_path t1) 0 [47, 97] \<and>
    fat12_set_dir 0 [46, 46, 0] 0 t1 = Some t2 \<and> is_cstr (curr_path t2) 0 [47] \<and> curr_dir t2 = 19"
proof -
  have "at_dir [] demo_tty" using demo_path by (simp add: at_dir_def demo_tty_def path_str_def)
  moreover have "is_cstr [97, 0] 0 [97]" "is_cstr [46, 46, 0] 0 [46, 46]" by (simp_all add: rd_def)
  ultimately obtain t1 where t1: "fat12_set_dir 5 [97, 0] 0 demo_tty = Some t1" "at_dir [[97]] t1"
    using set_dir_path [of "[]" demo_tty "[97, 0]" 0 "[97]" 5] by (auto simp: cd_spec_def path_str_def)
  obtain t2 where "fat12_set_dir 0 [46, 46, 0] 0 t1 = Some t2" "at_dir [] t2" "curr_dir t2 = 19"
    using set_dir_path [OF t1(2) \<open>is_cstr [46, 46, 0] 0 [46, 46]\<close>, of 0]
    by (auto simp: cd_spec_def path_str_def slashed_def)
  then show ?thesis using t1 by (auto simp: at_dir_def path_str_def slashed_def)
qed

lemma replicate_unroll: "replicate n x = (if n = 0 then [] else x # replicate (n - 1) x)"
  by (cases n) simp_all

lemma demo_root_head:
  "demo_root = [65, 32, 32, 32, 32, 32, 32, 32, 84, 88, 84, 32, 0, 0, 0, 0, 0, 0, 0, 0, 0, 0, 0, 0, 0, 0, 2, 0, 88, 2, 0, 0,
     83, 85, 66, 32, 32, 32, 32, 32, 32, 32, 32, 16, 0, 0, 0, 0, 0, 0, 0, 0, 0, 0, 0, 0, 0, 0, 4, 0, 0, 0, 0, 0]
     @ replicate 7104 0" (is "_ = ?h @ _")
proof -
  have "demo_entry [65] [84, 88, 84] 0x20 2 88 2 @ demo_entry [83, 85, 66] [] 0x10 4 0 0 = ?h"
    unfolding demo_entry_def
    by (simp add: replicate_unroll [of 14] replicate_unroll [of 13] replicate_unroll [of 12] replicate_unroll [of 11]
      replicate_unroll [of 10] replicate_unroll [of 9] replicate_unroll [of 8] replicate_unroll [of 7] replicate_unroll [of 6]
      replicate_unroll [of 5] replicate_unroll [of 4] replicate_unroll [of 3] replicate_unroll [of 2])
  then show ?thesis by (simp only: demo_root_def append_assoc [symmetric])
qed

lemma demo_root_zero:
  assumes "64 \<le> j" "j < 7168" shows "demo_root ! j = 0"
proof -
  have "demo_root = take 64 demo_root @ replicate 7104 0" by (simp add: demo_root_head)
  then have "demo_root ! j = (take 64 demo_root @ replicate 7104 0) ! j" by simp
  also have "\<dots> = 0" using assms by (simp only: nth_append) simp
  finally show ?thesis .
qed

lemma demo_root_names:
  "field demo_root 0 8 = [65]" "field demo_root 8 3 = [84, 88, 84]"
  "field demo_root 32 8 = [83, 85, 66]" "field demo_root 40 3 = []"
  by (simp_all add: field_def demo_root_head)

lemma demo_root_ok: "j < 224 \<Longrightarrow> entry_ok demo_root (32 * j)"
proof -
  assume "j < 224"
  moreover have "entry_ok demo_root (32 * j)" if "2 \<le> j" "j < 224"
    using that demo_root_zero by (simp add: entry_ok_def)
  moreover have "entry_ok demo_root 0" "entry_ok demo_root 32"
    using demo_root_names by (simp_all add: entry_ok_def)
  moreover have "j = 0 \<or> j = 1 \<or> 2 \<le> j" by arith
  ultimately show ?thesis by auto
qed

lemma demo_root_first:
  "entry_name demo_root 0 = [97, 46, 116, 120, 116]" "entry_name demo_root 32 = [115, 117, 98]"
proof -
  have "demo_root ! (0 + 0) \<noteq> 0" "demo_root ! (32 + 0) \<noteq> 0" by (simp_all add: demo_root_head)
  then have "\<not> (\<forall>j < 11. demo_root ! (0 + j) = 0)" "\<not> (\<forall>j < 11. demo_root ! (32 + j) = 0)"
    by (metis zero_less_numeral)+
  then show "entry_name demo_root 0 = [97, 46, 116, 120, 116]" "entry_name demo_root 32 = [115, 117, 98]"
    using demo_root_names unfolding entry_name_def by (simp_all add: dotted_def lower_def)
qed

lemma demo_root_rest:
  assumes "2 \<le> j" "j < 224" shows "entry_name demo_root (32 * j) = [46]"
  using assms demo_root_zero by (simp add: entry_name_def)

lemma demo_root_entries:
  "name_at demo_root 0 = [97, 46, 116, 120, 116]" "name_at demo_root 32 = [115, 117, 98]"
  using name_at_entry [of 0 demo_root] name_at_entry [of 32 demo_root] demo_root_ok [of 0]
    demo_root_ok [of 1] demo_root_first by simp_all

lemma demo_root_unused: "first_unused demo_root = Some 2"
proof -
  have "rd demo_root (32 * 2) = Some 0" using demo_root_zero [of 64] by (simp add: rd_def)
  moreover have "rd demo_root (32 * j) \<noteq> Some 0" if "j < 2" for j
  proof -
    have "j = 0 \<or> j = 1" using that by arith
    then show ?thesis by (auto simp: rd_def demo_root_head)
  qed
  ultimately show ?thesis by (simp add: first_unused_def find_first_Some)
qed

lemma find_entry_first_witness:
  "fat12_find_entry [115, 117, 98, 0] 0 demo_fs = Some (Some (Root_entry 1), demo_fs) \<and>
    fat12_find_entry [120, 0] 0 demo_fs = Some (None, demo_fs)"
proof
  have c: "is_cstr [115, 117, 98, 0] 0 [115, 117, 98]" "is_cstr [120, 0] 0 [120]" by (simp_all add: rd_def)
  have "find_first (\<lambda>j. entry_name demo_root (32 * j) = [115, 117, 98]) 0 224 = Some 1"
    using demo_root_first by (auto simp: find_first_Some less_Suc_eq)
  then show "fat12_find_entry [115, 117, 98, 0] 0 demo_fs = Some (Some (Root_entry 1), demo_fs)"
    using find_entry_first [of demo_fs _ _ "[115, 117, 98]"] c(1) demo_root_ok by simp
  have "entry_name demo_root (32 * j) \<noteq> [120]" if "j < 224" for j
  proof -
    have "j = 0 \<or> j = 1 \<or> 2 \<le> j" by arith
    then show ?thesis using demo_root_first demo_root_rest that by auto
  qed
  then have "find_first (\<lambda>j. entry_name demo_root (32 * j) = [120]) 0 224 = None"
    by (simp add: find_first_None)
  then show "fat12_find_entry [120, 0] 0 demo_fs = Some (None, demo_fs)"
    using find_entry_first [of demo_fs _ _ "[120]"] c(2) demo_root_ok by simp
qed

lemma create_then_find_witness:
  "\<exists>s' c ks. fat12_create_file 600 [98, 46, 99, 0] 0 demo_fs = Some s' \<and>
    fat12_find_entry [98, 46, 99, 0] 0 s' = Some (Some (Root_entry 2), s') \<and>
    chain (fat s') (ucast (c :: u16)) ks \<and> length ks = 2"
proof -
  have "is_cstr [98, 46, 99, 0] 0 ([98] @ 46 # [99])" by (simp add: rd_def)
  moreover have "valid_name [98] [99]" by (simp add: valid_name_def lower_def)
  moreover have "clusters_for 600 = 2" by (simp add: clusters_for_def)
  moreover have "name_at demo_root (32 * j) \<noteq> [98] @ 46 # [99]" if "j < 2" for j
  proof -
    have "j = 0 \<or> j = 1" using that by arith
    then show ?thesis using demo_root_entries by auto
  qed
  ultimately show ?thesis
    using create_then_find [of demo_fs "[98, 46, 99, 0]" 0 "[98]" "[99]" 600 2] demo_fat_free
      demo_root_unused by fastforce
qed

lemma cd_dot_in_root_witness:
  "\<exists>s'. fat12_cd [46, 0] 0 (demo_fs\<lparr>fat := 0xFFF # tl demo_fat\<rparr>) = Some (True, s') \<and> curr_dir (k_tty s') = 0 \<and>
    is_cstr (curr_path (k_tty s')) 0 [47, 46]"
proof -
  have "is_cstr [46, 0] 0 [46]" by (simp add: rd_def)
  moreover have "name_at demo_root (32 * j) \<noteq> [46]" if "j < 2" for j
  proof -
    have "j = 0 \<or> j = 1" using that by arith
    then show ?thesis using demo_root_entries by auto
  qed
  moreover have "disk_ok 1 (demo_fs\<lparr>fat := 0xFFF # tl demo_fat\<rparr>)"
    using disk_ok_less [OF demo_fs_disk, of 1] by (simp add: disk_ok_def)
  moreover have "chain_end 0xFFF" by (simp add: chain_end_def)
  ultimately show ?thesis
    using demo_root_zero by (intro cd_dot_in_root [where i = 2]) simp_all
qed

lemma rm_marks_entry_witness:
  "\<exists>s'. fat12_rm [97, 46, 116, 120, 116, 0] 0 demo_fs = Some (True, s') \<and>
    root_dir s' = demo_root[0 := 0xE5] \<and> fat s' = demo_fat"
proof -
  have "is_cstr [97, 46, 116, 120, 116, 0] 0 [97, 46, 116, 120, 116]" by (simp add: rd_def)
  moreover have "find_first (\<lambda>j. name_at demo_root (32 * j) = [97, 46, 116, 120, 116]) 0 224 = Some 0"
    using demo_root_entries by (simp add: find_first_Some)
  moreover have "startCluster demo_root 0 = Some 2"
    by (simp add: startCluster_def get16_def demo_root_head rd_def)
  ultimately show ?thesis
    using rm_marks_entry [of demo_fs _ _ "[97, 46, 116, 120, 116]" 0 2 "[2, 4]"] demo_fat_free by fastforce
qed

end
