(* ===== verification/Systhread.thy ===== *)
theory Systhread
  imports Process
begin

text \<open>
  Threads: \<^verbatim>\<open>include/systhread.h\<close>, the kernel side of interrupt 0x81. A thread is a process slot
  that shares the code and the data of its creator and has a stack of its own.
\<close>

section \<open>Operations\<close>

text \<open>
  The last act of a program or a thread (\<^verbatim>\<open>user_process_return\<close>): interrupt 0x80 with number 100.
  Its handler saves the registers \<open>kr\<close> of that moment, ends the current process and enters the
  command loop of the shell.
\<close>

definition sys_return_to_shell :: "'a kstate_scheme \<Rightarrow> (unit, 'a kstate_scheme) outcome option" where
  "sys_return_to_shell s =
     do { c \<leftarrow> curr_proc s;
          let s = upd_proc c (\<lambda>p. p\<lparr>status := PROC_TERMINATED\<rparr>) s;
          let s = s\<lparr>curr_proc := None\<rparr>;
          Some (Shell (enable_k s)) }"

definition user_process_return ::
  "regs \<Rightarrow> 'a kstate_scheme \<Rightarrow> (unit, 'a kstate_scheme) outcome option" where
  "user_process_return kr s = sys_return_to_shell (save_proc kr (disable_k s))"

text \<open>\<open>tid\<close> is the address of the caller's variable for the number of the thread, \<open>return_addr\<close> the
  address of \<^verbatim>\<open>user_pthread_return\<close>.\<close>

definition do_thread_create ::
  "u32 \<Rightarrow> u32 \<Rightarrow> u32 \<Rightarrow> u32 \<Rightarrow> 'a kstate_scheme \<Rightarrow> (int \<times> 'a kstate_scheme) option" where
  "do_thread_create return_addr tid func args s =
     (let s = disable_k s
      in case proc_alloc s of
           (None, s) \<Rightarrow> Some (-1, enable_k s)
         | (Some child, s) \<Rightarrow>
             do { cur \<leftarrow> curr_proc s;
                  let s = set_child child cur (copy_context child cur s);
                  let s = upd_proc child (\<lambda>p. p\<lparr>regImg := (regImg p)\<lparr>r_eip := func\<rparr>\<rparr>) s;
                  let stack = r_user_esp (regImg (proc_list s ! child)) - 4;
                  let s = s\<lparr>k_ram := ram_store32 (k_ram s) (unat stack) args\<rparr>;
                  let stack = stack - 4;
                  let s = s\<lparr>k_ram := ram_store32 (k_ram s) (unat stack) return_addr\<rparr>;
                  let s = upd_proc child (\<lambda>p. p\<lparr>regImg := (regImg p)\<lparr>r_user_esp := stack\<rparr>\<rparr>) s;
                  let s = s\<lparr>k_ram := ram_store32 (k_ram s) (unat tid) (word_of_int (pid (proc_list s ! child)))\<rparr>;
                  Some (0, s) })"

definition do_thread_join ::
  "int \<Rightarrow> u32 \<Rightarrow> 'a kstate_scheme \<Rightarrow> (unit, 'a kstate_scheme) outcome option" where
  "do_thread_join tid ret s =
     (let s = disable_k s
      in do { c \<leftarrow> curr_proc s;
              and_then (schedule_proc (upd_proc c (\<lambda>p. p\<lparr>status := PROC_WAITING\<rparr>) s))
                (\<lambda>_ s. Some (Returns () (enable_k s))) })"

definition do_thread_self :: "'a kstate_scheme \<Rightarrow> int option" where
  "do_thread_self s = map_option (\<lambda>c. pid (proc_list s ! c)) (curr_proc s)"

definition do_thread_exit ::
  "regs \<Rightarrow> 'a kstate_scheme \<Rightarrow> (unit, 'a kstate_scheme) outcome option" where
  "do_thread_exit kr s =
     (let s = disable_k s
      in do { c \<leftarrow> curr_proc s;
              let s = upd_proc c (\<lambda>p. p\<lparr>status := PROC_TERMINATED\<rparr>) s;
              and_then
                (case parent (proc_list s ! c) of
                   None \<Rightarrow> Some (Returns () s)
                 | Some q \<Rightarrow> wakeup (word_of_int (pid (proc_list s ! q))) s)
                (\<lambda>_ s. user_process_return kr (enable_k s)) })"

text \<open>
  The handler of interrupt 0x81: the registers \<open>r\<close> of the caller hold the number of the function and
  its arguments, the value returned goes to \<open>eax\<close>.
\<close>

definition sys_pthread_handler_main ::
  "u32 \<Rightarrow> regs \<Rightarrow> regs \<Rightarrow> 'a kstate_scheme \<Rightarrow> (u32, 'a kstate_scheme) outcome option" where
  "sys_pthread_handler_main return_addr kr r s =
     (let no = r_eax r; arg1 = r_ebx r; arg2 = r_ecx r; arg3 = r_edx r
      in if no = 0 then
           do { (v, s) \<leftarrow> do_thread_create return_addr arg1 arg2 arg3 s;
                Some (Returns (word_of_int v) s) }
         else if no = 1 then
           and_then (do_thread_join (sint arg1) arg2 s) (\<lambda>_ s. Some (Returns 0 s))
         else if no = 2 then
           do { v \<leftarrow> do_thread_self s; Some (Returns (word_of_int v) s) }
         else if no = 3 then and_then (do_thread_exit kr s) (\<lambda>_ s. Some (Returns 0 s))
         else Some (Returns 0 s))"

section \<open>Creation\<close>

lemma thread_create_eq:
  assumes "proc_ok s" "curr_proc s = Some c"
  shows "do_thread_create ra tid func args s =
    (if unat (curr_pid s) = 20 then Some (-1, enable_k (disable_k s))
     else let n = unat (curr_pid s); t = forked c s; sp = r_user_esp (regImg (proc_list t ! n)) - 8;
            m = ram_store32 (ram_store32 (ram_store32 (k_ram t) (unat (sp + 4)) args) (unat sp) ra)
                  (unat tid) (of_nat (n + 1))
          in Some (0, upd_proc n (\<lambda>p. p\<lparr>regImg := (regImg p)\<lparr>r_eip := func, r_user_esp := sp\<rparr>\<rparr>)
               (t\<lparr>k_ram := m\<rparr>)))"
proof -
  let ?n = "unat (curr_pid s)"
  have ok0: "proc_ok0 (disable_k s)" and len: "length (proc_list s) = 20"
    using assms(1) by (simp_all add: proc_ok_def)
  have "?n \<le> 20" using assms(1) by (simp add: proc_ok_def proc_ok0_def table_ok_def)
  then consider "?n = 20" | "?n < 20" by linarith
  then show ?thesis
  proof cases
    case 1
    then show ?thesis using proc_alloc_ok(1) [OF ok0] by (simp add: do_thread_create_def)
  next
    case 2
    obtain s1 where a: "proc_alloc (disable_k s) = (Some ?n, s1)"
      using proc_alloc_ok(2) [OF ok0] 2 by simp
    note eq = alloc_child_eq [OF assms 2 a]
    have len': "length (proc_list (forked c s)) = 20" using len by (simp add: forked_def Let_def)
    have pid: "pid (proc_list (forked c s) ! ?n) = int ?n + 1"
      using 2 len by (simp add: forked_def Let_def)
    have w: "word_of_int (int ?n + 1) = (of_nat (?n + 1) :: u32)"
      by (simp add: of_nat_Suc [symmetric] del: of_nat_Suc) simp
    have sp: "r_user_esp (regImg (proc_list (forked c s) ! ?n)) - 8 + 4 =
        r_user_esp (regImg (proc_list (forked c s) ! ?n)) - 4" by simp
    show ?thesis
      using eq 2 len' pid w sp
      by (simp add: do_thread_create_def a Let_def upd_upd upd_ram add.commute)
  qed
qed

text \<open>C32: \<^verbatim>\<open>do_thread_create\<close> starts a thread: a ready process at the given function, with the
  registers of its creator and the result 0, on a stack of its own that has the return address
  \<^verbatim>\<open>user_pthread_return\<close> on top and the argument below, as a call would leave it. Its number goes
  to the caller's variable. The table has no other change. With a full table it returns -1 and
  changes nothing but the interrupt flag.\<close>

theorem thread_start:
  fixes s :: "'a kstate_scheme" and c
  defines "n \<equiv> unat (curr_pid s)"
  defines "r \<equiv> regImg (proc_list s ! c)"
  defines "sp \<equiv> r_user_esp r + of_nat ((n + 1) * 0x100) - 8"
  assumes "proc_ok s" "curr_proc s = Some c"
    and "unat sp + 8 < 2 ^ 32" "unat tid + 4 \<le> unat sp \<or> unat sp + 8 \<le> unat tid"
  shows "case do_thread_create ra tid func args s of
      None \<Rightarrow> False
    | Some (v, s') \<Rightarrow>
        if n = 20 then v = -1 \<and> s' = enable_k (disable_k s)
        else v = 0 \<and> proc_ok s' \<and> curr_proc s' = Some c \<and>
          (let p = proc_list s' ! n in
             status p = PROC_READY \<and> pid p = int n + 1 \<and> parent p = Some c \<and>
             regImg p = r\<lparr>r_eax := 0, r_eip := func, r_user_esp := sp,
               r_ebp := r_ebp r + of_nat ((n + 1) * 0x100)\<rparr>) \<and>
          ram_load32 (k_ram s') (unat sp) = ra \<and> ram_load32 (k_ram s') (unat sp + 4) = args \<and>
          ram_load32 (k_ram s') (unat tid) = of_nat (n + 1) \<and>
          (\<forall>i. i \<noteq> n \<longrightarrow> proc_list s' ! i = proc_list s ! i)"
proof (cases "n = 20")
  case True
  then show ?thesis using thread_create_eq [OF assms(4,5)] by (simp add: n_def)
next
  case False
  have len: "length (proc_list s) = 20" using assms(4) by (simp add: proc_ok_def)
  have n: "n < 20" using False assms(4) by (simp add: n_def proc_ok_def proc_ok0_def table_ok_def)
  let ?t = "forked c s"
  have esp: "r_user_esp (regImg (proc_list ?t ! n)) - 8 = sp"
    using n len by (simp add: forked_def child_regs_def Let_def n_def sp_def r_def)
  let ?m = "ram_store32 (ram_store32 (ram_store32 (k_ram ?t) (unat (sp + 4)) args) (unat sp) ra)
      (unat tid) (of_nat (n + 1))"
  let ?s = "upd_proc n (\<lambda>p. p\<lparr>regImg := (regImg p)\<lparr>r_eip := func, r_user_esp := sp\<rparr>\<rparr>) (?t\<lparr>k_ram := ?m\<rparr>)"
  have run: "do_thread_create ra tid func args s = Some (0, ?s)"
    using thread_create_eq [OF assms(4,5), of ra tid func args] False unfolding n_def [symmetric] Let_def esp
    by simp
  have t: "proc_ok ?t" "length (proc_list ?t) = 20" "curr_proc ?t = Some c"
    using forked_ok [OF assms(4,5)] n len assms(5) by (simp_all add: n_def forked_def Let_def)
  have "proc_ok0 ?s"
    using ok_slot [OF proc_ok_ok0 [OF t(1)] n] proc_ok_ok0 [OF t(1)]
    by (intro ok_upd) (simp_all add: slot_ok_def)
  moreover have "c \<noteq> n" using ok_curr [OF proc_ok_ok0 [OF assms(4)] assms(5)] by (simp add: n_def)
  ultimately have ok: "proc_ok ?s" using t n by (simp add: proc_ok_def)
  have sp4: "unat (sp + 4) = unat sp + 4" using assms(6) by (simp add: unat_word_ariths)
  have ld: "ram_load32 (ram_store32 m a v) b = ram_load32 m b"
    if "b + 4 \<le> a \<or> a + 4 \<le> b" for m :: ram and a b v
    using that by (auto simp: ram_load32_def ram_store32_outside)
  have "ram_load32 ?m (unat sp) = ra" "ram_load32 ?m (unat sp + 4) = args"
    "ram_load32 ?m (unat tid) = of_nat (n + 1)"
    using assms(7) by (auto simp: ld ram_load_store sp4)
  then show ?thesis
    using run ok False n len assms(5)
    by (simp add: forked_def child_regs_def Let_def n_def sp_def r_def)
qed

lemma thread_start_witness:
  "\<exists>s'. do_thread_create 0x5000 0x2FF20 0x20100 7 demo_kernel = Some (0, s') \<and>
    r_eip (regImg (proc_list s' ! 2)) = 0x20100 \<and> ram_load32 (k_ram s') 0x301FC = 7"
proof -
  have n: "unat (curr_pid demo_kernel) = 2" by (simp add: demo_kernel_def)
  have r: "r_user_esp (regImg (proc_list demo_kernel ! 0)) = 0x2FF00"
    by (simp add: demo_kernel_def demo_procs_def demo_process_def)
  show ?thesis
    using thread_start [OF demo_kernel_ok(1,2), where ra = "0x5000" and tid = "0x2FF20"
        and func = "0x20100" and args = 7] n r
    by (auto simp: Let_def split: option.splits)
qed

section \<open>Joining and ending\<close>

lemma thread_join_wait: "do_thread_join tid ret s = do_wait s"
  by (simp add: do_thread_join_def do_wait_def)

lemma no_current_ok:
  assumes "proc_ok s" "curr_proc s = Some c" "status (proc_list s ! c) \<noteq> PROC_RUNNING"
  shows "proc_ok (s\<lparr>curr_proc := None\<rparr>)"
proof -
  have "slot_ok None (unat (curr_pid s)) i (proc_list s ! i)" if "i < 20" for i
    using ok_slot [OF proc_ok_ok0 [OF assms(1)] that] assms(2,3) by (auto simp: slot_ok_def)
  then show ?thesis using proc_ok_ok0 [OF assms(1)] by (simp add: proc_ok_def proc_ok0_def table_ok_def)
qed

lemma thread_exit_notify:
  assumes "proc_ok s" "curr_proc s = Some c"
  shows "do_thread_exit kr s =
    and_then (notify_parent c s (ended c s)) (\<lambda>_ s. user_process_return kr (enable_k s))"
  using assms ok_taken [OF proc_ok_ok0 [OF assms(1)] assms(2)]
  by (simp add: do_thread_exit_def Let_def proc_ok_def)

lemma status_regs_commute: "p\<lparr>regImg := r, status := v\<rparr> = p\<lparr>status := v, regImg := r\<rparr>"
  by simp

text \<open>C33: \<^verbatim>\<open>do_thread_exit\<close> ends the thread. If its creator waits, the creator is made ready and
  some ready process gets the processor. If not, the kernel ends the thread a second time and goes to
  the command loop of the shell, with no current process.\<close>

theorem thread_exit_outcome:
  assumes "proc_ok s" "curr_proc s = Some c"
  shows "if \<exists>q. parent_waits c s q
    then \<exists>r s' k q. do_thread_exit kr s = Some (Switches r s') \<and> proc_ok s' \<and> running s' k \<and> k \<noteq> c \<and>
      r = regImg (proc_list s ! k) \<and> status (proc_list s' ! c) = PROC_TERMINATED \<and>
      parent_waits c s q \<and> status (proc_list s' ! q) \<in> {PROC_READY, PROC_RUNNING}
    else \<exists>s'. do_thread_exit kr s = Some (Shell s') \<and> proc_ok s' \<and> curr_proc s' = None \<and>
      if_flag (k_io s') \<and> proc_list s' = (proc_list s)
        [c := (proc_list s ! c)\<lparr>status := PROC_TERMINATED, regImg := saved_regs kr\<rparr>]"
proof -
  note c = ok_taken [OF proc_ok_ok0 [OF assms(1)] assms(2)]
  have len: "length (proc_list s) = 20" using assms(1) by (simp add: proc_ok_def)
  note exit = thread_exit_notify [OF assms]
  show ?thesis
  proof (cases "\<exists>q. parent_waits c s q")
    case True
    then obtain q where q: "parent_waits c s q" by blast
    let ?t = "upd_proc q (\<lambda>p. p\<lparr>status := PROC_READY\<rparr>) (disable_k (ended c s))"
    obtain k where k: "notify_parent c s (ended c s) = Some (Switches (regImg (proc_list s ! k)) (switched k ?t))"
      "k < 20" "k \<noteq> c" "q < 20" "proc_ok (switched k ?t)"
      using notify_waiting [OF assms q] by metis
    let ?s' = "switched k ?t"
    have "running ?s' k" using k(2) len by (simp add: running_def switched_nth) (simp add: switched_def)
    moreover have "status (proc_list ?s' ! c) = PROC_TERMINATED"
      using c(1) len k(3) q by (simp add: switched_nth parent_waits_def)
    moreover have "status (proc_list ?s' ! q) \<in> {PROC_READY, PROC_RUNNING}"
      using k(4) len by (simp add: switched_nth)
    ultimately show ?thesis
      using True k(1,3,5) q unfolding exit by (simp only: if_True and_then.simps) blast
  next
    case False
    obtain b where b: "notify_parent c s (ended c s) = Some (Returns () ((ended c s)\<lparr>k_io := b\<rparr>))"
      using notify_not_waiting [OF assms False] by blast
    let ?u = "(save_proc kr (ended c s))\<lparr>curr_proc := None\<rparr>"
    have "proc_ok (save_proc kr (ended c s))" by (intro save_proc_ok ended_ok assms)
    moreover have cur: "curr_proc (save_proc kr (ended c s)) = Some c" using assms(2) by (simp add: save_proc_def)
    moreover have "status (proc_list (save_proc kr (ended c s)) ! c) \<noteq> PROC_RUNNING"
      using assms(2) c(1) len by (simp add: save_proc_def)
    ultimately have "proc_ok ?u" by (rule no_current_ok)
    moreover have "proc_list ?u = (proc_list s)
        [c := (proc_list s ! c)\<lparr>status := PROC_TERMINATED, regImg := saved_regs kr\<rparr>]"
      using assms(2) c(1) len by (simp add: save_proc_def)
    moreover have "do_thread_exit kr s = Some (Shell (?u\<lparr>k_io := enable (disable (enable b))\<rparr>))"
      unfolding exit b using assms(2) c(1) len
      by (simp add: user_process_return_def sys_return_to_shell_def save_proc_def Let_def upd_proc_def
        status_regs_commute)
    ultimately show ?thesis using False by (simp add: enable_def)
  qed
qed

lemma thread_exit_outcome_witness:
  "(\<exists>r s'. do_thread_exit zero_regs demo_child = Some (Switches r s') \<and>
      status (proc_list s' ! 1) = PROC_TERMINATED) \<and>
    (\<exists>s'. do_thread_exit zero_regs demo_kernel = Some (Shell s') \<and> curr_proc s' = None)"
proof
  have "parent_waits 1 demo_child 0"
    by (simp add: parent_waits_def demo_child_def demo_procs_def demo_process_def)
  then have "\<exists>q. parent_waits 1 demo_child q" by blast
  then show "\<exists>r s'. do_thread_exit zero_regs demo_child = Some (Switches r s') \<and>
      status (proc_list s' ! 1) = PROC_TERMINATED"
    using thread_exit_outcome [OF demo_child_ok(1,2), of zero_regs] by (simp only: if_True) blast
  have "\<not> (\<exists>q. parent_waits 0 demo_kernel q)"
    by (simp add: parent_waits_def demo_kernel_def demo_procs_def demo_process_def)
  then show "\<exists>s'. do_thread_exit zero_regs demo_kernel = Some (Shell s') \<and> curr_proc s' = None"
    using thread_exit_outcome [OF demo_kernel_ok(1,2), of zero_regs] by (simp only: if_False) blast
qed

text \<open>C34: \<^verbatim>\<open>do_thread_join\<close> waits for the first child that ends, whatever number it is given: whenever a
  process whose creator has joined ends, the creator is made ready, whether or not that is the thread
  that was to be joined. The call has the effect of \<^verbatim>\<open>do_wait\<close>.\<close>

theorem join_any_thread:
  assumes "proc_ok s" "curr_proc s = Some c" "\<exists>j < 20. status (proc_list s ! j) = PROC_READY"
  shows "\<exists>r s1 w. (\<forall>tid ret. do_thread_join tid ret s = Some (Switches r s1)) \<and>
    do_wait s = Some (Switches r s1) \<and> running s1 w \<and> w \<noteq> c \<and>
    (parent (proc_list s ! w) = Some c \<longrightarrow>
       (\<exists>r' s2. do_thread_exit kr s1 = Some (Switches r' s2) \<and>
          status (proc_list s2 ! w) = PROC_TERMINATED \<and>
          status (proc_list s2 ! c) \<in> {PROC_READY, PROC_RUNNING}))"
proof -
  obtain k where k: "do_wait s = Some (Switches (regImg (proc_list s ! k)) (switched k (waiting c s)))"
    "k < 20" "k \<noteq> c" "proc_ok (switched k (waiting c s))"
    using do_wait_ready [OF assms] by blast
  let ?s1 = "switched k (waiting c s)"
  have len: "length (proc_list s) = 20" "length (proc_list ?s1) = 20"
    using assms(1) k(4) by (simp_all add: proc_ok_def)
  have run: "running ?s1 k"
    using k(2) len by (simp add: running_def switched_nth) (simp add: switched_def)
  then have cur: "curr_proc ?s1 = Some k" by (simp add: running_def)
  have c: "c < 20" using ok_curr [OF proc_ok_ok0 [OF assms(1)] assms(2)] by simp
  have "\<exists>r' s2. do_thread_exit kr ?s1 = Some (Switches r' s2) \<and>
      status (proc_list s2 ! k) = PROC_TERMINATED \<and> status (proc_list s2 ! c) \<in> {PROC_READY, PROC_RUNNING}"
    if "parent (proc_list s ! k) = Some c"
  proof -
    have p: "parent_waits k ?s1 c"
      using that k(2,3) c len by (simp add: parent_waits_def switched_nth)
    let ?t = "upd_proc c (\<lambda>p. p\<lparr>status := PROC_READY\<rparr>) (disable_k (ended k ?s1))"
    obtain j where j: "notify_parent k ?s1 (ended k ?s1) = Some (Switches (regImg (proc_list ?s1 ! j)) (switched j ?t))"
      "j < 20" "j \<noteq> k" "proc_ok (switched j ?t)"
      using notify_waiting [OF k(4) cur p] by metis
    have "do_thread_exit kr ?s1 = Some (Switches (regImg (proc_list ?s1 ! j)) (switched j ?t))"
      using j(1) thread_exit_notify [OF k(4) cur] by simp
    moreover have "status (proc_list (switched j ?t) ! k) = PROC_TERMINATED"
      using k(2,3) j(3) len(2) by (simp add: switched_nth)
    moreover have "status (proc_list (switched j ?t) ! c) \<in> {PROC_READY, PROC_RUNNING}"
      using c len(2) by (simp add: switched_nth)
    ultimately show ?thesis by blast
  qed
  then show ?thesis using k(1,3) run unfolding thread_join_wait
    by (intro exI [of _ "regImg (proc_list s ! k)"] exI [of _ ?s1] exI [of _ k]) blast
qed

lemma join_any_thread_witness:
  "\<exists>r s1. do_thread_join 77 0 demo_kernel = Some (Switches r s1) \<and> do_wait demo_kernel = Some (Switches r s1)"
proof -
  have "status (proc_list demo_kernel ! 1) = PROC_READY"
    by (simp add: demo_kernel_def demo_procs_def demo_process_def)
  then have "\<exists>j < 20. status (proc_list demo_kernel ! j) = PROC_READY" by (intro exI [of _ 1]) simp
  then show ?thesis using join_any_thread [OF demo_kernel_ok(1,2), of zero_regs] by blast
qed

end
