(* ===== verification/Keyboard.thy ===== *)
theory Keyboard
  imports Process
begin

text \<open>
  The keyboard: \<^verbatim>\<open>include/keyboard.h\<close> and the table of \<^verbatim>\<open>include/scancode.h\<close>. The controller is seen
  through the answers of its two ports (\<^verbatim>\<open>port_in\<close>); its interrupts are the calls of the handler.
\<close>

section \<open>The table of characters\<close>

definition KEY_CTRL :: u8 where "KEY_CTRL = 0x1D"
definition KEY_F1 :: u8 where "KEY_F1 = 0x3B"
definition KEY_F2 :: u8 where "KEY_F2 = 0x3C"
definition KEY_F3 :: u8 where "KEY_F3 = 0x3D"

text \<open>Characters without and with shift, as ASCII codes, for the scan codes 0 to 57.\<close>

definition asccode :: "(u8 \<times> u8) list" where
  "asccode =
     [(0, 0), (27, 27), (49, 33), (50, 64), (51, 35), (52, 36), (53, 37), (54, 94), (55, 38), (56, 42),
      (57, 40), (48, 41), (45, 95), (61, 43), (8, 8), (9, 9), (113, 81), (119, 87), (101, 69), (114, 82),
      (116, 84), (121, 89), (117, 85), (105, 73), (111, 79), (112, 80), (91, 123), (93, 125), (10, 10), (0, 0),
      (97, 65), (115, 83), (100, 68), (102, 70), (103, 71), (104, 72), (106, 74), (107, 75), (108, 76), (59, 58),
      (39, 34), (96, 126), (0, 0), (92, 124), (122, 90), (120, 88), (99, 67), (118, 86), (98, 66), (110, 78),
      (109, 77), (44, 60), (46, 62), (47, 63), (0, 0), (0, 0), (0, 0), (32, 32)]"

section \<open>The handler\<close>

record kbd =
  kb_char :: u8
  kb_ctrl :: bool

text \<open>\<^verbatim>\<open>change_terminal\<close> with the test for a current process and the interrupt flag.\<close>

definition switch_terminal :: "nat \<Rightarrow> 'a kstate_scheme \<Rightarrow> 'a kstate_scheme option" where
  "switch_terminal n s =
     do { let s = disable_k s;
          t \<leftarrow> change_terminal n (get_proc s = None) (k_tty s);
          Some (enable_k (s\<lparr>k_tty := t\<rparr>)) }"

definition read_port :: "u16 \<Rightarrow> 'a kstate_scheme \<Rightarrow> (u8 \<times> 'a kstate_scheme) option" where
  "read_port p s = do { (v, b) \<leftarrow> port_byte_in p (k_io s); Some (v, s\<lparr>k_io := b\<rparr>) }"

definition keyboard_handler_main ::
  "kbd \<times> 'a kstate_scheme \<Rightarrow> (kbd \<times> 'a kstate_scheme) option" where
  "keyboard_handler_main = (\<lambda>(k, s).
     do { let s = s\<lparr>k_io := port_byte_out 0x20 0x20 (k_io s)\<rparr>;
          (st, s) \<leftarrow> read_port 0x64 s;
          if st AND 1 \<noteq> 0 then
            do { (scancode, s) \<leftarrow> read_port 0x60 s;
                 if scancode AND 0x80 \<noteq> 0 then
                   Some (if scancode - 0x80 = KEY_CTRL then k\<lparr>kb_ctrl := False\<rparr> else k, s)
                 else if scancode = KEY_CTRL then Some (k\<lparr>kb_ctrl := True\<rparr>, s)
                 else if kb_ctrl k \<and> scancode = KEY_F1 then
                   do { s \<leftarrow> switch_terminal 0 s; Some (k, s) }
                 else if kb_ctrl k \<and> scancode = KEY_F2 then
                   do { s \<leftarrow> switch_terminal 1 s; Some (k, s) }
                 else if kb_ctrl k \<and> scancode = KEY_F3 then
                   do { s \<leftarrow> switch_terminal 2 s; Some (k, s) }
                 else if unat scancode < length asccode then
                   Some (k\<lparr>kb_char := fst (asccode ! unat scancode)\<rparr>, s)
                 else None }
          else Some (k, s) })"

text \<open>
  The loop of \<^verbatim>\<open>getchar\<close> reads the variable until the handler has put a character there. \<open>n\<close> is the
  number of keyboard interrupts that are still to come; without one it waits for ever.
\<close>

fun getchar_loop :: "nat \<Rightarrow> kbd \<times> 'a kstate_scheme \<Rightarrow> (u8 \<times> nat \<times> kbd \<times> 'a kstate_scheme) option" where
  "getchar_loop n (k, s) =
     (if kb_char k \<noteq> 0 then Some (kb_char k, n, k, s)
      else case n of 0 \<Rightarrow> None | Suc n \<Rightarrow> do { ks \<leftarrow> keyboard_handler_main (k, s); getchar_loop n ks })"

definition getchar :: "nat \<Rightarrow> kbd \<times> 'a kstate_scheme \<Rightarrow> (u8 \<times> nat \<times> kbd \<times> 'a kstate_scheme) option" where
  "getchar n = (\<lambda>(k, s).
     do { (c, n, k, s) \<leftarrow> getchar_loop n (k\<lparr>kb_char := 0\<rparr>, s);
          Some (c, n, k\<lparr>kb_char := 0\<rparr>, s) })"

section \<open>Typing\<close>

lemma read_port_Cons:
  "port_in (k_io s) p = c # cs \<Longrightarrow>
    read_port p s = Some (c, s\<lparr>k_io := (k_io s)\<lparr>port_in := (port_in (k_io s))(p := cs)\<rparr>\<rparr>)"
  by (simp add: read_port_def port_byte_in_def)

declare getchar_loop.simps [simp del]

lemma getchar_loop_hit: "kb_char k \<noteq> 0 \<Longrightarrow> getchar_loop n (k, s) = Some (kb_char k, n, k, s)"
  by (subst getchar_loop.simps) simp

lemma getchar_loop_wait:
  "kb_char k = 0 \<Longrightarrow> keyboard_handler_main (k, s) = Some ks \<Longrightarrow> getchar_loop (Suc n) (k, s) = getchar_loop n ks"
  "kb_char k = 0 \<Longrightarrow> getchar_loop 0 (k, s) = None"
  by (simp_all add: getchar_loop.simps [of "Suc n"] getchar_loop.simps [of 0])

lemma bit_7: "bit (c :: u8) 7 \<longleftrightarrow> 128 \<le> unat c" "c AND 0x80 = 0 \<longleftrightarrow> \<not> bit c 7"
proof -
  have "bit c 7 \<longleftrightarrow> odd (unat c div 128)" by (simp add: bit_iff_odd [of "unat c" 7, unfolded bit_unsigned_iff, simplified])
  moreover have "unat c div 128 = (if 128 \<le> unat c then 1 else 0)"
    using unat_u8 [of c] by (simp add: div_nat_eqI)
  ultimately show "bit c 7 \<longleftrightarrow> 128 \<le> unat c" by simp
  have "(0x80 :: u8) = push_bit 7 1" by simp
  then show "c AND 0x80 = 0 \<longleftrightarrow> \<not> bit c 7"
    by (simp only: and_exp_eq_0_iff_not_bit [of c 7] push_bit_of_1)
qed

text \<open>The handler when the controller has the scan code \<open>c\<close>, without a terminal change.\<close>

definition kb_read :: "u8 list \<Rightarrow> u8 list \<Rightarrow> io \<Rightarrow> io" where
  "kb_read sts codes b = b\<lparr>port_log := port_log b @ [(0x20, 0x20)],
     port_in := (port_in b)(0x64 := sts, 0x60 := codes)\<rparr>"

lemma length_asccode [simp]: "length asccode = 58"
  by (simp add: asccode_def)

lemma handler_code:
  assumes "port_in (k_io s) 0x64 = st # sts" "st AND 1 \<noteq> 0" "port_in (k_io s) 0x60 = c # cs"
    and "bit c 7 \<or> unat c < 58"
  shows "keyboard_handler_main (k, s) = Some
    (if bit c 7 then if c = 0x9D then k\<lparr>kb_ctrl := False\<rparr> else k
     else if c = KEY_CTRL then k\<lparr>kb_ctrl := True\<rparr> else k\<lparr>kb_char := fst (asccode ! unat c)\<rparr>,
     s\<lparr>k_io := kb_read sts cs (k_io s)\<rparr>)"
proof -
  have "c AND 0x80 \<noteq> 0 \<longleftrightarrow> bit c 7" by (simp add: bit_7(2))
  moreover have "c - 0x80 = KEY_CTRL \<longleftrightarrow> c = 0x9D" by (auto simp: KEY_CTRL_def algebra_simps)
  moreover have "c \<noteq> KEY_F1" "c \<noteq> KEY_F2" "c \<noteq> KEY_F3" if "unat c < 58"
    using that by (auto simp: KEY_F1_def KEY_F2_def KEY_F3_def)
  ultimately show ?thesis using assms
    by (auto simp: keyboard_handler_main_def read_port_def port_byte_in_def port_byte_out_def kb_read_def)
qed

text \<open>The first character among the keys pressed: releases, the control key and keys without a
  character give none.\<close>

fun first_char :: "u8 list \<Rightarrow> (u8 \<times> u8 list) option" where
  "first_char [] = None"
| "first_char (c # cs) =
     (if bit c 7 \<or> c = KEY_CTRL \<or> fst (asccode ! unat c) = 0 then first_char cs
      else Some (fst (asccode ! unat c), cs))"

lemma getchar_loop_decodes:
  assumes "\<forall>c \<in> set codes. bit c 7 \<or> unat c < 58" "kb_char k = 0"
    and "port_in (k_io s) 0x60 = codes" "port_in (k_io s) 0x64 = replicate (length codes) 1"
  shows "case first_char codes of
      None \<Rightarrow> getchar_loop (length codes) (k, s) = None
    | Some (ch, rest) \<Rightarrow> \<exists>k' b. getchar_loop (length codes) (k, s) = Some (ch, length rest, k', s\<lparr>k_io := b\<rparr>) \<and>
        port_in b 0x60 = rest \<and> port_in b 0x64 = replicate (length rest) 1"
  using assms
proof (induction codes arbitrary: k s)
  case Nil
  then show ?case by (simp add: getchar_loop_wait)
next
  case (Cons c cs)
  let ?s = "s\<lparr>k_io := kb_read (replicate (length cs) 1) cs (k_io s)\<rparr>"
  have h: "keyboard_handler_main (k, s) = Some
    (if bit c 7 then if c = 0x9D then k\<lparr>kb_ctrl := False\<rparr> else k
     else if c = KEY_CTRL then k\<lparr>kb_ctrl := True\<rparr> else k\<lparr>kb_char := fst (asccode ! unat c)\<rparr>, ?s)"
    using Cons.prems by (intro handler_code) auto
  have p: "port_in (k_io ?s) 0x60 = cs" "port_in (k_io ?s) 0x64 = replicate (length cs) 1"
    by (simp_all add: kb_read_def)
  have all: "\<forall>c \<in> set cs. bit c 7 \<or> unat c < 58" using Cons.prems(1) by simp
  show ?case
  proof (cases "bit c 7 \<or> c = KEY_CTRL \<or> fst (asccode ! unat c) = 0")
    case True
    then obtain k' where k': "keyboard_handler_main (k, s) = Some (k', ?s)" "kb_char k' = 0"
      using h Cons.prems(2) by (auto split: if_splits)
    have "getchar_loop (length (c # cs)) (k, s) = getchar_loop (length cs) (k', ?s)"
      using Cons.prems(2) k'(1) by (simp add: getchar_loop_wait)
    then show ?thesis
      using Cons.IH [OF all k'(2) p] True by (auto split: option.splits)
  next
    case False
    then show ?thesis using h Cons.prems(2) p
      by (auto simp: getchar_loop_wait getchar_loop_hit)
  qed
qed

text \<open>C35: \<^verbatim>\<open>getchar\<close> waits for the first key pressed that has a character and returns it, dropping
  what was typed before the call; releases, the control key and keys without a character are passed
  over, later keys stay with the controller. When no such key comes it waits for ever. It changes no
  other part of the system.\<close>

theorem getchar_decodes:
  assumes "\<forall>c \<in> set codes. bit c 7 \<or> unat c < 58"
    and "port_in (k_io s) 0x60 = codes" "port_in (k_io s) 0x64 = replicate (length codes) 1"
  shows "case first_char codes of
      None \<Rightarrow> getchar (length codes) (k, s) = None
    | Some (ch, rest) \<Rightarrow> \<exists>k' b. getchar (length codes) (k, s) = Some (ch, length rest, k', s\<lparr>k_io := b\<rparr>) \<and>
        port_in b 0x60 = rest \<and> kb_char k' = 0"
  using getchar_loop_decodes [OF assms(1) _ assms(2,3), of "k\<lparr>kb_char := 0\<rparr>"]
  by (auto simp: getchar_def split: option.splits)

text \<open>Control pressed and released, then the keys \<^verbatim>\<open>l\<close> and \<^verbatim>\<open>s\<close>.\<close>

lemma getchar_decodes_witness:
  "\<exists>k' b. getchar 4 (\<lparr>kb_char = 120, kb_ctrl = False\<rparr>,
      demo_kernel\<lparr>k_io := demo_io\<lparr>port_in := \<lambda>p. if p = 0x60 then [0x1D, 0x9D, 0x26, 0x1F] else replicate 4 1\<rparr>\<rparr>) =
    Some (108, 1, k', demo_kernel\<lparr>k_io := b\<rparr>)"
proof -
  have f: "first_char [0x1D, 0x9D, 0x26, 0x1F] = Some (108, [0x1F])"
    by (simp add: KEY_CTRL_def asccode_def bit_numeral_word_iff)
  have len: "length [0x1D, 0x9D, 0x26, 0x1F :: u8] = 4" "length [0x1F :: u8] = 1" by simp_all
  show ?thesis
    using getchar_decodes [of "[0x1D, 0x9D, 0x26, 0x1F]"
        "demo_kernel\<lparr>k_io := demo_io\<lparr>port_in := \<lambda>p. if p = 0x60 then [0x1D, 0x9D, 0x26, 0x1F] else replicate 4 1\<rparr>\<rparr>"
        "\<lparr>kb_char = 120, kb_ctrl = False\<rparr>"] unfolding f len option.case prod.case
    by (auto simp: bit_numeral_word_iff)
qed

section \<open>The control key\<close>

text \<open>with the control key down F1, F2 and F3 show the terminals 0, 1 and 2; without it they,
  as every other key with a scan code from 58 on, make the handler read behind the end of its table of
  characters.\<close>

theorem function_keys:
  assumes "port_in (k_io s) 0x64 = 1 # sts" "port_in (k_io s) 0x60 = c # cs"
    and "58 \<le> unat c" "unat c < 128" "tty_ok (k_tty s)" "saved_ok (k_tty s)" "shown (k_tty s)"
    and "view_ok (view (k_tty s))" "curr_proc s = None"
  shows "if kb_ctrl k \<and> c \<in> {0x3B, 0x3C, 0x3D}
    then \<exists>s'. keyboard_handler_main (k, s) = Some (k, s') \<and> shown (k_tty s') \<and>
      curr_terminal (k_tty s') = Some (unat c - 0x3B) \<and> if_flag (k_io s')
    else keyboard_handler_main (k, s) = None"
proof -
  let ?s = "s\<lparr>k_io := kb_read sts cs (k_io s)\<rparr>"
  have c: "c AND 0x80 = 0" "c \<noteq> KEY_CTRL"
    using assms(3,4) by (auto simp: bit_7 KEY_CTRL_def)
  have sw: "\<exists>s'. switch_terminal n ?s = Some s' \<and> shown (k_tty s') \<and> curr_terminal (k_tty s') = Some n \<and>
      if_flag (k_io s')" if "n < 4" for n
  proof -
    obtain i where i: "curr_terminal (k_tty s) = Some i" using assms(5) by (auto simp: tty_ok_def)
    then obtain t where "change_terminal n True (k_tty s) = Some t" "curr_terminal t = Some n" "tmp_terminal t = Some n"
      using change_terminal_idle [OF assms(5-8) i \<open>n < 4\<close>] by blast
    then show ?thesis using assms(9)
      by (simp add: switch_terminal_def get_proc_def shown_def)
  qed
  have h: "keyboard_handler_main (k, s) =
    (if kb_ctrl k \<and> c = KEY_F1 then do { s \<leftarrow> switch_terminal 0 ?s; Some (k, s) }
     else if kb_ctrl k \<and> c = KEY_F2 then do { s \<leftarrow> switch_terminal 1 ?s; Some (k, s) }
     else if kb_ctrl k \<and> c = KEY_F3 then do { s \<leftarrow> switch_terminal 2 ?s; Some (k, s) }
     else None)"
    using assms(1-4) c
    by (simp add: keyboard_handler_main_def read_port_def port_byte_in_def port_byte_out_def kb_read_def)
  show ?thesis
    using h sw [of 0] sw [of 1] sw [of 2] by (auto simp: KEY_F1_def KEY_F2_def KEY_F3_def)
qed

lemma function_keys_witness:
  "\<exists>s'. keyboard_handler_main (\<lparr>kb_char = 0, kb_ctrl = True\<rparr>, demo_kernel\<lparr>curr_proc := None,
      k_io := demo_io\<lparr>port_in := \<lambda>p. if p = 0x60 then [0x3C] else [1]\<rparr>\<rparr>) =
    Some (\<lparr>kb_char = 0, kb_ctrl = True\<rparr>, s') \<and> curr_terminal (k_tty s') = Some 1"
proof -
  have "k_tty demo_kernel = demo_tty" by (simp add: demo_kernel_def)
  then show ?thesis
    using function_keys [of "demo_kernel\<lparr>curr_proc := None,
        k_io := demo_io\<lparr>port_in := \<lambda>p. if p = 0x60 then [0x3C] else [1]\<rparr>\<rparr>" "[]" "0x3C" "[]"
        "\<lparr>kb_char = 0, kb_ctrl = True\<rparr>"] demo_ok by auto
qed

end
