(* ===== verification/Exceptions.thy ===== *)
theory Exceptions
  imports Format Interrupts
begin

text \<open>
  The handlers of processor exceptions: \<^verbatim>\<open>include/exception.h\<close>. Each shows a message and stops the
  machine in an endless loop; the result is the screen on which it stops.
\<close>

section \<open>The handlers\<close>

datatype halted = Halted tty

definition stop_with :: "buf \<Rightarrow> tty \<Rightarrow> halted option" where
  "stop_with str t = do { t \<leftarrow> put_exception str 0 t; Some (Halted t) }"

definition divide_by_zero_fault :: "u32 \<Rightarrow> u32 \<Rightarrow> u32 \<Rightarrow> tty \<Rightarrow> halted option" where
  "divide_by_zero_fault cs eip eflags = stop_with (lit ''Divide by 0'')"

definition single_step_trap :: "u32 \<Rightarrow> u32 \<Rightarrow> u32 \<Rightarrow> tty \<Rightarrow> halted option" where
  "single_step_trap cs eip eflags = stop_with (lit ''Single step'')"

definition nmi_trap :: "u32 \<Rightarrow> u32 \<Rightarrow> u32 \<Rightarrow> tty \<Rightarrow> halted option" where
  "nmi_trap cs eip eflags = stop_with (lit ''NMI trap'')"

definition breakpoint_trap :: "u32 \<Rightarrow> u32 \<Rightarrow> u32 \<Rightarrow> tty \<Rightarrow> halted option" where
  "breakpoint_trap cs eip eflags = stop_with (lit ''Breakpoint trap'')"

definition overflow_trap :: "u32 \<Rightarrow> u32 \<Rightarrow> u32 \<Rightarrow> tty \<Rightarrow> halted option" where
  "overflow_trap cs eip eflags = stop_with (lit ''Overflow trap'')"

definition bounds_check_fault :: "u32 \<Rightarrow> u32 \<Rightarrow> u32 \<Rightarrow> tty \<Rightarrow> halted option" where
  "bounds_check_fault cs eip eflags = stop_with (lit ''Bounds check fault'')"

definition invalid_opcode_fault :: "u32 \<Rightarrow> u32 \<Rightarrow> u32 \<Rightarrow> tty \<Rightarrow> halted option" where
  "invalid_opcode_fault cs eip eflags t =
     do { str \<leftarrow> sprintf (replicate 100 0) 0
                 (lit (''Invalid opcode'' @ [CHR 0x0A] @ ''cs:eip=%xh:%xh, eflags=%xh'')) 0
                 [Arg_int cs, Arg_int eip, Arg_int eflags];
          stop_with str t }"

definition no_device_fault :: "u32 \<Rightarrow> u32 \<Rightarrow> u32 \<Rightarrow> tty \<Rightarrow> halted option" where
  "no_device_fault cs eip eflags = stop_with (lit ''Device not found'')"

definition double_fault_abort :: "u32 \<Rightarrow> u32 \<Rightarrow> u32 \<Rightarrow> u32 \<Rightarrow> tty \<Rightarrow> halted option" where
  "double_fault_abort cs err eip eflags = stop_with (lit ''Double fault'')"

definition invalid_tss_fault :: "u32 \<Rightarrow> u32 \<Rightarrow> u32 \<Rightarrow> u32 \<Rightarrow> tty \<Rightarrow> halted option" where
  "invalid_tss_fault cs err eip eflags = stop_with (lit ''Invalid TSS'')"

definition no_segment_fault :: "u32 \<Rightarrow> u32 \<Rightarrow> u32 \<Rightarrow> u32 \<Rightarrow> tty \<Rightarrow> halted option" where
  "no_segment_fault cs err eip eflags = stop_with (lit ''Invalid segment'')"

definition stack_fault :: "u32 \<Rightarrow> u32 \<Rightarrow> u32 \<Rightarrow> u32 \<Rightarrow> tty \<Rightarrow> halted option" where
  "stack_fault cs err eip eflags = stop_with (lit ''Stack fault'')"

definition general_protection_fault :: "u32 \<Rightarrow> u32 \<Rightarrow> u32 \<Rightarrow> u32 \<Rightarrow> tty \<Rightarrow> halted option" where
  "general_protection_fault cs err eip eflags t =
     do { str \<leftarrow> sprintf (replicate 100 0) 0
                 (lit (''General Protection Fault'' @ [CHR 0x0A] @ ''cs:eip=%xh:%xh, eflags=%xh, err=%xh'')) 0
                 [Arg_int cs, Arg_int eip, Arg_int eflags, Arg_int err];
          stop_with str t }"

definition page_fault :: "u32 \<Rightarrow> u32 \<Rightarrow> u32 \<Rightarrow> u32 \<Rightarrow> tty \<Rightarrow> halted option" where
  "page_fault cs err eip eflags = stop_with (lit ''Page Fault'')"

definition fpu_fault :: "u32 \<Rightarrow> u32 \<Rightarrow> u32 \<Rightarrow> tty \<Rightarrow> halted option" where
  "fpu_fault cs eip eflags = stop_with (lit ''FPU Fault'')"

definition alignment_check_fault :: "u32 \<Rightarrow> u32 \<Rightarrow> u32 \<Rightarrow> u32 \<Rightarrow> tty \<Rightarrow> halted option" where
  "alignment_check_fault cs err eip eflags = stop_with (lit ''Alignment Check'')"

definition machine_check_abort :: "u32 \<Rightarrow> u32 \<Rightarrow> u32 \<Rightarrow> tty \<Rightarrow> halted option" where
  "machine_check_abort cs eip eflags = stop_with (lit ''Machine Check'')"

definition simd_fpu_fault :: "u32 \<Rightarrow> u32 \<Rightarrow> u32 \<Rightarrow> tty \<Rightarrow> halted option" where
  "simd_fpu_fault cs eip eflags = stop_with (lit ''FPU SIMD fault'')"

section \<open>Entry by the processor\<close>

text \<open>
  The gates point at the C functions themselves. A C function takes the word on top of the stack for
  its return address and the words below, \<open>st 1\<close>, \<open>st 2\<close> and so on, for its parameters; the processor
  has put its own frame there (\<open>st 0\<close> is on top): for an exception with an error code the code, EIP,
  CS, EFLAGS; for one without EIP, CS, EFLAGS; then, from user mode, ESP and SS.
\<close>

fun run_exception :: "handler \<Rightarrow> (nat \<Rightarrow> u32) \<Rightarrow> tty \<Rightarrow> halted option" where
  "run_exception Divide_by_zero_fault st = divide_by_zero_fault (st 1) (st 2) (st 3)"
| "run_exception Single_step_trap st = single_step_trap (st 1) (st 2) (st 3)"
| "run_exception Nmi_trap st = nmi_trap (st 1) (st 2) (st 3)"
| "run_exception Breakpoint_trap st = breakpoint_trap (st 1) (st 2) (st 3)"
| "run_exception Overflow_trap st = overflow_trap (st 1) (st 2) (st 3)"
| "run_exception Bounds_check_fault st = bounds_check_fault (st 1) (st 2) (st 3)"
| "run_exception Invalid_opcode_fault st = invalid_opcode_fault (st 1) (st 2) (st 3)"
| "run_exception No_device_fault st = no_device_fault (st 1) (st 2) (st 3)"
| "run_exception Double_fault_abort st = double_fault_abort (st 1) (st 2) (st 3) (st 4)"
| "run_exception Invalid_tss_fault st = invalid_tss_fault (st 1) (st 2) (st 3) (st 4)"
| "run_exception No_segment_fault st = no_segment_fault (st 1) (st 2) (st 3) (st 4)"
| "run_exception Stack_fault st = stack_fault (st 1) (st 2) (st 3) (st 4)"
| "run_exception General_protection_fault st = general_protection_fault (st 1) (st 2) (st 3) (st 4)"
| "run_exception Page_fault st = page_fault (st 1) (st 2) (st 3) (st 4)"
| "run_exception Fpu_fault st = fpu_fault (st 1) (st 2) (st 3)"
| "run_exception Alignment_check_fault st = alignment_check_fault (st 1) (st 2) (st 3) (st 4)"
| "run_exception Machine_check_abort st = machine_check_abort (st 1) (st 2) (st 3)"
| "run_exception Simd_fpu_fault st = simd_fpu_fault (st 1) (st 2) (st 3)"
| "run_exception h st = (\<lambda>t. None)"

section \<open>The screen after an exception\<close>

text \<open>What \<^verbatim>\<open>put_exception\<close> puts on the screen for a message.\<close>

definition exception_screen :: "buf \<Rightarrow> tty \<Rightarrow> tty option" where
  "exception_screen msg t =
     map_option (set_color 15 0) (put_chars (chars ''Exception: '' @ msg @ [10]) (set_color 4 0 t))"

lemma stop_with_screen:
  assumes "is_cstr str 0 msg"
  shows "stop_with str t = map_option Halted (exception_screen msg t)"
proof -
  have "0 \<notin> set (chars ''Exception: '')" by simp
  then have p1: "print (lit ''Exception: '') 0 u = put_chars (chars ''Exception: '') u" for u
    by (rule print_put_chars [OF lit_cstr])
  have p2: "print str 0 u = put_chars msg u" for u by (rule print_put_chars [OF assms])
  have "is_cstr [10, 0] 0 [10]" by (simp add: rd_def)
  then have p3: "print [10, 0] 0 u = put_chars [10] u" for u by (rule print_put_chars)
  show ?thesis
    by (simp only: stop_with_def put_exception_def exception_screen_def p1 p2 p3 put_chars_append Let_def
        map_conv_bind_option bind_assoc Option.bind.simps o_def)
qed

section \<open>Messages with registers\<close>

abbreviation hex :: "u32 \<Rightarrow> buf" where "hex x \<equiv> num_str 16 (unat x)"

lemma length_hex: "length (hex x) \<le> 8"
  using unat_u32 [of x] by (intro length_num_str) auto

lemma hex_no_bs: "8 \<notin> set (hex x)" "0 \<notin> set (hex x)"
  using set_num_str [of 16 8 "unat x"] set_num_str [of 16 0 "unat x"] by auto

lemma render_hex:
  "render (37 # 120 # f) (Arg_int x # args) = map_option ((@) (hex x)) (render f args)"
  by (cases "render f args") (simp_all add: render.simps(2) int_prefix_def conversion_def)

lemma sprintf_100:
  assumes "0 \<notin> set f" "render f args = Some out" "length out < 100"
  obtains str where "sprintf (replicate 100 0) 0 (f @ [0]) 0 args = Some str" "is_cstr str 0 out"
  using sprintf_render [OF cstr_self [OF assms(1)] assms(2), of 0 "replicate 100 0"] assms(3)
  by (auto split: option.splits)

definition opcode_text :: "u32 \<Rightarrow> u32 \<Rightarrow> u32 \<Rightarrow> buf" where
  "opcode_text a b c = chars ''Invalid opcode'' @ [10] @ chars ''cs:eip='' @ hex a @ chars ''h:'' @ hex b @
     chars ''h, eflags='' @ hex c @ chars ''h''"

definition protection_text :: "u32 \<Rightarrow> u32 \<Rightarrow> u32 \<Rightarrow> u32 \<Rightarrow> buf" where
  "protection_text a b c d = chars ''General Protection Fault'' @ [10] @ chars ''cs:eip='' @ hex a @ chars ''h:'' @
     hex b @ chars ''h, eflags='' @ hex c @ chars ''h, err='' @ hex d @ chars ''h''"

lemma invalid_opcode_eq:
  "invalid_opcode_fault cs eip eflags t = map_option Halted (exception_screen (opcode_text cs eip eflags) t)"
proof -
  let ?f = "chars ''Invalid opcode'' @ [10] @ chars ''cs:eip='' @ [37, 120] @ chars ''h:'' @ [37, 120] @
      chars ''h, eflags='' @ [37, 120] @ chars ''h''"
  have lit: "lit (''Invalid opcode'' @ [CHR 0x0A] @ ''cs:eip=%xh:%xh, eflags=%xh'') = ?f @ [0]"
    by (simp add: lit_def)
  have "render ?f [Arg_int cs, Arg_int eip, Arg_int eflags] = Some (opcode_text cs eip eflags)"
    by (simp add: opcode_text_def render_char render_hex)
  moreover have "length (opcode_text cs eip eflags) < 100"
    using length_hex [of cs] length_hex [of eip] length_hex [of eflags] by (simp add: opcode_text_def)
  moreover have "0 \<notin> set ?f" by simp
  ultimately obtain str where "sprintf (replicate 100 0) 0 (?f @ [0]) 0 [Arg_int cs, Arg_int eip, Arg_int eflags] = Some str"
    "is_cstr str 0 (opcode_text cs eip eflags)"
    using sprintf_100 by metis
  then show ?thesis unfolding invalid_opcode_fault_def lit by (simp add: stop_with_screen)
qed

lemma general_protection_eq:
  "general_protection_fault cs err eip eflags t =
    map_option Halted (exception_screen (protection_text cs eip eflags err) t)"
proof -
  let ?f = "chars ''General Protection Fault'' @ [10] @ chars ''cs:eip='' @ [37, 120] @ chars ''h:'' @ [37, 120] @
      chars ''h, eflags='' @ [37, 120] @ chars ''h, err='' @ [37, 120] @ chars ''h''"
  have lit: "lit (''General Protection Fault'' @ [CHR 0x0A] @ ''cs:eip=%xh:%xh, eflags=%xh, err=%xh'') = ?f @ [0]"
    by (simp add: lit_def)
  have "render ?f [Arg_int cs, Arg_int eip, Arg_int eflags, Arg_int err] = Some (protection_text cs eip eflags err)"
    by (simp add: protection_text_def render_char render_hex)
  moreover have "length (protection_text cs eip eflags err) < 100"
    using length_hex [of cs] length_hex [of eip] length_hex [of eflags] length_hex [of err]
    by (simp add: protection_text_def)
  moreover have "0 \<notin> set ?f" by simp
  ultimately obtain str where "sprintf (replicate 100 0) 0 (?f @ [0]) 0
      [Arg_int cs, Arg_int eip, Arg_int eflags, Arg_int err] = Some str"
    "is_cstr str 0 (protection_text cs eip eflags err)"
    using sprintf_100 by metis
  then show ?thesis unfolding general_protection_fault_def lit by (simp add: stop_with_screen)
qed

text \<open>The handlers that only show a fixed text.\<close>

lemmas plain_faults = divide_by_zero_fault_def single_step_trap_def nmi_trap_def breakpoint_trap_def
  overflow_trap_def bounds_check_fault_def no_device_fault_def double_fault_abort_def invalid_tss_fault_def
  no_segment_fault_def stack_fault_def page_fault_def fpu_fault_def alignment_check_fault_def
  machine_check_abort_def simd_fpu_fault_def

lemma exception_screen_ok:
  assumes "tty_ok t" "view_ok (view t)" "no_bs msg"
  shows "\<exists>t'. exception_screen msg t = Some t' \<and> tty_ok t' \<and> view_ok (view t')"
proof -
  have c: "tty_ok (set_color a b t) = tty_ok t" "view (set_color a b t) = view t" for a b t
    by (simp_all add: set_color_def tty_ok_def view_def shown_def hw_cursor_def)
  have "no_bs (chars ''Exception: '' @ msg @ [10])" using assms(3) by (simp add: no_bs_def)
  then obtain t' where "put_chars (chars ''Exception: '' @ msg @ [10]) (set_color 4 0 t) = Some t'"
    "tty_ok t'" "view_ok (view t')"
    using put_chars_view [of "set_color 4 0 t"] assms(1,2) c by metis
  then show ?thesis unfolding exception_screen_def using c by simp
qed

lemma stop_with_ok:
  assumes "tty_ok t" "view_ok (view t)" "0 \<notin> set (chars m)" "8 \<notin> set (chars m)"
  shows "\<exists>t'. stop_with (lit m) t = Some (Halted t') \<and> tty_ok t' \<and> view_ok (view t')"
  using exception_screen_ok [OF assms(1,2), of "chars m"] stop_with_screen [OF lit_cstr [OF assms(3)], of t] assms(4)
  by (auto simp: no_bs_def)

text \<open>whatever exception of the installed vectors the processor raises, and whatever is on the
  stack, the handler shows its message and stops the machine: no interrupted program ever goes on.\<close>

theorem exceptions_stop:
  assumes "(n, h) \<in> set exception_vectors" "tty_ok t" "view_ok (view t)"
  shows "\<exists>t'. run_exception h st t = Some (Halted t') \<and> tty_ok t' \<and> view_ok (view t')"
proof -
  have o: "no_bs (opcode_text a b c)" "no_bs (protection_text a b c d)" for a b c d
    by (simp_all add: no_bs_def opcode_text_def protection_text_def hex_no_bs)
  have p: "\<exists>t'. invalid_opcode_fault a b c t = Some (Halted t') \<and> tty_ok t' \<and> view_ok (view t')"
    "\<exists>t'. general_protection_fault a b c d t = Some (Halted t') \<and> tty_ok t' \<and> view_ok (view t')" for a b c d
    using exception_screen_ok [OF assms(2,3) o(1)] exception_screen_ok [OF assms(2,3) o(2)]
    by (auto simp: invalid_opcode_eq general_protection_eq)
  show ?thesis
    using assms(1) unfolding exception_vectors_def
    by (auto simp: plain_faults p intro!: stop_with_ok assms(2,3))
qed

lemma exceptions_stop_witness:
  "\<exists>t'. run_exception Page_fault (\<lambda>_. 0) demo_tty = Some (Halted t') \<and> tty_ok t'"
  using exceptions_stop [of 14 Page_fault demo_tty "\<lambda>_. 0"] demo_ok by (auto simp: exception_vectors_def)

text \<open>the two handlers that show registers show wrong ones, since the function takes the word on
  top of the processor's frame for its return address. For an invalid opcode the text
  \<^verbatim>\<open>cs:eip=\<close> is followed by CS and EFLAGS, and \<^verbatim>\<open>eflags=\<close> by the stack pointer; for a general
  protection fault \<^verbatim>\<open>cs:eip=\<close> by EIP and EFLAGS, \<^verbatim>\<open>eflags=\<close> by the stack pointer and \<^verbatim>\<open>err=\<close> by
  CS. The texts always fit into the local array.\<close>

theorem reported_registers:
  "run_exception Invalid_opcode_fault (nth [eip, cs, eflags, esp, ss]) t =
     map_option Halted (exception_screen
       (chars ''Invalid opcode'' @ [10] @ chars ''cs:eip='' @ hex cs @ chars ''h:'' @ hex eflags @
        chars ''h, eflags='' @ hex esp @ chars ''h'') t) \<and>
   run_exception General_protection_fault (nth [err, eip, cs, eflags, esp, ss]) t =
     map_option Halted (exception_screen
       (chars ''General Protection Fault'' @ [10] @ chars ''cs:eip='' @ hex eip @ chars ''h:'' @ hex eflags @
        chars ''h, eflags='' @ hex esp @ chars ''h, err='' @ hex cs @ chars ''h'') t)"
  by (simp add: invalid_opcode_eq general_protection_eq opcode_text_def protection_text_def eval_nat_numeral)

end
