(* ===== verification/Elf.thy ===== *)
theory Elf
  imports Fat_Files
begin

text \<open>
  Program files: \<^verbatim>\<open>include/elf.h\<close>. A file is read into the static array \<^verbatim>\<open>bin_img\<close>; its headers are
  structures of bytes in it.
\<close>

section \<open>The headers\<close>

record elfhdr =
  e_magic :: u32
  e_elf :: buf
  e_type :: u16
  e_machine :: u16
  e_version :: u32
  e_entry :: u32
  e_phoff :: u32
  e_shoff :: u32
  e_flags :: u32
  e_ehsize :: u16
  e_phentsize :: u16
  e_phnum :: u16
  e_shentsize :: u16
  e_shnum :: u16
  e_shstrndx :: u16

record prghdr =
  p_type :: u32
  p_offset :: u32
  p_va :: u32
  p_pa :: u32
  p_filesz :: u32
  p_memsz :: u32
  p_flags :: u32
  p_align :: u32

text \<open>The copy of the 52 bytes of the file header, and the fields in the 32 bytes of a program header.\<close>

definition get_elfhdr :: "buf \<Rightarrow> elfhdr option" where
  "get_elfhdr b =
     do { magic \<leftarrow> get32 b 0;
          ty \<leftarrow> get16 b 16; mach \<leftarrow> get16 b 18;
          version \<leftarrow> get32 b 20; entry \<leftarrow> get32 b 24; phoff \<leftarrow> get32 b 28; shoff \<leftarrow> get32 b 32;
          flags \<leftarrow> get32 b 36;
          ehsize \<leftarrow> get16 b 40; phentsize \<leftarrow> get16 b 42; phnum \<leftarrow> get16 b 44;
          shentsize \<leftarrow> get16 b 46; shnum \<leftarrow> get16 b 48; shstrndx \<leftarrow> get16 b 50;
          Some \<lparr>e_magic = magic, e_elf = take 12 (drop 4 b), e_type = ty, e_machine = mach,
            e_version = version, e_entry = entry, e_phoff = phoff, e_shoff = shoff, e_flags = flags,
            e_ehsize = ehsize, e_phentsize = phentsize, e_phnum = phnum, e_shentsize = shentsize,
            e_shnum = shnum, e_shstrndx = shstrndx\<rparr> }"

definition get_prghdr :: "buf \<Rightarrow> prghdr option" where
  "get_prghdr b =
     do { ty \<leftarrow> get32 b 0; offset \<leftarrow> get32 b 4; va \<leftarrow> get32 b 8; pa \<leftarrow> get32 b 12;
          filesz \<leftarrow> get32 b 16; memsz \<leftarrow> get32 b 20; flags \<leftarrow> get32 b 24; align \<leftarrow> get32 b 28;
          Some \<lparr>p_type = ty, p_offset = offset, p_va = va, p_pa = pa, p_filesz = filesz,
            p_memsz = memsz, p_flags = flags, p_align = align\<rparr> }"

definition ELF_MAGIC :: u32 where "ELF_MAGIC = 0x464C457F"

section \<open>Printing\<close>

definition print_elfhdr :: "elfhdr \<Rightarrow> tty \<Rightarrow> tty option" where
  "print_elfhdr eh t =
     do { t \<leftarrow> printf_lit (''print_elfhdr:'' @ nl) [] t;
          t \<leftarrow> printf_lit (''    entry: 0x%x'' @ nl) [Arg_int (e_entry eh)] t;
          t \<leftarrow> printf_lit (''    hdr_size: 0x%x'' @ nl) [Arg_int (ucast (e_ehsize eh))] t;
          t \<leftarrow> printf_lit (''    phoff: 0x%x'' @ nl) [Arg_int (e_phoff eh)] t;
          t \<leftarrow> printf_lit (''    phnum: %d'' @ nl) [Arg_int (ucast (e_phnum eh))] t;
          printf_lit (''    phentsize: %d'' @ nl) [Arg_int (ucast (e_phentsize eh))] t }"

definition print_prghdr :: "prghdr \<Rightarrow> tty \<Rightarrow> tty option" where
  "print_prghdr ph t =
     do { t \<leftarrow> printf_lit (''print_prghdr:'' @ nl) [] t;
          t \<leftarrow> printf_lit (''    offset: 0x%x'' @ nl) [Arg_int (p_offset ph)] t;
          t \<leftarrow> printf_lit (''    vaddr: 0x%x'' @ nl) [Arg_int (p_va ph)] t;
          t \<leftarrow> printf_lit (''    paddr: 0x%x'' @ nl) [Arg_int (p_pa ph)] t;
          t \<leftarrow> printf_lit (''    filesz: 0x%x'' @ nl) [Arg_int (p_filesz ph)] t;
          t \<leftarrow> printf_lit (''    memsz: 0x%x'' @ nl) [Arg_int (p_memsz ph)] t;
          t \<leftarrow> printf_lit (''    flags: 0x%x'' @ nl) [Arg_int (p_flags ph)] t;
          printf_lit (''    align: 0x%x'' @ nl) [Arg_int (p_align ph)] t }"

section \<open>Loading\<close>

record loader = fs +
  bin_img :: buf

text \<open>
  The loop over the program headers. The local structure \<^verbatim>\<open>ph\<close> has no value before the first copy:
  a first entry too short for the fields used (less than 24 bytes) has no defined result.
\<close>

function load_headers ::
  "elfhdr \<Rightarrow> nat \<Rightarrow> nat \<Rightarrow> u32 \<Rightarrow> buf \<Rightarrow> buf \<Rightarrow> ram \<Rightarrow> ram option" where
  "load_headers eh addr_exec i offset ph img m =
     (if i < unat (e_phnum eh) then
        do { ph \<leftarrow> memcpy ph 0 img (unat offset) (unat (e_phentsize eh));
             m \<leftarrow> (if i = 0 then
                     (if unat (e_phentsize eh) < 24 then None
                      else do { off \<leftarrow> get32 ph 4;
                                memsz \<leftarrow> get32 ph 20;
                                if unat off + unat memsz \<le> length img
                                then Some (ram_put m addr_exec (take (unat memsz) (drop (unat off) img)))
                                else None })
                   else Some m);
             load_headers eh addr_exec (Suc i) (offset + ucast (e_phentsize eh)) ph img m }
      else Some m)"
  by pat_completeness auto
termination
  by (relation "measure (\<lambda>(eh, a, i, off, ph, img, m). unat (e_phnum eh) - i)") auto

declare load_headers.simps [simp del]

text \<open>A file without the magic number: a message and an endless loop (\<open>Stuck\<close>).\<close>

datatype 's parsed = Entry u32 's | Stuck 's

definition parse_elf :: "nat \<Rightarrow> 'a loader_scheme \<Rightarrow> 'a loader_scheme parsed option" where
  "parse_elf addr_exec s =
     do { eh_bytes \<leftarrow> memcpy (replicate 52 0) 0 (bin_img s) 0 52;
          eh \<leftarrow> get_elfhdr eh_bytes;
          if e_magic eh \<noteq> ELF_MAGIC then
            do { s \<leftarrow> on_tty (put_error (lit ''Bad elf file!'') 0) s; Some (Stuck s) }
          else
            do { m \<leftarrow> load_headers eh addr_exec 0 (e_phoff eh) (replicate 32 0) (bin_img s) (k_ram s);
                 Some (Entry (e_entry eh) (s\<lparr>k_ram := m\<rparr>)) } }"

section \<open>What is loaded\<close>

lemma load_rest:
  assumes "e_phentsize eh = 32" "1 \<le> i" "length ph = 32" "length img \<le> 15360"
    and "unat off + 32 * (unat (e_phnum eh) - i) \<le> length img"
  shows "load_headers eh a i off ph img m = Some m"
  using assms(2-)
proof (induction "unat (e_phnum eh) - i" arbitrary: i off ph)
  case 0
  then show ?case by (subst load_headers.simps) simp
next
  case (Suc n)
  have lt: "i < unat (e_phnum eh)" using Suc.hyps(2) by simp
  have fit: "unat off + 32 \<le> length img" using Suc.prems(4) lt by linarith
  then have next_off: "unat (off + 32) = unat off + 32" using Suc.prems(3) by (simp add: unat_word_ariths)
  let ?ph = "buf_put ph 0 (take 32 (drop (unat off) img))"
  have "memcpy ph 0 img (unat off) 32 = Some ?ph" using fit Suc.prems(2) by (intro memcpy_put) auto
  then have "load_headers eh a i off ph img m = load_headers eh a (Suc i) (off + 32) ?ph img m"
    using lt Suc.prems(1) assms(1) by (subst load_headers.simps) simp
  also have "\<dots> = Some m"
    using Suc.hyps(2) Suc.prems lt next_off by (intro Suc.hyps(1)) auto
  finally show ?case .
qed

text \<open>C38: of an image with the magic number \<^verbatim>\<open>parse_elf\<close> gives the entry point and puts the bytes of
  the first segment, \<^verbatim>\<open>p_memsz\<close> many from \<^verbatim>\<open>p_offset\<close> on, at the given address, wherever the header
  wants them; it loads no other segment and changes nothing else. Without the magic number it shows a
  message and never returns.\<close>

theorem elf_first_segment:
  assumes "length (bin_img s) = 15360" "get_elfhdr (take 52 (bin_img s)) = Some eh"
    and "e_phentsize eh = 32" "1 \<le> e_phnum eh" "unat (e_phoff eh) + 32 * unat (e_phnum eh) \<le> 15360"
    and "get_prghdr (take 32 (drop (unat (e_phoff eh)) (bin_img s))) = Some ph"
    and "unat (p_offset ph) + unat (p_memsz ph) \<le> 15360"
  shows "parse_elf addr s =
    (if e_magic eh = ELF_MAGIC
     then Some (Entry (e_entry eh) (s\<lparr>k_ram := ram_put (k_ram s) addr
        (take (unat (p_memsz ph)) (drop (unat (p_offset ph)) (bin_img s)))\<rparr>))
     else map_option Stuck (on_tty (put_error (lit ''Bad elf file!'') 0) s))"
proof -
  let ?off = "e_phoff eh" and ?img = "bin_img s"
  let ?b = "take 32 (drop (unat ?off) ?img)"
  have c: "memcpy (replicate 52 0) 0 ?img 0 52 = Some (take 52 ?img)"
    using memcpy_put [of 0 52 "replicate 52 0" 0 ?img] assms(1) by (simp add: buf_put_def)
  note h = assms(3-7)
  have n: "1 \<le> unat (e_phnum eh)" using h(2) by (simp add: word_le_nat_alt)
  have p: "memcpy (replicate 32 0) 0 ?img (unat ?off) 32 = Some ?b"
    using memcpy_put [of 0 32 "replicate 32 0" "unat ?off" ?img] h(3) n assms(1) by (simp add: buf_put_def)
  have f: "get32 ?b 4 = Some (p_offset ph)" "get32 ?b 20 = Some (p_memsz ph)"
    using h(4) by (auto simp: get_prghdr_def buf_simps)
  have nx: "unat (?off + 32) = unat ?off + 32" using h(3) n by (simp add: unat_word_ariths)
  let ?m = "ram_put (k_ram s) addr (take (unat (p_memsz ph)) (drop (unat (p_offset ph)) ?img))"
  have "load_headers eh addr 0 ?off (replicate 32 0) ?img (k_ram s) =
      load_headers eh addr 1 (?off + 32) ?b ?img ?m"
    using n p f h(1,5) assms(1) by (subst load_headers.simps) simp
  also have "\<dots> = Some ?m"
    using h(1,3) n nx assms(1) by (intro load_rest) simp_all
  finally have l: "load_headers eh addr 0 ?off (replicate 32 0) ?img (k_ram s) = Some ?m" .
  show ?thesis
  proof (cases "e_magic eh = ELF_MAGIC")
    case True
    then show ?thesis using c assms(2) l by (simp add: parse_elf_def)
  next
    case False
    then show ?thesis using c assms(2)
      by (cases "on_tty (put_error (lit ''Bad elf file!'') 0) s") (simp_all add: parse_elf_def)
  qed
qed

text \<open>An image: the file header, one program header at 52, and a segment of four bytes at 84.\<close>

definition demo_img :: buf where
  "demo_img = [0x7F, 0x45, 0x4C, 0x46] @ replicate 12 0 @ [2, 0, 3, 0, 1, 0, 0, 0] @
     [0x00, 0x00, 0x08, 0x00] @ [52, 0, 0, 0] @ replicate 8 0 @ [52, 0, 32, 0, 1, 0] @ replicate 6 0 @
     [1, 0, 0, 0, 84, 0, 0, 0] @ replicate 8 0 @ [4, 0, 0, 0, 4, 0, 0, 0] @ replicate 8 0 @
     [0xB8, 0x0A, 0xCD, 0x80] @ replicate 15272 0"

definition demo_loader :: loader where
  "demo_loader = fs.extend demo_fs \<lparr>bin_img = demo_img\<rparr>"

lemma elf_first_segment_witness:
  "\<exists>s'. parse_elf 0x80000 demo_loader = Some (Entry 0x80000 s') \<and> k_ram s' 0x80000 = 0xB8"
proof -
  have img: "bin_img demo_loader = demo_img" by (simp add: demo_loader_def fs.defs)
  have r: "replicate 8 (0 :: u8) = [0, 0, 0, 0, 0, 0, 0, 0]" "replicate 6 (0 :: u8) = [0, 0, 0, 0, 0, 0]"
    "replicate 12 (0 :: u8) = [0, 0, 0, 0, 0, 0, 0, 0, 0, 0, 0, 0]"
    by (simp_all add: numeral_eq_Suc)
  have t: "take 52 demo_img = [0x7F, 0x45, 0x4C, 0x46, 0, 0, 0, 0, 0, 0, 0, 0, 0, 0, 0, 0, 2, 0, 3, 0, 1, 0, 0, 0,
      0, 0, 8, 0, 52, 0, 0, 0, 0, 0, 0, 0, 0, 0, 0, 0, 52, 0, 32, 0, 1, 0, 0, 0, 0, 0, 0, 0]"
    "take 32 (drop 52 demo_img) = [1, 0, 0, 0, 84, 0, 0, 0, 0, 0, 0, 0, 0, 0, 0, 0, 4, 0, 0, 0, 4, 0, 0, 0,
      0, 0, 0, 0, 0, 0, 0, 0]"
    "take 4 (drop 84 demo_img) = [0xB8, 0x0A, 0xCD, 0x80]" "length demo_img = 15360"
    by (simp_all add: demo_img_def r)
  obtain eh where eh: "get_elfhdr (take 52 demo_img) = Some eh" "e_magic eh = ELF_MAGIC" "e_entry eh = 0x80000"
    "e_phentsize eh = 32" "e_phnum eh = 1" "e_phoff eh = 52"
    unfolding t by (simp add: get_elfhdr_def get32_def get16_def rd_def ELF_MAGIC_def)
  obtain ph where ph: "get_prghdr (take 32 (drop 52 demo_img)) = Some ph" "p_offset ph = 84" "p_memsz ph = 4"
    unfolding t by (simp add: get_prghdr_def get32_def get16_def rd_def)
  show ?thesis
    using elf_first_segment [of demo_loader eh ph "0x80000"] eh ph t(3,4) img by (simp add: ram_put_val)
qed

end
