(* ===== verification/Sysfile.thy ===== *)
theory Sysfile
  imports Elf
begin

text \<open>
  Open files: \<^verbatim>\<open>include/sysfile.h\<close>, the kernel side of interrupt 0x82. A pointer to a \<^verbatim>\<open>FILE\<close> is an
  index into the static array \<^verbatim>\<open>file_list\<close>, the pointer \<^verbatim>\<open>pos\<close> of a file an index into its buffer.
  Strings of the caller are arrays with an index, its other memory is RAM.
\<close>

section \<open>State\<close>

record file_t =
  f_name :: buf
  f_mode :: buf
  f_buffer :: buf
  f_pos :: nat
  f_fileLength :: u32
  f_startCluster :: u32
  f_currentCluster :: u32

record vfs = loader +
  file_list :: "file_t list"

definition upd_file :: "nat \<Rightarrow> (file_t \<Rightarrow> file_t) \<Rightarrow> 'a vfs_scheme \<Rightarrow> 'a vfs_scheme" where
  "upd_file i f s = s\<lparr>file_list := (file_list s)[i := f (file_list s ! i)]\<rparr>"

text \<open>The file behind a pointer.\<close>

definition file_at :: "nat \<Rightarrow> 'a vfs_scheme \<Rightarrow> file_t option" where
  "file_at i s = (if i < length (file_list s) then Some (file_list s ! i) else None)"

definition set_mode :: "nat \<Rightarrow> buf \<Rightarrow> nat \<Rightarrow> 'a vfs_scheme \<Rightarrow> 'a vfs_scheme option" where
  "set_mode i mode q s =
     do { f \<leftarrow> file_at i s;
          m \<leftarrow> strcpy (f_mode f) 0 mode q;
          Some (upd_file i (\<lambda>f. f\<lparr>f_mode := m\<rparr>) s) }"

text \<open>One turn of the loop of \<^verbatim>\<open>file_init\<close>, and the loop.\<close>

definition file_reset :: "file_t \<Rightarrow> file_t option" where
  "file_reset f =
     do { name \<leftarrow> memset (f_name f) 0 0 32;
          buffer \<leftarrow> memset (f_buffer f) 0 0 1024;
          mode \<leftarrow> strcpy (f_mode f) 0 (lit ''u'') 0;
          Some (f\<lparr>f_name := name, f_buffer := buffer, f_mode := mode, f_pos := 0, f_fileLength := 0,
            f_startCluster := 0, f_currentCluster := 0\<rparr>) }"

function file_init_loop :: "nat \<Rightarrow> 'a vfs_scheme \<Rightarrow> 'a vfs_scheme option" where
  "file_init_loop i s =
     (if i < 10 then
        do { f \<leftarrow> file_at i s;
             f \<leftarrow> file_reset f;
             file_init_loop (Suc i) (upd_file i (\<lambda>_. f) s) }
      else Some s)"
  by pat_completeness auto
termination
  by (relation "measure (\<lambda>(i, s). 10 - i)") auto

declare file_init_loop.simps [simp del]

definition file_init :: "'a vfs_scheme \<Rightarrow> 'a vfs_scheme option" where
  "file_init s = file_init_loop 0 s"

section \<open>Opening and closing\<close>

text \<open>The first slot whose mode is \<^verbatim>\<open>"u"\<close>.\<close>

function find_unused :: "file_t list \<Rightarrow> nat \<Rightarrow> nat option option" where
  "find_unused fs i =
     (if i < length fs then
        do { r \<leftarrow> strcmp (f_mode (fs ! i)) 0 (lit ''u'') 0;
             if r = 0 then Some (Some i) else find_unused fs (Suc i) }
      else Some None)"
  by pat_completeness auto
termination
  by (relation "measure (\<lambda>(fs, i). length fs - i)") auto

declare find_unused.simps [simp del]

text \<open>The buffer of a file as the destination of a transfer.\<close>

definition file_sink :: "nat \<Rightarrow> nat \<Rightarrow> nat \<Rightarrow> 'a vfs_scheme \<Rightarrow> 'a vfs_scheme option" where
  "file_sink i off n s =
     (if i < length (file_list s) then
        do { b \<leftarrow> memcpy (f_buffer (file_list s ! i)) off (ram_bytes (k_ram s) TMP_USER_ADDR n) 0 n;
             Some (upd_file i (\<lambda>f. f\<lparr>f_buffer := b\<rparr>) s) }
      else if n = 0 then Some s else None)"

text \<open>The result is the pointer to the file, \<open>None\<close> for NULL.\<close>

definition do_fopen :: "buf \<Rightarrow> nat \<Rightarrow> buf \<Rightarrow> nat \<Rightarrow> 'a vfs_scheme \<Rightarrow> (nat option \<times> 'a vfs_scheme) option" where
  "do_fopen pname p mode q s =
     do { r \<leftarrow> find_unused (file_list s) 0;
          case r of
            None \<Rightarrow> Some (None, s)
          | Some i \<Rightarrow>
              do { name \<leftarrow> strcpy (f_name (file_list s ! i)) 0 pname p;
                   let s = upd_file i (\<lambda>f. f\<lparr>f_name := name\<rparr>) s;
                   (e, s) \<leftarrow> fat12_find_entry pname p s;
                   case e of
                     None \<Rightarrow>
                       do { w \<leftarrow> strcmp mode q (lit ''w'') 0;
                            if w = 0 then do { s \<leftarrow> set_mode i mode q s; Some (Some i, s) }
                            else do { r \<leftarrow> strcmp mode q (lit ''r'') 0;
                                      if r = 0 then Some (None, s) else None } }
                   | Some fe \<Rightarrow>
                       do { len \<leftarrow> (case entry_bytes fe s of (b, k) \<Rightarrow> fileLength b k);
                            c \<leftarrow> entry_cluster fe s;
                            let s = upd_file i (\<lambda>f. f\<lparr>f_fileLength := len, f_startCluster := ucast c,
                                      f_currentCluster := ucast c\<rparr>) s;
                            s \<leftarrow> set_mode i mode q s;
                            (n, s) \<leftarrow> fat12_read_clusters (file_sink i) (ucast c) s;
                            Some (Some i, s) } } }"

definition do_fclose :: "nat \<Rightarrow> 'a vfs_scheme \<Rightarrow> (int \<times> 'a vfs_scheme) option" where
  "do_fclose fp s =
     do { f \<leftarrow> file_at fp s;
          w \<leftarrow> strcmp (f_mode f) 0 (lit ''w'') 0;
          s \<leftarrow> (if w = 0 then fat12_create_file (int (f_pos f)) (f_name f) 0 s else Some s);
          s \<leftarrow> set_mode fp (lit ''u'') 0 s;
          Some (0, enable_k s) }"

section \<open>Reading and writing\<close>

text \<open>
  A number of bytes is an \<^verbatim>\<open>int\<close> that \<^verbatim>\<open>memcpy\<close> takes as unsigned: a negative one is larger than
  any array.
\<close>

definition do_fread :: "nat \<Rightarrow> int \<Rightarrow> int \<Rightarrow> nat \<Rightarrow> 'a vfs_scheme \<Rightarrow> (int \<times> 'a vfs_scheme) option" where
  "do_fread addr sz count fp s =
     do { f \<leftarrow> file_at fp s;
          let numBytes = sz * count;
          if 0 \<le> numBytes \<and> nat numBytes \<le> length (f_buffer f)
          then Some (count, s\<lparr>k_ram := ram_put (k_ram s) addr (take (nat numBytes) (f_buffer f))\<rparr>)
          else None }"

definition do_fwrite :: "nat \<Rightarrow> int \<Rightarrow> int \<Rightarrow> nat \<Rightarrow> 'a vfs_scheme \<Rightarrow> (int \<times> 'a vfs_scheme) option" where
  "do_fwrite addr sz count fp s =
     do { f \<leftarrow> file_at fp s;
          w \<leftarrow> strcmp (f_mode f) 0 (lit ''w'') 0;
          if w \<noteq> 0 then Some (0, s)
          else
            do { let numBytes = sz * count;
                 b \<leftarrow> (if 0 \<le> numBytes
                       then memcpy (f_buffer f) (f_pos f) (ram_bytes (k_ram s) addr (nat numBytes)) 0 (nat numBytes)
                       else None);
                 Some (count, upd_file fp (\<lambda>f. f\<lparr>f_buffer := b, f_pos := f_pos f + nat numBytes\<rparr>) s) } }"

text \<open>\<^verbatim>\<open>do_fgets\<close> copies a fixed number of bytes, line ends or not; it returns its first argument.\<close>

definition do_fgets :: "nat \<Rightarrow> int \<Rightarrow> nat \<Rightarrow> 'a vfs_scheme \<Rightarrow> (nat \<times> 'a vfs_scheme) option" where
  "do_fgets addr count fp s =
     do { f \<leftarrow> file_at fp s;
          if 0 \<le> count \<and> nat count \<le> length (f_buffer f)
          then Some (addr, s\<lparr>k_ram := ram_put (k_ram s) addr (take (nat count) (f_buffer f))\<rparr>)
          else None }"

definition do_fputs :: "buf \<Rightarrow> nat \<Rightarrow> nat \<Rightarrow> 'a vfs_scheme \<Rightarrow> (int \<times> 'a vfs_scheme) option" where
  "do_fputs str q fp s =
     do { f \<leftarrow> file_at fp s;
          w \<leftarrow> strcmp (f_mode f) 0 (lit ''w'') 0;
          if w \<noteq> 0 then Some (0, s)
          else
            do { n \<leftarrow> strlen str q;
                 b \<leftarrow> memcpy (f_buffer f) (f_pos f) str q n;
                 Some (1, upd_file fp (\<lambda>f. f\<lparr>f_buffer := b, f_pos := f_pos f + n\<rparr>) s) } }"

section \<open>The table of open files\<close>

definition file_ok :: "file_t \<Rightarrow> bool" where
  "file_ok f \<longleftrightarrow> length (f_name f) = 32 \<and> length (f_mode f) = 4 \<and> length (f_buffer f) = 1024 \<and>
     (\<exists>m. is_cstr (f_mode f) 0 m) \<and> f_pos f \<le> 1024"

definition files_ok :: "'a vfs_scheme \<Rightarrow> bool" where
  "files_ok s \<longleftrightarrow> length (file_list s) = 10 \<and> (\<forall>f \<in> set (file_list s). file_ok f)"

abbreviation mode_is :: "file_t \<Rightarrow> buf \<Rightarrow> bool" where
  "mode_is f m \<equiv> is_cstr (f_mode f) 0 m"

text \<open>The first unused slot.\<close>

definition first_free :: "'a vfs_scheme \<Rightarrow> nat option" where
  "first_free s = find_first (\<lambda>i. mode_is (file_list s ! i) [117]) 0 (length (file_list s))"

lemma lit_modes: "is_cstr (lit ''u'') 0 [117]" "is_cstr (lit ''w'') 0 [119]" "is_cstr (lit ''r'') 0 [114]"
  by (simp_all add: lit_def rd_def)

lemma find_unused_first:
  assumes "\<forall>f \<in> set fs. file_ok f"
  shows "find_unused fs i = Some (find_first (\<lambda>i. mode_is (fs ! i) [117]) i (length fs))"
proof (induction "length fs - i" arbitrary: i)
  case 0
  then show ?case by (subst find_unused.simps, subst find_first.simps) simp
next
  case (Suc n)
  then have i: "i < length fs" by simp
  then have "file_ok (fs ! i)" using assms by simp
  then obtain m where m: "mode_is (fs ! i) m" by (auto simp: file_ok_def)
  obtain r where r: "strcmp (f_mode (fs ! i)) 0 (lit ''u'') 0 = Some r" "r = 0 \<longleftrightarrow> m = [117]"
    using strcmp_lit [OF m lit_modes(1)] by blast
  have u: "mode_is (fs ! i) [117] \<longleftrightarrow> m = [117]" using m is_cstr_unique by blast
  show ?case
    using i r u Suc.hyps(1) [of "Suc i"] Suc.hyps(2)
    by (subst find_unused.simps, subst find_first.simps) auto
qed

lemma find_unused_free: "files_ok s \<Longrightarrow> find_unused (file_list s) 0 = Some (first_free s)"
  by (simp add: files_ok_def find_unused_first first_free_def)

lemma upd_file_simps [simp]:
  "file_list (upd_file i f s) = (file_list s)[i := f (file_list s ! i)]"
  "k_tty (upd_file i f s) = k_tty s" "k_ide (upd_file i f s) = k_ide s" "k_ram (upd_file i f s) = k_ram s"
  "fat (upd_file i f s) = fat s" "root_dir (upd_file i f s) = root_dir s" "cpu_edi (upd_file i f s) = cpu_edi s"
  "bin_img (upd_file i f s) = bin_img s" "bootsector (upd_file i f s) = bootsector s"
  "subdir (upd_file i f s) = subdir s" "phys_fat (upd_file i f s) = phys_fat s"
  by (simp_all add: upd_file_def)

lemma files_ok_nth: "files_ok s \<Longrightarrow> i < 10 \<Longrightarrow> file_ok (file_list s ! i)"
  by (simp add: files_ok_def)

lemma files_ok_length: "files_ok s \<Longrightarrow> length (file_list s) = 10"
  by (simp add: files_ok_def)

lemma upd_file_ok:
  "files_ok s \<Longrightarrow> (i < 10 \<Longrightarrow> file_ok (f (file_list s ! i))) \<Longrightarrow> files_ok (upd_file i f s)"
  unfolding files_ok_def all_set_conv_all_nth
  by (cases "i < 10") (auto simp: nth_list_update list_update_beyond)

lemma set_mode_ok:
  assumes "files_ok s" "i < 10" "is_cstr mode q m" "length m < 4"
  shows "\<exists>b. set_mode i mode q s = Some (upd_file i (\<lambda>f. f\<lparr>f_mode := b\<rparr>) s) \<and> length b = 4 \<and> is_cstr b 0 m"
proof -
  let ?f = "file_list s ! i"
  have f: "file_ok ?f" "i < length (file_list s)" using assms(1,2) by (simp_all add: files_ok_def)
  then have "strcpy (f_mode ?f) 0 mode q = Some (buf_put (f_mode ?f) 0 (m @ [0]))"
    using strcpy_cstr [OF assms(3), of 0 "f_mode ?f"] assms(4) by (simp add: file_ok_def)
  moreover have "is_cstr (buf_put (f_mode ?f) 0 (m @ [0])) 0 m"
    using f assms(4) is_cstr_nonzero [OF assms(3)] by (intro buf_put_cstr) (auto simp: file_ok_def)
  ultimately show ?thesis using f assms(4)
    by (auto simp: set_mode_def file_at_def file_ok_def)
qed

lemma file_init_loop_frame: "file_init_loop i s = Some s' \<Longrightarrow> \<exists>fl. s' = s\<lparr>file_list := fl\<rparr>"
proof (induction "10 - i" arbitrary: i s)
  case 0
  then have "s' = s" by (subst (asm) file_init_loop.simps) simp
  then show ?case by (intro exI [of _ "file_list s"]) simp
next
  case (Suc n)
  have "i < 10" using Suc.hyps(2) by simp
  then obtain f where "file_init_loop (Suc i) (upd_file i (\<lambda>_. f) s) = Some s'"
    using Suc.prems file_init_loop.simps [of i s] by (auto split: bind_splits)
  moreover have "n = 10 - Suc i" using Suc.hyps(2) by simp
  ultimately show ?case using Suc.hyps(1) by (fastforce simp: upd_file_def)
qed

lemma file_init_loop_ok:
  assumes "length (file_list s) = 10" "\<forall>f \<in> set (file_list s). length (f_name f) = 32 \<and> length (f_mode f) = 4 \<and> length (f_buffer f) = 1024"
    and "i \<le> 10" "\<forall>j < i. file_ok (file_list s ! j) \<and> mode_is (file_list s ! j) [117] \<and> f_pos (file_list s ! j) = 0"
  shows "\<exists>s'. file_init_loop i s = Some s' \<and> files_ok s' \<and>
    (\<forall>f \<in> set (file_list s'). mode_is f [117] \<and> f_pos f = 0)"
  using assms
proof (induction "10 - i" arbitrary: i s)
  case 0
  then show ?case by (subst file_init_loop.simps) (auto simp: files_ok_def set_conv_nth simp del: is_cstr.simps)
next
  case (Suc n)
  let ?f = "file_list s ! i"
  have i: "i < 10" using Suc.hyps(2) by simp
  then have f: "length (f_name ?f) = 32" "length (f_mode ?f) = 4" "length (f_buffer ?f) = 1024"
    using Suc.prems(1,2) by auto
  let ?g = "?f\<lparr>f_name := replicate 32 0, f_buffer := replicate 1024 0, f_mode := buf_put (f_mode ?f) 0 [117, 0],
    f_pos := 0, f_fileLength := 0, f_startCluster := 0, f_currentCluster := 0\<rparr>"
  have "memset (f_name ?f) 0 0 32 = Some (replicate 32 0)" "memset (f_buffer ?f) 0 0 1024 = Some (replicate 1024 0)"
    using memset_put [of 0 32 "f_name ?f" 0] memset_put [of 0 1024 "f_buffer ?f" 0] f by (simp_all add: buf_put_def)
  moreover have "strcpy (f_mode ?f) 0 (lit ''u'') 0 = Some (buf_put (f_mode ?f) 0 [117, 0])"
    using strcpy_cstr [OF lit_modes(1), of 0 "f_mode ?f"] f by simp
  ultimately have "file_reset ?f = Some ?g" by (simp add: file_reset_def)
  then have step: "file_init_loop i s = file_init_loop (Suc i) (upd_file i (\<lambda>_. ?g) s)"
    using i Suc.prems(1) by (subst file_init_loop.simps) (simp add: file_at_def)
  have c: "is_cstr (buf_put (f_mode ?f) 0 [117, 0]) 0 [117]"
    using buf_put_cstr [of 0 "[117]" "f_mode ?f"] f by simp
  then have "\<exists>m. is_cstr (buf_put (f_mode ?f) 0 [117, 0]) 0 m" by blast
  then have g: "file_ok ?g" "mode_is ?g [117]" "f_pos ?g = 0" using f c by (simp_all add: file_ok_def)
  show ?case unfolding step
  proof (rule Suc.hyps(1))
    show "n = 10 - Suc i" "Suc i \<le> 10" using Suc.hyps(2) by simp_all
    show "length (file_list (upd_file i (\<lambda>_. ?g) s)) = 10" using Suc.prems(1) by simp
    show "\<forall>f \<in> set (file_list (upd_file i (\<lambda>_. ?g) s)). length (f_name f) = 32 \<and> length (f_mode f) = 4 \<and> length (f_buffer f) = 1024"
      using Suc.prems(2) f set_update_subset_insert [of "file_list s" i ?g] by fastforce
    show "\<forall>j < Suc i. file_ok (file_list (upd_file i (\<lambda>_. ?g) s) ! j) \<and>
        mode_is (file_list (upd_file i (\<lambda>_. ?g) s) ! j) [117] \<and> f_pos (file_list (upd_file i (\<lambda>_. ?g) s) ! j) = 0"
      using Suc.prems(1,4) g i by (auto simp: less_Suc_eq nth_list_update simp del: is_cstr.simps)
  qed
qed

section \<open>The buffers as destinations\<close>

interpretation file_target: chain_target "file_sink i"
  "\<lambda>s. if i < length (file_list s) then f_buffer (file_list s ! i) else []"
  "\<lambda>s. (k_tty s, bootsector s, phys_fat s, fat s, root_dir s, subdir s, cp_buf s, bin_img s,
     (file_list s)[i := (file_list s ! i)\<lparr>f_buffer := []\<rparr>])"
proof
  fix off n and s :: "'a vfs_scheme"
  let ?c = "\<lambda>s :: 'a vfs_scheme. if i < length (file_list s) then f_buffer (file_list s ! i) else []"
  assume "off + n \<le> length (?c s)"
  then show "\<exists>s'. file_sink i off n s = Some s' \<and>
      ?c s' = buf_put (?c s) off (ram_bytes (k_ram s) TMP_USER_ADDR n) \<and>
      (\<forall>x. 0x1000 \<le> x \<and> x < 0x10000 \<longrightarrow> k_ram s' x = k_ram s x) \<and>
      k_ide s' = k_ide s \<and> cpu_edi s' = cpu_edi s \<and>
      (k_tty s', bootsector s', phys_fat s', fat s', root_dir s', subdir s', cp_buf s', bin_img s',
        (file_list s')[i := (file_list s' ! i)\<lparr>f_buffer := []\<rparr>]) =
      (k_tty s, bootsector s, phys_fat s, fat s, root_dir s, subdir s, cp_buf s, bin_img s,
        (file_list s)[i := (file_list s ! i)\<lparr>f_buffer := []\<rparr>])"
    by (cases "i < length (file_list s)")
      (simp_all add: file_sink_def memcpy_put ram_bytes_def buf_put_def upd_file_def)
qed (simp_all add: disk_read_def)

section \<open>Properties\<close>

lemma fopen_slot:
  assumes "files_ok s" "first_free s = Some i"
  shows "i < 10" "mode_is (file_list s ! i) [117]" "file_ok (file_list s ! i)"
  using assms by (auto simp: first_free_def find_first_Some files_ok_def simp del: is_cstr.simps)

lemma name_slot_ok:
  assumes "files_ok s" "i < 10" "is_cstr nb p x" "length x < 32"
  shows "strcpy (f_name (file_list s ! i)) 0 nb p = Some (buf_put (f_name (file_list s ! i)) 0 (x @ [0]))"
    "files_ok (upd_file i (\<lambda>f. f\<lparr>f_name := buf_put (f_name (file_list s ! i)) 0 (x @ [0])\<rparr>) s)"
proof -
  have "file_ok (file_list s ! i)" using assms(1,2) by (simp add: files_ok_def)
  then have l: "length (f_name (file_list s ! i)) = 32" by (simp add: file_ok_def)
  then show "strcpy (f_name (file_list s ! i)) 0 nb p = Some (buf_put (f_name (file_list s ! i)) 0 (x @ [0]))"
    using strcpy_cstr [OF assms(3), of 0 "f_name (file_list s ! i)"] assms(4) by simp
  show "files_ok (upd_file i (\<lambda>f. f\<lparr>f_name := buf_put (f_name (file_list s ! i)) 0 (x @ [0])\<rparr>) s)"
    using assms l by (intro upd_file_ok) (auto simp: files_ok_def file_ok_def)
qed

lemma fopen_existing:
  assumes "files_ok s" "first_free s = Some i" "is_cstr nb p x" "length x < 32" "is_cstr mode q m" "length m < 4"
    and "curr_dir (k_tty s) = 19" "length (root_dir s) = 7168"
    and "find_first (\<lambda>j. name_at (root_dir s) (32 * j) = x) 0 224 = Some e"
    and "startCluster (root_dir s) (32 * e) = Some c" "fileLength (root_dir s) (32 * e) = Some n"
    and "chain (fat s) (ucast c) ks" "length ks \<le> 2" "disk_ok (length ks) s"
  shows "\<exists>s1. do_fopen nb p mode q s = Some (Some i, s1) \<and> length (file_list s1) = 10 \<and>
    f_fileLength (file_list s1 ! i) = n \<and> mode_is (file_list s1 ! i) m \<and> f_pos (file_list s1 ! i) = f_pos (file_list s ! i) \<and>
    f_buffer (file_list s1 ! i) = buf_put (f_buffer (file_list s ! i)) 0
      (concat (map (\<lambda>k. sector_of s (of_nat k + 31)) ks))"
proof -
  note slot = fopen_slot [OF assms(1,2)]
  let ?F = "file_list s ! i"
  have len: "length (file_list s) = 10" "length (f_buffer ?F) = 1024"
    using assms(1) slot by (simp_all add: files_ok_def file_ok_def)
  let ?s0 = "upd_file i (\<lambda>f. f\<lparr>f_name := buf_put (f_name ?F) 0 (x @ [0])\<rparr>) s"
  note nm = name_slot_ok [OF assms(1) slot(1) assms(3,4)]
  have fe: "fat12_find_entry nb p ?s0 = Some (Some (Root_entry e), ?s0)"
    using find_entry_root [OF _ assms(3), of ?s0] assms(7-9) by (simp add: is_root)
  let ?s1 = "upd_file i (\<lambda>f. f\<lparr>f_fileLength := n, f_startCluster := ucast c, f_currentCluster := ucast c\<rparr>) ?s0"
  have ok1: "files_ok ?s1"
    using files_ok_nth [OF nm(2) slot(1)] by (intro upd_file_ok nm(2)) (simp add: file_ok_def)
  obtain b where b: "set_mode i mode q ?s1 = Some (upd_file i (\<lambda>f. f\<lparr>f_mode := b\<rparr>) ?s1)" "is_cstr b 0 m"
    using set_mode_ok [OF ok1 slot(1) assms(5,6)] by blast
  let ?s2 = "upd_file i (\<lambda>f. f\<lparr>f_mode := b\<rparr>) ?s1"
  have "chain (fat ?s2) (ucast c) ks" using assms(12) by simp
  moreover have "disk_ok (length ks + 0) ?s2" using assms(14) by (simp add: disk_ok_def)
  moreover have "(0 + length ks) * 512 \<le> length (if i < length (file_list ?s2) then f_buffer (file_list ?s2 ! i) else [])"
    using assms(13) len slot(1) by simp
  ultimately obtain s3 where s3: "fat12_read_clusters (file_sink i) (ucast c) ?s2 = Some (length ks - 1, s3)"
    "(if i < length (file_list s3) then f_buffer (file_list s3 ! i) else []) =
      buf_put (f_buffer ?F) 0 (concat (map (\<lambda>k. sector_of ?s2 (of_nat k + 31)) ks))"
    "(file_list s3)[i := (file_list s3 ! i)\<lparr>f_buffer := []\<rparr>] = (file_list ?s2)[i := (file_list ?s2 ! i)\<lparr>f_buffer := []\<rparr>]"
    using file_target.read_chain_content [of ?s2 "ucast c" ks 0 0 i] len slot(1)
    by (auto simp: fat12_read_clusters_def)
  have l3: "length (file_list s3) = 10" using arg_cong [OF s3(3), of length] len by simp
  have f3: "(file_list s3 ! i)\<lparr>f_buffer := []\<rparr> = (file_list ?s2 ! i)\<lparr>f_buffer := []\<rparr>"
    using arg_cong [OF s3(3), of "\<lambda>l. l ! i"] l3 len slot(1) by simp
  have "do_fopen nb p mode q s = Some (Some i, s3)"
    using find_unused_free [OF assms(1)] assms(2,10,11) nm(1) fe b(1) s3(1)
    by (simp add: do_fopen_def entry_cluster_def)
  moreover have "f_fileLength (file_list s3 ! i) = n" "f_mode (file_list s3 ! i) = b" "f_pos (file_list s3 ! i) = f_pos ?F"
    using arg_cong [OF f3, of f_fileLength] arg_cong [OF f3, of f_mode] arg_cong [OF f3, of f_pos] len slot(1) by simp_all
  moreover have "sector_of ?s2 = sector_of s" by (simp add: sector_of_def fun_eq_iff)
  ultimately show ?thesis using s3(2) l3 slot(1) b(2) by auto
qed

text \<open>C39: a file of the root directory with at most two clusters is opened in the first unused slot, and
  \<^verbatim>\<open>do_fread\<close> then copies its first bytes, as they are on the disk, to the memory of the caller.\<close>

theorem fopen_fread:
  assumes "files_ok s" "first_free s = Some i" "is_cstr nb p x" "length x < 32"
    and "is_cstr mode q m" "length m < 4"
    and "curr_dir (k_tty s) = 19" "length (root_dir s) = 7168"
    and "find_first (\<lambda>j. name_at (root_dir s) (32 * j) = x) 0 224 = Some e"
    and "startCluster (root_dir s) (32 * e) = Some c" "fileLength (root_dir s) (32 * e) = Some n"
    and "chain (fat s) (ucast c) ks" "length ks \<le> 2" "disk_ok (length ks) s" "cnt \<le> length ks * 512"
  shows "\<exists>s1 s2. do_fopen nb p mode q s = Some (Some i, s1) \<and>
    f_fileLength (file_list s1 ! i) = n \<and>
    do_fread addr 1 (int cnt) i s1 = Some (int cnt, s2) \<and>
    ram_bytes (k_ram s2) addr cnt = take cnt (concat (map (\<lambda>k. sector_of s (of_nat k + 31)) ks))"
proof -
  obtain s1 where s1: "do_fopen nb p mode q s = Some (Some i, s1)" "length (file_list s1) = 10"
    "f_fileLength (file_list s1 ! i) = n"
    "f_buffer (file_list s1 ! i) = buf_put (f_buffer (file_list s ! i)) 0
      (concat (map (\<lambda>k. sector_of s (of_nat k + 31)) ks))"
    using fopen_existing [OF assms(1-14)] by blast
  note slot = fopen_slot [OF assms(1,2)]
  let ?c = "concat (map (\<lambda>k. sector_of s (of_nat k + 31)) ks)"
  have lc: "length ?c = length ks * 512"
    using assms(14) by (simp add: length_concat disk_ok_def sector_of_def o_def sum_list_triv)
  have lb: "length (f_buffer (file_list s ! i)) = 1024" using slot(3) by (simp add: file_ok_def)
  have tk: "take cnt (f_buffer (file_list s1 ! i)) = take cnt ?c"
    unfolding s1(4) buf_put_def using lc assms(15) by simp
  have "cnt \<le> length (f_buffer (file_list s1 ! i))"
    using s1(4) lc lb assms(13,15) by simp
  then have r: "do_fread addr 1 (int cnt) i s1 =
      Some (int cnt, s1\<lparr>k_ram := ram_put (k_ram s1) addr (take cnt (f_buffer (file_list s1 ! i)))\<rparr>)"
    using s1(2) slot(1) by (simp add: do_fread_def file_at_def)
  have "ram_bytes (ram_put (k_ram s1) addr (take cnt ?c)) addr cnt = take cnt ?c"
    using lc assms(15) by (intro nth_equalityI) (auto simp: ram_bytes_def ram_put_val)
  then show ?thesis using s1(1,3) r tk by auto
qed

lemma create_frame:
  assumes "fat12_create_file n nb q s = Some s'"
  shows "\<exists>f b. s' = s\<lparr>fat := f, root_dir := b\<rparr>"
proof (cases "find_first (\<lambda>i. rd (root_dir s) (32 * i) = Some 0) 0 224")
  case None
  then obtain f where "s' = s\<lparr>fat := f\<rparr>"
    using assms by (auto simp: fat12_create_file_def bind_Some_iff Let_def)
  then have "s' = s\<lparr>fat := f, root_dir := root_dir s\<rparr>" by simp
  then show ?thesis by blast
next
  case (Some i)
  then show ?thesis using assms by (auto simp: fat12_create_file_def bind_Some_iff Let_def)
qed

text \<open>C40: text written to a new file with \<^verbatim>\<open>do_fputs\<close> is made a file of the root directory when the
  file is closed, but its length is the position in the buffer, which no operation ever sets back: a
  slot that was written through before makes the next file longer by all that. The slot is unused
  again, and the disk has not changed.\<close>

theorem fputs_fclose:
  assumes "files_ok s" "first_free s = Some i" "is_cstr nb p (base @ 46 # ext)" "valid_name base ext"
    and "is_cstr mode q [119]" "is_cstr tb r txt" "1 \<le> f_pos (file_list s ! i) + length txt"
    and "f_pos (file_list s ! i) + length txt \<le> 1024"
    and "curr_dir (k_tty s) = 19" "length (root_dir s) = 7168"
    and "\<And>j. j < 224 \<Longrightarrow> name_at (root_dir s) (32 * j) \<noteq> base @ 46 # ext"
    and "length (fat s) = 3072" "clusters_for (int (f_pos (file_list s ! i) + length txt)) \<le> length (free_from (fat s) 2)"
    and "first_unused (root_dir s) = Some e"
  shows "\<exists>s1 s2 s3. do_fopen nb p mode q s = Some (Some i, s1) \<and> do_fputs tb r i s1 = Some (1, s2) \<and>
    do_fclose i s2 = Some (0, s3) \<and>
    fat12_find_entry nb p s3 = Some (Some (Root_entry e), s3) \<and>
    fileLength (root_dir s3) (32 * e) = Some (of_nat (f_pos (file_list s ! i) + length txt)) \<and>
    mode_is (file_list s3 ! i) [117] \<and>
    f_pos (file_list s3 ! i) = f_pos (file_list s ! i) + length txt \<and> k_ide s3 = k_ide s"
proof -
  note slot = fopen_slot [OF assms(1,2)]
  let ?x = "base @ 46 # ext" and ?F = "file_list s ! i"
  let ?n = "f_pos ?F + length txt"
  have F: "length (f_name ?F) = 32" "length (f_buffer ?F) = 1024" "length (file_list s) = 10"
    using slot assms(1) by (simp_all add: file_ok_def files_ok_def)
  have lx: "length ?x < 32" using assms(4) by (simp add: valid_name_def)
  let ?nm = "buf_put (f_name ?F) 0 (?x @ [0])"
  let ?s0 = "upd_file i (\<lambda>f. f\<lparr>f_name := ?nm\<rparr>) s"
  note nm = name_slot_ok [OF assms(1) slot(1) assms(3) lx]
  have none: "find_first (\<lambda>j. name_at (root_dir s) (32 * j) = ?x) 0 224 = None"
    using assms(11) by (simp add: find_first_None)
  have fe: "fat12_find_entry nb p ?s0 = Some (None, ?s0)"
    using find_entry_root [OF _ assms(3), of ?s0] assms(9,10) none by (simp add: is_root)
  obtain b where b: "set_mode i mode q ?s0 = Some (upd_file i (\<lambda>f. f\<lparr>f_mode := b\<rparr>) ?s0)" "length b = 4" "is_cstr b 0 [119]"
    using set_mode_ok [OF nm(2) slot(1) assms(5)] by auto
  have w: "strcmp mode q (lit ''w'') 0 = Some 0" "strcmp b 0 (lit ''w'') 0 = Some 0"
    using strcmp_lit [OF assms(5) lit_modes(2)] strcmp_lit [OF b(3) lit_modes(2)] by metis+
  let ?s1 = "upd_file i (\<lambda>f. f\<lparr>f_mode := b\<rparr>) ?s0"
  have op: "do_fopen nb p mode q s = Some (Some i, ?s1)"
    using find_unused_free [OF assms(1)] assms(2) nm(1) fe w(1) b(1) by (simp add: do_fopen_def)
  let ?b2 = "buf_put (f_buffer ?F) (f_pos ?F) (take (length txt) (drop r tb))"
  have lt: "r + length txt < length tb" by (rule is_cstr_length [OF assms(6)])
  have cp: "memcpy (f_buffer ?F) (f_pos ?F) tb r (length txt) = Some ?b2"
    using assms(8) F(2) lt by (intro memcpy_put) auto
  let ?s2 = "upd_file i (\<lambda>f. f\<lparr>f_buffer := ?b2, f_pos := f_pos f + length txt\<rparr>) ?s1"
  have put: "do_fputs tb r i ?s1 = Some (1, ?s2)"
    using slot(1) F(3) w(2) strlen_cstr [OF assms(6)] cp by (simp add: do_fputs_def file_at_def)
  have f2: "file_list ?s2 ! i = ?F\<lparr>f_name := ?nm, f_mode := b, f_buffer := ?b2, f_pos := ?n\<rparr>"
    using slot(1) F(3) by simp
  have ok2: "files_ok ?s2"
  proof -
    have "file_ok (file_list ?s0 ! i)" by (rule files_ok_nth [OF nm(2) slot(1)])
    moreover have "\<exists>m. is_cstr b 0 m" using b(3) by blast
    ultimately have "files_ok ?s1"
      using b(2) by (intro upd_file_ok nm(2)) (simp add: file_ok_def)
    moreover from files_ok_nth [OF this slot(1)] have "file_ok (file_list ?s1 ! i)" .
    ultimately show ?thesis using assms(8) F slot(1) lt
      by (elim upd_file_ok) (simp add: file_ok_def)
  qed
  have nm0: "is_cstr ?nm 0 ?x"
    using F(1) lx is_cstr_nonzero [OF assms(3)] by (intro buf_put_cstr) auto
  have n1: "1 \<le> int ?n" using assms(7) by linarith
  obtain s' where s': "fat12_create_file (int ?n) ?nm 0 ?s2 = Some s'" "length (root_dir s') = 7168"
    "name_at (root_dir s') (32 * e) = ?x"
    "\<forall>j < 224. j \<noteq> e \<longrightarrow> name_at (root_dir s') (32 * j) = name_at (root_dir ?s2) (32 * j)"
    "fileLength (root_dir s') (32 * e) = Some (word_of_int (int ?n))" "k_ide s' = k_ide ?s2" "k_tty s' = k_tty ?s2"
    using create_file_ok [OF nm0 assms(4) n1, of ?s2 e] assms(10,12-14) by auto
  obtain g h where fr: "s' = ?s2\<lparr>fat := g, root_dir := h\<rparr>" using create_frame [OF s'(1)] by blast
  have fl: "file_list s' = file_list ?s2" by (simp add: fr)
  have ok': "files_ok s'" using ok2 by (simp add: files_ok_def fl)
  obtain u where u: "set_mode i (lit ''u'') 0 s' = Some (upd_file i (\<lambda>f. f\<lparr>f_mode := u\<rparr>) s')" "is_cstr u 0 [117]"
    using set_mode_ok [OF ok' slot(1) lit_modes(1)] by auto
  let ?s3 = "enable_k (upd_file i (\<lambda>f. f\<lparr>f_mode := u\<rparr>) s')"
  have cl: "do_fclose i ?s2 = Some (0, ?s3)"
    using slot(1) F(3) f2 w(2) s'(1) u(1) by (simp add: do_fclose_def file_at_def)
  have "e < 224" using assms(14) by (simp add: first_unused_def find_first_Some)
  then have "find_first (\<lambda>j. name_at (root_dir s') (32 * j) = ?x) 0 224 = Some e"
    using s'(3,4) assms(11) by (simp add: find_first_Some)
  then have "fat12_find_entry nb p ?s3 = Some (Some (Root_entry e), ?s3)"
    using find_entry_root [OF _ assms(3), of ?s3] s'(2,7) assms(9) by (simp add: is_root)
  moreover have "file_list ?s3 ! i = ?F\<lparr>f_name := ?nm, f_mode := u, f_buffer := ?b2, f_pos := ?n\<rparr>"
    using f2 fl slot(1) F(3) by simp
  moreover have "k_ide ?s3 = k_ide s" "root_dir ?s3 = root_dir s'" using s'(6) by simp_all
  moreover have "word_of_int (int ?n) = (of_nat ?n :: u32)" by simp
  ultimately show ?thesis using op put cl s'(5) u(2)
    by (intro exI [of _ ?s1] exI [of _ ?s2] exI [of _ ?s3]) (simp del: is_cstr.simps of_nat_add)
qed

section \<open>A system with files\<close>

definition demo_file :: file_t where
  "demo_file = \<lparr>f_name = replicate 32 0, f_mode = [117, 0, 0, 0], f_buffer = replicate 1024 0, f_pos = 0,
     f_fileLength = 0, f_startCluster = 0, f_currentCluster = 0\<rparr>"

definition demo_vfs :: vfs where
  "demo_vfs = loader.extend demo_loader \<lparr>file_list = replicate 10 demo_file\<rparr>"

lemma demo_vfs_fields [simp]:
  "file_list demo_vfs = replicate 10 demo_file" "root_dir demo_vfs = demo_root" "fat demo_vfs = demo_fat"
  "k_tty demo_vfs = k_tty demo_sem" "k_ide demo_vfs = k_ide demo_fs" "cpu_edi demo_vfs = cpu_edi demo_fs"
  by (simp_all add: demo_vfs_def demo_loader_def demo_fs_def loader.defs fs.defs machine.defs)

lemma demo_vfs_disk: "disk_ok 40 demo_vfs"
  using demo_fs_disk unfolding disk_ok_def by simp

lemma demo_files: "files_ok demo_vfs" "first_free demo_vfs = Some 0"
proof -
  have "mode_is demo_file [117]" by (simp add: demo_file_def rd_def)
  then have "\<exists>m. mode_is demo_file m" by blast
  then show "files_ok demo_vfs" by (simp add: files_ok_def file_ok_def) (simp add: demo_file_def)
  show "first_free demo_vfs = Some 0"
    using \<open>mode_is demo_file [117]\<close> by (simp add: first_free_def find_first_Some del: is_cstr.simps)
qed

lemma fopen_fread_witness:
  "\<exists>s1 s2. do_fopen [97, 46, 116, 120, 116, 0] 0 [114, 0] 0 demo_vfs = Some (Some 0, s1) \<and>
    do_fread 0x20000 1 600 0 s1 = Some (600, s2) \<and>
    ram_bytes (k_ram s2) 0x20000 600 = replicate 512 33 @ replicate 88 35"
proof -
  have c: "is_cstr [97, 46, 116, 120, 116, 0] 0 [97, 46, 116, 120, 116]" "is_cstr [114, 0] 0 [114]"
    by (simp_all add: rd_def)
  have f: "find_first (\<lambda>j. name_at demo_root (32 * j) = [97, 46, 116, 120, 116]) 0 224 = Some 0"
    using demo_root_entries by (simp add: find_first_Some)
  have e: "startCluster demo_root 0 = Some 2" "fileLength demo_root 0 = Some 600"
    by (simp_all add: startCluster_def fileLength_def get32_def get16_def demo_root_head rd_def)
  have d: "disk_ok (length [2, 4 :: nat]) demo_vfs" by (rule disk_ok_less [OF demo_vfs_disk]) simp
  have "sector_of demo_vfs 33 = replicate 512 33" "sector_of demo_vfs 35 = replicate 512 35"
    by (simp_all add: sector_of_def demo_ide_def)
  then have t: "take 600 (concat (map (\<lambda>k. sector_of demo_vfs (of_nat k + 31)) [2, 4])) =
      replicate 512 33 @ replicate 88 35" by simp
  have "length (fat demo_vfs) = 3072" "chain (fat demo_vfs) (ucast (2 :: u16)) [2, 4]" using demo_fat_free by simp_all
  from fopen_fread [OF demo_files c(1) _ c(2) _ _ _ _ _ _ this(2) _ d, of 0 600 600 "0x20000"]
  show ?thesis using f e t by simp blast
qed

lemma fputs_fclose_witness:
  "\<exists>s1 s2 s3. do_fopen [98, 46, 99, 0] 0 [119, 0] 0 demo_vfs = Some (Some 0, s1) \<and>
    do_fputs [104, 105, 0] 0 0 s1 = Some (1, s2) \<and> do_fclose 0 s2 = Some (0, s3) \<and>
    fat12_find_entry [98, 46, 99, 0] 0 s3 = Some (Some (Root_entry 2), s3) \<and> f_pos (file_list s3 ! 0) = 2"
proof -
  have c: "is_cstr [98, 46, 99, 0] 0 ([98] @ 46 # [99])" "is_cstr [119, 0] 0 [119]" "is_cstr [104, 105, 0] 0 [104, 105]"
    by (simp_all add: rd_def)
  have v: "valid_name [98] [99]" by (simp add: valid_name_def lower_def)
  have n: "name_at demo_root (32 * j) \<noteq> [98] @ 46 # [99]" if "j < 224" for j
  proof -
    consider "j = 0" | "j = 1" | "2 \<le> j" by linarith
    then show ?thesis
    proof cases
      case 3
      then show ?thesis using name_at_unused [of "32 * j" demo_root] demo_root_zero that by simp
    qed (use demo_root_entries in simp_all)
  qed
  have p: "f_pos demo_file = 0" by (simp add: demo_file_def)
  then show ?thesis
    using fputs_fclose [OF demo_files c(1) v c(2,3), of 2] n demo_root_unused demo_fat_free
    by (auto simp: clusters_for_def)
qed

end
