(* ===== verification/Syscalls.thy ===== *)
theory Syscalls
  imports Systhread Semaphore Sysfile
begin

text \<open>
  System calls: \<^verbatim>\<open>include/syscall.h\<close>, the handlers of the interrupts 0x80, 0x81 and 0x82 in
  \<^verbatim>\<open>kernel_entry.asm\<close>, and the functions of the user's headers \<^verbatim>\<open>api.h\<close>, \<^verbatim>\<open>pthread.h\<close> and \<^verbatim>\<open>file.h\<close>
  that raise them. A handler receives the registers \<open>r\<close> of the caller; the value it returns is the
  caller's \<open>eax\<close> when the call comes back.
\<close>

section \<open>Interrupt 0x80\<close>

definition logo_line :: "buf \<Rightarrow> buf" where "logo_line s = s @ [10]"

definition logo_text :: buf where
  "logo_text =
     logo_line (map of_char ''     =====    ||     ||    ======='') @
     logo_line (map of_char ''   //         ||     ||        //'') @
     logo_line (map of_char ''   ||         ||=====||      // '') @
     logo_line (map of_char ''   '' @ [92, 92] @ map of_char ''         ||     ||    //'') @
     logo_line (map of_char ''     =====    ||     ||    ======='')"

definition LOGO :: buf where "LOGO = logo_text @ [0]"

text \<open>
  \<^verbatim>\<open>sleep\<close> reads the tick count until the time has come; \<open>n\<close> is the number of timer interrupts still
  to come (each only counts here), without one it waits for ever.
\<close>

fun sleep_loop :: "nat \<Rightarrow> int \<Rightarrow> pit \<Rightarrow> pit option" where
  "sleep_loop n ticks t =
     (if word_of_int ticks > get_tick_count t then
        (case n of 0 \<Rightarrow> None
         | Suc n \<Rightarrow> sleep_loop n ticks (t\<lparr>pit_ticks := pit_ticks t + 1\<rparr>))
      else Some t)"

definition sleep :: "nat \<Rightarrow> int \<Rightarrow> pit \<Rightarrow> pit option" where
  "sleep n ms t = sleep_loop n (sint (word_of_int ms + get_tick_count t)) t"

definition sys_interrupt_handler_main ::
  "u32 \<Rightarrow> u32 \<Rightarrow> 'a kernel_scheme \<Rightarrow> (u32, 'a kernel_scheme) outcome option" where
  "sys_interrupt_handler_main no arg s =
     (if no = 0 then
        do { t \<leftarrow> printf (lit ''%s'') 0 [Arg_str LOGO 0] (k_tty s);
             Some (Returns 0 (s\<lparr>k_tty := t\<rparr>)) }
      else if no = 1 then
        do { t \<leftarrow> put_info (lit ''Sleep for 100ms'') 0 (k_tty s);
             t \<leftarrow> put_info (lit ''Done sleep!'') 0 t;
             Some (Returns 0 (s\<lparr>k_tty := t\<rparr>)) }
      else if no = 10 then do { (v, s) \<leftarrow> do_fork s; Some (Returns (word_of_int v) s) }
      else if no = 11 then and_then (do_wait s) (\<lambda>_ s. Some (Returns 0 s))
      else if no = 12 then and_then (do_exit s) (\<lambda>_ s. Some (Returns 0 s))
      else if no = 13 then Some (Returns (word_of_int (sys_get_pid s)) s)
      else if no = 20 then (case do_getsem (sint arg) s of (v, s) \<Rightarrow> Some (Returns (word_of_int v) s))
      else if no = 21 then and_then (do_sem_p (sint arg) s) (\<lambda>_ s. Some (Returns 0 s))
      else if no = 22 then and_then (do_sem_v (sint arg) s) (\<lambda>_ s. Some (Returns 0 s))
      else if no = 23 then do { s \<leftarrow> do_freesem (sint arg) s; Some (Returns 0 s) }
      else if no = 100 then and_then (sys_return_to_shell s) (\<lambda>_ s. Some (Returns 0 s))
      else Some (Returns 0 s))"

section \<open>Interrupt 0x82\<close>

text \<open>
  A string of the caller is read from RAM. The destinations of such strings are all shorter than 2048
  bytes, so a string without NUL in its first 2048 bytes has no defined result in any case. \<open>fl\<close> is
  the address of \<^verbatim>\<open>file_list\<close>, 1076 the size of its elements.
\<close>

definition ram_string :: "ram \<Rightarrow> u32 \<Rightarrow> buf" where
  "ram_string m a = ram_bytes m (unat a) 2048"

definition file_ptr :: "u32 \<Rightarrow> nat option \<Rightarrow> u32" where
  "file_ptr fl r = (case r of None \<Rightarrow> 0 | Some i \<Rightarrow> fl + of_nat (1076 * i))"

definition file_index :: "u32 \<Rightarrow> u32 \<Rightarrow> nat option" where
  "file_index fl p =
     (let d = unat (p - fl) in if d mod 1076 = 0 \<and> d div 1076 < 10 then Some (d div 1076) else None)"

definition sys_file_handler_main ::
  "u32 \<Rightarrow> u32 \<Rightarrow> u32 \<Rightarrow> u32 \<Rightarrow> u32 \<Rightarrow> u32 \<Rightarrow> 'a vfs_scheme \<Rightarrow> (u32 \<times> 'a vfs_scheme) option" where
  "sys_file_handler_main fl no arg1 arg2 arg3 arg4 s =
     (if no = 0 then
        do { (r, s) \<leftarrow> do_fopen (ram_string (k_ram s) arg1) 0 (ram_string (k_ram s) arg2) 0 s;
             Some (file_ptr fl r, s) }
      else if no = 1 then
        do { fp \<leftarrow> file_index fl arg1; (v, s) \<leftarrow> do_fclose fp s; Some (word_of_int v, s) }
      else if no = 2 then
        do { fp \<leftarrow> file_index fl arg4;
             (v, s) \<leftarrow> do_fread (unat arg1) (sint arg2) (sint arg3) fp s;
             Some (word_of_int v, s) }
      else if no = 3 then
        do { fp \<leftarrow> file_index fl arg4;
             (v, s) \<leftarrow> do_fwrite (unat arg1) (sint arg2) (sint arg3) fp s;
             Some (word_of_int v, s) }
      else if no = 4 then
        do { fp \<leftarrow> file_index fl arg3;
             (v, s) \<leftarrow> do_fgets (unat arg1) (sint arg2) fp s;
             Some (of_nat v, s) }
      else if no = 5 then
        do { fp \<leftarrow> file_index fl arg2;
             (v, s) \<leftarrow> do_fputs (ram_string (k_ram s) arg1) 0 fp s;
             Some (word_of_int v, s) }
      else Some (0, s))"

section \<open>The handlers\<close>

text \<open>Interrupts off, the registers saved in the current process, the call, interrupts on.\<close>

definition sys_interrupt_handler ::
  "regs \<Rightarrow> 'a kernel_scheme \<Rightarrow> (u32, 'a kernel_scheme) outcome option" where
  "sys_interrupt_handler r s =
     and_then (sys_interrupt_handler_main (r_eax r) (r_ebx r) (save_proc r (disable_k s)))
       (\<lambda>v s. Some (Returns v (enable_k s)))"

definition sys_pthread_handler ::
  "u32 \<Rightarrow> regs \<Rightarrow> regs \<Rightarrow> 'a kstate_scheme \<Rightarrow> (u32, 'a kstate_scheme) outcome option" where
  "sys_pthread_handler ra kr r s =
     and_then (sys_pthread_handler_main ra kr r (save_proc r (disable_k s)))
       (\<lambda>v s. Some (Returns v (enable_k s)))"

definition sys_file_handler :: "u32 \<Rightarrow> regs \<Rightarrow> 'a vfs_scheme \<Rightarrow> (u32 \<times> 'a vfs_scheme) option" where
  "sys_file_handler fl r s =
     do { (v, s) \<leftarrow> sys_file_handler_main fl (r_eax r) (r_ebx r) (r_esi r) (r_edx r) (r_edi r)
            (save_proc r (disable_k s));
          Some (v, enable_k s) }"

section \<open>The user's functions\<close>

text \<open>\<open>r\<close> are the registers of the program at the interrupt but for those that the function sets.\<close>

definition fork :: "regs \<Rightarrow> 'a kernel_scheme \<Rightarrow> (u32, 'a kernel_scheme) outcome option" where
  "fork r s = sys_interrupt_handler (r\<lparr>r_eax := 10\<rparr>) s"

definition wait :: "regs \<Rightarrow> 'a kernel_scheme \<Rightarrow> (u32, 'a kernel_scheme) outcome option" where
  "wait r s = sys_interrupt_handler (r\<lparr>r_eax := 11\<rparr>) s"

definition exit :: "regs \<Rightarrow> 'a kernel_scheme \<Rightarrow> (u32, 'a kernel_scheme) outcome option" where
  "exit r s = sys_interrupt_handler (r\<lparr>r_eax := 12\<rparr>) s"

definition get_pid :: "regs \<Rightarrow> 'a kernel_scheme \<Rightarrow> (u32, 'a kernel_scheme) outcome option" where
  "get_pid r s = sys_interrupt_handler (r\<lparr>r_eax := 13\<rparr>) s"

definition get_sem :: "u32 \<Rightarrow> regs \<Rightarrow> 'a kernel_scheme \<Rightarrow> (u32, 'a kernel_scheme) outcome option" where
  "get_sem val r s = sys_interrupt_handler (r\<lparr>r_ebx := val, r_eax := 20\<rparr>) s"

definition sem_wait :: "u32 \<Rightarrow> regs \<Rightarrow> 'a kernel_scheme \<Rightarrow> (u32, 'a kernel_scheme) outcome option" where
  "sem_wait sem_id r s = sys_interrupt_handler (r\<lparr>r_ebx := sem_id, r_eax := 21\<rparr>) s"

definition sem_signal :: "u32 \<Rightarrow> regs \<Rightarrow> 'a kernel_scheme \<Rightarrow> (u32, 'a kernel_scheme) outcome option" where
  "sem_signal sem_id r s = sys_interrupt_handler (r\<lparr>r_ebx := sem_id, r_eax := 22\<rparr>) s"

definition free_sem :: "u32 \<Rightarrow> regs \<Rightarrow> 'a kernel_scheme \<Rightarrow> (u32, 'a kernel_scheme) outcome option" where
  "free_sem sem_id r s = sys_interrupt_handler (r\<lparr>r_ebx := sem_id, r_eax := 23\<rparr>) s"

definition pthread_create ::
  "u32 \<Rightarrow> u32 \<Rightarrow> u32 \<Rightarrow> u32 \<Rightarrow> regs \<Rightarrow> regs \<Rightarrow> 'a kstate_scheme \<Rightarrow> (u32, 'a kstate_scheme) outcome option" where
  "pthread_create tid func args ra kr r s =
     sys_pthread_handler ra kr (r\<lparr>r_eax := 0, r_ebx := tid, r_ecx := func, r_edx := args\<rparr>) s"

definition pthread_join ::
  "u32 \<Rightarrow> u32 \<Rightarrow> u32 \<Rightarrow> regs \<Rightarrow> regs \<Rightarrow> 'a kstate_scheme \<Rightarrow> (u32, 'a kstate_scheme) outcome option" where
  "pthread_join tid ret ra kr r s =
     sys_pthread_handler ra kr (r\<lparr>r_eax := 1, r_ebx := tid, r_ecx := ret\<rparr>) s"

definition pthread_self ::
  "u32 \<Rightarrow> regs \<Rightarrow> regs \<Rightarrow> 'a kstate_scheme \<Rightarrow> (u32, 'a kstate_scheme) outcome option" where
  "pthread_self ra kr r s = sys_pthread_handler ra kr (r\<lparr>r_eax := 2\<rparr>) s"

definition pthread_exit ::
  "u32 \<Rightarrow> regs \<Rightarrow> regs \<Rightarrow> 'a kstate_scheme \<Rightarrow> (u32, 'a kstate_scheme) outcome option" where
  "pthread_exit ra kr r s = sys_pthread_handler ra kr (r\<lparr>r_eax := 3\<rparr>) s"

text \<open>\<^verbatim>\<open>user_pthread_return\<close>, where a thread function returns to.\<close>

definition user_pthread_return ::
  "u32 \<Rightarrow> regs \<Rightarrow> regs \<Rightarrow> 'a kstate_scheme \<Rightarrow> (u32, 'a kstate_scheme) outcome option" where
  "user_pthread_return ra kr r s = sys_pthread_handler ra kr (r\<lparr>r_eax := 3\<rparr>) s"

definition fopen :: "u32 \<Rightarrow> u32 \<Rightarrow> u32 \<Rightarrow> regs \<Rightarrow> 'a vfs_scheme \<Rightarrow> (u32 \<times> 'a vfs_scheme) option" where
  "fopen fl pname mode r s = sys_file_handler fl (r\<lparr>r_eax := 0, r_ebx := pname, r_esi := mode\<rparr>) s"

definition fclose :: "u32 \<Rightarrow> u32 \<Rightarrow> regs \<Rightarrow> 'a vfs_scheme \<Rightarrow> (u32 \<times> 'a vfs_scheme) option" where
  "fclose fl fp r s = sys_file_handler fl (r\<lparr>r_eax := 1, r_ebx := fp\<rparr>) s"

definition fread ::
  "u32 \<Rightarrow> u32 \<Rightarrow> u32 \<Rightarrow> u32 \<Rightarrow> u32 \<Rightarrow> regs \<Rightarrow> 'a vfs_scheme \<Rightarrow> (u32 \<times> 'a vfs_scheme) option" where
  "fread fl addr sz count fp r s =
     sys_file_handler fl (r\<lparr>r_eax := 2, r_edi := fp, r_ebx := addr, r_esi := sz, r_edx := count\<rparr>) s"

definition fwrite ::
  "u32 \<Rightarrow> u32 \<Rightarrow> u32 \<Rightarrow> u32 \<Rightarrow> u32 \<Rightarrow> regs \<Rightarrow> 'a vfs_scheme \<Rightarrow> (u32 \<times> 'a vfs_scheme) option" where
  "fwrite fl addr sz count fp r s =
     sys_file_handler fl (r\<lparr>r_eax := 3, r_edi := fp, r_ebx := addr, r_esi := sz, r_edx := count\<rparr>) s"

definition fgets ::
  "u32 \<Rightarrow> u32 \<Rightarrow> u32 \<Rightarrow> u32 \<Rightarrow> regs \<Rightarrow> 'a vfs_scheme \<Rightarrow> (u32 \<times> 'a vfs_scheme) option" where
  "fgets fl str count stream r s =
     sys_file_handler fl (r\<lparr>r_eax := 4, r_ebx := str, r_esi := count, r_edx := stream\<rparr>) s"

definition fputs :: "u32 \<Rightarrow> u32 \<Rightarrow> u32 \<Rightarrow> regs \<Rightarrow> 'a vfs_scheme \<Rightarrow> (u32 \<times> 'a vfs_scheme) option" where
  "fputs fl str stream r s = sys_file_handler fl (r\<lparr>r_eax := 5, r_ebx := str, r_esi := stream\<rparr>) s"

section \<open>What the handlers keep\<close>

lemma and_then_keeps:
  assumes "and_then m f = Some out" and "\<And>z. m = Some z \<Longrightarrow> P (out_state z)"
    and "\<And>a s z. P s \<Longrightarrow> f a s = Some z \<Longrightarrow> P (out_state z)"
  shows "P (out_state out)"
proof (cases m)
  case (Some z)
  then have "P (out_state z)" by (rule assms(2))
  then show ?thesis using assms(1,3) Some by (cases z) auto
qed (use assms(1) in simp)

abbreviation clean :: "buf \<Rightarrow> bool" where "clean x \<equiv> no_bs x \<and> 0 \<notin> set x"

lemma print_clean:
  assumes "tty_inv t" "clean x" "x \<noteq> []"
  shows "\<exists>t'. print (x @ [0]) 0 t = Some t' \<and> tty_inv t'"
  using assms by (intro print_inv [where s = x] cstr_self) auto

lemma put_info_cstr:
  assumes "tty_inv t" "is_cstr str 0 x" "no_bs x" "x \<noteq> []"
  shows "\<exists>t'. put_info str 0 t = Some t' \<and> tty_inv t'"
proof -
  have c: "clean (map of_char ''[ '')" "clean (map of_char ''OK'')" "clean (map of_char '' ] '')" "clean [10]"
    by (simp_all add: no_bs_def)
  have 1: "tty_inv (set_color 15 0 t)" using assms(1) by simp
  obtain t1 where t1: "print (lit ''[ '') 0 (set_color 15 0 t) = Some t1" "tty_inv t1"
    using print_clean [OF 1 c(1)] unfolding lit_def by auto
  have 2: "tty_inv (set_color 2 0 t1)" using t1 by simp
  obtain t2 where t2: "print (lit ''OK'') 0 (set_color 2 0 t1) = Some t2" "tty_inv t2"
    using print_clean [OF 2 c(2)] unfolding lit_def by auto
  have 3: "tty_inv (set_color 15 0 t2)" using t2 by simp
  obtain t3 where t3: "print (lit '' ] '') 0 (set_color 15 0 t2) = Some t3" "tty_inv t3"
    using print_clean [OF 3 c(3)] unfolding lit_def by auto
  obtain t4 where t4: "print str 0 t3 = Some t4" "tty_inv t4"
    using print_inv [OF t3(2) assms(2-4)] by blast
  obtain t5 where t5: "print [10, 0] 0 t4 = Some t5" "tty_inv t5"
    using print_clean [OF t4(2) c(4)] by auto
  show ?thesis using t1 t2 t3 t4 t5 by (simp add: put_info_def Let_def)
qed

lemma put_info_inv:
  assumes "tty_inv t" "clean x" "x \<noteq> []"
  shows "\<exists>t'. put_info (x @ [0]) 0 t = Some t' \<and> tty_inv t'"
  using assms by (intro put_info_cstr [where x = x] cstr_self) auto

lemma clean_logo: "clean logo_text"
  by code_simp

lemma print_logo:
  assumes "tty_inv t"
  shows "\<exists>t'. printf (lit ''%s'') 0 [Arg_str LOGO 0] t = Some t' \<and> tty_inv t'"
proof -
  have c: "is_cstr (lit ''%s'') 0 [37, 115]" by (simp add: lit_def rd_def)
  have "cstr_at LOGO 0 = Some logo_text"
    using clean_logo by (intro cstr_at_cstr) (simp add: LOGO_def cstr_self)
  then have "render [37, 115] [Arg_str LOGO 0] = Some logo_text"
    by (simp add: render.simps(2) int_prefix_def conversion_def)
  then show ?thesis using printf_render [OF c] put_chars_inv [OF assms] clean_logo by metis
qed

lemma ok_tty: "proc_ok s \<Longrightarrow> tty_inv (k_tty s)"
  by (simp add: proc_ok_def proc_ok0_def)

lemma ok_set_tty: "proc_ok s \<Longrightarrow> tty_inv t \<Longrightarrow> proc_ok (s\<lparr>k_tty := t\<rparr>)"
  by (simp add: proc_ok_def proc_ok0_def)

lemma proc_alloc_None: "proc_alloc s = (None, s') \<Longrightarrow> s' = s"
  by (auto simp: proc_alloc_def Let_def split: option.splits)

lemma do_fork_keeps: "proc_ok s \<Longrightarrow> do_fork s = Some (v, s') \<Longrightarrow> proc_ok s'"
proof (cases "curr_proc s")
  case None
  moreover assume "do_fork s = Some (v, s')" "proc_ok s"
  ultimately show ?thesis
    using proc_alloc_inv(5) [of "disable_k s"]
    by (auto simp: do_fork_def Let_def proc_ok_ok0 dest!: proc_alloc_None split: option.splits prod.splits)
next
  case (Some c)
  moreover assume "do_fork s = Some (v, s')" "proc_ok s"
  ultimately show ?thesis
    using do_fork_eq [of s c] forked_ok [of s c] by (auto split: if_splits simp: proc_ok_def proc_ok0_def table_ok_def)
qed


lemma do_wait_keeps: "proc_ok s \<Longrightarrow> do_wait s = Some z \<Longrightarrow> proc_ok (out_state z)"
  using do_wait_ok [of s] by (cases "curr_proc s") (auto simp: do_wait_def)

lemma do_exit_keeps: "proc_ok s \<Longrightarrow> do_exit s = Some z \<Longrightarrow> proc_ok (out_state z)"
  using do_exit_ok [of s] by (cases "curr_proc s") (auto simp: do_exit_def)

lemma shell_keeps:
  assumes "proc_ok s" "sys_return_to_shell s = Some z"
  shows "proc_ok (out_state z)"
proof -
  obtain c where c: "curr_proc s = Some c" using assms(2) by (cases "curr_proc s") (auto simp: sys_return_to_shell_def)
  note t = ok_taken [OF proc_ok_ok0 [OF assms(1)] c]
  let ?u = "upd_proc c (\<lambda>p. p\<lparr>status := PROC_TERMINATED\<rparr>) s"
  have "proc_ok0 ?u" using t proc_ok_ok0 [OF assms(1)] by (intro status_upd_ok) auto
  then have "proc_ok ?u" using assms(1) c t(1) by (simp add: proc_ok_def)
  then have "proc_ok (?u\<lparr>curr_proc := None\<rparr>)"
    using c t(1) assms(1) by (intro no_current_ok [where c = c]) (auto simp: proc_ok_ok0)
  then show ?thesis using assms(2) c by (auto simp: sys_return_to_shell_def Let_def)
qed

lemma do_sem_p_keeps:
  assumes "proc_ok s" "do_sem_p i s = Some z"
  shows "proc_ok (out_state z)"
proof -
  obtain n where n: "sem_index i s = Some n"
    using assms(2) by (cases "sem_index i (disable_k s)") (auto simp: do_sem_p_def sem_index_def)
  have n': "sem_index i (disable_k s) = Some n" using n by (simp add: sem_index_def)
  let ?u = "upd_sem n (\<lambda>x. x\<lparr>sem_val := sem_val x - 1\<rparr>) (disable_k s)"
  have u: "proc_ok ?u" using assms(1) by simp
  show ?thesis
  proof (cases "sem_val (sem_list ?u ! n) < 0")
    case True
    then obtain c where c: "curr_proc s = Some c" using assms(2) n' by (cases "curr_proc s") (auto simp: do_sem_p_def)
    let ?v = "upd_sem n (\<lambda>x. x\<lparr>sem_head := Some c\<rparr>)
      (upd_proc c (\<lambda>p. p\<lparr>p_next := sem_head (sem_list ?u ! n)\<rparr>) ?u)"
    have v: "proc_ok ?v" using upd_next_ok [OF u] by simp
    have "and_then (do_wait ?v) (\<lambda>_ s. Some (Returns () (enable_k s))) = Some z"
      using assms(2) n' True c by (simp add: do_sem_p_def Let_def)
    then show ?thesis
      by (rule and_then_keeps [where P = proc_ok]) (use do_wait_keeps [OF v] in auto)
  next
    case False
    then show ?thesis using assms n' by (auto simp: do_sem_p_def Let_def)
  qed
qed

lemma do_sem_v_keeps:
  assumes "proc_ok s" "do_sem_v i s = Some z"
  shows "proc_ok (out_state z)"
proof -
  obtain n where n: "sem_index i (disable_k s) = Some n"
    using assms(2) by (cases "sem_index i (disable_k s)") (auto simp: do_sem_v_def)
  let ?u = "upd_sem n (\<lambda>x. x\<lparr>sem_val := sem_val x + 1\<rparr>) (disable_k s)"
  have u: "proc_ok ?u" using assms(1) by simp
  show ?thesis
  proof (cases "sem_val (sem_list ?u ! n) \<le> 0")
    case True
    obtain h where h: "sem_head (sem_list ?u ! n) = Some h"
      using assms(2) n True by (cases "sem_head (sem_list ?u ! n)") (auto simp: do_sem_v_def Let_def)
    obtain c where c: "curr_proc s = Some c"
      using assms(2) n True h by (cases "curr_proc s") (auto simp: do_sem_v_def Let_def)
    let ?v = "upd_sem n (\<lambda>x. x\<lparr>sem_head := p_next (proc_list ?u ! c)\<rparr>) ?u"
    have v: "proc_ok ?v" using u by simp
    obtain w where "and_then (wakeup w ?v) (\<lambda>_ s. Some (Returns () (enable_k s))) = Some z"
      using assms(2) n True h c by (simp add: do_sem_v_def Let_def)
    then show ?thesis
      by (rule and_then_keeps [where P = proc_ok]) (use wakeup_ok [OF v, of w] in auto)
  next
    case False
    then show ?thesis using assms n by (auto simp: do_sem_v_def Let_def)
  qed
qed

lemma do_getsem_keeps: "proc_ok s \<Longrightarrow> do_getsem v s = (x, s') \<Longrightarrow> proc_ok s'"
  by (auto simp: do_getsem_def sem_alloc_def split: option.splits prod.splits)

lemma do_freesem_keeps: "proc_ok s \<Longrightarrow> do_freesem i s = Some s' \<Longrightarrow> proc_ok s'"
  by (auto simp: do_freesem_def split: bind_splits)


lemma handler_main_keeps:
  assumes "proc_ok s" "sys_interrupt_handler_main no arg s = Some z"
  shows "proc_ok (out_state z)"
proof -
  note t = ok_tty [OF assms(1)]
  obtain t1 where t1: "put_info (lit ''Sleep for 100ms'') 0 (k_tty s) = Some t1" "tty_inv t1"
    using put_info_inv [OF t, of "map of_char ''Sleep for 100ms''"] by (auto simp: no_bs_def lit_def)
  obtain t2 where t2: "put_info (lit ''Done sleep!'') 0 t1 = Some t2" "tty_inv t2"
    using put_info_inv [OF t1(2), of "map of_char ''Done sleep!''"] by (auto simp: no_bs_def lit_def)
  have unit: "proc_ok (out_state z)"
    if "and_then m (\<lambda>_ s. Some (Returns 0 s)) = Some z" "\<And>y. m = Some y \<Longrightarrow> proc_ok (out_state y)"
    for m :: "(unit, 'a kernel_scheme) outcome option"
    using that by (rule and_then_keeps) auto
  consider "no = 0" | "no = 1" | "no = 10" | "no = 11" | "no = 12" | "no = 13" | "no = 20" | "no = 21"
    | "no = 22" | "no = 23" | "no = 100" | "no \<notin> {0, 1, 10, 11, 12, 13, 20, 21, 22, 23, 100}" by blast
  then show ?thesis
  proof cases
    case 1
    then show ?thesis using assms print_logo [OF t] ok_set_tty
      by (auto simp: sys_interrupt_handler_main_def)
  next
    case 2
    then show ?thesis using assms t1 t2 ok_set_tty by (auto simp: sys_interrupt_handler_main_def)
  next
    case 3
    then show ?thesis using assms do_fork_keeps
      by (auto simp: sys_interrupt_handler_main_def split: bind_splits)
  next
    case 4
    then show ?thesis using assms(2) unit [OF _ do_wait_keeps [OF assms(1)]]
      by (simp add: sys_interrupt_handler_main_def)
  next
    case 5
    then show ?thesis using assms(2) unit [OF _ do_exit_keeps [OF assms(1)]]
      by (simp add: sys_interrupt_handler_main_def)
  next
    case 6
    then show ?thesis using assms by (auto simp: sys_interrupt_handler_main_def)
  next
    case 7
    then show ?thesis using assms do_getsem_keeps [of s]
      by (auto simp: sys_interrupt_handler_main_def split: prod.splits)
  next
    case 8
    then show ?thesis using assms(2) unit [OF _ do_sem_p_keeps [OF assms(1)]]
      by (simp add: sys_interrupt_handler_main_def)
  next
    case 9
    then show ?thesis using assms(2) unit [OF _ do_sem_v_keeps [OF assms(1)]]
      by (simp add: sys_interrupt_handler_main_def)
  next
    case 10
    then show ?thesis using assms do_freesem_keeps
      by (auto simp: sys_interrupt_handler_main_def split: bind_splits)
  next
    case 11
    then show ?thesis using assms(2) unit [OF _ shell_keeps [OF assms(1)]]
      by (simp add: sys_interrupt_handler_main_def)
  next
    case 12
    then show ?thesis using assms by (auto simp: sys_interrupt_handler_main_def)
  qed
qed

text \<open>The semaphore number of the calls that take one, and the waiting list of the one that needs it.\<close>

definition call_ok :: "u32 \<Rightarrow> u32 \<Rightarrow> 'a kernel_scheme \<Rightarrow> bool" where
  "call_ok no arg s \<longleftrightarrow>
     (no \<in> {21, 22, 23} \<longrightarrow> 0 \<le> sint arg \<and> sint arg < int (length (sem_list s))) \<and>
     (no = 22 \<longrightarrow> (let x = sem_list s ! nat (sint arg) in 0 \<le> sem_val x \<or> sem_head x \<noteq> None))"

lemma and_then_Some: "(\<exists>z. and_then m (\<lambda>a s. Some (f a s)) = Some z) \<longleftrightarrow> (\<exists>z. m = Some z)"
proof (cases m)
  case (Some z)
  then show ?thesis by (cases z) auto
qed simp

lemma and_then_defined: "and_then m (\<lambda>a s. Some (f a s)) = None \<longleftrightarrow> m = None"
  using and_then_Some [of m f] by (metis not_None_eq)

lemma do_sem_p_defined:
  assumes "proc_ok s" "curr_proc s = Some c"
  shows "do_sem_p i s = None \<longleftrightarrow> sem_index i s = None"
proof (cases "sem_index i s")
  case None
  then have "sem_index i (disable_k s) = None" by (simp add: sem_index_def)
  then show ?thesis using None by (simp add: do_sem_p_def)
next
  case (Some n)
  then have n: "sem_index i (disable_k s) = Some n" by (simp add: sem_index_def)
  let ?u = "upd_sem n (\<lambda>x. x\<lparr>sem_val := sem_val x - 1\<rparr>) (disable_k s)"
  have u: "proc_ok ?u" using assms(1) by simp
  let ?v = "upd_sem n (\<lambda>x. x\<lparr>sem_head := Some c\<rparr>)
      (upd_proc c (\<lambda>p. p\<lparr>p_next := sem_head (sem_list ?u ! n)\<rparr>) ?u)"
  have "do_wait ?v \<noteq> None" using do_wait_ok [of ?v c] upd_next_ok [OF u] assms(2) by auto
  then show ?thesis using n Some assms(2) by (auto simp: do_sem_p_def Let_def and_then_Some)
qed

lemma do_sem_v_defined:
  assumes "proc_ok s" "curr_proc s = Some c"
  shows "do_sem_v i s = None \<longleftrightarrow> (case sem_index i s of None \<Rightarrow> True
    | Some n \<Rightarrow> sem_val (sem_list s ! n) < 0 \<and> sem_head (sem_list s ! n) = None)"
proof (cases "sem_index i s")
  case None
  then have "sem_index i (disable_k s) = None" by (simp add: sem_index_def)
  then show ?thesis using None by (simp add: do_sem_v_def)
next
  case (Some n)
  then have n: "sem_index i (disable_k s) = Some n" "n < length (sem_list s)"
    by (auto simp: sem_index_def split: if_splits)
  let ?u = "upd_sem n (\<lambda>x. x\<lparr>sem_val := sem_val x + 1\<rparr>) (disable_k s)"
  have u: "proc_ok (upd_sem n (\<lambda>x. x\<lparr>sem_head := h\<rparr>) ?u)" for h using assms(1) by simp
  have w: "wakeup w (upd_sem n (\<lambda>x. x\<lparr>sem_head := h\<rparr>) ?u) \<noteq> None" for w h
    using wakeup_ok [OF u [of h], of w] by auto
  show ?thesis
    using n Some assms(2) w
    by (cases "sem_head (sem_list s ! n)") (auto simp: do_sem_v_def Let_def and_then_Some)
qed


lemma handler_main_defined:
  assumes "proc_ok s" "curr_proc s = Some c"
  shows "(\<exists>z. sys_interrupt_handler_main no arg s = Some z) \<longleftrightarrow> call_ok no arg s"
proof -
  note t = ok_tty [OF assms(1)]
  obtain t1 where t1: "put_info (lit ''Sleep for 100ms'') 0 (k_tty s) = Some t1" "tty_inv t1"
    using put_info_inv [OF t, of "map of_char ''Sleep for 100ms''"] by (auto simp: no_bs_def lit_def)
  obtain t2 where t2: "put_info (lit ''Done sleep!'') 0 t1 = Some t2" "tty_inv t2"
    using put_info_inv [OF t1(2), of "map of_char ''Done sleep!''"] by (auto simp: no_bs_def lit_def)
  have "\<exists>z. do_fork s = Some z" using do_fork_eq [OF assms] by simp
  then have f: "\<exists>z. do { (v, s) \<leftarrow> do_fork s; Some (Returns (word_of_int v :: u32) s) } = Some z" by auto
  have p: "(\<exists>z. do_sem_p i s = Some z) \<longleftrightarrow> sem_index i s \<noteq> None" for i
    using do_sem_p_defined [OF assms, of i] by (metis not_None_eq)
  have v: "(\<exists>z. do_sem_v i s = Some z) \<longleftrightarrow> (case sem_index i s of None \<Rightarrow> False
    | Some n \<Rightarrow> \<not> (sem_val (sem_list s ! n) < 0 \<and> sem_head (sem_list s ! n) = None))" for i
    using do_sem_v_defined [OF assms, of i] by (auto split: option.splits)
  have r: "\<exists>z. sys_return_to_shell s = Some z" using assms(2) by (simp add: sys_return_to_shell_def Let_def)
  have w: "\<exists>z. do_wait s = Some z" "\<exists>z. do_exit s = Some z"
    using do_wait_ok [OF assms] do_exit_ok [OF assms] by blast+
  have d: "(\<exists>z. do { s \<leftarrow> do_freesem i s; Some (Returns (0 :: u32) s) } = Some z) \<longleftrightarrow> sem_index i s \<noteq> None" for i
    by (cases "sem_index i s") (simp_all add: do_freesem_def)
  have ix: "sem_index i s \<noteq> None \<longleftrightarrow> 0 \<le> i \<and> i < int (length (sem_list s))" for i
    by (auto simp: sem_index_def)
  consider "no \<in> {0, 1, 10, 11, 12, 13, 20, 100}" | "no = 21" | "no = 22" | "no = 23"
    | "no \<notin> {0, 1, 10, 11, 12, 13, 20, 21, 22, 23, 100}" by blast
  then show ?thesis
  proof cases
    case 1
    then show ?thesis using print_logo [OF t] t1 t2 f w r
      by (auto simp: sys_interrupt_handler_main_def call_ok_def and_then_Some split: prod.split)
  next
    case 2
    then show ?thesis using p ix by (simp add: sys_interrupt_handler_main_def call_ok_def and_then_Some)
  next
    case 3
    then show ?thesis using v [of "sint arg"] ix [of "sint arg"]
      by (auto simp: sys_interrupt_handler_main_def call_ok_def and_then_Some sem_index_def)
  next
    case 4
    then show ?thesis using d ix by (simp add: sys_interrupt_handler_main_def call_ok_def)
  next
    case 5
    then show ?thesis by (simp add: sys_interrupt_handler_main_def call_ok_def)
  qed
qed

lemma save_frame [simp]:
  "curr_proc (save_proc r s) = curr_proc s" "sem_list (save_proc r t) = sem_list t"
  by (auto simp: save_proc_def upd_proc_def split: option.split)

lemma call_ok_frame: "call_ok no arg (save_proc r (disable_k s)) = call_ok no arg s"
  by (simp add: call_ok_def)



section \<open>Sleeping\<close>

lemma sleep_loop_waits:
  "unat (pit_ticks t) + m < 2 ^ 32 \<Longrightarrow> x = pit_ticks t + of_nat m \<Longrightarrow>
    sleep_loop n (sint x) t = (if m \<le> n then Some (t\<lparr>pit_ticks := x\<rparr>) else None)"
proof (induction m arbitrary: n t)
  case 0
  then show ?case by (subst sleep_loop.simps) (simp add: get_tick_count_def pit_get_tick_count_def)
next
  case (Suc m)
  have m: "unat (of_nat (Suc m) :: u32) = Suc m" using Suc.prems(1) by (simp add: unsigned_of_nat take_bit_nat_eq_self del: of_nat_Suc)
  have x: "unat x = unat (pit_ticks t) + Suc m"
    unfolding Suc.prems(2) using Suc.prems(1) m by (subst unat_add_lem [THEN iffD1]) simp_all
  then have lt: "word_of_int (sint x) > get_tick_count t"
    by (simp add: get_tick_count_def pit_get_tick_count_def word_less_nat_alt)
  let ?t = "t\<lparr>pit_ticks := pit_ticks t + 1\<rparr>"
  have t1: "unat (pit_ticks t + 1) = unat (pit_ticks t) + 1"
    using Suc.prems(1) by (simp add: unat_word_ariths)
  have "sleep_loop k (sint x) ?t = (if m \<le> k then Some (?t\<lparr>pit_ticks := x\<rparr>) else None)" for k
    using Suc.prems t1 by (intro Suc.IH) (simp_all add: ac_simps)
  then show ?case using lt by (subst sleep_loop.simps) (simp split: nat.split)
qed



section \<open>The life of a process\<close>

lemma save_proc_nth:
  assumes "proc_ok s" "curr_proc s = Some c" "i < 20"
  shows "proc_list (save_proc r s) ! i =
    (if i = c then (proc_list s ! c)\<lparr>regImg := saved_regs r\<rparr> else proc_list s ! i)"
  using assms ok_curr [OF proc_ok_ok0 [OF assms(1)] assms(2)]
  by (simp add: save_proc_def proc_ok_def)

lemma entered:
  assumes "proc_ok s" "curr_proc s = Some c"
  shows "proc_ok (save_proc r (disable_k s))" "curr_proc (save_proc r (disable_k s)) = Some c"
    "curr_pid (save_proc r (disable_k s)) = curr_pid s"
    "\<forall>i < 20. proc_list (save_proc r (disable_k s)) ! i =
      (if i = c then (proc_list s ! c)\<lparr>regImg := saved_regs r\<rparr> else proc_list s ! i)"
proof -
  have d: "proc_ok (disable_k s)" "curr_proc (disable_k s) = Some c" using assms by simp_all
  show "proc_ok (save_proc r (disable_k s))" by (rule save_proc_ok [OF d(1)])
  show "curr_proc (save_proc r (disable_k s)) = Some c" using assms(2) by simp
  show "curr_pid (save_proc r (disable_k s)) = curr_pid s" using assms(2) by (simp add: save_proc_def)
  show "\<forall>i < 20. proc_list (save_proc r (disable_k s)) ! i =
      (if i = c then (proc_list s ! c)\<lparr>regImg := saved_regs r\<rparr> else proc_list s ! i)"
    using save_proc_nth [OF d] by simp
qed

lemma fork_call:
  fixes s :: "'a kernel_scheme"
  assumes "proc_ok s" "curr_proc s = Some c" "unat (curr_pid s) = n" "n < 20"
  obtains s' where "fork r s = Some (Returns (of_nat (n + 1)) s')" "proc_ok s'" "curr_proc s' = Some c"
    "if_flag (k_io s')" "unat (curr_pid s') = n + 1"
    "regImg (proc_list s' ! n) = child_regs n (saved_regs (r\<lparr>r_eax := 10\<rparr>))"
    "status (proc_list s' ! n) = PROC_READY" "parent (proc_list s' ! n) = Some c"
    "\<forall>i < 20. i \<noteq> n \<longrightarrow> i \<noteq> c \<longrightarrow> proc_list s' ! i = proc_list s ! i"
proof -
  let ?r = "r\<lparr>r_eax := 10\<rparr>"
  let ?s = "save_proc ?r (disable_k s)"
  note e = entered [OF assms(1,2), of ?r]
  have n: "unat (curr_pid ?s) = n" "unat (curr_pid ?s) < 20" using e(3) assms(3,4) by simp_all
  have c: "c < 20" "c \<noteq> n" using ok_curr [OF proc_ok_ok0 [OF assms(1)] assms(2)] assms(3) by auto
  have len: "length (proc_list ?s) = 20" using e(1) by (simp add: proc_ok_def)
  have img: "regImg (proc_list ?s ! c) = saved_regs ?r" using e(4) c(1) by simp
  note ok = forked_ok [OF e(1,2) n(2)]
  have w: "(word_of_int (int n + 1) :: u32) = of_nat (n + 1)"
    by (simp add: of_nat_Suc [symmetric] del: of_nat_Suc) simp
  have "fork r s = Some (Returns (of_nat (n + 1)) (enable_k (forked c ?s)))"
    using do_fork_eq [OF e(1,2)] n assms(4)
    by (simp add: fork_def sys_interrupt_handler_def sys_interrupt_handler_main_def w)
  then show ?thesis
  proof (rule that)
    show "proc_ok (enable_k (forked c ?s))" using ok by simp
    show "curr_proc (enable_k (forked c ?s)) = Some c" using e(2) by (simp add: forked_def Let_def)
    show "unat (curr_pid (enable_k (forked c ?s))) = n + 1"
      using n by (simp add: forked_def Let_def unat_word_ariths)
    show "regImg (proc_list (enable_k (forked c ?s)) ! n) = child_regs n (saved_regs ?r)"
      "status (proc_list (enable_k (forked c ?s)) ! n) = PROC_READY"
      "parent (proc_list (enable_k (forked c ?s)) ! n) = Some c"
      using n len img assms(4) by (simp_all add: forked_def Let_def)
    show "\<forall>i < 20. i \<noteq> n \<longrightarrow> i \<noteq> c \<longrightarrow> proc_list (enable_k (forked c ?s)) ! i = proc_list s ! i"
      using n len e(4) by (simp add: forked_def Let_def)
  qed (simp add: enable_def)
qed

lemma wait_call:
  fixes s :: "'a kernel_scheme"
  assumes "proc_ok s" "curr_proc s = Some c" "n < 20" "status (proc_list s ! n) = PROC_READY"
    and "\<forall>j < 20. j \<noteq> n \<longrightarrow> status (proc_list s ! j) \<noteq> PROC_READY"
  obtains s' where "wait r s = Some (Switches (regImg (proc_list s ! n)) s')" "proc_ok s'" "running s' n"
    "regImg (proc_list s' ! c) = saved_regs (r\<lparr>r_eax := 11\<rparr>)" "status (proc_list s' ! c) = PROC_WAITING"
    "parent (proc_list s' ! n) = parent (proc_list s ! n)" "curr_pid s' = curr_pid s"
    "\<forall>i < 20. i \<noteq> n \<longrightarrow> i \<noteq> c \<longrightarrow> proc_list s' ! i = proc_list s ! i"
proof -
  let ?r = "r\<lparr>r_eax := 11\<rparr>"
  let ?s = "save_proc ?r (disable_k s)"
  note e = entered [OF assms(1,2), of ?r]
  have c: "c < 20" using ok_curr [OF proc_ok_ok0 [OF assms(1)] assms(2)] by simp
  have nc: "n \<noteq> c" using assms(1,2,4) by (auto simp: proc_ok_def)
  have len: "length (proc_list ?s) = 20" using e(1) by (simp add: proc_ok_def)
  have st: "status (proc_list ?s ! j) = status (proc_list s ! j)" if "j < 20" for j
    using e(4) that by auto
  have "\<exists>j < 20. status (proc_list ?s ! j) = PROC_READY" using assms(3,4) st by auto
  then obtain k where k: "do_wait ?s = Some (Switches (regImg (proc_list ?s ! k)) (switched k (waiting c ?s)))"
    "k < 20" "status (proc_list ?s ! k) = PROC_READY" "proc_ok (switched k (waiting c ?s))"
    using do_wait_ready [OF e(1,2)] by blast
  have kn: "k = n" using k(2,3) assms(5) st by auto
  let ?u = "switched n (waiting c ?s)"
  have "wait r s = Some (Switches (regImg (proc_list s ! n)) ?u)"
    using k(1) nc assms(3) e(4) unfolding kn
    by (simp add: wait_def sys_interrupt_handler_def sys_interrupt_handler_main_def)
  then show ?thesis
  proof (rule that)
    show "proc_ok ?u" using k(4) kn by simp
    show "running ?u n" using assms(3) len by (simp add: running_def switched_nth) (simp add: switched_def)
    show "regImg (proc_list ?u ! c) = saved_regs ?r" "status (proc_list ?u ! c) = PROC_WAITING"
      "parent (proc_list ?u ! n) = parent (proc_list s ! n)"
      using len c nc assms(3) e(4) by (simp_all add: switched_nth)
    show "curr_pid ?u = curr_pid s" using e(3) by (simp add: switched_def)
    show "\<forall>i < 20. i \<noteq> n \<longrightarrow> i \<noteq> c \<longrightarrow> proc_list ?u ! i = proc_list s ! i"
      using len e(2,4) by (simp add: switched_nth)
  qed
qed

lemma exit_call:
  fixes s :: "'a kernel_scheme"
  assumes "proc_ok s" "curr_proc s = Some n" "parent (proc_list s ! n) = Some c" "c \<noteq> n"
    and "status (proc_list s ! c) = PROC_WAITING" "\<forall>j < 20. status (proc_list s ! j) \<noteq> PROC_READY"
  obtains s' where "exit r s = Some (Switches (regImg (proc_list s ! c)) s')" "proc_ok s'" "running s' c"
    "status (proc_list s' ! n) = PROC_TERMINATED" "curr_pid s' = curr_pid s"
    "\<forall>i < 20. i \<noteq> n \<longrightarrow> i \<noteq> c \<longrightarrow> proc_list s' ! i = proc_list s ! i"
proof -
  let ?r = "r\<lparr>r_eax := 12\<rparr>"
  let ?s = "save_proc ?r (disable_k s)"
  note e = entered [OF assms(1,2), of ?r]
  have n: "n < 20" using ok_curr [OF proc_ok_ok0 [OF assms(1)] assms(2)] by simp
  have len: "length (proc_list ?s) = 20" using e(1) by (simp add: proc_ok_def)
  have c: "c < 20" using parent_taken [OF assms(1-3)] by simp
  have pw: "parent_waits n ?s c" using e(4) n c assms(3-5) by (simp add: parent_waits_def)
  obtain k where
    k: "notify_parent n ?s (ended n ?s) = Some (Switches (regImg (proc_list ?s ! k))
      (switched k (upd_proc c (\<lambda>p. p\<lparr>status := PROC_READY\<rparr>) (disable_k (ended n ?s)))))"
      "k < 20" "k \<noteq> n" "c < 20" "k = c \<or> status (proc_list ?s ! k) = PROC_READY"
      "proc_ok (switched k (upd_proc c (\<lambda>p. p\<lparr>status := PROC_READY\<rparr>) (disable_k (ended n ?s))))"
    by (rule notify_waiting [OF e(1,2) pw])
  have kc: "k = c" using k(2,3,5) assms(6) e(4) by auto
  let ?u = "switched c (upd_proc c (\<lambda>p. p\<lparr>status := PROC_READY\<rparr>) (disable_k (ended n ?s)))"
  have "do_exit ?s = and_then (notify_parent n ?s (ended n ?s)) (\<lambda>_ s. Some (Returns () (enable_k s)))"
    using e(2) n len by (simp add: do_exit_def Let_def)
  then have "exit r s = Some (Switches (regImg (proc_list s ! c)) ?u)"
    using k(1) kc assms(4) c e(4)
    by (simp add: exit_def sys_interrupt_handler_def sys_interrupt_handler_main_def)
  then show ?thesis
  proof (rule that)
    show "proc_ok ?u" using k(6) kc by simp
    show "running ?u c" using c len by (simp add: running_def switched_nth) (simp add: switched_def)
    show "status (proc_list ?u ! n) = PROC_TERMINATED" using n len assms(4) by (simp add: switched_nth)
    show "curr_pid ?u = curr_pid s" using e(3) by (simp add: switched_def)
    show "\<forall>i < 20. i \<noteq> n \<longrightarrow> i \<noteq> c \<longrightarrow> proc_list ?u ! i = proc_list s ! i"
      using len e(2,4) by (simp add: switched_nth)
  qed
qed

text \<open>C3: The life of a child, as a program sees it through \<^verbatim>\<open>fork\<close>, \<^verbatim>\<open>wait\<close> and \<^verbatim>\<open>exit\<close>: when no other
  process is ready or waiting, \<^verbatim>\<open>fork\<close> returns the number of the child; \<^verbatim>\<open>wait\<close> then starts the
  child behind its own call of \<^verbatim>\<open>fork\<close>, with the registers of that moment, the result 0 and a stack
  of its own; and \<^verbatim>\<open>exit\<close> of the child ends it and continues the parent behind its \<^verbatim>\<open>wait\<close>, with the
  registers it had there.\<close>

theorem fork_wait_exit:
  fixes s :: "'a kernel_scheme"
  assumes "proc_ok s" "curr_proc s = Some c" "unat (curr_pid s) = n" "n < 20"
    and "\<forall>j < 20. j \<noteq> c \<longrightarrow> status (proc_list s ! j) \<in> {PROC_NEW, PROC_TERMINATED}"
  shows "\<exists>s1 s2 s3.
    fork r s = Some (Returns (of_nat (n + 1)) s1) \<and>
    wait r1 s1 = Some (Switches (child_regs n (saved_regs (r\<lparr>r_eax := 10\<rparr>))) s2) \<and> running s2 n \<and>
    exit r2 s2 = Some (Switches (saved_regs (r1\<lparr>r_eax := 11\<rparr>)) s3) \<and> running s3 c \<and>
    status (proc_list s3 ! n) = PROC_TERMINATED \<and> proc_ok s3"
proof -
  obtain s1 where s1: "fork r s = Some (Returns (of_nat (n + 1)) s1)" "proc_ok s1" "curr_proc s1 = Some c"
    "regImg (proc_list s1 ! n) = child_regs n (saved_regs (r\<lparr>r_eax := 10\<rparr>))"
    "status (proc_list s1 ! n) = PROC_READY" "parent (proc_list s1 ! n) = Some c"
    "\<forall>i < 20. i \<noteq> n \<longrightarrow> i \<noteq> c \<longrightarrow> proc_list s1 ! i = proc_list s ! i"
    using fork_call [OF assms(1-4), of r] by metis
  have c: "c < 20" "c \<noteq> n" using ok_curr [OF proc_ok_ok0 [OF assms(1)] assms(2)] assms(3) by auto
  have cr: "status (proc_list s1 ! c) \<noteq> PROC_READY" using s1(2,3) by (simp add: proc_ok_def)
  then have other: "\<forall>j < 20. j \<noteq> n \<longrightarrow> status (proc_list s1 ! j) \<noteq> PROC_READY"
    using s1(7) assms(5) by force
  obtain s2 where s2: "wait r1 s1 = Some (Switches (regImg (proc_list s1 ! n)) s2)" "proc_ok s2" "running s2 n"
    "regImg (proc_list s2 ! c) = saved_regs (r1\<lparr>r_eax := 11\<rparr>)" "status (proc_list s2 ! c) = PROC_WAITING"
    "parent (proc_list s2 ! n) = parent (proc_list s1 ! n)"
    "\<forall>i < 20. i \<noteq> n \<longrightarrow> i \<noteq> c \<longrightarrow> proc_list s2 ! i = proc_list s1 ! i"
    using wait_call [OF s1(2,3) assms(4) s1(5) other, of r1] by metis
  have n2: "curr_proc s2 = Some n" "parent (proc_list s2 ! n) = Some c"
    using s2(3,6) s1(6) by (simp_all add: running_def)
  have "status (proc_list s2 ! j) \<noteq> PROC_READY" if "j < 20" for j
    using that s2(2,5,7) other n2(1) by (cases "j = n"; cases "j = c") (auto simp: proc_ok_def)
  then obtain s3 where "exit r2 s2 = Some (Switches (regImg (proc_list s2 ! c)) s3)" "proc_ok s3" "running s3 c"
    "status (proc_list s3 ! n) = PROC_TERMINATED"
    using exit_call [OF s2(2) n2 c(2) s2(5), of r2] by metis
  then show ?thesis using s1(1,4) s2(1,3,4) by metis
qed

definition demo_single :: kernel where
  "demo_single = demo_sem\<lparr>proc_list := demo_procs PROC_RUNNING PROC_TERMINATED, curr_pid := 2\<rparr>"

lemma fork_wait_exit_witness:
  "\<exists>s1 s2 s3. fork (zero_regs\<lparr>r_eip := 0x20010\<rparr>) demo_single = Some (Returns 3 s1) \<and>
    (\<exists>r. wait (zero_regs\<lparr>r_eip := 0x20020\<rparr>) s1 = Some (Switches r s2) \<and> r_eip r = 0x20010) \<and>
    (\<exists>r. exit zero_regs s2 = Some (Switches r s3) \<and> r_eip r = 0x20020) \<and> running s3 0"
proof -
  have ok: "proc_ok demo_single"
    using demo_table [of PROC_RUNNING PROC_TERMINATED 0] demo_sem_ok(1)
    by (simp add: proc_ok_def proc_ok0_def demo_single_def demo_sem_def demo_kernel_def demo_procs_def
        demo_process_def kstate.extend_def)
  have c: "curr_proc demo_single = Some 0" "unat (curr_pid demo_single) = 2"
    using demo_sem_ok(2) by (simp_all add: demo_single_def)
  have "status (proc_list demo_single ! j) \<in> {PROC_NEW, PROC_TERMINATED}" if "j < 20" "j \<noteq> 0" for j
    using that by (cases j; cases "j - 1")
      (simp_all add: demo_single_def demo_procs_def demo_process_def free_process_def)
  then show ?thesis
    using fork_wait_exit [OF ok c, of "zero_regs\<lparr>r_eip := 0x20010\<rparr>" "zero_regs\<lparr>r_eip := 0x20020\<rparr>" zero_regs]
    by (fastforce simp: child_regs_def saved_regs_def)
qed

end
