(* ===== verification/Kernel_Steps.thy ===== *)
theory Kernel_Steps
  imports Syscalls Keyboard
begin

text \<open>
  The kernel as a transition system: what interrupts, system calls, programs and the shell may do to
  the state, in any order, and what holds in every state that can be reached. The handlers of the
  timer and of the keyboard are those of \<^verbatim>\<open>kernel_entry.asm\<close> around the C functions.
\<close>

section \<open>Steps\<close>

definition pit_handler :: "regs \<Rightarrow> 'a kstate_scheme \<Rightarrow> (unit, 'a kstate_scheme) outcome option" where
  "pit_handler r s = and_then (pit_handler_main r (disable_k s)) (\<lambda>_ s. Some (Returns () (enable_k s)))"

definition keyboard_handler :: "kbd \<times> 'a kstate_scheme \<Rightarrow> (kbd \<times> 'a kstate_scheme) option" where
  "keyboard_handler = (\<lambda>(k, s).
     do { (k, s) \<leftarrow> keyboard_handler_main (k, disable_k s); Some (k, enable_k s) })"

text \<open>
  Interrupts come when the flag is set. A process that has the processor makes system calls and writes
  memory. The shell has the processor when there is no current process: it prints, clears the screen,
  creates processes and starts the scheduler.
\<close>

inductive kernel_step :: "kbd \<times> kernel \<Rightarrow> kbd \<times> kernel \<Rightarrow> bool" where
  timer: "kernel_step (k, s) (k, out_state z)"
    if "if_flag (k_io s)" "pit_handler r s = Some z"
| key: "kernel_step (k, s) (k', s')"
    if "if_flag (k_io s)" "keyboard_handler (k, s) = Some (k', s')"
| syscall: "kernel_step (k, s) (k, out_state z)"
    if "curr_proc s = Some c" "sys_interrupt_handler r s = Some z"
| thread: "kernel_step (k, s) (k, out_state z)"
    if "curr_proc s = Some c" "sys_pthread_handler ra kr r s = Some z"
| program: "kernel_step (k, s) (k, s\<lparr>k_ram := m\<rparr>)"
    if "curr_proc s = Some c"
| print: "kernel_step (k, s) (k, s\<lparr>k_tty := t\<rparr>)"
    if "curr_proc s = None" "no_bs x" "put_chars x (k_tty s) = Some t"
| clear: "kernel_step (k, s) (k, s\<lparr>k_tty := t\<rparr>)"
    if "curr_proc s = None" "clear_screen (k_tty s) = Some t"
| create: "kernel_step (k, s) (k, s')"
    if "curr_proc s = None" "proc_create ra USER_CS USER_DS addr s = Some (i, s')"
| run: "kernel_step (k, s) (k, out_state z)"
    if "curr_proc s = None" "schedule_proc s = Some z"

inductive_cases kernel_stepE: "kernel_step (k, s) (k', s')"

text \<open>The state after initialisation: no process, all semaphores unused, good terminals.\<close>

definition kernel_start :: "kbd \<times> kernel \<Rightarrow> bool" where
  "kernel_start = (\<lambda>(k, s). curr_proc s = None \<and> curr_pid s = 0 \<and> tty_inv (k_tty s) \<and>
     (\<exists>s0 :: kernel. proc_list s = proc_list (proc_init s0) \<and> sem_list s = sem_list (sem_init s0)))"

abbreviation step_inv :: "kbd \<times> kernel \<Rightarrow> bool" where
  "step_inv \<equiv> \<lambda>(k, s). proc_ok s"

section \<open>Every step keeps the invariant\<close>

lemma start_ok:
  assumes "kernel_start (k, s)"
  shows "proc_ok s"
proof -
  have l: "proc_list s = replicate 20 \<lparr>regImg = zero_regs, pid = 0, parent = None, p_next = None,
      priority = PRIOR_USER, status = PROC_NEW, tick = 0, p_terminal = 0\<rparr>"
    using assms by (auto simp: kernel_start_def proc_init_def)
  have "slot_ok None 0 i (proc_list s ! i)" if "i < 20" for i
    unfolding l nth_replicate [OF that] by (simp add: slot_ok_def MAX_TICK_def)
  moreover have "length (proc_list s) = 20" unfolding l by (rule length_replicate)
  ultimately show ?thesis
    using assms by (simp add: kernel_start_def proc_ok_def proc_ok0_def table_ok_def)
qed

lemma pit_handler_keeps:
  assumes "proc_ok s" "pit_handler r s = Some z"
  shows "proc_ok (out_state z)"
  using assms(2) unfolding pit_handler_def
  by (rule and_then_keeps) (use pit_handler_ok [of "disable_k s" r] assms(1) in auto)

lemma switch_terminal_keeps:
  assumes "proc_ok s" "switch_terminal n s = Some s'" "n < 4"
  shows "proc_ok s'"
proof -
  obtain t where "change_terminal n (get_proc s = None) (k_tty s) = Some t" "tty_inv t"
    using change_terminal_inv [OF ok_tty [OF assms(1)] assms(3)] by blast
  then show ?thesis using assms(1,2) by (auto simp: switch_terminal_def get_proc_def intro!: ok_set_tty)
qed

lemma keyboard_main_keeps:
  assumes "proc_ok s" "keyboard_handler_main (k, s) = Some (k', s')"
  shows "proc_ok s'"
proof -
  have io: "proc_ok u \<longleftrightarrow> proc_ok s" if "u = s\<lparr>k_io := b\<rparr>" for u b using that by simp
  show ?thesis using assms(2)
    by (auto simp: keyboard_handler_main_def read_port_def assms(1)
      split: bind_splits if_splits prod.splits intro: switch_terminal_keeps [rotated])
qed

lemma keyboard_handler_keeps:
  "proc_ok s \<Longrightarrow> keyboard_handler (k, s) = Some (k', s') \<Longrightarrow> proc_ok s'"
  using keyboard_main_keeps [of "disable_k s" k]
  by (auto simp: keyboard_handler_def split: bind_splits)

lemma sys_interrupt_keeps:
  assumes "proc_ok s" "sys_interrupt_handler r s = Some z"
  shows "proc_ok (out_state z)"
  using assms(2) unfolding sys_interrupt_handler_def
  by (rule and_then_keeps)
    (use handler_main_keeps [OF save_proc_ok [of "disable_k s"]] assms(1) in auto)

lemma thread_create_keeps:
  assumes "proc_ok s" "curr_proc s = Some c" "do_thread_create ra tid func args s = Some (v, s')"
  shows "proc_ok s'"
proof (cases "unat (curr_pid s) = 20")
  case True
  then show ?thesis using assms(3) thread_create_eq [OF assms(1,2), of ra tid func args] assms(1) by auto
next
  case False
  let ?n = "unat (curr_pid s)"
  have n: "?n < 20" using False assms(1) by (simp add: proc_ok_def proc_ok0_def table_ok_def)
  note f = forked_ok [OF assms(1,2) n]
  have "proc_ok0 (upd_proc ?n (\<lambda>p. p\<lparr>regImg := g p\<rparr>) (forked c s))" for g
    using ok_slot [OF proc_ok_ok0 [OF f] n] proc_ok_ok0 [OF f] by (intro ok_upd) (simp_all add: slot_ok_def)
  moreover have "c \<noteq> ?n" using ok_curr [OF proc_ok_ok0 [OF assms(1)] assms(2)] by simp
  ultimately have "proc_ok (upd_proc ?n (\<lambda>p. p\<lparr>regImg := g p\<rparr>) (forked c s))" for g
    using f assms(2) by (simp add: proc_ok_def forked_def Let_def)
  then show ?thesis
    using assms(3) thread_create_eq [OF assms(1,2), of ra tid func args] False
    by (auto simp: Let_def upd_ram)
qed

lemma thread_exit_keeps:
  assumes "proc_ok s" "do_thread_exit kr s = Some z"
  shows "proc_ok (out_state z)"
proof (cases "curr_proc s")
  case None
  then show ?thesis using assms(2) by (simp add: do_thread_exit_def)
next
  case (Some c)
  have "and_then (notify_parent c s (ended c s)) (\<lambda>_ s. user_process_return kr (enable_k s)) = Some z"
    using thread_exit_notify [OF assms(1) Some] assms(2) by simp
  then show ?thesis
  proof (rule and_then_keeps)
    fix y
    assume "notify_parent c s (ended c s) = Some y"
    then show "proc_ok (out_state y)"
      using ended_ok [OF assms(1) Some] wakeup_ok [OF ended_ok [OF assms(1) Some]]
      by (cases "parent (proc_list s ! c)") (auto, metis option.inject)
  next
    fix s y
    assume "proc_ok s" "user_process_return kr (enable_k s) = Some y"
    then show "proc_ok (out_state y)"
      using shell_keeps [OF save_proc_ok [of "disable_k (enable_k s)" kr]]
      by (simp add: user_process_return_def)
  qed
qed

lemma pthread_main_keeps:
  assumes "proc_ok s" "curr_proc s = Some c" "sys_pthread_handler_main ra kr r s = Some z"
  shows "proc_ok (out_state z)"
proof -
  have unit: "proc_ok (out_state z)"
    if "and_then m (\<lambda>_ s. Some (Returns 0 s)) = Some z" "\<And>y. m = Some y \<Longrightarrow> proc_ok (out_state y)"
    for m :: "(unit, 'a kstate_scheme) outcome option"
    using that by (rule and_then_keeps) auto
  consider "r_eax r = 0" | "r_eax r = 1" | "r_eax r = 2" | "r_eax r = 3" | "r_eax r \<notin> {0, 1, 2, 3}" by blast
  then show ?thesis
  proof cases
    case 1
    then show ?thesis using assms thread_create_keeps [OF assms(1,2)]
      by (auto simp: sys_pthread_handler_main_def Let_def split: bind_splits)
  next
    case 2
    then show ?thesis using assms(3) unit [OF _ do_wait_keeps [OF assms(1)]]
      by (simp add: sys_pthread_handler_main_def thread_join_wait)
  next
    case 3
    then show ?thesis using assms(1,3)
      by (auto simp: sys_pthread_handler_main_def Let_def split: bind_splits)
  next
    case 4
    then show ?thesis using assms(3) unit [OF _ thread_exit_keeps [OF assms(1)]]
      by (simp add: sys_pthread_handler_main_def)
  next
    case 5
    then show ?thesis using assms(1,3) by (auto simp: sys_pthread_handler_main_def Let_def)
  qed
qed

lemma sys_pthread_keeps:
  assumes "proc_ok s" "curr_proc s = Some c" "sys_pthread_handler ra kr r s = Some z"
  shows "proc_ok (out_state z)"
  using assms(3) unfolding sys_pthread_handler_def
  by (rule and_then_keeps) (use pthread_main_keeps [OF entered(1,2) [OF assms(1,2)]] in auto)

lemma proc_create_keeps:
  assumes "proc_ok s" "proc_create ra a b addr s = Some (i, s')"
  shows "proc_ok s'"
proof (cases "unat (curr_pid s) = 20")
  case False
  then have n: "unat (curr_pid s) < 20" using assms(1) by (simp add: proc_ok_def proc_ok0_def table_ok_def)
  show ?thesis using proc_create_eq [OF assms(1) n, of ra a b addr] created_ok [OF assms(1) n] assms(2) by auto
qed (use assms proc_create_full [OF assms(1)] in simp)

lemma clear_screen_inv:
  assumes "tty_inv t" "clear_screen t = Some t'"
  shows "tty_inv t'"
proof -
  have "tty_inv (set_view (cleared (attr_of t) (fst (view t)), 0) t)"
    using view_length [OF tty_inv_ok(1) [OF assms(1)]]
    by (intro set_view_inv [OF assms(1)]) (auto simp: view_ok_def cleared_def)
  then show ?thesis using clear_screen_view [OF tty_inv_ok(1) [OF assms(1)]] assms(2) by simp
qed

lemma step_keeps:
  assumes "proc_ok s" "kernel_step (k, s) (k', s')"
  shows "proc_ok s'"
  using assms(2)
proof (cases rule: kernel_stepE [consumes 1, case_names timer key syscall thread program print clear create run])
  case (timer r z)
  then show ?thesis using pit_handler_keeps [OF assms(1)] by simp
next
  case key
  then show ?thesis using keyboard_handler_keeps [OF assms(1)] by simp
next
  case (syscall c r z)
  then show ?thesis using sys_interrupt_keeps [OF assms(1)] by simp
next
  case (thread c ra kr r z)
  then show ?thesis using sys_pthread_keeps [OF assms(1)] by simp
next
  case (program c m)
  then show ?thesis using assms(1) by simp
next
  case (print x t)
  then show ?thesis using put_chars_inv [OF ok_tty [OF assms(1)], of x] ok_set_tty [OF assms(1)] by auto
next
  case (clear t)
  then show ?thesis using clear_screen_inv [OF ok_tty [OF assms(1)]] ok_set_tty [OF assms(1)] by simp
next
  case (create ra addr i)
  then show ?thesis using proc_create_keeps [OF assms(1)] by simp
next
  case (run z)
  then show ?thesis using schedule_ok [OF proc_ok_ok0 [OF assms(1)]] by auto
qed

interpretation kernel_runs: invariant_system kernel_start kernel_step step_inv
  by unfold_locales (auto intro: start_ok step_keeps)


section \<open>Every state that can be reached\<close>


text \<open>A first run: the shell creates a process and starts the scheduler.\<close>

definition demo_start :: kernel where
  "demo_start = sem_init (demo_sem\<lparr>proc_list := proc_list (proc_init demo_sem), curr_proc := None, curr_pid := 0\<rparr>)"

lemma demo_start: "kernel_start (k, demo_start)"
proof -
  have "tty_inv (k_tty demo_sem)" by (rule ok_tty [OF demo_sem_ok(1)])
  then show ?thesis
    by (auto simp: kernel_start_def demo_start_def sem_init_def intro!: exI [of _ demo_sem])
qed

lemma demo_run: "\<exists>s. kernel_step\<^sup>*\<^sup>* (k, demo_start) (k, s) \<and> curr_proc s = Some 0 \<and> running s 0"
proof -
  note ok = start_ok [OF demo_start]
  have n: "unat (curr_pid demo_start) = 0" by (simp add: demo_start_def sem_init_def)
  obtain t where t: "t < 4" "proc_create 0 USER_CS USER_DS 0x20000 demo_start =
      Some (0, created 0 USER_CS USER_DS 0x20000 (int t) demo_start)"
    using proc_create_eq [OF ok, of 0 USER_CS USER_DS "0x20000"] n by auto
  let ?s = "created 0 USER_CS USER_DS 0x20000 (int t) demo_start"
  have c: "curr_proc demo_start = None" by (simp add: demo_start_def sem_init_def)
  have 1: "kernel_step (k, demo_start) (k, ?s)" by (rule kernel_step.create [OF c t(2)])
  have len: "length (proc_list demo_start) = 20" using ok by (simp add: proc_ok_def)
  have new: "status (proc_list demo_start ! i) = PROC_NEW" if "i < 20" for i
    using ok_slot [OF proc_ok_ok0 [OF ok] that] n by (simp add: slot_ok_def)
  have st: "status (proc_list ?s ! i) = (if i = 0 then PROC_READY else PROC_NEW)" if "i < 20" for i
    using that n len new by (simp add: created_def created_process_def Let_def)
  have oks: "proc_ok ?s" using created_ok [OF ok] n t(1) by simp
  obtain j where j: "schedule_proc ?s = Some (Switches (regImg (proc_list ?s ! j)) (switched j ?s))"
    "j < 20" "status (proc_list ?s ! j) = PROC_READY"
    using schedule_ready [OF proc_ok_ok0 [OF oks], of 0] st by auto
  have j0: "j = 0" using j(2,3) st by (auto split: if_splits)
  have "curr_proc ?s = None" using c by (simp add: created_def Let_def)
  from kernel_step.run [OF this j(1)] have "kernel_step (k, ?s) (k, switched 0 ?s)" by (simp add: j0)
  with 1 have "kernel_step\<^sup>*\<^sup>* (k, demo_start) (k, switched 0 ?s)" by (meson converse_rtranclp_into_rtranclp rtranclp.rtrancl_refl)
  moreover have "running (switched 0 ?s) 0"
    using oks by (simp add: running_def proc_ok_ok0 switched_nth) (simp add: switched_def)
  ultimately show ?thesis by (auto simp: running_def)
qed


lemma wakeup_defined: "proc_ok s \<Longrightarrow> \<exists>z. wakeup p s = Some z"
  using wakeup_ok [of s p] by blast

lemma thread_exit_defined:
  assumes "proc_ok s" "curr_proc s = Some c"
  shows "\<exists>z. do_thread_exit kr s = Some z"
proof (cases "\<exists>q. parent_waits c s q")
  case True
  then obtain q where q: "parent_waits c s q" by blast
  show ?thesis unfolding thread_exit_notify [OF assms]
    by (rule notify_waiting [OF assms q]) simp
next
  case False
  obtain b where b: "notify_parent c s (ended c s) = Some (Returns () ((ended c s)\<lparr>k_io := b\<rparr>))"
    using notify_not_waiting [OF assms False] by blast
  then show ?thesis using assms(2)
    by (simp add: thread_exit_notify [OF assms] user_process_return_def sys_return_to_shell_def Let_def)
qed

lemma pthread_defined:
  assumes "proc_ok s" "curr_proc s = Some c"
  shows "\<exists>z. sys_pthread_handler ra kr r s = Some z"
proof -
  note e = entered(1,2) [OF assms, of r]
  have "\<exists>z. do { (v, u) \<leftarrow> do_thread_create ra f a b (save_proc r (disable_k s));
      Some (Returns (word_of_int v :: u32) u) } = Some z" for f a b
    by (simp add: thread_create_eq [OF e] Let_def)
  moreover note do_wait_ok [OF e] thread_exit_defined [OF e, of kr]
  ultimately show ?thesis
    using e(2) unfolding sys_pthread_handler_def and_then_Some sys_pthread_handler_main_def Let_def
    by (auto simp: and_then_Some thread_join_wait do_thread_self_def)
qed



end
