(* ===== verification/Scheduling.thy ===== *)
theory Scheduling
  imports Kernel_Steps
begin

text \<open>
  What a program sees of the scheduler: the states of the processes, which one has the processor, and
  the values of the semaphores. The relations here say what the timer and the calls for waiting, ending
  and semaphores may do to these, without registers, memory, screen and the round-robin order; the
  kernel refines them.
\<close>

section \<open>The abstract scheduler\<close>

record sched =
  s_st :: "nat \<Rightarrow> proc_status"
  s_cur :: "nat option"
  s_parent :: "nat \<Rightarrow> nat option"
  s_next :: "nat \<Rightarrow> nat option"
  s_sem :: "nat \<rightharpoonup> int \<times> nat option"

abbreviation set_st :: "nat \<Rightarrow> proc_status \<Rightarrow> sched \<Rightarrow> sched" where
  "set_st c v a \<equiv> a\<lparr>s_st := (s_st a)(c := v)\<rparr>"

abbreviation set_sem :: "nat \<Rightarrow> int \<times> nat option \<Rightarrow> sched \<Rightarrow> sched" where
  "set_sem i x a \<equiv> a\<lparr>s_sem := (s_sem a)(i \<mapsto> x)\<rparr>"

text \<open>The processor goes to \<open>k\<close>; the process that was running becomes ready.\<close>

definition dispatch :: "nat \<Rightarrow> sched \<Rightarrow> sched" where
  "dispatch k a = a\<lparr>s_st := (\<lambda>j. if s_cur a = Some j \<and> s_st a j = PROC_RUNNING then PROC_READY
       else s_st a j)(k := PROC_RUNNING), s_cur := Some k\<rparr>"

definition resched :: "sched \<Rightarrow> sched \<Rightarrow> bool" where
  "resched a a' \<longleftrightarrow> (if \<exists>k. s_st a k = PROC_READY then \<exists>k. s_st a k = PROC_READY \<and> a' = dispatch k a
     else a' = a)"

definition a_tick :: "sched \<Rightarrow> sched \<Rightarrow> bool" where
  "a_tick a a' \<longleftrightarrow> a' = a \<or> resched a a'"

definition a_wait :: "nat \<Rightarrow> sched \<Rightarrow> sched \<Rightarrow> bool" where
  "a_wait c a a' \<longleftrightarrow> resched (set_st c PROC_WAITING a) a'"

definition a_wake :: "nat \<Rightarrow> sched \<Rightarrow> sched \<Rightarrow> bool" where
  "a_wake w a a' \<longleftrightarrow> (if s_st a w = PROC_WAITING then resched (set_st w PROC_READY a) a' else a' = a)"

definition a_exit :: "nat \<Rightarrow> sched \<Rightarrow> sched \<Rightarrow> bool" where
  "a_exit c a a' \<longleftrightarrow>
     (let b = set_st c PROC_TERMINATED a
      in case s_parent a c of None \<Rightarrow> a' = b | Some q \<Rightarrow> a_wake q b a')"

text \<open>An unsuccessful acquisition puts the caller at the head of the waiting list and waits.\<close>

definition a_acquire :: "nat \<Rightarrow> nat \<Rightarrow> sched \<Rightarrow> sched \<Rightarrow> bool" where
  "a_acquire i c a a' \<longleftrightarrow>
     (case s_sem a i of None \<Rightarrow> False
      | Some (v, h) \<Rightarrow>
          if v - 1 < 0 then a_wait c (set_sem i (v - 1, Some c) a\<lparr>s_next := (s_next a)(c := h)\<rparr>) a'
          else a' = set_sem i (v - 1, h) a)"

text \<open>A release with a process waiting wakes the head; the head is then what the caller has as its link.\<close>

definition a_release :: "nat \<Rightarrow> nat \<Rightarrow> sched \<Rightarrow> sched \<Rightarrow> bool" where
  "a_release i c a a' \<longleftrightarrow>
     (case s_sem a i of None \<Rightarrow> False
      | Some (v, h) \<Rightarrow>
          if v + 1 \<le> 0 then \<exists>w. h = Some w \<and> a_wake w (set_sem i (v + 1, s_next a c) a) a'
          else a' = set_sem i (v + 1, h) a)"

text \<open>Every link leads to a process.\<close>

definition links_ok :: "sched \<Rightarrow> bool" where
  "links_ok a \<longleftrightarrow> (\<forall>i v w. s_sem a i = Some (v, Some w) \<longrightarrow> s_st a w \<noteq> PROC_NEW) \<and>
     (\<forall>p w. s_next a p = Some w \<longrightarrow> s_st a w \<noteq> PROC_NEW)"

lemma links_resched: "links_ok a \<Longrightarrow> resched a a' \<Longrightarrow> links_ok a'"
  by (fastforce simp: links_ok_def resched_def dispatch_def split: if_splits)

lemma links_set_st: "links_ok a \<Longrightarrow> v \<noteq> PROC_NEW \<Longrightarrow> links_ok (set_st c v a)"
  by (auto simp: links_ok_def)

lemma links_wake: "links_ok a \<Longrightarrow> a_wake w a a' \<Longrightarrow> links_ok a'"
  by (auto simp: a_wake_def split: if_splits intro: links_resched links_set_st)

lemma links_keeps:
  assumes "links_ok a" "s_cur a = Some c" "s_st a c \<noteq> PROC_NEW"
  shows "a_tick a a' \<Longrightarrow> links_ok a'" "a_wait c a a' \<Longrightarrow> links_ok a'" "a_exit c a a' \<Longrightarrow> links_ok a'"
    "a_acquire i c a a' \<Longrightarrow> links_ok a'" "a_release i c a a' \<Longrightarrow> links_ok a'"
proof -
  show "a_tick a a' \<Longrightarrow> links_ok a'" "a_wait c a a' \<Longrightarrow> links_ok a'"
    using assms(1) by (auto simp: a_tick_def a_wait_def intro: links_resched links_set_st)
  have ended: "links_ok (set_st c PROC_TERMINATED a)" by (rule links_set_st [OF assms(1)]) simp
  show "a_exit c a a' \<Longrightarrow> links_ok a'"
    using ended links_wake [OF ended] by (cases "s_parent a c") (simp_all add: a_exit_def Let_def)
  show "links_ok a'" if acq: "a_acquire i c a a'"
  proof (cases "s_sem a i")
    case (Some x)
    obtain v h where x: "x = (v, h)" by (cases x)
    have 1: "links_ok (set_sem i (v - 1, h) a)" using assms(1) Some x by (auto simp: links_ok_def)
    have "links_ok (set_sem i (v - 1, Some c) a\<lparr>s_next := (s_next a)(c := h)\<rparr>)"
      using assms(1,3) Some x by (auto simp: links_ok_def)
    then have 2: "links_ok (set_st c PROC_WAITING (set_sem i (v - 1, Some c) a\<lparr>s_next := (s_next a)(c := h)\<rparr>))"
      by (rule links_set_st) simp
    show ?thesis
      using acq Some x 1 links_resched [OF 2] by (simp add: a_acquire_def a_wait_def split: if_splits)
  qed (use acq in \<open>simp add: a_acquire_def\<close>)
  show "links_ok a'" if rel: "a_release i c a a'"
  proof (cases "s_sem a i")
    case (Some x)
    obtain v h where x: "x = (v, h)" by (cases x)
    have 1: "links_ok (set_sem i (v + 1, h) a)" using assms(1) Some x by (auto simp: links_ok_def)
    have 2: "links_ok (set_sem i (v + 1, s_next a c) a)" using assms(1) by (auto simp: links_ok_def)
    show ?thesis
      using rel Some x 1 links_wake [OF 2] by (auto simp: a_release_def split: if_splits)
  qed (use rel in \<open>simp add: a_release_def\<close>)
qed

section \<open>The kernel's state as such a state\<close>

definition sched_of :: "'a kernel_scheme \<Rightarrow> sched" where
  "sched_of s = \<lparr>s_st = (\<lambda>j. if j < 20 then status (proc_list s ! j) else PROC_NEW), s_cur = curr_proc s,
     s_parent = (\<lambda>j. if j < 20 then parent (proc_list s ! j) else None),
     s_next = (\<lambda>j. if j < 20 then p_next (proc_list s ! j) else None),
     s_sem = (\<lambda>i. if i < length (sem_list s) then Some (sem_val (sem_list s ! i), sem_head (sem_list s ! i)) else None)\<rparr>"

lemma sched_of_frame [simp]:
  "sched_of (s\<lparr>k_io := a\<rparr>) = sched_of s" "sched_of (s\<lparr>k_pit := b\<rparr>) = sched_of s"
  "sched_of (s\<lparr>k_tty := t\<rparr>) = sched_of s" "sched_of (s\<lparr>k_ram := m\<rparr>) = sched_of s"
  by (simp_all add: sched_of_def cong: if_cong)

lemma sched_of_upd:
  assumes "length (proc_list s) = 20" "c < 20"
  shows "(\<And>p. status (f p) = status p) \<Longrightarrow> (\<And>p. parent (f p) = parent p) \<Longrightarrow>
      (\<And>p. p_next (f p) = p_next p) \<Longrightarrow> sched_of (upd_proc c f s) = sched_of s"
    and "sched_of (upd_proc c (\<lambda>p. p\<lparr>status := v\<rparr>) s) = set_st c v (sched_of s)"
    and "sched_of (upd_proc c (\<lambda>p. p\<lparr>p_next := h\<rparr>) s) = (sched_of s)\<lparr>s_next := (s_next (sched_of s))(c := h)\<rparr>"
  using assms by (auto simp: sched_of_def nth_list_update fun_eq_iff)

lemma sched_of_sem: "i < length (sem_list s) \<Longrightarrow>
    sched_of (upd_sem i f s) = set_sem i (sem_val (f (sem_list s ! i)), sem_head (f (sem_list s ! i))) (sched_of s)"
  by (auto simp: sched_of_def nth_list_update fun_eq_iff)

lemma sched_of_switched:
  "length (proc_list s) = 20 \<Longrightarrow> k < 20 \<Longrightarrow> sched_of (switched k s) = dispatch k (sched_of s)"
  by (auto simp: sched_of_def dispatch_def switched_nth fun_eq_iff) (simp add: switched_def)

section \<open>Refinement\<close>

lemma resched_schedule:
  fixes s :: "'a kernel_scheme"
  assumes "proc_ok0 s" "schedule_proc s = Some z"
  shows "resched (sched_of s) (sched_of (out_state z))"
proof (cases "proc_pick s")
  case None
  then have "\<forall>i < 20. status (proc_list s ! i) \<noteq> PROC_READY" using proc_pick_None [of s] assms(1) by simp
  moreover have "z = Returns () s" using assms None by (simp add: schedule_eq)
  ultimately show ?thesis by (auto simp: resched_def sched_of_def)
next
  case (Some k)
  note k = proc_pick_Some [OF assms(1) Some]
  have z: "sched_of (out_state z) = dispatch k (sched_of s)"
    using assms Some k(1) by (auto simp: schedule_eq sched_of_switched)
  show ?thesis
  proof (cases "status (proc_list s ! k) = PROC_READY")
    case True
    then have "s_st (sched_of s) k = PROC_READY" using k(1) by (simp add: sched_of_def)
    then show ?thesis using z by (auto simp: resched_def)
  next
    case False
    then have r: "status (proc_list s ! k) = PROC_RUNNING" using k(2) by simp
    then have c: "curr_proc s = Some k" using ok_slot [OF assms(1) k(1)] by (simp add: slot_ok_def)
    have "dispatch k (sched_of s) = sched_of s" using r c k(1) by (auto simp: dispatch_def sched_of_def fun_eq_iff)
    then show ?thesis using z k(3) [OF r] by (auto simp: resched_def sched_of_def)
  qed
qed

text \<open>Handlers end by changing the interrupt flag alone.\<close>

lemma sched_and_then:
  fixes m :: "('b, 'a kernel_scheme) outcome option"
  assumes "and_then m f = Some z" "\<And>x s y. f x s = Some y \<Longrightarrow> sched_of (out_state y) = sched_of s"
  obtains y where "m = Some y" "sched_of (out_state z) = sched_of (out_state y)"
  using assms by (cases m; cases "the m") auto

lemma wait_refines:
  fixes s :: "'a kernel_scheme"
  assumes "proc_ok s" "curr_proc s = Some c" "do_wait s = Some z"
  shows "a_wait c (sched_of s) (sched_of (out_state z))"
proof -
  note c = ok_taken [OF proc_ok_ok0 [OF assms(1)] assms(2)]
  have len: "length (proc_list s) = 20" using assms(1) by (simp add: proc_ok_def)
  have ok: "proc_ok0 (waiting c s)" using c proc_ok_ok0 [OF assms(1)] by (intro status_upd_ok) auto
  have "and_then (schedule_proc (waiting c s)) (\<lambda>_ s. Some (Returns () (enable_k s))) = Some z"
    using assms(2,3) by (simp add: do_wait_def)
  then obtain y where "schedule_proc (waiting c s) = Some y" "sched_of (out_state z) = sched_of (out_state y)"
    by (rule sched_and_then) auto
  moreover have "sched_of (waiting c s) = set_st c PROC_WAITING (sched_of s)"
    using len c(1) by (simp add: sched_of_upd)
  ultimately show ?thesis using resched_schedule [OF ok] by (simp add: a_wait_def)
qed

lemma wake_refines:
  fixes s :: "'a kernel_scheme"
  assumes "proc_ok0 s" "q < 20" "status (proc_list s ! q) \<noteq> PROC_NEW"
    and "wakeup (word_of_int (pid (proc_list s ! q))) s = Some z"
  shows "a_wake q (sched_of s) (sched_of (out_state z))"
proof (cases "status (proc_list s ! q) = PROC_WAITING")
  case True
  let ?s = "upd_proc q (\<lambda>p. p\<lparr>status := PROC_READY\<rparr>) (disable_k s)"
  have len: "length (proc_list s) = 20" using assms(1) by simp
  have ok: "proc_ok0 ?s" using assms(1-3) by (intro status_upd_ok) auto
  have "and_then (schedule_proc ?s) (\<lambda>_ s. Some (Returns () (enable_k s))) = Some z"
    using assms True by (simp add: wakeup_eq)
  then obtain y where "schedule_proc ?s = Some y" "sched_of (out_state z) = sched_of (out_state y)"
    by (rule sched_and_then) auto
  moreover have "sched_of ?s = set_st q PROC_READY (sched_of s)" using len assms(2) by (simp add: sched_of_upd)
  moreover have "s_st (sched_of s) q = PROC_WAITING" using True assms(2) by (simp add: sched_of_def)
  ultimately show ?thesis using resched_schedule [OF ok] by (simp add: a_wake_def)
next
  case False
  then have "sched_of (out_state z) = sched_of s" "s_st (sched_of s) q \<noteq> PROC_WAITING"
    using assms by (auto simp: wakeup_eq sched_of_def)
  then show ?thesis by (simp add: a_wake_def)
qed

lemma exit_refines:
  fixes s :: "'a kernel_scheme"
  assumes "proc_ok s" "curr_proc s = Some c" "do_exit s = Some z"
  shows "a_exit c (sched_of s) (sched_of (out_state z))"
proof -
  note c = ok_taken [OF proc_ok_ok0 [OF assms(1)] assms(2)]
  have len: "length (proc_list s) = 20" using assms(1) by (simp add: proc_ok_def)
  let ?b = "set_st c PROC_TERMINATED (sched_of s)"
  have b: "sched_of (ended c s) = ?b" using len c(1) by (simp add: sched_of_upd)
  have par: "s_parent (sched_of s) c = parent (proc_list s ! c)" using c(1) by (simp add: sched_of_def)
  have "and_then (notify_parent c s (ended c s)) (\<lambda>_ s. Some (Returns () (enable_k s))) = Some z"
    using assms(2,3) c(1) len by (simp add: do_exit_def Let_def)
  then obtain y where y: "notify_parent c s (ended c s) = Some y" "sched_of (out_state z) = sched_of (out_state y)"
    by (rule sched_and_then) auto
  show ?thesis
  proof (cases "parent (proc_list s ! c)")
    case None
    then have "y = Returns () (ended c s)" using y(1) by simp
    then have "sched_of (out_state z) = ?b" using y(2) b by (simp only: out_state.simps)
    then show ?thesis using None par by (simp add: a_exit_def)
  next
    case (Some q)
    have q: "q < 20" "status (proc_list (ended c s) ! q) \<noteq> PROC_NEW"
      using parent_taken [OF assms(1,2) Some] c(1) len by (auto simp: nth_list_update)
    have "wakeup (word_of_int (pid (proc_list (ended c s) ! q))) (ended c s) = Some y" using y(1) Some by simp
    from wake_refines [OF proc_ok_ok0 [OF ended_ok [OF assms(1,2)]] q this]
    have "a_wake q ?b (sched_of (out_state z))" by (simp only: b y(2))
    then show ?thesis using Some par by (simp add: a_exit_def)
  qed
qed


lemma acquire_refines:
  fixes s :: "'a kernel_scheme"
  assumes "proc_ok s" "curr_proc s = Some c" "i < length (sem_list s)" "do_sem_p (int i) s = Some z"
  shows "a_acquire i c (sched_of s) (sched_of (out_state z))"
proof -
  let ?S = "sem_list s ! i"
  note c = ok_taken [OF proc_ok_ok0 [OF assms(1)] assms(2)]
  have len: "length (proc_list s) = 20" using assms(1) by (simp add: proc_ok_def)
  have sem: "s_sem (sched_of s) i = Some (sem_val ?S, sem_head ?S)" using assms(3) by (simp add: sched_of_def)
  let ?u = "upd_sem i (\<lambda>x. x\<lparr>sem_val := sem_val x - 1\<rparr>) (disable_k s)"
  let ?v = "upd_sem i (\<lambda>x. x\<lparr>sem_head := Some c\<rparr>) (upd_proc c (\<lambda>p. p\<lparr>p_next := sem_head ?S\<rparr>) ?u)"
  have u: "sched_of ?u = set_sem i (sem_val ?S - 1, sem_head ?S) (sched_of s)"
    using assms(3) by (simp add: sched_of_sem)
  show ?thesis
  proof (cases "sem_val ?S - 1 < 0")
    case True
    have ok: "proc_ok ?v" using assms(1) upd_next_ok [of ?u c] by simp
    have "and_then (do_wait ?v) (\<lambda>_ s. Some (Returns () (enable_k s))) = Some z"
      using assms(2-4) True by (simp add: do_sem_p_def sem_index_def Let_def)
    then obtain y where y: "do_wait ?v = Some y" "sched_of (out_state z) = sched_of (out_state y)"
      by (rule sched_and_then) auto
    have "sched_of ?v = set_sem i (sem_val ?S - 1, Some c) (sched_of s)
        \<lparr>s_next := (s_next (sched_of s))(c := sem_head ?S)\<rparr>"
      using assms(3) u len c(1) by (simp add: sched_of_sem sched_of_upd(3))
    moreover have "curr_proc ?v = Some c" using assms(2) by simp
    ultimately show ?thesis using wait_refines [OF ok _ y(1)] y(2) sem True by (simp add: a_acquire_def)
  next
    case False
    then have "z = Returns () (enable_k ?u)" using assms(3,4) by (simp add: do_sem_p_def sem_index_def Let_def)
    then have "sched_of (out_state z) = sched_of ?u" by simp
    then show ?thesis using u sem False by (simp add: a_acquire_def)
  qed
qed

lemma release_refines:
  fixes s :: "'a kernel_scheme"
  assumes "proc_ok s" "links_ok (sched_of s)" "curr_proc s = Some c" "i < length (sem_list s)" "do_sem_v (int i) s = Some z"
  shows "a_release i c (sched_of s) (sched_of (out_state z))"
proof -
  let ?S = "sem_list s ! i"
  have sem: "s_sem (sched_of s) i = Some (sem_val ?S, sem_head ?S)" using assms(4) by (simp add: sched_of_def)
  show ?thesis
  proof (cases "sem_val ?S < 0")
    case True
    have "sem_index (int i) (disable_k s) = Some i" using assms(4) by (simp add: sem_index_def)
    then obtain w where w: "sem_head ?S = Some w"
      using assms(4,5) True by (cases "sem_head ?S") (auto simp: do_sem_v_def Let_def)
    have "s_st (sched_of s) w \<noteq> PROC_NEW" using assms(2) sem w by (simp add: links_ok_def)
    then have w20: "w < 20" "status (proc_list s ! w) \<noteq> PROC_NEW" by (auto simp: sched_of_def split: if_splits)
    have "c < 20" by (rule ok_taken(1) [OF proc_ok_ok0 [OF assms(1)] assms(3)])
    then have nx: "p_next (proc_list s ! c) = s_next (sched_of s) c" by (simp add: sched_of_def)
    have v: "sched_of (v_taken i c s) = set_sem i (sem_val ?S + 1, s_next (sched_of s) c) (sched_of s)"
      using assms(4) nx by (simp add: sched_of_sem)
    have "and_then (wakeup (word_of_int (pid (proc_list (v_taken i c s) ! w))) (v_taken i c s))
        (\<lambda>_ s. Some (Returns () (enable_k s))) = Some z"
      using assms(5) sem_v_eq [OF assms(3,4) True w] by simp
    then obtain y where y: "wakeup (word_of_int (pid (proc_list (v_taken i c s) ! w))) (v_taken i c s) = Some y"
      "sched_of (out_state z) = sched_of (out_state y)"
      by (rule sched_and_then) auto
    have "a_wake w (sched_of (v_taken i c s)) (sched_of (out_state y))"
      using assms(1) w20 by (intro wake_refines [OF _ _ _ y(1)]) (simp_all add: proc_ok_def)
    then show ?thesis using True w unfolding a_release_def sem v y(2) by auto
  next
    case False
    then have "z = Returns () (enable_k (upd_sem i (\<lambda>x. x\<lparr>sem_val := sem_val x + 1\<rparr>) (disable_k s)))"
      using assms(4,5) by (simp add: do_sem_v_def sem_index_def Let_def)
    then have "sched_of (out_state z) = set_sem i (sem_val ?S + 1, sem_head ?S) (sched_of s)"
      using assms(4) by (simp add: sched_of_sem)
    then show ?thesis using sem False by (simp add: a_release_def)
  qed
qed

lemma tick_refines:
  fixes s :: "'a kernel_scheme"
  assumes "proc_ok s" "pit_handler r s = Some z"
  shows "a_tick (sched_of s) (sched_of (out_state z))"
proof -
  obtain y where y: "pit_handler_main r (disable_k s) = Some y" "sched_of (out_state z) = sched_of (out_state y)"
    using assms(2) unfolding pit_handler_def by (rule sched_and_then) auto
  let ?s = "(disable_k s)\<lparr>k_pit := (k_pit s)\<lparr>pit_ticks := pit_ticks (k_pit s) + 1\<rparr>\<rparr>"
  have ok: "proc_ok ?s" and len: "length (proc_list s) = 20" using assms(1) by (simp_all add: proc_ok_def)
  have run: "a_tick (sched_of s) (sched_of (out_state y))"
    if "and_then (schedule_proc t) (\<lambda>_ s. Some (Returns () (done_k s))) = Some y" "sched_of t = sched_of s" "proc_ok t"
    for t :: "'a kernel_scheme"
  proof -
    note t = that
    obtain x where "schedule_proc t = Some x" "sched_of (out_state y) = sched_of (out_state x)"
      using t(1) by (rule sched_and_then) auto
    then show ?thesis using resched_schedule [OF proc_ok_ok0 [OF t(3)]] t(2) by (simp add: a_tick_def)
  qed
  show ?thesis
  proof (cases "curr_proc s")
    case None
    show ?thesis
    proof (cases "curr_pid s = 0")
      case True
      then have "y = Returns () (done_k ?s)" using y(1) None by (simp add: pit_handler_main_def Let_def)
      then show ?thesis using y(2) by (simp add: a_tick_def)
    next
      case False
      then have "and_then (schedule_proc ?s) (\<lambda>_ s. Some (Returns () (done_k s))) = Some y"
        using y(1) None by (simp add: pit_handler_main_def Let_def)
      then show ?thesis using run [of ?s] ok y(2) by simp
    qed
  next
    case (Some c)
    note c = ok_taken [OF proc_ok_ok0 [OF assms(1)] Some]
    show ?thesis
    proof (cases "0 < tick (proc_list s ! c)")
      case True
      then have "y = Returns () (done_k (upd_proc c (\<lambda>p. p\<lparr>tick := tick p - 1\<rparr>) ?s))"
        using y(1) Some by (simp add: pit_handler_main_def Let_def)
      then have "sched_of (out_state y) = sched_of s" using len c(1) by (simp add: sched_of_upd)
      then show ?thesis using y(2) by (simp add: a_tick_def)
    next
      case False
      let ?t = "save_proc r ?s"
      have "and_then (schedule_proc ?t) (\<lambda>_ s. Some (Returns () (done_k s))) = Some y"
        using y(1) Some False by (simp add: pit_handler_main_def Let_def)
      moreover have "sched_of ?t = sched_of s" using Some len c(1) by (simp add: save_proc_def sched_of_upd)
      ultimately show ?thesis using run [of ?t] save_proc_ok [OF ok] y(2) by simp
    qed
  qed
qed

section \<open>The calls of a program\<close>

lemma call_refines:
  fixes s :: "'a kernel_scheme"
  assumes "proc_ok s" "curr_proc s = Some c" "sys_interrupt_handler r s = Some z"
  obtains y where "sys_interrupt_handler_main (r_eax r) (r_ebx r) (save_proc r (disable_k s)) = Some y"
    "sched_of (out_state z) = sched_of (out_state y)" "proc_ok (save_proc r (disable_k s))"
    "curr_proc (save_proc r (disable_k s)) = Some c" "sched_of (save_proc r (disable_k s)) = sched_of s"
proof -
  obtain y where y: "sys_interrupt_handler_main (r_eax r) (r_ebx r) (save_proc r (disable_k s)) = Some y"
    "sched_of (out_state z) = sched_of (out_state y)"
    using assms(3) unfolding sys_interrupt_handler_def by (rule sched_and_then) auto
  note c = ok_taken [OF proc_ok_ok0 [OF assms(1)] assms(2)]
  have "sched_of (save_proc r (disable_k s)) = sched_of s"
    using assms c(1) by (simp add: save_proc_def sched_of_upd proc_ok_def)
  then show thesis using that y entered(1,2) [OF assms(1,2), of r] by blast
qed

lemma handler_defined:
  assumes "proc_ok s" "curr_proc s = Some c" "call_ok (r_eax r) (r_ebx r) s"
  shows "\<exists>z. sys_interrupt_handler r s = Some z"
  using handler_main_defined [OF entered(1,2) [OF assms(1,2)]] assms(3)
  by (simp add: sys_interrupt_handler_def and_then_Some call_ok_frame)

lemma semaphore_exists:
  "do_sem_p i s = Some z \<Longrightarrow> i = int (nat i) \<and> nat i < length (sem_list s)"
  "do_sem_v i s = Some z \<Longrightarrow> i = int (nat i) \<and> nat i < length (sem_list s)"
  by (cases "sem_index i (disable_k s)"; auto simp: do_sem_p_def do_sem_v_def sem_index_def split: if_splits)+

lemma program_calls_refine:
  fixes s :: "'a kernel_scheme"
  assumes "proc_ok s" "links_ok (sched_of s)" "curr_proc s = Some c"
  shows "wait r s = Some z \<Longrightarrow> a_wait c (sched_of s) (sched_of (out_state z))"
    "exit r s = Some z \<Longrightarrow> a_exit c (sched_of s) (sched_of (out_state z))"
    "sem_wait i r s = Some z \<Longrightarrow> a_acquire (nat (sint i)) c (sched_of s) (sched_of (out_state z))"
    "sem_signal i r s = Some z \<Longrightarrow> a_release (nat (sint i)) c (sched_of s) (sched_of (out_state z))"
proof -
  have unit: thesis
    if "and_then m (\<lambda>_ s. Some (Returns 0 s)) = Some y" "\<And>x. m = Some x \<Longrightarrow> sched_of (out_state y) = sched_of (out_state x) \<Longrightarrow> thesis"
    for m :: "(unit, 'a kernel_scheme) outcome option" and y :: "(u32, 'a kernel_scheme) outcome" and thesis
    by (rule sched_and_then [OF that(1)]) (use that(2) in auto)
  show "a_wait c (sched_of s) (sched_of (out_state z))" if w: "wait r s = Some z"
    by (rule call_refines [OF assms(1,3) w [unfolded wait_def]])
      (auto simp: sys_interrupt_handler_main_def elim!: unit dest: wait_refines)
  show "a_exit c (sched_of s) (sched_of (out_state z))" if w: "exit r s = Some z"
    by (rule call_refines [OF assms(1,3) w [unfolded exit_def]])
      (auto simp: sys_interrupt_handler_main_def elim!: unit dest: exit_refines)
  show "a_acquire (nat (sint i)) c (sched_of s) (sched_of (out_state z))" if w: "sem_wait i r s = Some z"
  proof (rule call_refines [OF assms(1,3) w [unfolded sem_wait_def]])
    let ?r = "r\<lparr>r_ebx := i, r_eax := 21\<rparr>"
    let ?s = "save_proc ?r (disable_k s)"
    fix y assume y: "sys_interrupt_handler_main (r_eax ?r) (r_ebx ?r) ?s = Some y" "sched_of (out_state z) = sched_of (out_state y)"
      and s: "proc_ok ?s" "curr_proc ?s = Some c" "sched_of ?s = sched_of s"
    have "and_then (do_sem_p (sint i) ?s) (\<lambda>_ s. Some (Returns 0 s)) = Some y"
      using y(1) by (simp add: sys_interrupt_handler_main_def)
    then obtain x where x: "do_sem_p (sint i) ?s = Some x" "sched_of (out_state y) = sched_of (out_state x)"
      by (rule unit)
    note n = semaphore_exists(1) [OF x(1)]
    have "do_sem_p (int (nat (sint i))) ?s = Some x" using x(1) n by simp
    from acquire_refines [OF s(1,2) _ this] show ?thesis using n s(3) x(2) y(2) by simp
  qed
  show "a_release (nat (sint i)) c (sched_of s) (sched_of (out_state z))" if w: "sem_signal i r s = Some z"
  proof (rule call_refines [OF assms(1,3) w [unfolded sem_signal_def]])
    let ?r = "r\<lparr>r_ebx := i, r_eax := 22\<rparr>"
    let ?s = "save_proc ?r (disable_k s)"
    fix y assume y: "sys_interrupt_handler_main (r_eax ?r) (r_ebx ?r) ?s = Some y" "sched_of (out_state z) = sched_of (out_state y)"
      and s: "proc_ok ?s" "curr_proc ?s = Some c" "sched_of ?s = sched_of s"
    have "and_then (do_sem_v (sint i) ?s) (\<lambda>_ s. Some (Returns 0 s)) = Some y"
      using y(1) by (simp add: sys_interrupt_handler_main_def)
    then obtain x where x: "do_sem_v (sint i) ?s = Some x" "sched_of (out_state y) = sched_of (out_state x)"
      by (rule unit)
    note n = semaphore_exists(2) [OF x(1)]
    have "do_sem_v (int (nat (sint i))) ?s = Some x" using x(1) n by simp
    from release_refines [OF s(1) _ s(2) _ this] show ?thesis using n s(3) x(2) y(2) assms(2) by simp
  qed
qed

text \<open>C6: What programs see of the scheduler: the timer, \<^verbatim>\<open>wait\<close>, \<^verbatim>\<open>exit\<close>, \<^verbatim>\<open>sem_wait\<close> and \<^verbatim>\<open>sem_signal\<close>, from
  the interrupt to its end, do to the states of the processes, their links and the semaphores what the
  abstract scheduler allows.\<close>

theorem kernel_refines_scheduler:
  fixes s :: "'a kernel_scheme"
  assumes "proc_ok s" "links_ok (sched_of s)" "curr_proc s = Some c"
  shows "(\<forall>r z. pit_handler r s = Some z \<longrightarrow> a_tick (sched_of s) (sched_of (out_state z))) \<and>
    (\<forall>r z. wait r s = Some z \<longrightarrow> a_wait c (sched_of s) (sched_of (out_state z))) \<and>
    (\<forall>r z. exit r s = Some z \<longrightarrow> a_exit c (sched_of s) (sched_of (out_state z))) \<and>
    (\<forall>i r z. sem_wait i r s = Some z \<longrightarrow> a_acquire (nat (sint i)) c (sched_of s) (sched_of (out_state z))) \<and>
    (\<forall>i r z. sem_signal i r s = Some z \<longrightarrow> a_release (nat (sint i)) c (sched_of s) (sched_of (out_state z)))"
  using program_calls_refine [OF assms] tick_refines [OF assms(1)] by blast

lemma demo_links: "links_ok (sched_of demo_sem)"
  by (auto simp: links_ok_def sched_of_def demo_sem_def kstate.defs demo_sem_procs_def demo_process_def free_process_def
      nth_Cons less_Suc_eq split: nat.splits if_splits)

lemma kernel_refines_scheduler_witness:
  "\<exists>z. sem_signal 0 zero_regs demo_sem = Some z \<and>
    s_sem (sched_of demo_sem) 0 = Some (-2, Some 2) \<and> a_release 0 0 (sched_of demo_sem) (sched_of (out_state z))"
proof -
  have ok: "proc_ok demo_sem" "curr_proc demo_sem = Some 0" by (rule demo_sem_ok)+
  have sem: "s_sem (sched_of demo_sem) 0 = Some (-2, Some 2)" by (simp add: sched_of_def demo_sem_def kstate.defs)
  have "call_ok 22 0 demo_sem" by (simp add: call_ok_def sem_index_def demo_sem_def kstate.defs)
  then obtain z where z: "sem_signal 0 zero_regs demo_sem = Some z"
    using handler_defined [OF ok, of "zero_regs\<lparr>r_ebx := 0, r_eax := 22\<rparr>"] by (auto simp: sem_signal_def)
  then have "a_release (nat (sint (0 :: u32))) 0 (sched_of demo_sem) (sched_of (out_state z))"
    using kernel_refines_scheduler [OF ok(1) demo_links ok(2)] by blast
  then show ?thesis using z sem by auto
qed

end
