(* ===== verification/Creation.thy ===== *)
theory Creation
  imports Scheduling
begin

text \<open>
  The rest of what a program sees of the scheduler: the creation of processes and threads, the end of a
  thread and the return from the main function of a program.
\<close>

section \<open>On the abstract scheduler\<close>

definition a_create :: "nat \<Rightarrow> nat \<Rightarrow> sched \<Rightarrow> sched \<Rightarrow> bool" where
  "a_create n c a a' \<longleftrightarrow> s_st a n = PROC_NEW \<and>
     a' = (set_st n PROC_READY a)\<lparr>s_parent := (s_parent a)(n := Some c)\<rparr>"

text \<open>The process has ended and the shell goes on, without a current process.\<close>

definition a_leave :: "nat \<Rightarrow> sched \<Rightarrow> sched" where
  "a_leave c a = (set_st c PROC_TERMINATED a)\<lparr>s_cur := None\<rparr>"

definition a_thread_exit :: "nat \<Rightarrow> sched \<Rightarrow> sched \<Rightarrow> bool" where
  "a_thread_exit c a a' \<longleftrightarrow>
     (let b = set_st c PROC_TERMINATED a
      in case s_parent a c of
           None \<Rightarrow> a' = a_leave c a
         | Some q \<Rightarrow> if s_st b q = PROC_WAITING then resched (set_st q PROC_READY b) a' else a' = a_leave c a)"

lemma links_creation:
  assumes "links_ok a" "s_st a c \<noteq> PROC_NEW"
  shows "a_create n c a a' \<Longrightarrow> links_ok a'" "links_ok (a_leave c a)" "a_thread_exit c a a' \<Longrightarrow> links_ok a'"
proof -
  show "a_create n c a a' \<Longrightarrow> links_ok a'" using assms(1) by (auto simp: a_create_def links_ok_def)
  have b: "links_ok (set_st c PROC_TERMINATED a)" by (rule links_set_st [OF assms(1)]) simp
  then show l: "links_ok (a_leave c a)" by (simp add: a_leave_def links_ok_def)
  show "a_thread_exit c a a' \<Longrightarrow> links_ok a'"
    using l links_resched [OF links_set_st [OF b]]
    by (auto simp: a_thread_exit_def Let_def simp del: fun_upd_apply split: option.splits if_splits)
qed

section \<open>The kernel refines it\<close>

lemma taken_st: "proc_ok s \<Longrightarrow> j < 20 \<Longrightarrow> s_st (sched_of s) j = PROC_NEW \<longleftrightarrow> unat (curr_pid s) \<le> j"
  using ok_slot [OF proc_ok_ok0, of s j] by (simp add: sched_of_def slot_ok_def)

lemma forked_sched:
  fixes s :: "'a kernel_scheme"
  assumes "proc_ok s" "curr_proc s = Some c" "unat (curr_pid s) < 20"
  shows "a_create (unat (curr_pid s)) c (sched_of s) (sched_of (forked c s))"
  using assms taken_st [OF assms(1,3)]
  by (auto simp: a_create_def sched_of_def forked_def Let_def nth_list_update proc_ok_def fun_eq_iff)

lemma fork_creates:
  fixes s :: "'a kernel_scheme"
  assumes "proc_ok s" "curr_proc s = Some c" "fork r s = Some z"
  obtains s' where "z = Returns (- 1) s'" "sched_of s' = sched_of s" "\<forall>j < 20. s_st (sched_of s) j \<noteq> PROC_NEW"
  | s' where "z = Returns (of_nat (unat (curr_pid s) + 1)) s'" "unat (curr_pid s) < 20"
      "a_create (unat (curr_pid s)) c (sched_of s) (sched_of s')"
proof -
  let ?s = "save_proc (r\<lparr>r_eax := 10\<rparr>) (disable_k s)"
  note e = entered [OF assms(1,2), of "r\<lparr>r_eax := 10\<rparr>"]
  have c: "c < 20" using ok_curr [OF proc_ok_ok0 [OF assms(1)] assms(2)] by simp
  have sch: "sched_of ?s = sched_of s"
    using assms(1,2) c by (simp add: save_proc_def sched_of_upd proc_ok_def)
  have le: "unat (curr_pid s) \<le> 20" using assms(1) by (simp add: proc_ok_def proc_ok0_def table_ok_def)
  show thesis
  proof (cases "unat (curr_pid s) = 20")
    case True
    then have "\<forall>j < 20. s_st (sched_of s) j \<noteq> PROC_NEW" using taken_st [OF assms(1)] by auto
    then show thesis using True that(1) assms(3) do_fork_eq [OF e(1,2)] e(3) sch
      by (auto simp: fork_def sys_interrupt_handler_def sys_interrupt_handler_main_def)
  next
    case False
    then have n: "unat (curr_pid ?s) < 20" using le e(3) by simp
    have "z = Returns (of_nat (unat (curr_pid s) + 1)) (enable_k (forked c ?s))"
      using assms(3) do_fork_eq [OF e(1,2)] e(3) False
      by (auto simp: fork_def sys_interrupt_handler_def sys_interrupt_handler_main_def)
    then show thesis using that(2) forked_sched [OF e(1,2) n] n e(3) sch by simp
  qed
qed

lemma thread_creates:
  fixes s :: "'a kernel_scheme"
  assumes "proc_ok s" "curr_proc s = Some c" "pthread_create tid func args ra kr r s = Some z"
  obtains s' where "z = Returns (- 1) s'" "sched_of s' = sched_of s" "\<forall>j < 20. s_st (sched_of s) j \<noteq> PROC_NEW"
  | s' where "z = Returns 0 s'" "unat (curr_pid s) < 20"
      "a_create (unat (curr_pid s)) c (sched_of s) (sched_of s')"
proof -
  let ?r = "r\<lparr>r_eax := 0, r_ebx := tid, r_ecx := func, r_edx := args\<rparr>"
  let ?s = "save_proc ?r (disable_k s)" and ?n = "unat (curr_pid s)"
  note e = entered [OF assms(1,2), of ?r]
  have c: "c < 20" using ok_curr [OF proc_ok_ok0 [OF assms(1)] assms(2)] by simp
  have sch: "sched_of ?s = sched_of s"
    using assms(1,2) c by (simp add: save_proc_def sched_of_upd proc_ok_def)
  have le: "?n \<le> 20" using assms(1) by (simp add: proc_ok_def proc_ok0_def table_ok_def)
  note run = assms(3) [unfolded pthread_create_def sys_pthread_handler_def sys_pthread_handler_main_def Let_def, simplified]
  show thesis
  proof (cases "?n = 20")
    case True
    then have "\<forall>j < 20. s_st (sched_of s) j \<noteq> PROC_NEW" using taken_st [OF assms(1)] by auto
    then show thesis using True that(1) run thread_create_eq [OF e(1,2)] e(3) sch by auto
  next
    case False
    then have n: "unat (curr_pid ?s) < 20" using le e(3) by simp
    have len: "length (proc_list (forked c ?s)) = 20" using e(1) by (simp add: proc_ok_def forked_def Let_def)
    have "\<exists>s'. z = Returns 0 s' \<and> sched_of s' = sched_of (forked c ?s)"
      using run thread_create_eq [OF e(1,2)] e(3) False n len by (auto simp: Let_def sched_of_upd)
    then show thesis using that(2) forked_sched [OF e(1,2) n] n e(3) sch by auto
  qed
qed

lemma return_leaves:
  fixes s :: "'a kernel_scheme"
  assumes "proc_ok s" "curr_proc s = Some c" "sys_return_to_shell s = Some z"
  shows "sched_of (out_state z) = a_leave c (sched_of s)"
proof -
  have len: "length (proc_list s) = 20" "c < 20"
    using assms(1) ok_curr [OF proc_ok_ok0 [OF assms(1)] assms(2)] by (simp_all add: proc_ok_def)
  have "sched_of (t\<lparr>curr_proc := None\<rparr>) = (sched_of t)\<lparr>s_cur := None\<rparr>" for t :: "'a kernel_scheme"
    by (simp add: sched_of_def cong: if_cong)
  then show ?thesis using assms(2,3) len
    by (auto simp: sys_return_to_shell_def Let_def a_leave_def sched_of_upd)
qed

lemma main_returns:
  fixes s :: "'a kernel_scheme"
  assumes "proc_ok s" "curr_proc s = Some c" "sys_interrupt_handler (r\<lparr>r_eax := 100\<rparr>) s = Some z"
  shows "sched_of (out_state z) = a_leave c (sched_of s)"
proof (rule call_refines [OF assms])
  let ?s = "save_proc (r\<lparr>r_eax := 100\<rparr>) (disable_k s)"
  fix y assume y: "sys_interrupt_handler_main (r_eax (r\<lparr>r_eax := 100\<rparr>)) (r_ebx (r\<lparr>r_eax := 100\<rparr>)) ?s = Some y"
    "sched_of (out_state z) = sched_of (out_state y)"
    and s: "proc_ok ?s" "curr_proc ?s = Some c" "sched_of ?s = sched_of s"
  have "and_then (sys_return_to_shell ?s) (\<lambda>_ s. Some (Returns 0 s)) = Some y"
    using y(1) by (simp add: sys_interrupt_handler_main_def)
  then obtain x where "sys_return_to_shell ?s = Some x" "sched_of (out_state y) = sched_of (out_state x)"
    by (rule sched_and_then) auto
  then show ?thesis using return_leaves [OF s(1,2)] y(2) s(3) by simp
qed

lemma thread_ends:
  fixes s :: "'a kernel_scheme"
  assumes "proc_ok s" "curr_proc s = Some c" "do_thread_exit kr s = Some z"
  shows "a_thread_exit c (sched_of s) (sched_of (out_state z))"
proof -
  note c = ok_taken [OF proc_ok_ok0 [OF assms(1)] assms(2)]
  have len: "length (proc_list s) = 20" using assms(1) by (simp add: proc_ok_def)
  let ?b = "set_st c PROC_TERMINATED (sched_of s)"
  have b: "sched_of (ended c s) = ?b" using len c(1) by (simp add: sched_of_upd)
  have par: "s_parent (sched_of s) c = parent (proc_list s ! c)" using c(1) by (simp add: sched_of_def)
  have run: "and_then (notify_parent c s (ended c s)) (\<lambda>_ s. user_process_return kr (enable_k s)) = Some z"
    using assms(3) by (simp add: thread_exit_notify [OF assms(1,2)])
  show ?thesis
  proof (cases "\<exists>q. parent_waits c s q")
    case True
    then obtain q where q: "parent_waits c s q" by blast
    then have p: "parent (proc_list s ! c) = Some q" "q \<noteq> c" "status (proc_list s ! q) = PROC_WAITING"
      by (simp_all add: parent_waits_def)
    have q20: "q < 20" using parent_taken(1) [OF assms(1,2) p(1)] .
    obtain r u where y: "notify_parent c s (ended c s) = Some (Switches r u)" using notify_waiting [OF assms(1,2) q] by metis
    then have z: "out_state z = u" using run by auto
    have w: "wakeup (word_of_int (pid (proc_list (ended c s) ! q))) (ended c s) = Some (Switches r u)" using y p(1) by simp
    have "a_wake q ?b (sched_of u)"
      using wake_refines [OF proc_ok_ok0 [OF ended_ok [OF assms(1,2)]] q20 _ w] p(2,3) b len by simp
    moreover have "s_st ?b q = PROC_WAITING" using p(2,3) q20 by (simp add: sched_of_def)
    ultimately show ?thesis using p(1) par z by (simp add: a_thread_exit_def a_wake_def)
  next
    case False
    obtain b where nb: "notify_parent c s (ended c s) = Some (Returns () ((ended c s)\<lparr>k_io := b\<rparr>))"
      using notify_not_waiting [OF assms(1,2) False] by blast
    let ?t = "save_proc kr (disable_k (enable_k ((ended c s)\<lparr>k_io := b\<rparr>)))"
    have ok: "proc_ok ((ended c s)\<lparr>k_io := b\<rparr>)" using ended_ok [OF assms(1,2)] by simp
    have ok_t: "proc_ok ?t" by (rule save_proc_ok) (use ok in simp)
    have cur: "curr_proc ?t = Some c" using assms(2) by (simp add: save_proc_def)
    have "sys_return_to_shell ?t = Some z" using run nb by (simp add: user_process_return_def)
    from return_leaves [OF ok_t cur this] have z: "sched_of (out_state z) = a_leave c (sched_of ?t)" .
    have "sched_of ?t = ?b" using assms(2) len c(1) b by (simp add: save_proc_def sched_of_upd)
    then have z': "sched_of (out_state z) = a_leave c (sched_of s)" using z by (simp add: a_leave_def)
    have "s_st ?b q \<noteq> PROC_WAITING" if "parent (proc_list s ! c) = Some q" for q
      using False that parent_taken(1) [OF assms(1,2) that] by (auto simp: parent_waits_def sched_of_def)
    then show ?thesis using z' par by (auto simp: a_thread_exit_def Let_def split: option.splits)
  qed
qed

text \<open>The calls of threads, through interrupt 0x81.\<close>

lemma thread_calls_refine:
  fixes s :: "'a kernel_scheme"
  assumes "proc_ok s" "curr_proc s = Some c"
  shows "pthread_join tid ret ra kr r s = Some z \<Longrightarrow> a_wait c (sched_of s) (sched_of (out_state z))"
    "user_pthread_return ra kr r s = Some z \<Longrightarrow> a_thread_exit c (sched_of s) (sched_of (out_state z))"
proof -
  have call: thesis
    if "sys_pthread_handler ra kr r s = Some z"
      "\<And>y. sys_pthread_handler_main ra kr r (save_proc r (disable_k s)) = Some y \<Longrightarrow>
        sched_of (out_state z) = sched_of (out_state y) \<Longrightarrow> thesis" for r thesis
    by (rule sched_and_then [OF that(1) [unfolded sys_pthread_handler_def]]) (use that(2) in auto)
  have sch: "sched_of (save_proc r (disable_k s)) = sched_of s" for r
    using assms ok_curr [OF proc_ok_ok0 [OF assms(1)] assms(2)] by (simp add: save_proc_def sched_of_upd proc_ok_def)
  have unit: thesis
    if "and_then m (\<lambda>_ s. Some (Returns 0 s)) = Some y" "\<And>x. m = Some x \<Longrightarrow> sched_of (out_state y) = sched_of (out_state x) \<Longrightarrow> thesis"
    for m :: "(unit, 'a kernel_scheme) outcome option" and y :: "(u32, 'a kernel_scheme) outcome" and thesis
    by (rule sched_and_then [OF that(1)]) (use that(2) in auto)
  note e = entered(1,2) [OF assms]
  show "a_wait c (sched_of s) (sched_of (out_state z))" if "pthread_join tid ret ra kr r s = Some z"
    by (rule call [OF that [unfolded pthread_join_def]])
      (auto simp: sys_pthread_handler_main_def thread_join_wait sch elim!: unit dest!: wait_refines [OF e])
  show "a_thread_exit c (sched_of s) (sched_of (out_state z))" if "user_pthread_return ra kr r s = Some z"
    by (rule call [OF that [unfolded user_pthread_return_def]])
      (auto simp: sys_pthread_handler_main_def sch elim!: unit dest!: thread_ends [OF e])
qed

end
