(* ===== verification/Program_Runs.thy ===== *)
theory Program_Runs
  imports Creation
begin

text \<open>
  Programs that run on the kernel. A program is a function from the point a process has reached and the
  memory its processes share to what it does next; the system calls and the timer are those of the
  kernel, so that a process can lose the processor between any two steps. A process whose call blocks
  goes on behind the call when the kernel gives it the processor again.
\<close>

section \<open>Runs\<close>

datatype ('p, 'm) action =
    Local 'p 'm
  | Acquire u32 'p
  | Release u32 'p
  | End 'p
  | Await 'p
  | Fork 'p 'p 'p
  | Spawn 'p 'p 'p
  | Join 'p
  | End_thread 'p
  | Return 'p
  | Halt

record ('p, 'm) run =
  r_pc :: "nat \<Rightarrow> 'p"
  r_mem :: 'm
  r_kern :: kernel

text \<open>\<^verbatim>\<open>fork\<close> and \<^verbatim>\<open>pthread_create\<close> go on at one point in the caller, at another in the child, which is the next slot of
  the table, and at a third in the caller when the table is full. A function that a thread runs ends in
  \<^verbatim>\<open>user_pthread_return\<close>, the main function of a program in interrupt 0x80 with number 100.

  The process that makes a step is the current one, also when it has been marked as waiting or
  ended: the kernel goes on with it when no other is ready.\<close>

inductive run_step :: "(nat \<Rightarrow> 'p \<Rightarrow> 'm \<Rightarrow> ('p, 'm) action) \<Rightarrow> ('p, 'm) run \<Rightarrow> ('p, 'm) run \<Rightarrow> bool"
  for prog where
  tick: "run_step prog x (x\<lparr>r_kern := out_state z\<rparr>)" if "pit_handler r (r_kern x) = Some z"
| local: "run_step prog x (x\<lparr>r_pc := (r_pc x)(c := p), r_mem := m\<rparr>)"
    if "curr_proc (r_kern x) = Some c" "prog c (r_pc x c) (r_mem x) = Local p m"
| acquire: "run_step prog x (x\<lparr>r_pc := (r_pc x)(c := p), r_kern := out_state z\<rparr>)"
    if "curr_proc (r_kern x) = Some c" "prog c (r_pc x c) (r_mem x) = Acquire i p" "sem_wait i r (r_kern x) = Some z"
| release: "run_step prog x (x\<lparr>r_pc := (r_pc x)(c := p), r_kern := out_state z\<rparr>)"
    if "curr_proc (r_kern x) = Some c" "prog c (r_pc x c) (r_mem x) = Release i p" "sem_signal i r (r_kern x) = Some z"
| finish: "run_step prog x (x\<lparr>r_pc := (r_pc x)(c := p), r_kern := out_state z\<rparr>)"
    if "curr_proc (r_kern x) = Some c" "prog c (r_pc x c) (r_mem x) = End p" "exit r (r_kern x) = Some z"
| await: "run_step prog x (x\<lparr>r_pc := (r_pc x)(c := p), r_kern := out_state z\<rparr>)"
    if "curr_proc (r_kern x) = Some c" "prog c (r_pc x c) (r_mem x) = Await p" "wait r (r_kern x) = Some z"
| fork: "run_step prog x (if v = - 1 then x\<lparr>r_pc := (r_pc x)(c := pf), r_kern := s'\<rparr>
      else x\<lparr>r_pc := (r_pc x)(c := p, unat (curr_pid (r_kern x)) := p'), r_kern := s'\<rparr>)"
    if "curr_proc (r_kern x) = Some c" "prog c (r_pc x c) (r_mem x) = Fork p p' pf" "fork r (r_kern x) = Some (Returns v s')"
| spawn: "run_step prog x (if v = - 1 then x\<lparr>r_pc := (r_pc x)(c := pf), r_kern := s'\<rparr>
      else x\<lparr>r_pc := (r_pc x)(c := p, unat (curr_pid (r_kern x)) := p'), r_kern := s'\<rparr>)"
    if "curr_proc (r_kern x) = Some c" "prog c (r_pc x c) (r_mem x) = Spawn p p' pf"
      "pthread_create tid func args ra kr r (r_kern x) = Some (Returns v s')"
| join: "run_step prog x (x\<lparr>r_pc := (r_pc x)(c := p), r_kern := out_state z\<rparr>)"
    if "curr_proc (r_kern x) = Some c" "prog c (r_pc x c) (r_mem x) = Join p" "pthread_join tid ret ra kr r (r_kern x) = Some z"
| end_thread: "run_step prog x (x\<lparr>r_pc := (r_pc x)(c := p), r_kern := out_state z\<rparr>)"
    if "curr_proc (r_kern x) = Some c" "prog c (r_pc x c) (r_mem x) = End_thread p" "user_pthread_return ra kr r (r_kern x) = Some z"
| return: "run_step prog x (x\<lparr>r_pc := (r_pc x)(c := p), r_kern := out_state z\<rparr>)"
    if "curr_proc (r_kern x) = Some c" "prog c (r_pc x c) (r_mem x) = Return p"
      "sys_interrupt_handler (r\<lparr>r_eax := 100\<rparr>) (r_kern x) = Some z"

text \<open>The same on the abstract scheduler.\<close>

inductive sched_step :: "(nat \<Rightarrow> 'p \<Rightarrow> 'm \<Rightarrow> ('p, 'm) action) \<Rightarrow>
    (nat \<Rightarrow> 'p) \<times> 'm \<times> sched \<Rightarrow> (nat \<Rightarrow> 'p) \<times> 'm \<times> sched \<Rightarrow> bool" for prog where
  s_tick: "sched_step prog (pc, m, a) (pc, m, a')" if "a_tick a a'"
| s_local: "sched_step prog (pc, m, a) (pc(c := p), m', a)" if "s_cur a = Some c" "prog c (pc c) m = Local p m'"
| s_acquire: "sched_step prog (pc, m, a) (pc(c := p), m, a')"
    if "s_cur a = Some c" "prog c (pc c) m = Acquire i p" "a_acquire (nat (sint i)) c a a'"
| s_release: "sched_step prog (pc, m, a) (pc(c := p), m, a')"
    if "s_cur a = Some c" "prog c (pc c) m = Release i p" "a_release (nat (sint i)) c a a'"
| s_exit: "sched_step prog (pc, m, a) (pc(c := p), m, a')"
    if "s_cur a = Some c" "prog c (pc c) m = End p" "a_exit c a a'"
| s_wait: "sched_step prog (pc, m, a) (pc(c := p), m, a')"
    if "s_cur a = Some c" "prog c (pc c) m = Await p \<or> prog c (pc c) m = Join p" "a_wait c a a'"
| s_create: "sched_step prog (pc, m, a) (pc(c := p, n := p'), m, a')"
    if "s_cur a = Some c" "prog c (pc c) m = Fork p p' pf \<or> prog c (pc c) m = Spawn p p' pf" "a_create n c a a'"
| s_full: "sched_step prog (pc, m, a) (pc(c := pf), m, a)"
    if "s_cur a = Some c" "prog c (pc c) m = Fork p p' pf \<or> prog c (pc c) m = Spawn p p' pf" "\<forall>j < 20. s_st a j \<noteq> PROC_NEW"
| s_end_thread: "sched_step prog (pc, m, a) (pc(c := p), m, a')"
    if "s_cur a = Some c" "prog c (pc c) m = End_thread p" "a_thread_exit c a a'"
| s_return: "sched_step prog (pc, m, a) (pc(c := p), m, a_leave c a)"
    if "s_cur a = Some c" "prog c (pc c) m = Return p"

inductive_cases sched_stepE: "sched_step prog (pc, m, a) v"

definition run_view :: "('p, 'm) run \<Rightarrow> (nat \<Rightarrow> 'p) \<times> 'm \<times> sched" where
  "run_view x = (r_pc x, r_mem x, sched_of (r_kern x))"

definition kernel_good :: "kernel \<Rightarrow> bool" where
  "kernel_good s \<longleftrightarrow> proc_ok s \<and> links_ok (sched_of s)"

lemma sched_of_cur [simp]: "s_cur (sched_of s) = curr_proc s"
  by (simp add: sched_of_def)

lemma current_taken: "proc_ok s \<Longrightarrow> curr_proc s = Some c \<Longrightarrow> s_st (sched_of s) c \<noteq> PROC_NEW"
  using ok_taken [of s c] by (simp add: sched_of_def proc_ok_ok0)

lemma created_result:
  assumes "unat (w :: u32) < 20" shows "of_nat (unat w + 1) \<noteq> (- 1 :: u32)"
proof
  assume "of_nat (unat w + 1) = (- 1 :: u32)"
  then have "unat (of_nat (unat w + 1) :: u32) = unat (- 1 :: u32)" by (rule arg_cong)
  then show False using assms by (simp add: unsigned_of_nat take_bit_nat_eq_self unsigned_minus_1_eq_mask mask_eq_exp_minus_1 del: of_nat_add of_nat_Suc)
qed

lemma run_step_refines:
  assumes "run_step prog x y" "kernel_good (r_kern x)"
  shows "sched_step prog (run_view x) (run_view y)" "kernel_good (r_kern y)"
proof -
  have ok: "proc_ok (r_kern x)" and links: "links_ok (sched_of (r_kern x))"
    using assms(2) by (simp_all add: kernel_good_def)
  have call: "kernel_good (out_state z)"
    if "curr_proc (r_kern x) = Some c" "sys_interrupt_handler r (r_kern x) = Some z"
      "\<And>c. s_st (sched_of (r_kern x)) c \<noteq> PROC_NEW \<Longrightarrow> curr_proc (r_kern x) = Some c \<Longrightarrow> links_ok (sched_of (out_state z))"
    for c r and z :: "(u32, kernel) outcome"
    using sys_interrupt_keeps [OF ok that(2)] that(3) [OF current_taken [OF ok that(1)] that(1)]
    by (simp add: kernel_good_def)
  have "sched_step prog (run_view x) (run_view y) \<and> kernel_good (r_kern y)"
    using assms(1)
  proof cases
    case (tick r z)
    note t = tick_refines [OF ok tick(2)]
    have "links_ok (sched_of (out_state z))"
      using t links links_resched by (auto simp: a_tick_def)
    then show ?thesis using t pit_handler_keeps [OF ok tick(2)] tick(1)
      by (simp add: run_view_def kernel_good_def s_tick)
  next
    case (local c p m)
    then show ?thesis using assms(2) by (simp add: run_view_def s_local)
  next
    case (acquire c i p r z)
    note a = program_calls_refine(3) [OF ok links acquire(2,4)]
    have "kernel_good (out_state z)"
      by (rule call [OF acquire(2) acquire(4) [unfolded sem_wait_def]]) (use a links acquire(2) links_keeps(4) in auto)
    then show ?thesis using a acquire(1-3) by (auto simp: run_view_def intro: s_acquire)
  next
    case (release c i p r z)
    note a = program_calls_refine(4) [OF ok links release(2,4)]
    have "kernel_good (out_state z)"
      by (rule call [OF release(2) release(4) [unfolded sem_signal_def]]) (use a links release(2) links_keeps(5) in auto)
    then show ?thesis using a release(1-3) by (auto simp: run_view_def intro: s_release)
  next
    case (finish c p r z)
    note a = program_calls_refine(2) [OF ok links finish(2,4)]
    have "kernel_good (out_state z)"
      by (rule call [OF finish(2) finish(4) [unfolded exit_def]]) (use a links finish(2) links_keeps(3) in auto)
    then show ?thesis using a finish(1-3) by (auto simp: run_view_def intro: s_exit)
  next
    case (await c p r z)
    note a = program_calls_refine(1) [OF ok links await(2,4)]
    have "kernel_good (out_state z)"
      by (rule call [OF await(2) await(4) [unfolded wait_def]]) (use a links await(2) links_keeps(2) in auto)
    then show ?thesis using a await(1-3) by (auto simp: run_view_def intro: s_wait)
  next
    case (fork c p p' pf r v s')
    note cr = links_creation(1) [OF links current_taken [OF ok fork(2)]]
    have "proc_ok s'" using sys_interrupt_keeps [OF ok fork(4) [unfolded fork_def]] by simp
    from fork_creates [OF ok fork(2,4)] this show ?thesis
    proof cases
      case 1
      then show ?thesis using fork(1-3) links \<open>proc_ok s'\<close> by (simp add: run_view_def kernel_good_def s_full)
    next
      case (2 u)
      then have "v \<noteq> - 1" using created_result [OF 2(2)] by (simp only: outcome.inject simp_thms)
      then show ?thesis using 2 fork(1-3) cr \<open>proc_ok s'\<close> by (auto simp: run_view_def kernel_good_def intro!: s_create)
    qed
  next
    case (spawn c p p' pf tid func args ra kr r v s')
    note cr = links_creation(1) [OF links current_taken [OF ok spawn(2)]]
    have "proc_ok s'" using sys_pthread_keeps [OF ok spawn(2) spawn(4) [unfolded pthread_create_def]] by simp
    from thread_creates [OF ok spawn(2,4)] this show ?thesis
    proof cases
      case 1
      then show ?thesis using spawn(1-3) links \<open>proc_ok s'\<close> by (simp add: run_view_def kernel_good_def s_full)
    next
      case 2
      then show ?thesis using spawn(1-3) cr \<open>proc_ok s'\<close> by (auto simp: run_view_def kernel_good_def intro!: s_create)
    qed
  next
    case (join c p tid ret ra kr r z)
    note a = thread_calls_refine(1) [OF ok join(2,4)]
    have "kernel_good (out_state z)"
      using sys_pthread_keeps [OF ok join(2) join(4) [unfolded pthread_join_def]] links_keeps(2) [OF links _ _ a] current_taken [OF ok] join(2)
      by (simp add: kernel_good_def)
    then show ?thesis using a join(1-3) by (auto simp: run_view_def intro: s_wait)
  next
    case (end_thread c p ra kr r z)
    note a = thread_calls_refine(2) [OF ok end_thread(2,4)]
    have "kernel_good (out_state z)"
      using sys_pthread_keeps [OF ok end_thread(2) end_thread(4) [unfolded user_pthread_return_def]]
        links_creation(3) [OF links current_taken [OF ok end_thread(2)] a]
      by (simp add: kernel_good_def)
    then show ?thesis using a end_thread(1-3) by (auto simp: run_view_def intro: s_end_thread)
  next
    case (return c p r z)
    note a = main_returns [OF ok return(2,4)]
    have "kernel_good (out_state z)"
      using sys_interrupt_keeps [OF ok return(4)] a links_creation(2) [OF links current_taken [OF ok return(2)]]
      by (simp add: kernel_good_def)
    then show ?thesis using a return(1-3) by (auto simp: run_view_def intro: s_return)
  qed
  then show "sched_step prog (run_view x) (run_view y)" "kernel_good (r_kern y)" by simp_all
qed

text \<open>What every step of the program on the abstract scheduler keeps, every run on the kernel keeps.\<close>

locale scheduled_program =
  fixes prog :: "nat \<Rightarrow> 'p \<Rightarrow> 'm \<Rightarrow> ('p, 'm) action"
    and inv :: "(nat \<Rightarrow> 'p) \<times> 'm \<times> sched \<Rightarrow> bool"
  assumes kept: "inv u \<Longrightarrow> sched_step prog u v \<Longrightarrow> inv v"
begin

lemma inv_runs:
  assumes "(run_step prog)\<^sup>*\<^sup>* x y" "kernel_good (r_kern x)" "inv (run_view x)"
  shows "kernel_good (r_kern y) \<and> inv (run_view y)"
  using assms by (induction rule: rtranclp_induct) (auto dest: run_step_refines intro: kept)

end

section \<open>Steps of the scheduler\<close>

lemma resched_pair:
  assumes "resched a a'" "\<forall>j. j \<noteq> c \<longrightarrow> j \<noteq> d \<longrightarrow> s_st a j \<noteq> PROC_READY \<and> s_st a j \<noteq> PROC_RUNNING"
  obtains "a' = a" "s_st a c \<noteq> PROC_READY" "s_st a d \<noteq> PROC_READY"
  | "a' = dispatch c a" "s_st a c = PROC_READY"
  | "a' = dispatch d a" "s_st a d = PROC_READY"
  using assms unfolding resched_def by (metis (full_types))

lemma resched_only:
  assumes "resched a a'" "s_st a d = PROC_READY" "\<And>j. j \<noteq> d \<Longrightarrow> s_st a j \<noteq> PROC_READY"
  shows "a' = dispatch d a"
  using assms unfolding resched_def by (metis (full_types))

lemma dispatch_fields [simp]:
  "s_cur (dispatch k a) = Some k" "s_parent (dispatch k a) = s_parent a" "s_sem (dispatch k a) = s_sem a"
  "s_st (dispatch k a) j = (if j = k then PROC_RUNNING
     else if s_cur a = Some j \<and> s_st a j = PROC_RUNNING then PROC_READY else s_st a j)"
  by (simp_all add: dispatch_def)

lemma parents_kept:
  "resched a a' \<Longrightarrow> s_parent a' = s_parent a" "a_tick a a' \<Longrightarrow> s_parent a' = s_parent a"
  "a_wait c a a' \<Longrightarrow> s_parent a' = s_parent a" "a_wake c a a' \<Longrightarrow> s_parent a' = s_parent a"
  "a_exit c a a' \<Longrightarrow> s_parent a' = s_parent a" "a_acquire k c a a' \<Longrightarrow> s_parent a' = s_parent a"
  "a_release k c a a' \<Longrightarrow> s_parent a' = s_parent a"
proof -
  have r: "s_parent a' = s_parent a" if "resched a a'" for a a' using that by (auto simp: resched_def split: if_splits)
  have w: "s_parent a' = s_parent a" if "a_wait c a a'" for a a' c using r that by (fastforce simp: a_wait_def)
  have k: "s_parent a' = s_parent a" if "a_wake c a a'" for a a' c using r that by (fastforce simp: a_wake_def split: if_splits)
  show "resched a a' \<Longrightarrow> s_parent a' = s_parent a" "a_wait c a a' \<Longrightarrow> s_parent a' = s_parent a"
    "a_wake c a a' \<Longrightarrow> s_parent a' = s_parent a" by (fact r w k)+
  show "a_tick a a' \<Longrightarrow> s_parent a' = s_parent a" using r by (auto simp: a_tick_def)
  show "a_exit c a a' \<Longrightarrow> s_parent a' = s_parent a" using k by (fastforce simp: a_exit_def Let_def split: option.splits)
  show "a_acquire k c a a' \<Longrightarrow> s_parent a' = s_parent a"
    using w by (fastforce simp: a_acquire_def split: option.splits if_splits)
  show "a_release k c a a' \<Longrightarrow> s_parent a' = s_parent a"
    using k by (fastforce simp: a_release_def split: option.splits if_splits)
qed

lemma parent_leave [simp]: "s_parent (a_leave c a) = s_parent a"
  by (simp add: a_leave_def)

lemma parent_thread_exit: "a_thread_exit c a a' \<Longrightarrow> s_parent a' = s_parent a"
  by (auto simp: a_thread_exit_def Let_def split: option.splits if_splits dest: parents_kept(1))

text \<open>The creation of a process is the only step that changes who is whose parent.\<close>

lemma sched_step_parent:
  assumes "sched_step prog (pc, m, a) (pc', m', a')" "s_st a j \<noteq> PROC_NEW"
  shows "s_parent a' j = s_parent a j"
  using assms by (elim sched_stepE) (auto simp: a_create_def dest: parents_kept parent_thread_exit)

lemma sched_step_family:
  assumes "sched_step prog (pc, m, a) (pc', m', a')" "\<And>c p m x y z. prog c p m \<noteq> Fork x y z \<and> prog c p m \<noteq> Spawn x y z"
  shows "s_parent a' = s_parent a"
  using assms by (elim sched_stepE) (auto dest: parents_kept parent_thread_exit)

text \<open>The calls with which programs start.\<close>

lemma get_sem_sched:
  fixes s :: "'a kernel_scheme"
  assumes "proc_ok s" "curr_proc s = Some c" "length (sem_list s) = 100" "get_sem v r s = Some (Returns x s')" "0 \<le> sint x"
  shows "proc_ok s'" "curr_proc s' = Some c" "curr_pid s' = curr_pid s" "length (sem_list s') = 100"
    "nat (sint x) < 100 \<and> (\<exists>u h. s_sem (sched_of s) (nat (sint x)) = Some (u, h) \<and>
       sched_of s' = set_sem (nat (sint x)) (sint v, h) (sched_of s))"
proof -
  let ?r = "r\<lparr>r_ebx := v, r_eax := 20\<rparr>"
  let ?s = "save_proc ?r (disable_k s)"
  note e = entered [OF assms(1,2), of ?r]
  have c: "c < 20" using ok_curr [OF proc_ok_ok0 [OF assms(1)] assms(2)] by simp
  have sch: "sched_of ?s = sched_of s"
    using assms(1,2) c by (simp add: save_proc_def sched_of_upd proc_ok_def)
  obtain n t where n: "do_getsem (sint v) ?s = (n, t)" by (metis prod.exhaust)
  have x: "x = word_of_int n" "s' = enable_k t"
    using assms(4) n by (simp_all add: get_sem_def sys_interrupt_handler_def sys_interrupt_handler_main_def)
  have "n \<noteq> - 1" using assms(5) x(1) by auto
  then obtain i where i: "n = int i" "i < 100" "t = upd_sem i (\<lambda>x. x\<lparr>sem_val := sint v, sem_used := True\<rparr>) ?s"
    using n assms(3) by (auto simp: do_getsem_def sem_alloc_def find_first_Some split: option.splits)
  have "sint x = int i" using i(2) unfolding x(1) i(1) signed_of_int by (simp add: signed_take_bit_int_eq_self)
  then have nat: "nat (sint x) = i" by simp
  show "proc_ok s'" using do_getsem_keeps [OF e(1) n] x(2) by simp
  show "curr_proc s' = Some c" "curr_pid s' = curr_pid s" "length (sem_list s') = 100"
    using e(2,3) assms(3) by (simp_all add: x(2) i(3))
  have "s_sem (sched_of s) i = Some (sem_val (sem_list s ! i), sem_head (sem_list s ! i))"
    using i(2) assms(3) by (simp add: sched_of_def)
  moreover have "sched_of s' = set_sem i (sint v, sem_head (sem_list s ! i)) (sched_of s)"
    using i(2) assms(3) sch by (simp add: x(2) i(3) sched_of_sem)
  ultimately show "nat (sint x) < 100 \<and> (\<exists>u h. s_sem (sched_of s) (nat (sint x)) = Some (u, h) \<and>
       sched_of s' = set_sem (nat (sint x)) (sint v, h) (sched_of s))"
    using i(2) by (simp add: nat)
qed

lemma fork_sched:
  fixes s :: "'a kernel_scheme"
  assumes "proc_ok s" "curr_proc s = Some c" "fork r s = Some (Returns x s')" "x \<noteq> - 1"
  shows "proc_ok s'" "x = of_nat (unat (curr_pid s) + 1)" "unat (curr_pid s) < 20"
    "sched_of s' = (set_st (unat (curr_pid s)) PROC_READY (sched_of s))
      \<lparr>s_parent := (s_parent (sched_of s))(unat (curr_pid s) := Some c)\<rparr>"
    "c \<noteq> unat (curr_pid s)" "curr_proc s' = Some c"
proof -
  let ?r = "r\<lparr>r_eax := 10\<rparr>"
  let ?n = "unat (curr_pid s)"
  let ?s = "save_proc ?r (disable_k s)"
  note e = entered [OF assms(1,2), of ?r]
  have c: "c < 20" "c \<noteq> ?n" using ok_curr [OF proc_ok_ok0 [OF assms(1)] assms(2)] by auto
  have sch: "sched_of ?s = sched_of s"
    using assms(1,2) c by (simp add: save_proc_def sched_of_upd proc_ok_def)
  have x: "x = word_of_int (if ?n = 20 then - 1 else int ?n + 1)" "?n \<noteq> 20 \<Longrightarrow> s' = enable_k (forked c ?s)"
    using assms(3) do_fork_eq [OF e(1,2)] e(3)
    by (auto simp: fork_def sys_interrupt_handler_def sys_interrupt_handler_main_def)
  have "?n \<le> 20" using assms(1) by (simp add: proc_ok_def proc_ok0_def table_ok_def)
  moreover have "?n \<noteq> 20" using x(1) assms(4) by auto
  ultimately show n: "?n < 20" by simp
  show "x = of_nat (?n + 1)" using x(1) n by (simp add: of_nat_Suc [symmetric] del: of_nat_Suc) simp
  have s': "s' = enable_k (forked c ?s)" using x(2) n by simp
  show "proc_ok s'" using forked_ok [OF e(1,2)] n e(3) by (simp add: s')
  have "sched_of (forked c ?s) = (set_st ?n PROC_READY (sched_of ?s))\<lparr>s_parent := (s_parent (sched_of ?s))(?n := Some c)\<rparr>"
    using e(1,3) n by (auto simp: sched_of_def forked_def Let_def nth_list_update proc_ok_def fun_eq_iff)
  then show "sched_of s' = (set_st ?n PROC_READY (sched_of s))\<lparr>s_parent := (s_parent (sched_of s))(?n := Some c)\<rparr>"
    by (simp add: s' sch)
  show "c \<noteq> ?n" by (rule c(2))
  show "curr_proc s' = Some c" using e(2) by (simp add: s' forked_def Let_def)
qed

end
