(* ===== verification/Bank.thy ===== *)
theory Bank
  imports Program_Runs
begin

text \<open>The program \<^verbatim>\<open>bank.c\<close>: two processes change an account under a semaphore.\<close>

section \<open>The program\<close>

text \<open>
  \<^verbatim>\<open>bank.c\<close> behind its calls of \<^verbatim>\<open>get_sem\<close> and \<^verbatim>\<open>fork\<close>. The process of slot \<open>f\<close> is the father, any other
  the child. The change of the account is a load and a store. What is printed is a list of the process
  and the amount; the code of \<^verbatim>\<open>printf\<close> on the user's side is not linked from the sources.
\<close>

datatype bank_pc =
    Loop nat
  | Load nat
  | Store nat int
  | Print nat
  | Leave nat
  | At_exit
  | At_wait
  | At_return

record bank_mem =
  bank_account :: int
  bank_printed :: "(nat \<times> int) list"

fun bank_prog :: "nat \<Rightarrow> u32 \<Rightarrow> nat \<Rightarrow> bank_pc \<Rightarrow> bank_mem \<Rightarrow> (bank_pc, bank_mem) action" where
  "bank_prog f sem c (Loop i) m =
     (if i < (if c = f then 100 else 50) then Acquire sem (Load i)
      else Local (if c = f then At_wait else At_exit) m)"
| "bank_prog f sem c (Load i) m = Local (Store i (bank_account m)) m"
| "bank_prog f sem c (Store i v) m = Local (Print i) (m\<lparr>bank_account := v + (if c = f then 10 else - 20)\<rparr>)"
| "bank_prog f sem c (Print i) m = Local (Leave i) (m\<lparr>bank_printed := bank_printed m @ [(c, bank_account m)]\<rparr>)"
| "bank_prog f sem c (Leave i) m = Release sem (Loop (Suc i))"
| "bank_prog f sem c At_exit m = End At_wait"
| "bank_prog f sem c At_wait m = Await At_return"
| "bank_prog f sem c At_return m = Halt"

lemma bank_calls [simp]:
  "bank_prog f sem c p m \<noteq> Fork x y z" "bank_prog f sem c p m \<noteq> Spawn x y z" "bank_prog f sem c p m \<noteq> Join x"
  "bank_prog f sem c p m \<noteq> End_thread x" "bank_prog f sem c p m \<noteq> Return x"
  by (cases p; simp)+

text \<open>How many turns of its loop a process has entered in the account, and whether it is between
  \<^verbatim>\<open>sem_wait\<close> and \<^verbatim>\<open>sem_signal\<close>.\<close>

fun turns :: "nat \<Rightarrow> bank_pc \<Rightarrow> nat" where
  "turns n (Loop i) = i"
| "turns n (Load i) = i"
| "turns n (Store i v) = i"
| "turns n (Print i) = Suc i"
| "turns n (Leave i) = Suc i"
| "turns n _ = n"

fun inside :: "bank_pc \<Rightarrow> bool" where
  "inside (Load i) = True"
| "inside (Store i v) = True"
| "inside (Print i) = True"
| "inside (Leave i) = True"
| "inside _ = False"

definition blocked :: "(nat \<Rightarrow> bank_pc) \<Rightarrow> sched \<Rightarrow> nat \<Rightarrow> bool" where
  "blocked pc a c \<longleftrightarrow> s_st a c = PROC_WAITING \<and> (\<exists>i. pc c = Load i)"

definition over :: "nat \<Rightarrow> (nat \<Rightarrow> bank_pc) \<Rightarrow> nat \<Rightarrow> bool" where
  "over f pc c \<longleftrightarrow> pc c = At_return \<or> c \<noteq> f \<and> pc c = At_wait"

definition bank_slot :: "nat \<Rightarrow> nat \<Rightarrow> (nat \<Rightarrow> bank_pc) \<Rightarrow> bank_mem \<Rightarrow> sched \<Rightarrow> nat \<Rightarrow> bool" where
  "bank_slot f n pc m a c \<longleftrightarrow>
     turns n (pc c) \<le> n \<and> (inside (pc c) \<longrightarrow> turns n (pc c) < n \<or> (\<exists>i. pc c \<in> {Print i, Leave i})) \<and>
     (\<forall>i v. pc c = Store i v \<longrightarrow> v = bank_account m) \<and> (pc c = At_exit \<longrightarrow> c \<noteq> f) \<and>
     (over f pc c \<or> (if s_cur a = Some c then s_st a c = PROC_RUNNING else s_st a c = PROC_READY \<or> blocked pc a c))"

text \<open>What holds of two processes of which one has the processor, and of their semaphore \<open>k\<close>.\<close>

definition bank_pair :: "nat \<Rightarrow> nat \<Rightarrow> nat \<Rightarrow> nat \<Rightarrow> nat \<Rightarrow> nat \<Rightarrow> (nat \<Rightarrow> bank_pc) \<Rightarrow> bank_mem \<Rightarrow> sched \<Rightarrow> bool" where
  "bank_pair k f n c n' d pc m a \<longleftrightarrow>
     c \<noteq> d \<and> (s_cur a = Some c \<or> s_cur a = Some d) \<and>
     (\<forall>j. j \<noteq> c \<longrightarrow> j \<noteq> d \<longrightarrow> s_st a j \<noteq> PROC_READY \<and> s_st a j \<noteq> PROC_RUNNING) \<and>
     bank_slot f n pc m a c \<and> bank_slot f n' pc m a d \<and>
     (\<exists>h. s_sem a k = Some (1 - of_bool (inside (pc c)) - of_bool (inside (pc d)), h) \<and>
        (if inside (pc c) \<and> inside (pc d)
         then blocked pc a c \<and> \<not> blocked pc a d \<and> h = Some c \<or> blocked pc a d \<and> \<not> blocked pc a c \<and> h = Some d
         else \<not> blocked pc a c \<and> \<not> blocked pc a d))"

lemma bank_pair_swap: "bank_pair k f n c n' d pc m a = bank_pair k f n' d n c pc m a"
  unfolding bank_pair_def by (intro iffI; elim conjE exE; intro conjI exI; fastforce split: if_splits)

definition bank_inv :: "nat \<Rightarrow> nat \<Rightarrow> nat \<Rightarrow> (nat \<Rightarrow> bank_pc) \<times> bank_mem \<times> sched \<Rightarrow> bool" where
  "bank_inv f q k = (\<lambda>(pc, m, a).
     bank_pair k f 100 f 50 q pc m a \<and> s_parent a q = Some f \<and>
     bank_account m = 1000 + 10 * int (turns 100 (pc f)) - 20 * int (turns 50 (pc q)))"

lemma pair_dispatch:
  assumes "bank_pair k f n c n' d pc m a" "s_st a c = PROC_READY"
  shows "bank_pair k f n c n' d pc m (dispatch c a)"
proof -
  have b: "blocked pc (dispatch c a) j = blocked pc a j" for j
    using assms(2) by (auto simp: blocked_def)
  show ?thesis
    using assms unfolding bank_pair_def b
    by (elim conjE exE, intro conjI exI, simp_all add: bank_slot_def b) (auto split: if_splits)
qed

lemma pair_resched:
  assumes "bank_pair k f n c n' d pc m a" "resched a a'"
  shows "bank_pair k f n c n' d pc m a'"
proof -
  have "\<forall>j. j \<noteq> c \<longrightarrow> j \<noteq> d \<longrightarrow> s_st a j \<noteq> PROC_READY \<and> s_st a j \<noteq> PROC_RUNNING"
    using assms(1) by (simp add: bank_pair_def)
  from resched_pair [OF assms(2) this] show ?thesis
  proof cases
    case 2
    then show ?thesis using pair_dispatch [OF assms(1)] by simp
  next
    case 3
    then show ?thesis using pair_dispatch [of k f n' d n c pc m a] assms(1) bank_pair_swap by metis
  qed (use assms(1) in simp)
qed

lemma pairD:
  assumes "bank_pair k f n c n' d pc m a" "s_cur a = Some c"
  shows "c \<noteq> d" "\<And>j. j \<noteq> c \<Longrightarrow> j \<noteq> d \<Longrightarrow> s_st a j \<noteq> PROC_READY \<and> s_st a j \<noteq> PROC_RUNNING"
    "bank_slot f n pc m a c" "bank_slot f n' pc m a d"
    "over f pc c \<or> s_st a c = PROC_RUNNING" "over f pc d \<or> s_st a d = PROC_READY \<or> blocked pc a d"
    "\<not> inside (pc d) \<or> \<not> inside (pc c) \<Longrightarrow> \<not> blocked pc a d"
    "inside (pc d) \<Longrightarrow> \<not> inside (pc c) \<Longrightarrow> s_st a d = PROC_READY"
proof -
  note b = assms(1) [unfolded bank_pair_def]
  show 1: "c \<noteq> d" "\<And>j. j \<noteq> c \<Longrightarrow> j \<noteq> d \<Longrightarrow> s_st a j \<noteq> PROC_READY \<and> s_st a j \<noteq> PROC_RUNNING"
    "bank_slot f n pc m a c" "bank_slot f n' pc m a d" using b by simp_all
  show "over f pc c \<or> s_st a c = PROC_RUNNING" using 1(3) assms(2) by (simp add: bank_slot_def)
  show 2: "over f pc d \<or> s_st a d = PROC_READY \<or> blocked pc a d" using 1 assms(2) by (simp add: bank_slot_def)
  show "\<not> inside (pc d) \<or> \<not> inside (pc c) \<Longrightarrow> \<not> blocked pc a d" using b by (auto split: if_splits)
  then show "inside (pc d) \<Longrightarrow> \<not> inside (pc c) \<Longrightarrow> s_st a d = PROC_READY"
    using 2 by (auto simp: over_def)
qed

lemma pair_acquire:
  assumes "bank_pair k f n c n' d pc m a" "s_cur a = Some c" "pc c = Loop i" "i < n" "a_acquire k c a a'"
  shows "bank_pair k f n c n' d (pc(c := Load i)) m a'"
proof -
  note d = pairD [OF assms(1,2)]
  let ?pc = "pc(c := Load i)"
  have run: "s_st a c = PROC_RUNNING" using d(5) assms(3) by (simp add: over_def)
  have nb: "\<not> blocked pc a c" "\<not> blocked pc a d" using d(7) assms(3) run by (auto simp: blocked_def)
  obtain h where h: "s_sem a k = Some (1 - of_bool (inside (pc d)), h)"
    using assms(1,3) by (auto simp: bank_pair_def)
  show ?thesis
  proof (cases "inside (pc d)")
    case False
    have "a' = set_sem k (0, h) a" using assms(5) h False by (simp add: a_acquire_def)
    moreover have "blocked ?pc (set_sem k x a) d = blocked pc a d" for x using d(1) by (simp add: blocked_def)
    moreover have "\<not> blocked ?pc (set_sem k x a) c" for x using run by (simp add: blocked_def)
    ultimately show ?thesis
      using d(1-4) nb assms(2,4) False run unfolding bank_pair_def by (simp add: bank_slot_def over_def)
  next
    case True
    note ready = d(8) [OF True] 
    let ?b = "set_st c PROC_WAITING (set_sem k (- 1, Some c) a\<lparr>s_next := (s_next a)(c := h)\<rparr>)"
    have r: "resched ?b a'" using assms(5) h True by (simp add: a_acquire_def a_wait_def)
    have "s_st ?b d = PROC_READY" using ready assms(3) d(1) by simp
    moreover have "s_st ?b j \<noteq> PROC_READY" if "j \<noteq> d" for j using d(2) that by (cases "j = c") simp_all
    ultimately have a': "a' = dispatch d ?b" by (rule resched_only [OF r])
    have "blocked ?pc a' c" "\<not> blocked ?pc a' d" using d(1) assms(2) by (auto simp: a' blocked_def)
    moreover have "bank_slot f n ?pc m a' c" "bank_slot f n' ?pc m a' d"
      using d(1,3,4) assms(4) \<open>blocked ?pc a' c\<close> by (auto simp: a' bank_slot_def over_def)
    moreover have "s_st a' j \<noteq> PROC_READY \<and> s_st a' j \<noteq> PROC_RUNNING" if "j \<noteq> c" "j \<noteq> d" for j
      using that d(2) assms(2) by (simp add: a')
    moreover have "s_cur a' = Some d" "s_sem a' k = Some (- 1, Some c)" by (simp_all add: a')
    ultimately show ?thesis using d(1) True unfolding bank_pair_def by simp
  qed
qed

lemma pair_release:
  assumes "bank_pair k f n c n' d pc m a" "s_cur a = Some c" "pc c = Leave i" "a_release k c a a'"
  shows "bank_pair k f n c n' d (pc(c := Loop (Suc i))) m a'"
proof -
  note d = pairD [OF assms(1,2)]
  let ?pc = "pc(c := Loop (Suc i))"
  have run: "s_st a c = PROC_RUNNING" using d(5) assms(3) by (simp add: over_def)
  have i: "Suc i \<le> n" using d(3) assms(3) by (simp add: bank_slot_def)
  show ?thesis
  proof (cases "inside (pc d)")
    case False
    obtain h where h: "s_sem a k = Some (0, h)" using assms(1,3) False by (auto simp: bank_pair_def)
    have "a' = set_sem k (1, h) a" using assms(4) h by (simp add: a_release_def)
    moreover have "blocked ?pc (set_sem k x a) d = blocked pc a d" for x using d(1) by (simp add: blocked_def)
    moreover have "\<not> blocked ?pc (set_sem k x a) c" for x by (simp add: blocked_def)
    ultimately show ?thesis
      using d(1-4,7) assms(2) False run i unfolding bank_pair_def by (simp add: bank_slot_def over_def)
  next
    case True
    have "\<not> blocked pc a c" using assms(3) by (simp add: blocked_def)
    then have w: "s_sem a k = Some (- 1, Some d)" "blocked pc a d"
      using assms(1,3) True by (auto simp: bank_pair_def)
    then have wt: "s_st a d = PROC_WAITING" by (simp add: blocked_def)
    let ?b = "set_st d PROC_READY (set_sem k (0, s_next a c) a)"
    have r: "resched ?b a'" using assms(4) w(1) wt by (simp add: a_release_def a_wake_def)
    have "s_st ?b d = PROC_READY" by simp
    moreover have "s_st ?b j \<noteq> PROC_READY" if "j \<noteq> d" for j using d(1,2) that run by (cases "j = c") simp_all
    ultimately have a': "a' = dispatch d ?b" by (rule resched_only [OF r])
    have nb: "\<not> blocked ?pc a' c" "\<not> blocked ?pc a' d" by (auto simp: a' blocked_def)
    moreover have "bank_slot f n ?pc m a' c" "bank_slot f n' ?pc m a' d"
      using d(1,3,4) assms(2) i run by (auto simp: a' bank_slot_def over_def)
    moreover have "s_st a' j \<noteq> PROC_READY \<and> s_st a' j \<noteq> PROC_RUNNING" if "j \<noteq> c" "j \<noteq> d" for j
      using that d(2) assms(2) by (simp add: a')
    moreover have "s_cur a' = Some d" "s_sem a' k = Some (0, s_next a c)" by (simp_all add: a')
    ultimately show ?thesis using d(1) True unfolding bank_pair_def by simp
  qed
qed

text \<open>A process marks itself as waiting or ended, and is over with its part of the program.\<close>

lemma pair_over:
  assumes "bank_pair k f n c n' d pc m a" "s_cur a = Some c" "\<not> inside (pc c)" "over f (pc(c := p)) c" "turns n p = n"
    and "v \<in> {PROC_WAITING, PROC_TERMINATED}"
  shows "bank_pair k f n c n' d (pc(c := p)) m (set_st c v a)"
proof -
  note d = pairD [OF assms(1,2)]
  have p: "\<not> inside p" "p \<noteq> At_exit" "\<And>i v. p \<noteq> Store i v" "\<And>i. p \<noteq> Load i" using assms(4) by (auto simp: over_def)
  have b: "\<not> blocked (pc(c := p)) (set_st c v a) c" "\<not> blocked (pc(c := p)) (set_st c v a) d"
    using p(4) d(1) d(7) assms(3) by (auto simp: blocked_def)
  have "bank_slot f n (pc(c := p)) m (set_st c v a) c" using assms(4,5) p by (simp add: bank_slot_def)
  moreover have "bank_slot f n' (pc(c := p)) m (set_st c v a) d"
    using d(1,4,7) assms(2,3) by (auto simp: bank_slot_def over_def)
  ultimately show ?thesis using assms(1,3,6) b p(1) d(1) unfolding bank_pair_def by auto
qed

lemma pair_wait:
  assumes "bank_pair k f n c n' d pc m a" "s_cur a = Some c" "pc c = At_wait" "a_wait c a a'"
  shows "bank_pair k f n c n' d (pc(c := At_return)) m a'"
  by (rule pair_resched [OF pair_over [OF assms(1,2)] assms(4) [unfolded a_wait_def]]) (use assms(3) in \<open>simp_all add: over_def\<close>)

lemma pair_exit:
  assumes "bank_pair k f n c n' d pc m a" "s_cur a = Some c" "pc c = At_exit" "c \<noteq> f" "d = f"
    and "s_parent a c = Some d" "a_exit c a a'"
  shows "bank_pair k f n c n' d (pc(c := At_wait)) m a'"
proof -
  note d = pairD [OF assms(1,2)]
  let ?pc = "pc(c := At_wait)" and ?b = "set_st c PROC_TERMINATED a"
  have b: "bank_pair k f n c n' d ?pc m ?b"
    by (rule pair_over [OF assms(1,2)]) (use assms(3,4) in \<open>simp_all add: over_def\<close>)
  have w: "a_wake d ?b a'" using assms(6,7) by (simp add: a_exit_def)
  show ?thesis
  proof (cases "s_st ?b d = PROC_WAITING")
    case True
    have "\<not> inside (pc c)" using assms(3) by simp
    then have "over f pc d" using d(6,7) True d(1) by auto
    then have ov: "over f ?pc d" "pc d = At_return" using assms(5) d(1) by (auto simp: over_def)
    let ?e = "set_st d PROC_READY ?b"
    have "blocked ?pc ?e c = blocked ?pc ?b c" "\<not> blocked ?pc ?e d" "\<not> blocked ?pc ?b d"
      using d(1) ov(2) by (simp_all add: blocked_def)
    then have "bank_pair k f n c n' d ?pc m ?e"
      using b ov d(1) unfolding bank_pair_def by (auto simp: bank_slot_def)
    moreover have "resched ?e a'" using w True by (simp add: a_wake_def)
    ultimately show ?thesis by (rule pair_resched)
  qed (use w b in \<open>simp add: a_wake_def\<close>)
qed

text \<open>Steps without a call.\<close>

lemma pair_local:
  assumes "bank_pair k f n c n' d pc m a" "s_cur a = Some c" "inside p = inside (pc c)" "turns n p \<le> n"
    and "inside p \<Longrightarrow> turns n p < n \<or> (\<exists>i. p \<in> {Print i, Leave i})" "\<And>i v. p = Store i v \<Longrightarrow> v = bank_account m'"
    and "p = At_exit \<Longrightarrow> c \<noteq> f" "\<not> over f pc c" "inside (pc c) \<or> bank_account m' = bank_account m"
  shows "bank_pair k f n c n' d (pc(c := p)) m' a"
proof -
  note d = pairD [OF assms(1,2)]
  have run: "s_st a c = PROC_RUNNING" using d(5) assms(8) by simp
  then have b: "\<not> blocked (pc(c := p)) a c" "\<not> blocked pc a c" "blocked (pc(c := p)) a d = blocked pc a d"
    using d(1) by (simp_all add: blocked_def)
  have s: "v = bank_account m'" if st: "pc d = Store i v" for i v
  proof (cases "inside (pc c)")
    case True
    then have "blocked pc a d" using assms(1) b(2) st by (auto simp: bank_pair_def)
    then show ?thesis using st by (auto simp: blocked_def)
  next
    case False
    then show ?thesis using assms(9) d(4) st by (auto simp: bank_slot_def)
  qed
  have "bank_slot f n (pc(c := p)) m' a c" using assms(2,4-7) run by (auto simp: bank_slot_def)
  moreover have "bank_slot f n' (pc(c := p)) m' a d" using d(1,4) s b(3) by (auto simp: bank_slot_def over_def)
  moreover have "\<exists>h. s_sem a k = Some (1 - of_bool (inside p) - of_bool (inside (pc d)), h) \<and>
        (if inside p \<and> inside (pc d)
         then blocked (pc(c := p)) a c \<and> \<not> blocked (pc(c := p)) a d \<and> h = Some c \<or>
           blocked (pc(c := p)) a d \<and> \<not> blocked (pc(c := p)) a c \<and> h = Some d
         else \<not> blocked (pc(c := p)) a c \<and> \<not> blocked (pc(c := p)) a d)"
    using assms(1) unfolding bank_pair_def assms(3) b(3) by (elim conjE exE, intro exI) (use b in \<open>auto split: if_splits\<close>)
  ultimately show ?thesis using assms(1,2) d(1,2) unfolding bank_pair_def by simp
qed

lemma pair_local_step:
  assumes "bank_pair k f n c n' d pc m a" "s_cur a = Some c" "bank_prog f sem c (pc c) m = Local p m'"
    and n: "n = (if c = f then 100 else 50)"
  shows "bank_pair k f n c n' d (pc(c := p)) m' a" (is ?pair)
    "bank_account m' = bank_account m + (if c = f then 10 else - 20) * (int (turns n p) - int (turns n (pc c)))" (is ?account)
proof -
  note slot = pairD(3) [OF assms(1,2), unfolded bank_slot_def]
  have slot_c: "turns n (pc c) \<le> n" "inside (pc c) \<Longrightarrow> turns n (pc c) < n \<or> (\<exists>i. pc c \<in> {Print i, Leave i})"
    "\<And>i v. pc c = Store i v \<Longrightarrow> v = bank_account m" using slot by blast+
  note here = pair_local [OF assms(1,2), of p m']
  have "?pair \<and> ?account"
  proof (cases "pc c")
    case (Loop i)
    have p: "n \<le> i" "p = (if c = f then At_wait else At_exit)" "m' = m"
      using assms(3) by (auto simp: Loop n split: if_splits)
    have ?pair by (rule here) (use slot_c(1) in \<open>auto simp: Loop p over_def split: if_splits\<close>)
    then show ?thesis using p slot_c(1) by (simp add: Loop)
  next
    case (Load i)
    have p: "p = Store i (bank_account m)" "m' = m" using assms(3) by (auto simp: Load)
    have ?pair by (rule here) (use slot_c(1,2) in \<open>simp_all add: Load p over_def\<close>)
    then show ?thesis using p by (simp add: Load)
  next
    case (Store i v)
    have p: "p = Print i" "bank_account m' = bank_account m + (if c = f then 10 else - 20)"
      using assms(3) slot_c(3) by (auto simp: Store)
    have ?pair by (rule here) (use slot_c(1,2) in \<open>simp_all add: Store p over_def\<close>)
    then show ?thesis using p by (simp add: Store)
  next
    case (Print i)
    have p: "p = Leave i" "bank_account m' = bank_account m" using assms(3) by (auto simp: Print)
    have ?pair by (rule here) (use slot_c(1,2) in \<open>simp_all add: Print p over_def\<close>)
    then show ?thesis using p by (simp add: Print)
  qed (use assms(3) in auto)
  then show ?pair ?account by simp_all
qed

text \<open>A step of the process that has the processor.\<close>

lemma pair_step:
  assumes "bank_pair k f n c n' d pc m a" "s_cur a = Some c" "sched_step (bank_prog f sem) (pc, m, a) (pc', m', a')"
    and k: "k = nat (sint sem)" and n: "n = (if c = f then 100 else 50)" and par: "c \<noteq> f \<Longrightarrow> d = f \<and> s_parent a c = Some f"
  shows "bank_pair k f n c n' d pc' m' a'" (is ?pair) "pc' d = pc d"
    "bank_account m' = bank_account m + (if c = f then 10 else - 20) * (int (turns n (pc' c)) - int (turns n (pc c)))"
proof -
  note d = pairD [OF assms(1,2)]
  note slot = d(3) [unfolded bank_slot_def]
  have "?pair \<and> pc' d = pc d \<and>
    bank_account m' = bank_account m + (if c = f then 10 else - 20) * (int (turns n (pc' c)) - int (turns n (pc c)))"
    using assms(3)
  proof cases
    case s_tick
    then show ?thesis using pair_resched [OF assms(1)] assms(1) by (auto simp: a_tick_def)
  next
    case (s_local c' p)
    have c': "c' = c" using s_local assms(2) by simp
    then show ?thesis
      using pair_local_step [OF assms(1,2) s_local(4) [unfolded c'] n] d(1) s_local(1,2) by (simp add: c')
  next
    case (s_acquire c' i p)
    have c': "c' = c" using s_acquire assms(2) by simp
    note step = s_acquire(3-5) [unfolded c']
    obtain j where j: "pc c = Loop j" "j < n" "i = sem" "p = Load j" "m' = m"
      using step s_acquire(1,2) n by (cases "pc c") (auto split: if_splits)
    then show ?thesis using pair_acquire [OF assms(1,2) j(1,2)] step(3) d(1) s_acquire(1,2) k by (simp add: c')
  next
    case (s_release c' i p)
    have c': "c' = c" using s_release assms(2) by simp
    note step = s_release(3-5) [unfolded c']
    obtain j where j: "pc c = Leave j" "i = sem" "p = Loop (Suc j)" "m' = m"
      using step s_release(1,2) by (cases "pc c") (auto split: if_splits)
    then show ?thesis using pair_release [OF assms(1,2) j(1)] step(3) d(1) s_release(1,2) k by (simp add: c')
  next
    case (s_exit c' p)
    have c': "c' = c" using s_exit assms(2) by simp
    note step = s_exit(3-5) [unfolded c']
    have j: "pc c = At_exit" "p = At_wait" "m' = m"
      using step s_exit(1,2) by (cases "pc c"; auto split: if_splits)+
    then show ?thesis using pair_exit [OF assms(1,2) j(1)] step(3) slot par d(1) s_exit(1,2) by (simp add: c')
  next
    case (s_wait c' p)
    have c': "c' = c" using s_wait assms(2) by simp
    note step = s_wait(3-5) [unfolded c']
    have j: "pc c = At_wait" "p = At_return" "m' = m"
      using step s_wait(1,2) by (cases "pc c"; auto split: if_splits)+
    then show ?thesis using pair_wait [OF assms(1,2) j(1)] step(3) d(1) s_wait(1,2) by (simp add: c')
  qed simp_all
  then show ?pair "pc' d = pc d"
    "bank_account m' = bank_account m + (if c = f then 10 else - 20) * (int (turns n (pc' c)) - int (turns n (pc c)))"
    by simp_all
qed

lemma bank_kept:
  assumes "bank_inv f q (nat (sint sem)) u" "sched_step (bank_prog f sem) u v"
  shows "bank_inv f q (nat (sint sem)) v"
proof -
  obtain pc m a pc' m' a' where u: "u = (pc, m, a)" "v = (pc', m', a')" by (metis prod.exhaust)
  let ?k = "nat (sint sem)"
  have i: "bank_pair ?k f 100 f 50 q pc m a" "s_parent a q = Some f" "f \<noteq> q"
    "bank_account m = 1000 + 10 * int (turns 100 (pc f)) - 20 * int (turns 50 (pc q))"
    using assms(1) by (simp_all add: u bank_inv_def bank_pair_def)
  have par: "s_parent a' q = Some f" using sched_step_family [OF assms(2) [unfolded u]] i(2) by simp
  have "s_cur a = Some f \<or> s_cur a = Some q" using i(1) by (simp add: bank_pair_def)
  then show ?thesis
  proof
    assume "s_cur a = Some f"
    from pair_step [OF i(1) this assms(2) [unfolded u] refl] show ?thesis
      using i(4) par by (simp add: u bank_inv_def algebra_simps)
  next
    assume c: "s_cur a = Some q"
    note b = i(1) [unfolded bank_pair_swap [of _ _ _ f]]
    from pair_step [OF b c assms(2) [unfolded u] refl] have
      "bank_pair ?k f 50 q 100 f pc' m' a'" "pc' f = pc f"
      "bank_account m' = bank_account m - 20 * (int (turns 50 (pc' q)) - int (turns 50 (pc q)))"
      using i(2,3) by auto
    then show ?thesis using i(4) par by (simp add: u bank_inv_def algebra_simps bank_pair_swap [of _ _ _ q])
  qed
qed

interpretation bank: scheduled_program "bank_prog f sem" "bank_inv f q (nat (sint sem))"
  by unfold_locales (rule bank_kept)

definition bank_run :: "kernel \<Rightarrow> (bank_pc, bank_mem) run" where
  "bank_run s = \<lparr>r_pc = (\<lambda>_. Loop 0), r_mem = \<lparr>bank_account = 1000, bank_printed = []\<rparr>, r_kern = s\<rparr>"

lemma bank_start:
  assumes "proc_ok s" "links_ok (sched_of s)" "running s f" "\<forall>j. s_st (sched_of s) j \<noteq> PROC_READY"
    and "length (sem_list s) = 100" "get_sem 1 r s = Some (Returns sem s1)" "0 \<le> sint sem"
    and "fork r' s1 = Some (Returns p s2)" "p \<noteq> - 1"
  shows "kernel_good s2" "bank_inv f (unat p - 1) (nat (sint sem)) (run_view (bank_run s2))"
proof -
  let ?k = "nat (sint sem)" and ?q = "unat (curr_pid s1)"
  have cur: "curr_proc s = Some f" using assms(3) by (simp add: running_def)
  note g = get_sem_sched [OF assms(1) cur assms(5-7)]
  obtain u h where h: "s_sem (sched_of s) ?k = Some (u, h)" "sched_of s1 = set_sem ?k (1, h) (sched_of s)"
    using g(5) by auto
  note k = fork_sched [OF g(1,2) assms(8,9)]
  have q: "unat p - 1 = ?q" using k(3) unfolding k(2) by (simp add: unsigned_of_nat take_bit_nat_eq_self del: of_nat_Suc of_nat_add)
  have a: "sched_of s2 = (set_st ?q PROC_READY (set_sem ?k (1, h) (sched_of s)))
      \<lparr>s_parent := (s_parent (sched_of s))(?q := Some f)\<rparr>" using k(4) h(2) by simp
  have "links_ok (sched_of s2)" using assms(2) h(1) unfolding a by (auto simp: links_ok_def)
  then show "kernel_good s2" using k(1) by (simp add: kernel_good_def)
  have run: "s_st (sched_of s) f = PROC_RUNNING" "s_cur (sched_of s) = Some f"
    using assms(3) ok_taken(1) [OF proc_ok_ok0 [OF assms(1)] cur] by (simp_all add: sched_of_def running_def)
  have "s_st (sched_of s) j \<noteq> PROC_RUNNING" if "j \<noteq> f" for j
    using ok_slot [OF proc_ok_ok0 [OF assms(1)], of j] cur that by (auto simp: sched_of_def slot_ok_def)
  then show "bank_inv f (unat p - 1) ?k (run_view (bank_run s2))"
    unfolding q using run assms(4) k(5)
    by (simp add: bank_inv_def bank_pair_def bank_slot_def blocked_def over_def run_view_def bank_run_def a)
qed

text \<open>The process that has the processor is not stuck before it returns from \<^verbatim>\<open>main\<close>.\<close>

lemma bank_progress:
  assumes "kernel_good (r_kern y)" "bank_inv f q (nat (sint sem)) (run_view y)" "0 \<le> sint sem" "curr_proc (r_kern y) = Some c"
    and "r_pc y c \<noteq> At_return"
  shows "\<exists>z. run_step (bank_prog f sem) y z \<and> r_pc z c \<noteq> r_pc y c"
proof -
  let ?s = "r_kern y" and ?k = "nat (sint sem)"
  have ok: "proc_ok ?s" using assms(1) by (simp add: kernel_good_def)
  note call = handler_defined [OF ok assms(4)]
  have "\<exists>v h. s_sem (sched_of ?s) ?k = Some (v, h) \<and> (inside (r_pc y c) \<longrightarrow> v < 0 \<longrightarrow> h \<noteq> None)"
    using assms(2,4) by (auto simp: bank_inv_def run_view_def bank_pair_def split: if_splits)
  then have sem: "sint sem < int (length (sem_list ?s))"
    "inside (r_pc y c) \<Longrightarrow> 0 \<le> sem_val (sem_list ?s ! ?k) \<or> sem_head (sem_list ?s ! ?k) \<noteq> None"
    by (auto simp: sched_of_def split: if_splits)
  show ?thesis
  proof (cases "bank_prog f sem c (r_pc y c) (r_mem y)")
    case (Local p m)
    then have "p \<noteq> r_pc y c" by (cases "r_pc y c") (auto split: if_splits)
    then show ?thesis using run_step.local [where prog = "bank_prog f sem" and x = y and c = c, OF assms(4) Local] by fastforce
  next
    case (Acquire i p)
    then have i: "i = sem" "p \<noteq> r_pc y c" by (cases "r_pc y c"; auto split: if_splits)+
    obtain z where "sem_wait i zero_regs ?s = Some z"
      using call [of "zero_regs\<lparr>r_ebx := i, r_eax := 21\<rparr>"] assms(3) sem(1) i(1)
      by (auto simp: sem_wait_def call_ok_def)
    from run_step.acquire [where prog = "bank_prog f sem" and x = y and c = c, OF assms(4) Acquire this] show ?thesis using i(2) by fastforce
  next
    case (Release i p)
    then have i: "i = sem" "p \<noteq> r_pc y c" "inside (r_pc y c)" by (cases "r_pc y c"; auto split: if_splits)+
    obtain z where "sem_signal i zero_regs ?s = Some z"
      using call [of "zero_regs\<lparr>r_ebx := i, r_eax := 22\<rparr>"] assms(3) sem i(1,3)
      by (auto simp: sem_signal_def call_ok_def Let_def)
    from run_step.release [where prog = "bank_prog f sem" and x = y and c = c, OF assms(4) Release this] show ?thesis using i(2) by fastforce
  next
    case (End p)
    then have i: "p \<noteq> r_pc y c" by (cases "r_pc y c"; auto split: if_splits)
    obtain z where "exit zero_regs ?s = Some z"
      using call [of "zero_regs\<lparr>r_eax := 12\<rparr>"] by (auto simp: exit_def call_ok_def)
    from run_step.finish [where prog = "bank_prog f sem" and x = y and c = c, OF assms(4) End this] show ?thesis using i by fastforce
  next
    case (Await p)
    then have i: "p \<noteq> r_pc y c" by (cases "r_pc y c"; auto split: if_splits)
    obtain z where "wait zero_regs ?s = Some z"
      using call [of "zero_regs\<lparr>r_eax := 11\<rparr>"] by (auto simp: wait_def call_ok_def)
    from run_step.await [where prog = "bank_prog f sem" and x = y and c = c, OF assms(4) Await this] show ?thesis using i by fastforce
  next
    case Halt
    then show ?thesis using assms(5) by (cases "r_pc y c") (auto split: if_splits)
  qed simp_all
qed

text \<open>C7: The two processes of \<^verbatim>\<open>bank.c\<close>, from the return of \<^verbatim>\<open>fork\<close> on and with timer interrupts anywhere
  between their steps: they are never both in the part that \<^verbatim>\<open>sem_wait\<close> and \<^verbatim>\<open>sem_signal\<close> enclose, except
  that one of them may be asleep on its way in; no deposit and no withdrawal is lost, the account is
  never negative nor above 2000 and is 1000 when both loops are over; and the process that has the
  processor always has a next step until it returns from \<^verbatim>\<open>main\<close>.\<close>

theorem bank_account_safe:
  assumes "proc_ok s" "links_ok (sched_of s)" "running s f" "\<forall>j. s_st (sched_of s) j \<noteq> PROC_READY"
    and "length (sem_list s) = 100" "get_sem 1 r s = Some (Returns sem s1)" "0 \<le> sint sem"
    and "fork r' s1 = Some (Returns p s2)" "p \<noteq> - 1" "q = unat p - 1"
    and "(run_step (bank_prog f sem))\<^sup>*\<^sup>* (bank_run s2) y"
  shows "let pc = r_pc y; a = bank_account (r_mem y) in
    (inside (pc f) \<and> inside (pc q) \<longrightarrow> blocked pc (sched_of (r_kern y)) f \<or> blocked pc (sched_of (r_kern y)) q) \<and>
    a = 1000 + 10 * int (turns 100 (pc f)) - 20 * int (turns 50 (pc q)) \<and> 0 \<le> a \<and> a \<le> 2000 \<and>
    (pc f \<in> {At_wait, At_return} \<and> pc q \<in> {At_exit, At_wait, At_return} \<longrightarrow> a = 1000) \<and>
    (\<forall>c. curr_proc (r_kern y) = Some c \<and> pc c \<noteq> At_return \<longrightarrow>
      (\<exists>z. run_step (bank_prog f sem) y z \<and> r_pc z c \<noteq> pc c))"
proof -
  note st = bank_start [OF assms(1-9)]
  have y: "kernel_good (r_kern y)" "bank_inv f q (nat (sint sem)) (run_view y)"
    using bank.inv_runs [OF assms(11), of q] st by (simp_all add: assms(10) bank_run_def)
  note b = y(2) [unfolded bank_inv_def run_view_def, simplified, unfolded bank_pair_def]
  have "turns 100 (r_pc y f) \<le> 100" "turns 50 (r_pc y q) \<le> 50" using b by (simp_all add: bank_slot_def)
  then have le: "int (turns 100 (r_pc y f)) \<le> 100" "int (turns 50 (r_pc y q)) \<le> 50" by simp_all
  have acc: "bank_account (r_mem y) = 1000 + 10 * int (turns 100 (r_pc y f)) - 20 * int (turns 50 (r_pc y q))"
    using b by blast
  have "inside (r_pc y f) \<and> inside (r_pc y q) \<longrightarrow>
      blocked (r_pc y) (sched_of (r_kern y)) f \<or> blocked (r_pc y) (sched_of (r_kern y)) q"
    using b by (auto split: if_splits)
  moreover have "0 \<le> bank_account (r_mem y)" "bank_account (r_mem y) \<le> 2000" using le unfolding acc by linarith+
  moreover have "r_pc y f \<in> {At_wait, At_return} \<and> r_pc y q \<in> {At_exit, At_wait, At_return} \<longrightarrow> bank_account (r_mem y) = 1000"
    using acc by auto
  moreover note bank_progress [OF y assms(7)]
  ultimately show ?thesis using acc by (simp add: Let_def)
qed

lemma bank_account_safe_witness:
  "\<exists>sem s1 p s2 z. get_sem 1 zero_regs demo_sem = Some (Returns sem s1) \<and> fork zero_regs s1 = Some (Returns p s2) \<and>
    run_step (bank_prog 0 sem) (bank_run s2) z \<and> r_pc z 0 \<noteq> Loop 0"
proof -
  have ok: "proc_ok demo_sem" "curr_proc demo_sem = Some 0" by (rule demo_sem_ok)+
  have run: "running demo_sem 0"
    by (simp add: running_def ok(2)) (simp add: demo_sem_def kstate.defs demo_sem_procs_def demo_process_def)
  have idle: "\<forall>j. s_st (sched_of demo_sem) j \<noteq> PROC_READY"
    by (auto simp: sched_of_def demo_sem_def kstate.defs demo_sem_procs_def demo_process_def free_process_def
        nth_Cons less_Suc_eq split: nat.splits)
  have len: "length (sem_list demo_sem) = 100" and pid: "unat (curr_pid demo_sem) = 3"
    by (simp_all add: demo_sem_def kstate.defs demo_kernel_def)
  have "find_first (\<lambda>i. \<not> sem_used (sem_list demo_sem ! i)) 0 100 = Some 1"
    unfolding find_first_Some by (simp add: demo_sem_def kstate.defs)
  then obtain s1 where g: "get_sem 1 zero_regs demo_sem = Some (Returns 1 s1)"
    using len by (auto simp: get_sem_def sys_interrupt_handler_def sys_interrupt_handler_main_def do_getsem_def sem_alloc_def)
  note s1 = get_sem_sched [OF ok len g]
  obtain s2 where k: "fork zero_regs s1 = Some (Returns 4 s2)"
    by (rule fork_call [of s1 0 3]) (use s1 pid in simp_all)
  have "curr_proc (r_kern (bank_run s2)) = Some 0"
    using fork_sched(6) [OF s1(1,2) k] by (simp add: bank_run_def)
  then obtain z where "run_step (bank_prog 0 1) (bank_run s2) z" "r_pc z 0 \<noteq> Loop 0"
    using bank_account_safe [OF ok(1) demo_links run idle len g _ k _ refl rtranclp.rtrancl_refl]
    by (auto simp: Let_def bank_run_def)
  then show ?thesis using g k by blast
qed

end
