(* ===== verification/Shell.thy ===== *)
theory Shell
  imports Kernel_Steps
begin

text \<open>
  The shell: the command loop and the terminals' initialisation in \<^verbatim>\<open>include/terminal.h\<close>, and the
  start of user programs in \<^verbatim>\<open>include/user.h\<close>. The characters that \<^verbatim>\<open>getchar\<close> returns are a list;
  \<open>ra\<close> is the address of \<^verbatim>\<open>user_process_return\<close>. A null pointer is an index into an empty array.
\<close>

section \<open>Starting programs\<close>

lemma strsep_progress:
  "strsep_loop b tok str ds = Some (t, Some q, b') \<Longrightarrow> str < q \<and> q \<le> length b \<and> length b' = length b"
proof (induction b tok str ds rule: strsep_loop.induct)
  case (1 b tok str ds)
  obtain c where c: "rd b str = Some c" "c \<noteq> 0" "str < length b"
    using "1.prems" by (subst (asm) strsep_loop.simps) (auto simp: buf_simps split: bind_splits if_splits)
  obtain r where r: "strchr ds 0 c = Some r"
    using "1.prems" c by (subst (asm) strsep_loop.simps) (auto split: bind_splits)
  show ?case
  proof (cases "r = None")
    case True
    then have "strsep_loop b tok (Suc str) ds = Some (t, Some q, b')"
      using "1.prems" c r by (subst (asm) strsep_loop.simps) simp
    then show ?thesis using "1.IH" [OF c(1,2) r] True by simp
  next
    case False
    then show ?thesis using "1.prems" c r by (subst (asm) strsep_loop.simps) (auto simp: wr_def)
  qed
qed

text \<open>The file of a program read into the static array.\<close>

definition img_sink :: "nat \<Rightarrow> nat \<Rightarrow> 'a loader_scheme \<Rightarrow> 'a loader_scheme option" where
  "img_sink off n s =
     do { b \<leftarrow> memcpy (bin_img s) off (ram_bytes (k_ram s) TMP_USER_ADDR n) 0 n;
          Some (s\<lparr>bin_img := b\<rparr>) }"

text \<open>The address of a \<^verbatim>\<open>.com\<close> program; for other names the variable has no value.\<close>

fun com_address :: "(string \<times> nat) list \<Rightarrow> buf \<Rightarrow> nat \<Rightarrow> nat option option" where
  "com_address [] b p = Some None"
| "com_address ((n, a) # ns) b p =
     do { r \<leftarrow> strcmp b p (lit n) 0;
          if r = 0 then Some (Some a) else com_address ns b p }"

definition com_programs :: "(string \<times> nat) list" where
  "com_programs = [(''prg1.com'', 0x20000), (''prg2.com'', 0x30000), (''prg3.com'', 0x40000), (''prg4.com'', 0x50000)]"

definition ADDR_USER_START :: nat where "ADDR_USER_START = 0x20000"

definition KERNEL_STACK_SIZE :: u32 where "KERNEL_STACK_SIZE = 2048"

text \<open>One program of the list, up to its entry address; \<open>None\<close> is the message and the early return.\<close>

definition load_program :: "buf \<Rightarrow> nat \<Rightarrow> 'a vfs_scheme \<Rightarrow> (u32 option \<times> 'a vfs_scheme) option" where
  "load_program b name s =
     do { buf \<leftarrow> strcpy (replicate 20 0) 0 b name;
          (tok, ext, buf) \<leftarrow> strsep buf (Some 0) (lit ''.'');
          img \<leftarrow> memset (bin_img s) 0 0 15360;
          let s = s\<lparr>bin_img := img\<rparr>;
          let s = s\<lparr>k_tss := tss_set_stack KERNEL_DS (cpu_esp s + KERNEL_STACK_SIZE) (k_tss s)\<rparr>;
          e \<leftarrow> ext;
          com \<leftarrow> strcmp buf e (lit ''com'') 0;
          if com = 0 then
            do { a \<leftarrow> com_address com_programs b name;
                 (ok, sz, s) \<leftarrow> fat12_read_file b name (case a of Some a \<Rightarrow> ram_sink a | None \<Rightarrow> \<lambda>_ _ _. None) s;
                 if ok then do { a \<leftarrow> a; Some (Some (of_nat a), s) }
                 else do { s \<leftarrow> on_tty (put_error (lit ''No this user program!'') 0) s; Some (None, s) } }
          else
            do { out \<leftarrow> strcmp buf e (lit ''out'') 0;
                 (ok, s) \<leftarrow> (if out = 0 then
                              do { (ok, sz, s) \<leftarrow> fat12_read_file b name img_sink s; Some (ok, s) }
                            else Some (False, s));
                 if ok then
                   do { p \<leftarrow> parse_elf (ADDR_USER_START + 6 * unat PROC_SIZE) s;
                        case p of Entry a s \<Rightarrow> Some (Some a, s) | Stuck s \<Rightarrow> None }
                 else do { s \<leftarrow> on_tty (put_error (lit ''No this user program!'') 0) s; Some (None, s) } } }"

definition start_program :: "u32 \<Rightarrow> u32 \<Rightarrow> 'a vfs_scheme \<Rightarrow> 'a vfs_scheme option" where
  "start_program ra addr_exec s =
     do { (pp, s) \<leftarrow> proc_create ra USER_CS USER_DS addr_exec s;
          info \<leftarrow> sprintf (replicate 30 0) 0 (lit ''Created user process %d!'') 0
                   [Arg_int (word_of_int (pid (proc_list s ! pp)))];
          on_tty (put_info info 0) s }"

text \<open>The loop; the value tells whether it ended at the end of the list.\<close>

function exec_loop :: "u32 \<Rightarrow> buf \<Rightarrow> nat option \<Rightarrow> 'a vfs_scheme \<Rightarrow> (bool \<times> 'a vfs_scheme) option" where
  "exec_loop ra b None s = Some (True, s)"
| "exec_loop ra b (Some name) s =
     do { (tok, rest, b) \<leftarrow> strsep b (Some name) (lit '' '');
          (a, s) \<leftarrow> load_program b name s;
          case a of
            None \<Rightarrow> Some (False, s)
          | Some a \<Rightarrow> do { s \<leftarrow> start_program ra a s; exec_loop ra b rest s } }"
  by pat_completeness auto
termination
  by (relation "measure (\<lambda>(ra, b, n, s). case n of None \<Rightarrow> 0 | Some p \<Rightarrow> Suc (length b - p))")
    (auto simp: strsep_def split: option.split dest!: strsep_progress)

declare exec_loop.simps(2) [simp del]

definition exec_user_prg ::
  "u32 \<Rightarrow> buf \<Rightarrow> nat option \<Rightarrow> 'a vfs_scheme \<Rightarrow> (unit, 'a vfs_scheme) outcome option" where
  "exec_user_prg ra b name s =
     do { (done, s) \<leftarrow> exec_loop ra b name (disable_k s);
          if done then schedule_proc s else Some (Returns () s) }"

section \<open>Texts\<close>

definition HELLO_INFO :: buf where
  "HELLO_INFO = logo_text @ map of_char ''Welcome to CHZOS!'' @ [10, 0]"

definition HELP_INFO :: buf where
  "HELP_INFO =
     logo_line (map of_char ''CHZ OS Shell version 1.0'') @
     logo_line (map of_char ''These shell commands are defined internally. Type 'help' to see this list.'') @
     logo_line [] @
     logo_line (map of_char '' help             -- Show this list'') @
     logo_line (map of_char '' ls               -- Show existing files in current directory'') @
     logo_line (map of_char '' cd [dir]         -- Change directory'') @
     logo_line (map of_char '' cp [src] [dst]   -- Copy files'') @
     logo_line (map of_char '' rm [file]        -- Delete files'') @
     logo_line (map of_char '' tick             -- Show current execution time'') @
     logo_line (map of_char '' exec [prg] [...] -- Execute the user program (support multiple programs)'') @
     logo_line (map of_char '' clr              -- Clear the screen'') @
     logo_line (map of_char '' exit             -- Exit OS'') @ [0]"

definition command_not_found :: "buf \<Rightarrow> nat \<Rightarrow> tty \<Rightarrow> tty option" where
  "command_not_found str p t =
     do { r \<leftarrow> strcmp str p (lit nl) 0;
          n \<leftarrow> strlen str p;
          if r = 0 \<or> n = 0 then Some t
          else printf_lit (''%s: command not found'' @ nl) [Arg_str str p] t }"

definition put_prompt :: "tty \<Rightarrow> tty option" where
  "put_prompt t =
     do { let t = set_color 2 0 t;
          c \<leftarrow> term_of (curr_terminal t) t;
          t \<leftarrow> printf_lit ''root@CHZOS_%d:'' [Arg_int (word_of_int (term_num c))] t;
          let t = set_color 9 0 t;
          t \<leftarrow> printf_lit ''%s'' [Arg_str (curr_path t) 0] t;
          let t = set_color 15 0 t;
          printf_lit ''$ '' [] t }"

definition new_terminal :: "tty \<Rightarrow> tty option" where
  "new_terminal t =
     do { let t = set_color 3 0 t;
          t \<leftarrow> print HELLO_INFO 0 t;
          let t = set_color 15 0 t;
          put_prompt t }"

section \<open>Initialisation of the terminals\<close>

definition init_term :: "nat \<Rightarrow> tty \<Rightarrow> tty option" where
  "init_term i t =
     do { let t = t\<lparr>curr_terminal := Some i, tmp_terminal := Some i\<rparr>;
          t \<leftarrow> set_term (curr_terminal t) (\<lambda>c. c\<lparr>term_num := int i, term_cursor := 0, term_dir := get_curr_dir t\<rparr>) t;
          c \<leftarrow> term_of (curr_terminal t) t;
          p \<leftarrow> strcpy (term_path c) 0 (lit ''/'') 0;
          b \<leftarrow> memset (term_buf c) 0 0 (80 * 32 * 2);
          set_term (curr_terminal t) (\<lambda>c. c\<lparr>term_path := p, term_buf := b\<rparr>) t }"

definition show_term :: "nat \<Rightarrow> tty \<Rightarrow> tty option" where
  "show_term i t =
     do { let t = t\<lparr>curr_terminal := Some i, tmp_terminal := Some i\<rparr>;
          t \<leftarrow> new_terminal t;
          t \<leftarrow> save_screen t;
          clear_screen t }"

function term_loop :: "(nat \<Rightarrow> tty \<Rightarrow> tty option) \<Rightarrow> nat \<Rightarrow> tty \<Rightarrow> tty option" where
  "term_loop f i t = (if i < 4 then do { t \<leftarrow> f i t; term_loop f (Suc i) t } else Some t)"
  by pat_completeness auto
termination
  by (relation "measure (\<lambda>(f, i, t). 4 - i)") auto

declare term_loop.simps [simp del]

definition terminal_init :: "'a kstate_scheme \<Rightarrow> 'a kstate_scheme option" where
  "terminal_init s =
     do { let s = disable_k s;
          t \<leftarrow> term_loop init_term 0 (k_tty s);
          t \<leftarrow> term_loop show_term 0 t;
          let t = t\<lparr>curr_terminal := Some 0, tmp_terminal := Some 0\<rparr>;
          t \<leftarrow> load_screen t;
          Some (enable_k (s\<lparr>k_tty := t\<rparr>)) }"

section \<open>The command loop\<close>

text \<open>The command that a line names, of those known.\<close>

fun command_of :: "buf \<Rightarrow> string list \<Rightarrow> string option" where
  "command_of str [] = Some ''''"
| "command_of str (c # cs) =
     do { r \<leftarrow> strcmp str 0 (lit c) 0; if r = 0 then Some c else command_of str cs }"

definition commands :: "string list" where
  "commands = [''help'', ''exit'', ''clr'', ''ls'', ''cd'', ''rm'', ''write'', ''cp'', ''tick'', ''read'', ''exec'']"

text \<open>The string at a pointer that may be null.\<close>

definition ptr_buf :: "buf \<Rightarrow> nat option \<Rightarrow> buf" where
  "ptr_buf b p = (case p of None \<Rightarrow> [] | Some q \<Rightarrow> b)"

definition ptr_pos :: "nat option \<Rightarrow> nat" where
  "ptr_pos p = (case p of None \<Rightarrow> 0 | Some q \<Rightarrow> q)"

text \<open>
  One command, given the line behind it, with the keys still to come; \<open>Returns True\<close> is the end of the loop.
\<close>

definition run_command ::
  "u32 \<Rightarrow> buf \<Rightarrow> nat option \<Rightarrow> u8 list \<Rightarrow> 'a vfs_scheme \<Rightarrow>
   (u8 list \<times> (bool, 'a vfs_scheme) outcome) option" where
  "run_command ra str rest keys s =
     do { cmd \<leftarrow> command_of str commands;
          if cmd = ''help'' then
            do { s \<leftarrow> on_tty (print HELP_INFO 0) s; Some (keys, Returns False s) }
          else if cmd = ''exit'' then Some (keys, Returns True s)
          else if cmd = ''clr'' then do { s \<leftarrow> on_tty clear_screen s; Some (keys, Returns False s) }
          else if cmd = ''ls'' then do { s \<leftarrow> fat12_ls s; Some (keys, Returns False s) }
          else if cmd = ''cd'' then
            do { (ok, s) \<leftarrow> fat12_cd (ptr_buf str rest) (ptr_pos rest) s; Some (keys, Returns False s) }
          else if cmd = ''rm'' then
            do { (ok, s) \<leftarrow> fat12_rm (ptr_buf str rest) (ptr_pos rest) s; Some (keys, Returns False s) }
          else if cmd = ''write'' then
            do { buf \<leftarrow> strcpy (replicate 1000 0) 0 (lit ''This is a test message!'') 0;
                 n \<leftarrow> strlen buf 0;
                 s \<leftarrow> fat12_create_file (int n) (lit ''test.txt'') 0 s;
                 Some (keys, Returns False s) }
          else if cmd = ''cp'' then
            do { (src, rest, str) \<leftarrow> strsep str rest (lit '' '');
                 (ok, s) \<leftarrow> fat12_cp (ptr_buf str src) (ptr_pos src) (ptr_buf str rest) (ptr_pos rest) s;
                 Some (keys, Returns False s) }
          else if cmd = ''tick'' then
            do { s \<leftarrow> on_tty (printf_lit (''%d'' @ nl) [Arg_int (get_tick_count (k_pit s))]) s;
                 Some (keys, Returns False s) }
          else if cmd = ''read'' then
            do { (keys, s) \<leftarrow> read_disk_test keys s; Some (keys, Returns False s) }
          else if cmd = ''exec'' then
            do { z \<leftarrow> and_then (exec_user_prg ra str rest s) (\<lambda>_ s. Some (Returns False s));
                 Some (keys, z) }
          else do { s \<leftarrow> on_tty (command_not_found str 0) s; Some (keys, Returns False s) } }"

text \<open>A line and its command; no prompt comes before the first line.\<close>

definition run_line ::
  "u32 \<Rightarrow> bool \<Rightarrow> u8 list \<Rightarrow> 'a vfs_scheme \<Rightarrow> (u8 list \<times> (bool, 'a vfs_scheme) outcome) option" where
  "run_line ra flag keys s =
     do { s \<leftarrow> (if flag then Some s else on_tty put_prompt s);
          (str, keys, t) \<leftarrow> getline keys (replicate 1000 0) (k_tty s);
          let s = s\<lparr>k_tty := t\<rparr>;
          (tok, rest, str) \<leftarrow> strsep str (Some 0) (lit '' '');
          run_command ra str rest keys s }"

lemma getline_shorter: "getline_loop keys res i t = Some (b, ks, t') \<Longrightarrow> length ks < length keys"
proof (induction keys res i t rule: getline_loop.induct)
  case (2 ch keys res i t)
  then show ?case by (fastforce split: bind_splits if_splits)
qed simp

lemma read_disk_keys:
  assumes "read_disk_test keys s = Some (ks, s')"
  shows "length ks < length keys"
proof -
  obtain ds t u where "scanf keys (lit ''%d'') 0 [Dest_int 0] t = Some (ds, ks, u)"
    using assms unfolding read_disk_test_def by (force split: bind_splits)
  then show ?thesis by (auto simp: scanf_def getline_def split: bind_splits dest!: getline_shorter)
qed

lemma run_command_keys:
  assumes "run_command ra str rest keys s = Some (ks, z)"
  shows "length ks \<le> length keys"
proof -
  obtain cmd where cmd: "command_of str commands = Some cmd"
    using assms by (cases "command_of str commands") (simp_all add: run_command_def)
  note run = assms [unfolded run_command_def cmd Option.bind.simps]
  show ?thesis
  proof (cases "cmd = ''read''")
    case True
    then show ?thesis using run by (auto split: bind_splits dest!: read_disk_keys)
  next
    case False
    then show ?thesis using run
      by (fastforce split: if_splits bind_splits)
  qed
qed

lemma run_line_keys: "run_line ra flag keys s = Some (ks, z) \<Longrightarrow> length ks < length keys"
  by (auto simp: run_line_def getline_def split: bind_splits if_splits dest!: getline_shorter run_command_keys)

function terminal_loop ::
  "u32 \<Rightarrow> bool \<Rightarrow> u8 list \<Rightarrow> 'a vfs_scheme \<Rightarrow> (u8 list \<times> (unit, 'a vfs_scheme) outcome) option" where
  "terminal_loop ra flag keys s =
     (case run_line ra flag keys s of
        None \<Rightarrow> None
      | Some (keys, Returns stop s) \<Rightarrow>
          if stop then Some (keys, Returns () s) else terminal_loop ra False keys s
      | Some (keys, Switches r s) \<Rightarrow> Some (keys, Switches r s)
      | Some (keys, outcome.Shell s) \<Rightarrow> Some (keys, outcome.Shell s))"
  by pat_completeness auto
termination
  by (relation "measure (\<lambda>(ra, flag, keys, s). length keys)") (auto dest: run_line_keys)

declare terminal_loop.simps [simp del]

section \<open>The terminals after initialisation\<close>

lemma term_loop_inv:
  assumes "\<And>i t. i < 4 \<Longrightarrow> Q i t \<Longrightarrow> \<exists>t'. f i t = Some t' \<and> Q (Suc i) t'" "Q i t" "i \<le> 4"
  shows "\<exists>t'. term_loop f i t = Some t' \<and> Q 4 t'"
  using assms(2,3)
proof (induction "4 - i" arbitrary: i t)
  case 0
  then show ?case by (subst term_loop.simps) simp
next
  case (Suc n)
  then have i: "i < 4" by simp
  obtain t1 where t1: "f i t = Some t1" "Q (Suc i) t1" using assms(1) [OF i Suc.prems(1)] by blast
  have "\<exists>t'. term_loop f (Suc i) t1 = Some t' \<and> Q 4 t'"
    using Suc.hyps(2) t1(2) i by (intro Suc.hyps(1)) auto
  then show ?case using i t1(1) by (subst term_loop.simps) simp
qed

text \<open>Memory of the right size, whatever its contents.\<close>

definition tty_raw :: "tty \<Rightarrow> bool" where
  "tty_raw t \<longleftrightarrow> 5120 \<le> length (video t) \<and> length (terminal_list t) = 4 \<and>
     (\<forall>i < 4. length (term_buf (terminal_list t ! i)) = 5120 \<and> length (term_path (terminal_list t ! i)) = 50)"

definition fresh_term :: "int \<Rightarrow> nat \<Rightarrow> terminal \<Rightarrow> bool" where
  "fresh_term d i c \<longleftrightarrow> term_num c = int i \<and> 0 \<le> term_cursor c \<and> term_cursor c < 4000 \<and> even (term_cursor c) \<and>
     term_dir c = d \<and> is_cstr (term_path c) 0 [47]"

lemma strcpy_slash:
  assumes "length p = 50"
  shows "\<exists>q. strcpy p 0 (lit ''/'') 0 = Some q \<and> length q = 50 \<and> is_cstr q 0 [47]"
proof -
  have c: "is_cstr (lit ''/'') 0 [47]" by (simp add: lit_def rd_def)
  then show ?thesis using assms strcpy_cstr [OF c, of 0 p] buf_put_cstr [of 0 "[47]" p] by simp
qed

lemma init_term_fresh:
  assumes "i < 4" "tty_raw t" "\<forall>j < i. fresh_term (curr_dir t) j (terminal_list t ! j)"
  shows "\<exists>t'. init_term i t = Some t' \<and> tty_raw t' \<and> (\<forall>j < Suc i. fresh_term (curr_dir t) j (terminal_list t' ! j)) \<and>
    curr_terminal t' = Some i \<and> tmp_terminal t' = Some i \<and> curr_dir t' = curr_dir t \<and> curr_path t' = curr_path t \<and>
    hw_cursor t' = hw_cursor t"
proof -
  have len: "length (terminal_list t) = 4" "length (term_path (terminal_list t ! i)) = 50"
    "length (term_buf (terminal_list t ! i)) = 5120" using assms(1,2) by (simp_all add: tty_raw_def)
  obtain q where q: "strcpy (term_path (terminal_list t ! i)) 0 (lit ''/'') 0 = Some q" "length q = 50" "is_cstr q 0 [47]"
    using strcpy_slash [OF len(2)] by blast
  let ?b = "buf_put (term_buf (terminal_list t ! i)) 0 (replicate 5120 0)"
  have b: "memset (term_buf (terminal_list t ! i)) 0 0 5120 = Some ?b" "length ?b = 5120"
    using memset_put [of 0 5120 "term_buf (terminal_list t ! i)" 0] len(3) by simp_all
  let ?c = "(terminal_list t ! i)\<lparr>term_num := int i, term_cursor := 0, term_dir := curr_dir t, term_path := q, term_buf := ?b\<rparr>"
  let ?t = "t\<lparr>curr_terminal := Some i, tmp_terminal := Some i, terminal_list := (terminal_list t)[i := ?c]\<rparr>"
  have "init_term i t = Some ?t"
    using assms(1) len q(1) b(1)
    by (simp add: init_term_def Let_def set_term_def term_of_def get_curr_dir_def)
  moreover have "tty_raw ?t" using assms(1,2) q(2) b(2) by (auto simp: tty_raw_def nth_list_update)
  moreover have "\<forall>j < Suc i. fresh_term (curr_dir t) j (terminal_list ?t ! j)"
    using assms(1,3) len(1) q(3) by (auto simp: fresh_term_def nth_list_update less_Suc_eq)
  ultimately show ?thesis by (intro exI [of _ ?t]) (simp add: hw_cursor_def)
qed

lemma save_screen_inv:
  assumes "tty_inv t" "curr_terminal t = Some c"
  shows "save_screen t = Some ((index_15 t)\<lparr>terminal_list := (terminal_list t)
      [c := (terminal_list t ! c)\<lparr>term_buf := take 5120 (video t), term_cursor := snd (view t)\<rparr>]\<rparr>)"
    "tty_inv ((index_15 t)\<lparr>terminal_list := (terminal_list t)
      [c := (terminal_list t ! c)\<lparr>term_buf := take 5120 (video t), term_cursor := snd (view t)\<rparr>]\<rparr>)"
proof -
  note ok = tty_inv_ok [OF assms(1)]
  let ?L = "terminal_list t"
  let ?t = "t\<lparr>terminal_list := ?L[c := (?L ! c)\<lparr>term_buf := take 5120 (video t)\<rparr>]\<rparr>"
  have ok': "tty_ok ?t" using ok(1) assms(2) by (elim tty_okE) (simp add: tty_ok_def nth_list_update)
  have v: "snd (view ?t) = snd (view t)" "shown ?t = shown t"
    using ok(1) assms(2) by (auto elim!: tty_okE simp: view_def shown_def hw_cursor_def Let_def nth_list_update)
  have "get_cursor ?t = Some (snd (view t), (index_15 t)\<lparr>terminal_list :=
      ?L[c := (?L ! c)\<lparr>term_buf := take 5120 (video t)\<rparr>]\<rparr>)"
    using get_cursor_view [OF ok'] v by (simp add: index_15_def)
  moreover have "curr_terminal (index_15 t) = Some c" using assms(2) by (simp add: index_15_def)
  ultimately show "save_screen t = Some ((index_15 t)\<lparr>terminal_list := ?L
      [c := (?L ! c)\<lparr>term_buf := take 5120 (video t), term_cursor := snd (view t)\<rparr>]\<rparr>)"
    using ok(1) assms(2) by (elim tty_okE) (simp add: save_screen_def term_of_def set_term_def copy_screen)
  show "tty_inv ((index_15 t)\<lparr>terminal_list := ?L
      [c := (?L ! c)\<lparr>term_buf := take 5120 (video t), term_cursor := snd (view t)\<rparr>]\<rparr>)"
    using assms tty_inv_view [OF assms(1)] unfolding tty_inv_def
    by (elim conjE tty_okE)
      (auto simp: tty_ok_def saved_ok_def index_15_def hw_cursor_def nth_list_update view_ok_def)
qed

text \<open>Output on the terminal that is shown changes the screen alone.\<close>

abbreviation same_terms :: "tty \<Rightarrow> tty \<Rightarrow> bool" where
  "same_terms t t' \<equiv> terminal_list t' = terminal_list t \<and> curr_terminal t' = curr_terminal t \<and>
     tmp_terminal t' = tmp_terminal t \<and> curr_dir t' = curr_dir t \<and> curr_path t' = curr_path t"

lemma set_view_shown: "shown t \<Longrightarrow> same_terms t (set_view w t)"
  by (cases w) (simp add: set_view_def)

lemma put_chars_shown:
  "tty_inv t \<Longrightarrow> no_bs x \<Longrightarrow> shown t \<Longrightarrow> \<exists>t'. put_chars x t = Some t' \<and> tty_inv t' \<and> same_terms t t'"
proof (induction x arbitrary: t)
  case (Cons c x)
  note v = tty_inv_view [OF Cons.prems(1)]
  let ?w = "put_spec c (attr_of t) (view t)"
  have p: "print_char c t = Some (set_view ?w t)"
    using putchar_view [OF tty_inv_ok(1) [OF Cons.prems(1)] v, of c "-1" "-1" "attr_of t"] Cons.prems(2)
    by (simp add: print_char_def no_bs_def)
  have inv: "tty_inv (set_view ?w t)"
    using put_spec_ok [OF v, of c] Cons.prems by (intro set_view_inv) (auto simp: no_bs_def)
  note s = set_view_shown [OF Cons.prems(3), of ?w]
  have "shown (set_view ?w t)" using s Cons.prems(3) by (simp add: shown_def)
  then obtain t' where "put_chars x (set_view ?w t) = Some t'" "tty_inv t'" "same_terms (set_view ?w t) t'"
    using Cons.IH [OF inv] Cons.prems(2) by (auto simp: no_bs_def)
  then show ?case using p s by simp
qed simp

lemma printf_shown:
  assumes "tty_inv t" "shown t" "is_cstr fmt 0 f" "render f args = Some x" "no_bs x"
  shows "\<exists>t'. printf fmt 0 args t = Some t' \<and> tty_inv t' \<and> same_terms t t'"
  using printf_render [OF assms(3,4)] put_chars_shown [OF assms(1,5,2)] by simp

lemma color_shown [simp]: "shown (set_color a b t) = shown t" "same_terms t (set_color a b t)"
  by (simp_all add: set_color_def shown_def)

lemma render_d: "render (37 # 100 # f) (Arg_int x # args) = map_option ((@) (num_str 10 (unat x))) (render f args)"
  by (cases "render f args") (simp_all add: render.simps(2) int_prefix_def conversion_def)

lemma num_no_bs: "no_bs (num_str 10 n)"
  using num_str_digits [of 8 n] by (auto simp: no_bs_def)

lemma prompt_shown:
  assumes "tty_inv t" "shown t" "curr_terminal t = Some c" "is_cstr (curr_path t) 0 p" "no_bs p"
  shows "\<exists>t'. put_prompt t = Some t' \<and> tty_inv t' \<and> same_terms t t'"
proof -
  have c: "c < length (terminal_list t)" using assms(1,3) by (auto simp: tty_inv_def elim: tty_okE)
  let ?n = "num_str 10 (unat (word_of_int (term_num (terminal_list t ! c)) :: u32))"
  have r1: "render (chars ''root@CHZOS_%d:'') [Arg_int (word_of_int (term_num (terminal_list t ! c)))] =
      Some (chars ''root@CHZOS_'' @ ?n @ chars '':'')"
    by (simp add: render_char render_d)
  have b1: "no_bs (chars ''root@CHZOS_'' @ ?n @ chars '':'')" using num_no_bs by (simp add: no_bs_def)
  have t0: "tty_inv (set_color 2 0 t)" "shown (set_color 2 0 t)" using assms(1,2) by simp_all
  obtain t1 where t1: "printf_lit ''root@CHZOS_%d:'' [Arg_int (word_of_int (term_num (terminal_list t ! c)))] (set_color 2 0 t) = Some t1"
    "tty_inv t1" "same_terms (set_color 2 0 t) t1"
    using printf_shown [OF t0 lit_cstr r1 b1] by auto
  have s1: "tty_inv (set_color 9 0 t1)" "shown (set_color 9 0 t1)" "same_terms t (set_color 9 0 t1)"
    using t1 assms(2) by (simp_all add: set_color_def shown_def)
  have r2: "render (chars ''%s'') [Arg_str (curr_path (set_color 9 0 t1)) 0] = Some p"
    using s1(3) cstr_at_cstr [OF assms(4)] by (simp add: render.simps(2) int_prefix_def conversion_def)
  obtain t2 where t2: "printf_lit ''%s'' [Arg_str (curr_path (set_color 9 0 t1)) 0] (set_color 9 0 t1) = Some t2"
    "tty_inv t2" "same_terms (set_color 9 0 t1) t2"
    using printf_shown [OF s1(1,2) lit_cstr r2 assms(5)] by auto
  have s2: "tty_inv (set_color 15 0 t2)" "shown (set_color 15 0 t2)" "same_terms t (set_color 15 0 t2)"
    using t2 s1 assms(2) by (simp_all add: set_color_def shown_def)
  have r3: "render (chars ''$ '') [] = Some (chars ''$ '')" by (simp add: render_char)
  have b3: "no_bs (chars ''$ '')" by (simp add: no_bs_def)
  obtain t3 where t3: "printf_lit ''$ '' [] (set_color 15 0 t2) = Some t3" "tty_inv t3" "same_terms (set_color 15 0 t2) t3"
    using printf_shown [OF s2(1,2) lit_cstr r3 b3] by auto
  have "term_of (curr_terminal (set_color 2 0 t)) (set_color 2 0 t) = Some (terminal_list t ! c)"
    using assms(3) c by (simp add: term_of_def set_color_def)
  then show ?thesis using t1(1) t2(1) t3 s2(3) by (simp add: put_prompt_def Let_def)
qed

lemma clean_hello: "clean (logo_text @ chars ''Welcome to CHZOS!'' @ [10])"
  using clean_logo by (simp add: no_bs_def)

lemma new_terminal_shown:
  assumes "tty_inv t" "shown t" "curr_terminal t = Some c" "is_cstr (curr_path t) 0 p" "no_bs p"
  shows "\<exists>t'. new_terminal t = Some t' \<and> tty_inv t' \<and> same_terms t t'"
proof -
  let ?x = "logo_text @ chars ''Welcome to CHZOS!'' @ [10]"
  have "is_cstr HELLO_INFO 0 ?x" using cstr_self [of ?x] clean_hello by (simp add: HELLO_INFO_def)
  then have p: "print HELLO_INFO 0 u = put_chars ?x u" for u by (rule print_put_chars)
  obtain t1 where t1: "put_chars ?x (set_color 3 0 t) = Some t1" "tty_inv t1" "same_terms (set_color 3 0 t) t1"
    using put_chars_shown [of "set_color 3 0 t" ?x] assms(1,2) clean_hello by auto
  have s1: "tty_inv (set_color 15 0 t1)" "shown (set_color 15 0 t1)" "same_terms t (set_color 15 0 t1)"
    using t1 assms(2) by (simp_all add: set_color_def shown_def)
  obtain t2 where "put_prompt (set_color 15 0 t1) = Some t2" "tty_inv t2" "same_terms (set_color 15 0 t1) t2"
    using prompt_shown [OF s1(1,2)] s1(3) assms(3-5) by auto
  then show ?thesis using t1(1) s1(3) p by (simp add: new_terminal_def Let_def)
qed


lemma load_screen_shown:
  assumes "tty_inv t" "shown t" "curr_terminal t = Some n" "n < 4"
  shows "\<exists>t'. load_screen t = Some t' \<and> tty_inv t' \<and> same_terms t t' \<and>
    view t' = (term_buf (terminal_list t ! n) @ drop 5120 (video t), term_cursor (terminal_list t ! n))"
proof -
  note ok = tty_inv_ok [OF assms(1)]
  let ?C = "terminal_list t ! n"
  have C: "length (term_buf ?C) = 5120" "0 \<le> term_cursor ?C" "term_cursor ?C < 4000" "even (term_cursor ?C)"
    "5120 \<le> length (video t)"
    using ok assms(4) by (auto simp: saved_ok_def elim!: tty_okE)
  let ?v = "term_buf ?C @ drop 5120 (video t)"
  let ?u = "t\<lparr>video := ?v\<rparr>"
  have u: "tty_inv ?u" "shown ?u" "same_terms t ?u"
    using assms(1,2) C(1,5) by (auto simp: tty_inv_def tty_ok_def saved_ok_def hw_cursor_def shown_def)
  have vu: "fst (view ?u) = ?v" by (subst view_shown [OF u(2)]) simp
  have w: "view_ok (?v, term_cursor ?C)" using C by (simp add: view_ok_def)
  have "load_screen t = Some (set_view (?v, term_cursor ?C) ?u)"
    using load_screen_view [OF ok(1) assms(3) C(2)] assms(2) by simp
  moreover have "tty_inv (set_view (?v, term_cursor ?C) ?u)" using vu by (intro set_view_inv [OF u(1) w]) simp
  moreover have "view (set_view (?v, term_cursor ?C) ?u) = (?v, term_cursor ?C)"
    using vu by (intro set_view_view_ok(2) [OF tty_inv_ok(1) [OF u(1)] w]) simp
  ultimately show ?thesis using set_view_shown [OF u(2)] u(3) by simp
qed

lemma clear_screen_shown:
  assumes "tty_inv t" "shown t"
  shows "\<exists>t'. clear_screen t = Some t' \<and> tty_inv t' \<and> same_terms t t'"
proof -
  have c: "clear_screen t = Some (set_view (cleared (attr_of t) (fst (view t)), 0) t)"
    by (rule clear_screen_view [OF tty_inv_ok(1) [OF assms(1)]])
  then show ?thesis using clear_screen_inv [OF assms(1) c] set_view_shown [OF assms(2)] by simp
qed

lemma show_term_fresh:
  assumes "i < 4" "tty_inv t" "\<forall>j < 4. fresh_term (curr_dir t) j (terminal_list t ! j)"
    and "is_cstr (curr_path t) 0 p" "no_bs p"
  shows "\<exists>t'. show_term i t = Some t' \<and> tty_inv t' \<and> (\<forall>j < 4. fresh_term (curr_dir t) j (terminal_list t' ! j)) \<and>
    curr_dir t' = curr_dir t \<and> curr_path t' = curr_path t"
proof -
  let ?t = "t\<lparr>curr_terminal := Some i, tmp_terminal := Some i\<rparr>"
  have t: "tty_inv ?t" "shown ?t" "curr_terminal ?t = Some i"
    using tty_inv_terminals(1) [OF tty_inv_terminals(2) [OF assms(2,1)] assms(1)] by (simp_all add: shown_def)
  obtain t1 where t1: "new_terminal ?t = Some t1" "tty_inv t1" "same_terms ?t t1"
    using new_terminal_shown [OF t] assms(4,5) by auto
  have c1: "curr_terminal t1 = Some i" using t1(3) by simp
  let ?t2 = "(index_15 t1)\<lparr>terminal_list := (terminal_list t1)
      [i := (terminal_list t1 ! i)\<lparr>term_buf := take 5120 (video t1), term_cursor := snd (view t1)\<rparr>]\<rparr>"
  note s = save_screen_inv [OF t1(2) c1]
  have sh: "shown ?t2" "curr_dir ?t2 = curr_dir t" "curr_path ?t2 = curr_path t"
    using t1(3) by (simp_all add: shown_def index_15_def)
  obtain t3 where t3: "clear_screen ?t2 = Some t3" "tty_inv t3" "same_terms ?t2 t3"
    using clear_screen_shown [OF s(2) sh(1)] by blast
  have run: "show_term i t = Some t3" using t1(1) s(1) t3(1) by (simp add: show_term_def Let_def)
  have v: "0 \<le> snd (view t1)" "snd (view t1) < 4000" "even (snd (view t1))"
    using tty_inv_view [OF t1(2)] by (simp_all add: view_ok_def split: prod.splits)
  have "fresh_term (curr_dir t) j (terminal_list t3 ! j)" if "j < 4" for j
  proof -
    have "length (terminal_list t) = 4" using assms(2) by (auto simp: tty_inv_def elim: tty_okE)
    then have "terminal_list t3 ! j = (if j = i then (terminal_list t ! i)
        \<lparr>term_buf := take 5120 (video t1), term_cursor := snd (view t1)\<rparr> else terminal_list t ! j)"
      using t3(3) t1(3) assms(1) that by (simp add: nth_list_update)
    then show ?thesis using assms(3) that v assms(1) by (simp add: fresh_term_def)
  qed
  then show ?thesis using run t3(2,3) sh(2,3) by simp
qed


lemma init_terms:
  assumes "tty_raw t" "hw_cursor t < 4000" "length (curr_path t) = 50" "is_cstr (curr_path t) 0 p"
  shows "\<exists>t'. term_loop init_term 0 t = Some t' \<and> tty_inv t' \<and>
    (\<forall>j < 4. fresh_term (curr_dir t) j (terminal_list t' ! j)) \<and> curr_dir t' = curr_dir t \<and> curr_path t' = curr_path t"
proof -
  define Q where "Q i u \<longleftrightarrow> tty_raw u \<and> (\<forall>j < i. fresh_term (curr_dir t) j (terminal_list u ! j)) \<and>
    curr_dir u = curr_dir t \<and> curr_path u = curr_path t \<and> hw_cursor u = hw_cursor t \<and>
    (\<forall>j. i = Suc j \<longrightarrow> curr_terminal u = Some j \<and> tmp_terminal u = Some j)" for i u
  have "\<exists>t'. term_loop init_term 0 t = Some t' \<and> Q 4 t'"
  proof (rule term_loop_inv)
    fix i u assume i: "i < 4" "Q i u"
    then obtain u' where "init_term i u = Some u'" "tty_raw u'" "\<forall>j < Suc i. fresh_term (curr_dir u) j (terminal_list u' ! j)"
      "curr_terminal u' = Some i" "tmp_terminal u' = Some i" "curr_dir u' = curr_dir u" "curr_path u' = curr_path u"
      "hw_cursor u' = hw_cursor u" using init_term_fresh [of i u] unfolding Q_def by auto
    then show "\<exists>u'. init_term i u = Some u' \<and> Q (Suc i) u'" using i(2) by (auto simp: Q_def)
  qed (use assms(1) in \<open>simp_all add: Q_def\<close>)
  then obtain t1 where t1: "term_loop init_term 0 t = Some t1" "Q 4 t1" by blast
  have f1: "\<forall>j < 4. fresh_term (curr_dir t) j (terminal_list t1 ! j)" and raw1: "tty_raw t1"
    and cd: "curr_dir t1 = curr_dir t" "curr_path t1 = curr_path t" "hw_cursor t1 = hw_cursor t"
      "curr_terminal t1 = Some 3" "tmp_terminal t1 = Some 3"
    using t1(2) by (simp_all add: Q_def)
  have "tty_ok t1" using raw1 f1 cd(4,5) by (simp add: tty_ok_def tty_raw_def fresh_term_def)
  moreover have "saved_ok t1"
    using f1 cd(2) assms(3,4) unfolding saved_ok_def fresh_term_def by (auto simp del: is_cstr.simps)
  ultimately have "tty_inv t1" using cd(3) assms(2) by (simp add: tty_inv_def)
  then show ?thesis using t1(1) f1 cd(1,2) by blast
qed

lemma show_terms:
  assumes "tty_inv t" "\<forall>j < 4. fresh_term (curr_dir t) j (terminal_list t ! j)" "is_cstr (curr_path t) 0 p" "no_bs p"
  shows "\<exists>t'. term_loop show_term 0 t = Some t' \<and> tty_inv t' \<and>
    (\<forall>j < 4. fresh_term (curr_dir t) j (terminal_list t' ! j)) \<and> curr_dir t' = curr_dir t \<and> curr_path t' = curr_path t"
proof -
  define R where "R i u \<longleftrightarrow> tty_inv u \<and> (\<forall>j < 4. fresh_term (curr_dir t) j (terminal_list u ! j)) \<and>
    curr_dir u = curr_dir t \<and> curr_path u = curr_path t" for i :: nat and u
  have "\<exists>t'. term_loop show_term 0 t = Some t' \<and> R 4 t'"
  proof (rule term_loop_inv)
    fix i u assume "i < 4" "R i u"
    then show "\<exists>u'. show_term i u = Some u' \<and> R (Suc i) u'"
      using show_term_fresh [of i u p] assms(3,4) by (auto simp: R_def simp del: is_cstr.simps)
  qed (use assms in \<open>simp_all add: R_def del: is_cstr.simps\<close>)
  then show ?thesis by (auto simp: R_def)
qed

text \<open>\<^verbatim>\<open>terminal_init\<close> makes four good terminals out of memory with any contents: they have the numbers 0
  to 3, the path / and the current directory, their cursors are on the screen, the first one is shown
  and written to, the display has its text and cursor, and interrupts are on. Nothing else changes.\<close>

theorem terminal_init_ready:
  assumes "tty_raw (k_tty s)" "hw_cursor (k_tty s) < 4000" "length (curr_path (k_tty s)) = 50"
    and "is_cstr (curr_path (k_tty s)) 0 p" "no_bs p"
  shows "\<exists>t b. terminal_init s = Some (s\<lparr>k_tty := t, k_io := b\<rparr>) \<and> if_flag b \<and> tty_inv t \<and>
    curr_terminal t = Some 0 \<and> tmp_terminal t = Some 0 \<and>
    (\<forall>i < 4. fresh_term (curr_dir (k_tty s)) i (terminal_list t ! i)) \<and>
    take 5120 (video t) = term_buf (terminal_list t ! 0) \<and> hw_cursor t = term_cursor (terminal_list t ! 0) \<and>
    curr_dir t = curr_dir (k_tty s) \<and> curr_path t = curr_path (k_tty s)"
proof -
  obtain t1 where t1: "term_loop init_term 0 (k_tty s) = Some t1" "tty_inv t1"
    "\<forall>j < 4. fresh_term (curr_dir (k_tty s)) j (terminal_list t1 ! j)" "curr_dir t1 = curr_dir (k_tty s)"
    "curr_path t1 = curr_path (k_tty s)" using init_terms [OF assms(1-4)] by blast
  obtain t2 where t2: "term_loop show_term 0 t1 = Some t2" "tty_inv t2"
    "\<forall>j < 4. fresh_term (curr_dir (k_tty s)) j (terminal_list t2 ! j)" "curr_dir t2 = curr_dir (k_tty s)"
    "curr_path t2 = curr_path (k_tty s)" using show_terms [of t1 p] t1 assms(4,5) by auto
  let ?t2 = "t2\<lparr>curr_terminal := Some 0, tmp_terminal := Some 0\<rparr>"
  have t2': "tty_inv ?t2" "shown ?t2" "curr_terminal ?t2 = Some 0"
    using tty_inv_terminals(1) [OF tty_inv_terminals(2), of t2 0 0] t2(2) by (simp_all add: shown_def)
  obtain t3 where t3: "load_screen ?t2 = Some t3" "tty_inv t3" "same_terms ?t2 t3"
    "view t3 = (term_buf (terminal_list ?t2 ! 0) @ drop 5120 (video ?t2), term_cursor (terminal_list ?t2 ! 0))"
    using load_screen_shown [OF t2'] by auto
  have "shown t3" using t3(3) by (simp add: shown_def)
  then have v: "video t3 = term_buf (terminal_list t2 ! 0) @ drop 5120 (video t2)"
    "hw_cursor t3 = term_cursor (terminal_list t2 ! 0)" using t3(4) by (simp_all add: view_shown)
  have "length (term_buf (terminal_list t2 ! 0)) = 5120" using t2(2) by (auto simp: tty_inv_def elim: tty_okE)
  moreover have "terminal_init s = Some (s\<lparr>k_tty := t3, k_io := enable (disable (k_io s))\<rparr>)"
    using t1(1) t2(1) t3(1) by (simp add: terminal_init_def Let_def)
  ultimately show ?thesis
    using t2(3-5) t3(2,3) v by (intro exI [of _ t3] exI [of _ "enable (disable (k_io s))"]) (simp add: enable_def)
qed

lemma terminal_init_ready_witness:
  "\<exists>t b. terminal_init demo_kernel = Some (demo_kernel\<lparr>k_tty := t, k_io := b\<rparr>) \<and>
    curr_terminal t = Some 0 \<and> term_num (terminal_list t ! 3) = 3"
proof -
  have t: "k_tty demo_kernel = demo_tty" by (simp add: demo_kernel_def)
  have raw: "tty_raw demo_tty" "hw_cursor demo_tty < 4000"
    using demo_inv by (auto simp: tty_raw_def tty_inv_def elim!: tty_okE)
  have p: "length (curr_path demo_tty) = 50" "is_cstr (curr_path demo_tty) 0 [47]" "no_bs [47]"
    using demo_path by (simp_all add: demo_tty_def no_bs_def)
  show ?thesis
    using terminal_init_ready [of demo_kernel "[47]"] raw p unfolding t by (force simp: fresh_term_def)
qed

end
