(* ===== verification/Run_Program.thy ===== *)
theory Run_Program
  imports Shell
begin

text \<open>
  What \<^verbatim>\<open>exec_user_prg\<close> of \<^verbatim>\<open>include/user.h\<close> does from the line of the shell to the first instruction of
  the program: the search in the root directory, the transfer from the disk, the process, the switch.
\<close>

section \<open>The name of a program\<close>

lemma com_address_map:
  "is_cstr b p x \<Longrightarrow> \<forall>(n, a) \<in> set ns. 0 \<notin> set (chars n) \<Longrightarrow>
    com_address ns b p = Some (map_of (map (\<lambda>(n, a). (chars n, a)) ns) x)"
proof (induction ns)
  case (Cons na ns)
  obtain n a where na: "na = (n, a)" by (cases na)
  have "is_cstr (lit n) 0 (chars n)" using Cons.prems(2) na by (intro lit_cstr) simp
  from strcmp_cstr [OF Cons.prems(1) this] Cons na show ?case by auto
qed simp

lemma name_extension:
  assumes "is_cstr b p (base @ 46 # ext)" "46 \<notin> set base" "length base + length ext < 19"
  obtains buf buf' e where "strcpy (replicate 20 0) 0 b p = Some buf"
    "strsep buf (Some 0) (lit ''.'') = Some (Some 0, Some e, buf')" "is_cstr buf' e ext"
proof -
  let ?x = "base @ 46 # ext"
  let ?buf = "buf_put (replicate 20 0) 0 (?x @ [0])"
  have c: "strcpy (replicate 20 0) 0 b p = Some ?buf"
    using assms(3) by (intro strcpy_cstr [OF assms(1)]) simp
  have "0 \<notin> set ?x" by (rule is_cstr_nonzero [OF assms(1)])
  then have b: "is_cstr ?buf 0 ?x" using assms(3) by (intro buf_put_cstr) simp_all
  have "is_cstr (lit ''.'') 0 [46]" by (simp add: lit_def rd_def)
  from strsep_loop_found [OF this b, of 0] assms(2)
  have s: "strsep ?buf (Some 0) (lit ''.'') = Some (Some 0, Some (Suc (length base)), ?buf[length base := 0])"
    by (simp add: strsep_def)
  have "is_cstr ?buf (Suc (length base)) ext"
    using is_cstr_drop [OF b, of "Suc (length base)"] by simp
  then have "is_cstr (?buf[length base := 0]) (Suc (length base)) ext"
    by (subst is_cstr_update) simp_all
  with c s show ?thesis by (rule that)
qed

lemma lit_com_out: "is_cstr (lit ''com'') 0 (chars ''com'')" "is_cstr (lit ''out'') 0 (chars ''out'')"
  by (rule lit_cstr; simp)+

abbreviation entered_exec :: "'a vfs_scheme \<Rightarrow> 'a vfs_scheme" where
  "entered_exec s \<equiv> s\<lparr>bin_img := replicate 15360 0, k_tss := tss_set_stack KERNEL_DS (cpu_esp s + KERNEL_STACK_SIZE) (k_tss s)\<rparr>"

lemma clear_image:
  assumes "length (bin_img s) = 15360"
  shows "memset (bin_img s) 0 0 15360 = Some (replicate 15360 0)"
  using memset_put [of 0 15360 "bin_img s" 0] assms by (simp add: buf_put_def)

section \<open>Programs that are not there\<close>

lemma put_error_inv:
  assumes "tty_inv t" "clean x" "x \<noteq> []"
  shows "\<exists>t'. put_error (x @ [0]) 0 t = Some t' \<and> tty_inv t'"
proof -
  have c: "clean (chars ''Error: '')" "clean [10]" by (simp_all add: no_bs_def)
  have 1: "tty_inv (set_color 4 0 t)" using assms(1) by simp
  obtain t1 where t1: "print (lit ''Error: '') 0 (set_color 4 0 t) = Some t1" "tty_inv t1"
    using print_clean [OF 1 c(1)] unfolding lit_def by auto
  obtain t2 where t2: "print (x @ [0]) 0 t1 = Some t2" "tty_inv t2"
    using print_clean [OF t1(2) assms(2,3)] by blast
  obtain t3 where t3: "print [10, 0] 0 t2 = Some t3" "tty_inv t3"
    using print_clean [OF t2(2) c(2)] by auto
  show ?thesis using t1 t2 t3 by (simp add: put_error_def Let_def)
qed

lemma no_file_message:
  assumes "find_name nb q (root_dir s) 0 224 = Some None" "tty_inv (k_tty s)"
  obtains t where "\<And>sink. fat12_read_file nb q sink s = Some (False, None, s\<lparr>k_tty := t\<rparr>)" "tty_inv t"
proof -
  obtain t where t: "put_error (lit ''FAT No this file!'') 0 (k_tty s) = Some t" "tty_inv t"
    using put_error_inv [OF assms(2), of "chars ''FAT No this file!''"] by (auto simp: lit_def no_bs_def)
  show thesis by (rule that [OF _ t(2)]) (simp add: fat12_read_file_def on_tty_def assms(1) t(1))
qed

lemma load_missing:
  assumes "is_cstr b p (base @ 46 # ext)" "46 \<notin> set base" "length base + length ext < 19"
    and "length (bin_img s) = 15360" "tty_inv (k_tty s)"
    and "ext \<in> {chars ''com'', chars ''out''} \<longrightarrow> find_name b p (root_dir s) 0 224 = Some None"
  shows "\<exists>t. load_program b p s = Some (None, (entered_exec s)\<lparr>k_tty := t\<rparr>) \<and> tty_inv t"
proof -
  let ?s = "entered_exec s"
  obtain buf buf' e where n: "strcpy (replicate 20 0) 0 b p = Some buf"
    "strsep buf (Some 0) (lit ''.'') = Some (Some 0, Some e, buf')" "is_cstr buf' e ext"
    using name_extension [OF assms(1-3)] by metis
  note pre = n(1,2) clear_image [OF assms(4)]
  obtain a where a: "com_address com_programs b p = Some a"
    using com_address_map [OF assms(1), of com_programs] by (auto simp: com_programs_def)
  have msg: "\<exists>t'. put_error (lit ''No this user program!'') 0 t = Some t' \<and> tty_inv t'" if "tty_inv t" for t
    using put_error_inv [OF that, of "chars ''No this user program!''"] by (auto simp: lit_def no_bs_def)
  have out: "\<exists>t. do { s \<leftarrow> on_tty (put_error (lit ''No this user program!'') 0) (?s\<lparr>k_tty := u\<rparr>);
      Some (None :: u32 option, s) } = Some (None, ?s\<lparr>k_tty := t\<rparr>) \<and> tty_inv t" if "tty_inv u" for u
    using msg [OF that] by (auto simp: on_tty_def)
  consider "ext = chars ''com''" | "ext = chars ''out''" | "ext \<notin> {chars ''com'', chars ''out''}" by blast
  then show ?thesis
  proof cases
    case 1
    have c: "strcmp buf' e (lit ''com'') 0 = Some 0" using strcmp_eq_0 [OF n(3) lit_com_out(1)] 1 by simp
    obtain t where t: "\<And>sink. fat12_read_file b p sink ?s = Some (False, None, ?s\<lparr>k_tty := t\<rparr>)" "tty_inv t"
      using no_file_message [of b p ?s] assms(5,6) 1 by auto
    show ?thesis using out [OF t(2)] pre c a t(1) by (simp add: load_program_def Let_def)
  next
    case 2
    obtain r where c: "strcmp buf' e (lit ''com'') 0 = Some r" "r \<noteq> 0"
      using strcmp_cstr [OF n(3) lit_com_out(1)] 2 by auto
    have o: "strcmp buf' e (lit ''out'') 0 = Some 0" using strcmp_eq_0 [OF n(3) lit_com_out(2)] 2 by simp
    obtain t where t: "\<And>sink. fat12_read_file b p sink ?s = Some (False, None, ?s\<lparr>k_tty := t\<rparr>)" "tty_inv t"
      using no_file_message [of b p ?s] assms(5,6) 2 by auto
    show ?thesis using out [OF t(2)] pre c o t(1) by (simp add: load_program_def Let_def)
  next
    case 3
    obtain r where c: "strcmp buf' e (lit ''com'') 0 = Some r" "r \<noteq> 0"
      using strcmp_cstr [OF n(3) lit_com_out(1)] 3 by auto
    obtain r' where o: "strcmp buf' e (lit ''out'') 0 = Some r'" "r' \<noteq> 0"
      using strcmp_cstr [OF n(3) lit_com_out(2)] 3 by auto
    have "?s\<lparr>k_tty := k_tty s\<rparr> = ?s" by simp
    then show ?thesis using out [OF assms(5)] pre c o by (simp add: load_program_def Let_def)
  qed
qed

text \<open>C36: \<^verbatim>\<open>exec\<close> of a program that is not on the disk, or whose name has neither of the two extensions,
  prints its messages and returns to the shell with interrupts switched off (the early return skips
  \<^verbatim>\<open>enable\<close>); no process is created. The shell then waits for a key that cannot interrupt any more.\<close>

theorem exec_missing_program:
  assumes "is_cstr b p (base @ 46 # ext)" "32 \<notin> set (base @ 46 # ext)" "46 \<notin> set base" "length base + length ext < 19"
    and "length (bin_img s) = 15360" "tty_inv (k_tty s)"
    and "ext \<in> {chars ''com'', chars ''out''} \<longrightarrow> find_name b p (root_dir s) 0 224 = Some None"
  shows "\<exists>s'. exec_user_prg ra b (Some p) s = Some (Returns () s') \<and> \<not> if_flag (k_io s') \<and>
    proc_list s' = proc_list s \<and> curr_pid s' = curr_pid s \<and> tty_inv (k_tty s')"
proof -
  have "is_cstr (lit '' '') 0 [32]" by (simp add: lit_def rd_def)
  from strsep_loop_last [OF this assms(1)] assms(2)
  have sep: "strsep b (Some p) (lit '' '') = Some (Some p, None, b)" by (simp add: strsep_def)
  obtain t where t: "load_program b p (disable_k s) = Some (None, (entered_exec (disable_k s))\<lparr>k_tty := t\<rparr>)"
    "tty_inv t" using load_missing [OF assms(1,3,4), of "disable_k s"] assms(5-7) by auto
  show ?thesis using sep t by (simp add: exec_user_prg_def exec_loop.simps(2) disable_def)
qed


section \<open>Programs that are there\<close>

text \<open>Memory as the destination of a transfer, with all of the state that starting a process reads.\<close>

interpretation program_target: chain_target "ram_sink addr" "ram_content addr cap"
  "\<lambda>s. (proc_list s, curr_proc s, curr_pid s, cpu_eflags s, k_tty s, machine.more s)"
proof
  fix off n :: nat and s :: "'a fs_scheme"
  assume le: "off + n \<le> length (ram_content addr cap s)" "n \<le> 0xF000"
  obtain s' where s': "ram_sink addr off n s = Some s'"
    "ram_content addr cap s' = buf_put (ram_content addr cap s) off (ram_bytes (k_ram s) TMP_USER_ADDR n)"
    "\<forall>x. 0x1000 \<le> x \<and> x < 0x10000 \<longrightarrow> k_ram s' x = k_ram s x" "k_ide s' = k_ide s" "cpu_edi s' = cpu_edi s"
    using ram_target.sink_copies [OF le] by blast
  have "s' = s\<lparr>k_ram := ram_memcpy (k_ram s) (addr + off) TMP_USER_ADDR n\<rparr>" using s'(1) by (simp add: ram_sink_def)
  then have "(proc_list s', curr_proc s', curr_pid s', cpu_eflags s', k_tty s', machine.more s') =
      (proc_list s, curr_proc s, curr_pid s, cpu_eflags s, k_tty s, machine.more s)" by simp
  with s' show "\<exists>s'. ram_sink addr off n s = Some s' \<and>
      ram_content addr cap s' = buf_put (ram_content addr cap s) off (ram_bytes (k_ram s) TMP_USER_ADDR n) \<and>
      (\<forall>x. 0x1000 \<le> x \<and> x < 0x10000 \<longrightarrow> k_ram s' x = k_ram s x) \<and> k_ide s' = k_ide s \<and> cpu_edi s' = cpu_edi s \<and>
      (proc_list s', curr_proc s', curr_pid s', cpu_eflags s', k_tty s', machine.more s') =
        (proc_list s, curr_proc s, curr_pid s, cpu_eflags s, k_tty s, machine.more s)" by blast
next
  fix s s' :: "'a fs_scheme"
  assume "(proc_list s', curr_proc s', curr_pid s', cpu_eflags s', k_tty s', machine.more s') =
        (proc_list s, curr_proc s, curr_pid s, cpu_eflags s, k_tty s, machine.more s)"
  then show "fat s' = fat s" by (intro ram_chain.kept_fat) simp
next
  fix m and s :: "'a fs_scheme" and a d
  assume "\<And>x. x < 0x1000 \<or> 0x10000 \<le> x \<Longrightarrow> m x = k_ram s x"
  then show "ram_content addr cap (disk_read m a d s) = ram_content addr cap s" by (rule ram_target.content_read)
qed (use ram_target.content_flag in \<open>simp_all add: disk_read_def\<close>)


lemma com_program_name:
  assumes "(prg, a) \<in> set com_programs"
  obtains base where "chars prg = base @ 46 # chars ''com''" "46 \<notin> set base" "32 \<notin> set (chars prg)"
    "length base = 4" "0x20000 \<le> a" "a \<le> 0x50000"
proof (rule that [of "take 4 (chars prg)"])
qed (use assms in \<open>auto simp: com_programs_def\<close>)

lemma com_address_top:
  "(prg, a) \<in> set com_programs \<Longrightarrow> unat (of_nat a + PROC_SIZE - 4 :: u32) = a + 65532"
  by (auto simp: com_programs_def PROC_SIZE_def)

lemma load_com:
  fixes s :: "'a vfs_scheme"
  assumes "(prg, a) \<in> set com_programs" "is_cstr b p (chars prg)" "length (bin_img s) = 15360"
    and "length (root_dir s) = 7168" "find_first (\<lambda>j. name_at (root_dir s) (32 * j) = chars prg) 0 224 = Some e"
    and "startCluster (root_dir s) (32 * e) = Some c" "fileLength (root_dir s) (32 * e) = Some len"
    and "chain (fat s) (ucast c) ks" "disk_ok (length ks) s"
  obtains s' where "load_program b p s = Some (Some (of_nat a), s')"
    "ram_bytes (k_ram s') a (512 * length ks) = concat (map (\<lambda>k. sector_of s (of_nat k + 31)) ks)"
    "proc_list s' = proc_list s" "curr_proc s' = curr_proc s" "curr_pid s' = curr_pid s" "cpu_eflags s' = cpu_eflags s"
    "k_tty s' = k_tty s"
proof -
  let ?s = "entered_exec s"
  obtain base where base: "chars prg = base @ 46 # chars ''com''" "46 \<notin> set base" "length base = 4"
    "0x20000 \<le> a" using com_program_name [OF assms(1)] by metis
  obtain buf buf' x where n: "strcpy (replicate 20 0) 0 b p = Some buf"
    "strsep buf (Some 0) (lit ''.'') = Some (Some 0, Some x, buf')" "is_cstr buf' x (chars ''com'')"
  proof (rule name_extension [of b p base "chars ''com''"])
    show "is_cstr b p (base @ 46 # chars ''com'')" using assms(2) base(1) by simp
  qed (use base in simp_all)
  have com: "strcmp buf' x (lit ''com'') 0 = Some 0" using strcmp_eq_0 [OF n(3) lit_com_out(1)] by simp
  have adr: "com_address com_programs b p = Some (Some a)"
    using com_address_map [OF assms(2), of com_programs] assms(1) by (auto simp: com_programs_def)
  have find: "find_name b p (root_dir s) 0 224 = Some (Some e)"
    using find_name_first [OF assms(2), of 224 "root_dir s" 0] assms(4,5) by simp
  let ?cap = "512 * length ks"
  have ch: "chain (fat ?s) (ucast c) ks" "disk_ok (length ks + 0) ?s" using assms(8,9) by (simp_all add: disk_ok_def)
  have "length (ram_content a ?cap ?s) = ?cap" using base(4) by (simp add: ram_content_def ram_bytes_def)
  then obtain s' where s': "read_chain (\<lambda>i. False) (ram_sink a) 0 (ucast c) ?s = Some (0 + length ks - 1, s')"
    "ram_content a ?cap s' = buf_put (ram_content a ?cap ?s) (0 * 512) (concat (map (\<lambda>k. sector_of ?s (of_nat k + 31)) ks))"
    "(proc_list s', curr_proc s', curr_pid s', cpu_eflags s', k_tty s', machine.more s') =
      (proc_list ?s, curr_proc ?s, curr_pid ?s, cpu_eflags ?s, k_tty ?s, machine.more ?s)"
    using program_target.read_chain_content [OF ch, of 0 a ?cap] by auto
  have "length (sector_of s k) = 512" for k using assms(9) by (simp add: disk_ok_def sector_of_def)
  then have "length (concat (map (\<lambda>k. sector_of s (of_nat k + 31)) ks)) = ?cap"
    by (simp add: length_concat o_def sum_list_triv)
  moreover have "sector_of ?s = sector_of s" by (simp add: sector_of_def fun_eq_iff)
  ultimately have ram: "ram_bytes (k_ram s') a ?cap = concat (map (\<lambda>k. sector_of s (of_nat k + 31)) ks)"
    using s'(2) base(4) by (simp add: ram_content_def buf_put_def ram_bytes_def)
  have more: "machine.more s' = machine.more ?s" using s'(3) by simp
  have rd: "root_dir s' = root_dir s"
    using arg_cong [OF more, of "\<lambda>m. m"] by (cases s'; cases s) simp
  have "fat12_read_file b p (ram_sink a) ?s = Some (True, Some len, s')"
    using find s'(1) assms(6,7) rd by (simp add: fat12_read_file_def fat12_read_clusters_def)
  then have "load_program b p s = Some (Some (of_nat a), s')"
    using n(1,2) clear_image [OF assms(3)] com adr by (simp add: load_program_def Let_def)
  then show ?thesis by (rule that) (use ram s'(3) in simp_all)
qed


lemma created_info:
  assumes "k \<le> 20"
  obtains b x where "sprintf (replicate 30 0) 0 (lit ''Created user process %d!'') 0 [Arg_int (word_of_int (int k))] = Some b"
    "is_cstr b 0 x" "clean x" "x \<noteq> []"
proof -
  let ?n = "num_str 10 k" and ?head = "chars ''Created user process ''"
  have f: "is_cstr (lit ''Created user process %d!'') 0 (?head @ [37, 100, 33])"
    using lit_cstr [of "''Created user process %d!''"] by (simp del: is_cstr.simps)
  have u: "unat (word_of_int (int k) :: u32) = k" using assms by (simp add: unsigned_of_nat take_bit_nat_eq_self)
  have r: "render (?head @ [37, 100, 33]) [Arg_int (word_of_int (int k))] = Some (?head @ ?n @ [33])"
    using u by (simp add: render.simps(2) int_prefix_def conversion_def)
  have len: "length ?n \<le> 2" using assms by (intro length_num_str) auto
  obtain b where b: "sprintf (replicate 30 0) 0 (lit ''Created user process %d!'') 0 [Arg_int (word_of_int (int k))] = Some b"
    "is_cstr b 0 (?head @ ?n @ [33])"
    using sprintf_render [OF f r, of 0 "replicate 30 0"] len by (auto split: option.splits)
  moreover have "clean (?head @ ?n @ [33])"
    using num_str_digits [of 8 k] num_str_no_nul [of 10 k] by (auto simp: no_bs_def)
  ultimately show thesis by (rule that) simp
qed

lemma start_created:
  fixes s :: "'a vfs_scheme"
  assumes "proc_ok s" "unat (curr_pid s) = n" "n < 20"
  obtains t u where "start_program ra addr s = Some ((created ra USER_CS USER_DS addr t s)\<lparr>k_tty := u\<rparr>)"
    "tty_inv u" "0 \<le> t" "t < 4"
proof -
  obtain t where t: "t < 4" "proc_create ra USER_CS USER_DS addr s = Some (n, created ra USER_CS USER_DS addr (int t) s)"
    using proc_create_eq [OF assms(1)] assms(2,3) by blast
  let ?s = "created ra USER_CS USER_DS addr (int t) s"
  have "pid (proc_list ?s ! n) = int (Suc n)"
    using assms by (simp add: created_def created_process_def Let_def proc_ok_def)
  moreover obtain b x where b: "sprintf (replicate 30 0) 0 (lit ''Created user process %d!'') 0 [Arg_int (word_of_int (int (Suc n)))] = Some b"
    "is_cstr b 0 x" "clean x" "x \<noteq> []" using created_info [of "Suc n"] assms(3) by auto
  moreover have "tty_inv (k_tty ?s)" using assms(1) by (simp add: created_def Let_def proc_ok_def proc_ok0_def)
  then obtain u where "put_info b 0 (k_tty ?s) = Some u" "tty_inv u"
    using put_info_cstr b(2-4) by blast
  ultimately show thesis
    using that [where t = "int t" and u = u] t by (simp add: start_program_def on_tty_def)
qed


lemma exec_runs:
  fixes s :: "'a vfs_scheme"
  assumes "(prg, a) \<in> set com_programs" "is_cstr b p (chars prg)" "length (bin_img s) = 15360"
    and "proc_ok s" "unat (curr_pid s) = n" "n < 20" "\<forall>i < 20. status (proc_list s ! i) \<noteq> PROC_READY"
    and "length (root_dir s) = 7168" "find_first (\<lambda>j. name_at (root_dir s) (32 * j) = chars prg) 0 224 = Some e"
    and "startCluster (root_dir s) (32 * e) = Some c" "fileLength (root_dir s) (32 * e) = Some len"
    and "chain (fat s) (ucast c) ks" "length ks \<le> 127" "disk_ok (length ks) s"
  shows "\<exists>r s'. exec_user_prg ra b (Some p) s = Some (Switches r s') \<and> proc_ok s' \<and> running s' n \<and>
    r_eip r = of_nat a \<and> r_cs r = USER_CS \<and> r_ds r = USER_DS \<and> bit (r_eflags r) 9 \<and>
    ram_bytes (k_ram s') a (512 * length ks) = concat (map (\<lambda>k. sector_of s (of_nat k + 31)) ks) \<and>
    ram_load32 (k_ram s') (unat (r_user_esp r)) = ra"
proof -
  let ?s = "disable_k s"
  obtain base where base: "chars prg = base @ 46 # chars ''com''" "32 \<notin> set (chars prg)"
    "0x20000 \<le> a" "a \<le> 0x50000" using com_program_name [OF assms(1)] by metis
  have "is_cstr (lit '' '') 0 [32]" by (simp add: lit_def rd_def)
  from strsep_loop_last [OF this assms(2)] base(2)
  have sep: "strsep b (Some p) (lit '' '') = Some (Some p, None, b)" by (simp add: strsep_def)
  have "disk_ok (length ks) ?s" "chain (fat ?s) (ucast c) ks" using assms(12,14) by (simp_all add: disk_ok_def disable_def)
  then obtain s1 where s1: "load_program b p ?s = Some (Some (of_nat a), s1)"
    "ram_bytes (k_ram s1) a (512 * length ks) = concat (map (\<lambda>k. sector_of ?s (of_nat k + 31)) ks)"
    "proc_list s1 = proc_list s" "curr_proc s1 = curr_proc s" "curr_pid s1 = curr_pid s" "k_tty s1 = k_tty s"
    using load_com [of prg a b p ?s e c len ks] assms(1-3,8-11) by auto
  have ok1: "proc_ok s1" using assms(4) s1(3-6) by (simp add: proc_ok_def proc_ok0_def)
  obtain t u where c: "start_program ra (of_nat a) s1 = Some ((created ra USER_CS USER_DS (of_nat a) t s1)\<lparr>k_tty := u\<rparr>)"
    "tty_inv u" "0 \<le> t" "t < 4" using start_created [OF ok1] s1(5) assms(5,6) by metis
  let ?c = "created ra USER_CS USER_DS (of_nat a) t s1" and ?s2 = "(created ra USER_CS USER_DS (of_nat a) t s1)\<lparr>k_tty := u\<rparr>"
  have ok2: "proc_ok ?s2" using created_ok [OF ok1] s1(5) assms(5,6) c by (intro ok_set_tty) auto
  have len: "length (proc_list s) = 20" using assms(4) by (simp add: proc_ok_def)
  have new: "proc_list ?s2 ! n = created_process n USER_CS USER_DS (of_nat a) (cpu_eflags s1) t (proc_list s ! n)"
    and old: "\<And>j. j \<noteq> n \<Longrightarrow> proc_list ?s2 ! j = proc_list s ! j"
    using s1(3,5) assms(5,6) len by (simp_all add: created_def Let_def)
  then have "status (proc_list ?s2 ! n) = PROC_READY" by (simp add: created_process_def)
  then obtain k where k: "schedule_proc ?s2 = Some (Switches (regImg (proc_list ?s2 ! k)) (switched k ?s2))"
    "k < 20" "status (proc_list ?s2 ! k) = PROC_READY" "proc_ok (switched k ?s2)"
    using schedule_ready [OF proc_ok_ok0 [OF ok2] assms(6)] by blast
  have kn: "k = n" using k(2,3) old assms(7) by metis
  have run: "exec_user_prg ra b (Some p) s = Some (Switches (regImg (proc_list ?s2 ! n)) (switched n ?s2))"
    using sep s1(1) c(1) k(1) unfolding kn by (simp add: exec_user_prg_def exec_loop.simps(2))
  let ?r = "regImg (proc_list ?s2 ! n)"
  have sp: "unat (of_nat a + PROC_SIZE - 4 :: u32) = a + 65532"
    using com_address_top [OF assms(1)] .
  have ram: "k_ram (switched n ?s2) = ram_store32 (k_ram s1) (a + 65532) ra"
    using sp by (simp add: switched_def created_def Let_def)
  have "ram_bytes (k_ram (switched n ?s2)) a (512 * length ks) = ram_bytes (k_ram s1) a (512 * length ks)"
    unfolding ram ram_bytes_def using assms(13) by (auto simp: ram_store32_outside)
  moreover have "running (switched n ?s2) n"
    using len assms(6) s1(3) by (simp add: running_def switched_def created_def Let_def)
  moreover have "r_eip ?r = of_nat a" "r_cs ?r = USER_CS" "r_ds ?r = USER_DS" "bit (r_eflags ?r) 9"
      "r_user_esp ?r = of_nat a + PROC_SIZE - 4"
    unfolding new by (simp_all add: created_process_def bit_simps)
  moreover have "ram_load32 (k_ram (switched n ?s2)) (a + 65532) = ra"
    unfolding ram by (rule ram_load_store)
  moreover have "sector_of ?s = sector_of s" by (simp add: sector_of_def fun_eq_iff)
  ultimately show ?thesis
    using run k(4) s1(2) sp unfolding kn by (intro exI [of _ ?r] exI [of _ "switched n ?s2"]) presburger
qed

text \<open>\<^verbatim>\<open>exec\<close> of a program of the disk, when no other process is ready: the sectors of the file
  are in memory at the address that belongs to the name, a process of its own starts there, with the
  user's segments, interrupts on and the return address on its stack, and the processor goes on with
  its registers.\<close>

theorem exec_runs_program:
  fixes s :: "'a vfs_scheme"
  assumes "(prg, a) \<in> set com_programs" "is_cstr b p (chars prg)" "length (bin_img s) = 15360"
    and "proc_ok s" "unat (curr_pid s) = n" "n < 20" "\<forall>i < 20. status (proc_list s ! i) \<noteq> PROC_READY"
    and "length (root_dir s) = 7168" "find_first (\<lambda>j. name_at (root_dir s) (32 * j) = chars prg) 0 224 = Some e"
    and "startCluster (root_dir s) (32 * e) = Some c" "fileLength (root_dir s) (32 * e) = Some len"
    and "chain (fat s) (ucast c) ks" "length ks \<le> 127" "disk_ok (length ks) s"
  shows "\<exists>r s'. exec_user_prg ra b (Some p) s = Some (Switches r s') \<and> proc_ok s' \<and> running s' n \<and>
    r_eip r = of_nat a \<and> r_cs r = USER_CS \<and> r_ds r = USER_DS \<and> bit (r_eflags r) 9 \<and>
    ram_bytes (k_ram s') a (512 * length ks) = concat (map (\<lambda>k. sector_of s (of_nat k + 31)) ks) \<and>
    ram_load32 (k_ram s') (unat (r_user_esp r)) = ra"
  by (rule exec_runs [OF assms])

text \<open>A disk with the program \<^verbatim>\<open>prg1.com\<close>, of 600 bytes in the clusters 2 and 4.\<close>

definition prg_root :: buf where
  "prg_root = demo_entry [80, 82, 71, 49] [67, 79, 77] 0x20 2 88 2 @ replicate 7136 0"

lemma prg_root_head:
  "prg_root = [80, 82, 71, 49, 32, 32, 32, 32, 67, 79, 77, 32, 0, 0, 0, 0, 0, 0, 0, 0, 0, 0, 0, 0, 0, 0, 2, 0, 88, 2, 0, 0]
     @ replicate 7136 0"
  by (simp add: prg_root_def demo_entry_def numeral_eq_Suc)

lemma prg_root_entry:
  "length prg_root = 7168" "name_at prg_root 0 = chars ''prg1.com''" "startCluster prg_root 0 = Some 2"
  "fileLength prg_root 0 = Some 600"
proof -
  have f: "field prg_root 0 8 = [80, 82, 71, 49]" "field prg_root 8 3 = [67, 79, 77]"
    by (simp_all add: field_def prg_root_head)
  then have "entry_ok prg_root 0" by (simp add: entry_ok_def)
  moreover have "prg_root ! (0 + 0) \<noteq> 0" by (simp add: prg_root_head)
  then have "\<not> (\<forall>j < 11. prg_root ! (0 + j) = 0)" by (metis zero_less_numeral)
  then have "entry_name prg_root 0 = chars ''prg1.com''"
    using f unfolding entry_name_def by (simp add: dotted_def lower_def)
  moreover show "length prg_root = 7168" by (simp add: prg_root_head)
  ultimately show "name_at prg_root 0 = chars ''prg1.com''" using name_at_entry [of 0 prg_root] by simp
  show "startCluster prg_root 0 = Some 2" "fileLength prg_root 0 = Some 600"
    by (simp_all add: startCluster_def fileLength_def get32_def get16_def prg_root_head rd_def)
qed

definition exec_demo :: vfs where
  "exec_demo = demo_vfs\<lparr>root_dir := prg_root, proc_list := demo_procs PROC_RUNNING PROC_WAITING,
     curr_proc := Some 0, curr_pid := 2\<rparr>"

lemma exec_demo_fields [simp]:
  "root_dir exec_demo = prg_root" "proc_list exec_demo = demo_procs PROC_RUNNING PROC_WAITING"
  "curr_proc exec_demo = Some 0" "curr_pid exec_demo = 2" "fat exec_demo = demo_fat"
  by (simp_all add: exec_demo_def)

lemma exec_demo_ok: "proc_ok exec_demo" "length (bin_img exec_demo) = 15360" "tty_inv (k_tty exec_demo)"
  "\<forall>i < 20. status (proc_list exec_demo ! i) \<noteq> PROC_READY"
proof -
  have "table_ok (demo_procs PROC_RUNNING PROC_WAITING) (Some 0) 2" by (rule demo_table) simp_all
  moreover have t: "k_tty exec_demo = demo_tty" by (simp add: exec_demo_def demo_sem_def demo_kernel_def kstate.defs)
  ultimately show "proc_ok exec_demo" "tty_inv (k_tty exec_demo)" using demo_inv
    by (simp_all add: proc_ok_def proc_ok0_def demo_procs_def demo_process_def)
  show "length (bin_img exec_demo) = 15360"
    by (simp add: exec_demo_def demo_vfs_def demo_loader_def loader.defs fs.defs demo_img_def)
  show "\<forall>i < 20. status (proc_list exec_demo ! i) \<noteq> PROC_READY"
    by (auto simp: demo_procs_def demo_process_def free_process_def nth_Cons split: nat.split)
qed

lemma exec_missing_program_witness:
  "\<exists>s'. exec_user_prg 0 [120, 46, 121, 0] (Some 0) exec_demo = Some (Returns () s') \<and> \<not> if_flag (k_io s')"
proof -
  have "is_cstr [120, 46, 121, 0] 0 ([120] @ 46 # [121])" by (simp add: rd_def)
  from exec_missing_program [OF this _ _ _ exec_demo_ok(2,3), of 0] show ?thesis by auto
qed

lemma exec_runs_program_witness:
  "\<exists>r s'. exec_user_prg 0x7C00 (lit ''prg1.com'') (Some 0) exec_demo = Some (Switches r s') \<and> running s' 2 \<and>
    r_eip r = 0x20000 \<and> ram_bytes (k_ram s') 0x20000 1024 = replicate 512 33 @ replicate 512 35"
proof -
  have "is_cstr (lit ''prg1.com'') 0 (chars ''prg1.com'')" by (rule lit_cstr) simp
  moreover have "find_first (\<lambda>j. name_at prg_root (32 * j) = chars ''prg1.com'') 0 224 = Some 0"
    using prg_root_entry(2) by (simp add: find_first_Some)
  moreover have "disk_ok (length [2, 4 :: nat]) exec_demo"
    using disk_ok_less [OF demo_vfs_disk, of 2] by (simp add: exec_demo_def disk_ok_def)
  moreover have "sector_of exec_demo 33 = replicate 512 33" "sector_of exec_demo 35 = replicate 512 35"
    by (simp_all add: exec_demo_def sector_of_def demo_ide_def)
  moreover have "chain (fat exec_demo) (ucast (2 :: u16)) [2, 4]" using demo_fat_free by simp
  ultimately show ?thesis
    using exec_runs_program [where prg = "''prg1.com''" and a = "0x20000" and b = "lit ''prg1.com''" and p = 0 and n = 2
      and s = exec_demo and e = 0 and c = 2 and len = 600 and ks = "[2, 4]" and ra = "0x7C00"] exec_demo_ok prg_root_entry
    by (fastforce simp: com_programs_def simp del: is_cstr.simps)
qed

end
