(* ===== verification/Boot.thy ===== *)
theory Boot
  imports Shell Kernel_Steps Interrupts
begin

text \<open>
  The start of the kernel: \<^verbatim>\<open>hal_initialize\<close> of \<^verbatim>\<open>include/hal.h\<close>, \<^verbatim>\<open>initialize\<close> and \<^verbatim>\<open>main\<close> of
  \<^verbatim>\<open>kernel.c\<close>, with the messages in their places, and the state in which the shell begins.
\<close>

section \<open>Messages before the terminals are ready\<close>

text \<open>
  Until \<^verbatim>\<open>terminal_init\<close> all four terminals have the number 0 that their memory is cleared to. What is
  printed on the first one, which is shown, does not look at the others: it is the same with any list of
  terminals in their place.
\<close>

definition first_shown :: "tty \<Rightarrow> bool" where
  "first_shown t \<longleftrightarrow> curr_terminal t = Some 0 \<and> tmp_terminal t = Some 0 \<and> terminal_list t \<noteq> []"

abbreviation with_terms :: "terminal list \<Rightarrow> tty \<Rightarrow> tty" where
  "with_terms L t \<equiv> t\<lparr>terminal_list := L\<rparr>"

lemma first_shown_terms: "first_shown t \<Longrightarrow> L \<noteq> [] \<Longrightarrow> first_shown (with_terms L t)"
  by (simp add: first_shown_def)

lemma first_on_screen: "first_shown t \<Longrightarrow> on_screen t = Some True"
  by (simp add: first_shown_def on_screen_def term_of_def)

lemma crtc_terms: "crtc_out p d (with_terms L t) = with_terms L (crtc_out p d t)" "crtc_in (with_terms L t) = crtc_in t"
  by (simp_all add: crtc_out_def crtc_in_def)

lemma cursor_terms:
  assumes "first_shown t" "L \<noteq> []"
  shows "set_cursor off (with_terms L t) = map_option (with_terms L) (set_cursor off t)"
    "get_cursor (with_terms L t) = map_option (\<lambda>(x, u). (x, with_terms L u)) (get_cursor t)"
  using first_on_screen [OF assms(1)] first_on_screen [OF first_shown_terms [OF assms]]
  by (simp_all add: set_cursor_def get_cursor_def crtc_terms Let_def)

lemma first_addr: "first_shown t \<Longrightarrow> get_terminal_buf_addr t = Some Video_address"
  by (simp add: get_terminal_buf_addr_def first_on_screen) (simp add: first_shown_def)

lemma poke_terms:
  "poke Video_address off c a (with_terms L t) = map_option (with_terms L) (poke Video_address off c a t)"
  by (simp add: poke_def area_def set_area_def split: bind_splits)

lemma crtc_first: "first_shown (crtc_out p d t) = first_shown t"
  by (simp add: crtc_out_def first_shown_def)

lemma first_kept:
  assumes "first_shown t"
  shows "set_cursor off t = Some t' \<Longrightarrow> first_shown t'" "get_cursor t = Some (x', t') \<Longrightarrow> first_shown t'"
    "poke Video_address off c a t = Some t' \<Longrightarrow> first_shown t'"
    "handle_scrolling off t = Some (x', t') \<Longrightarrow> first_shown t'"
proof -
  show "set_cursor off t = Some t' \<Longrightarrow> first_shown t'" "get_cursor t = Some (x', t') \<Longrightarrow> first_shown t'"
    using assms first_on_screen [OF assms] by (auto simp: set_cursor_def get_cursor_def Let_def crtc_first)
  show "poke Video_address off c a t = Some t' \<Longrightarrow> first_shown t'"
    using assms by (auto simp: poke_def area_def set_area_def first_shown_def split: bind_splits)
  show "handle_scrolling off t = Some (x', t') \<Longrightarrow> first_shown t'"
    using assms first_addr [OF assms]
    by (auto simp: handle_scrolling_def area_def set_area_def first_shown_def split: bind_splits if_splits)
qed

lemma scrolling_terms:
  assumes "first_shown t" "L \<noteq> []"
  shows "handle_scrolling off (with_terms L t) = map_option (\<lambda>(x, u). (x, with_terms L u)) (handle_scrolling off t)"
  using first_addr [OF assms(1)] first_addr [OF first_shown_terms [OF assms]]
  by (simp add: handle_scrolling_def area_def set_area_def split: bind_splits)


lemma bind_mapped:
  assumes "m' = map_option (\<lambda>(x, u). (x, h u)) m" "\<And>x u. m = Some (x, u) \<Longrightarrow> g x (h u) = map_option k (g x u)"
  shows "do { (x, u) \<leftarrow> m'; g x u } = map_option k (do { (x, u) \<leftarrow> m; g x u })"
  using assms(2) unfolding assms(1) by (cases m) auto

lemma putchar_terms:
  assumes "first_shown t" "L \<noteq> []"
  shows "putchar c col row a (with_terms L t) = map_option (with_terms L) (putchar c col row a t)"
    and "putchar c col row a t = Some t' \<Longrightarrow> first_shown t'"
proof -
  note g = first_addr [OF assms(1)] first_addr [OF first_shown_terms [OF assms]]
  define start where "start u = (if 0 \<le> col \<and> 0 \<le> row then Some (get_screen_offset col row, u) else get_cursor u)" for u
  define draw where "draw at off u = (if c = 10 then Some (get_screen_offset 79 (off sdiv (2 * 80)), u)
     else if c = 8 then do { u2 \<leftarrow> poke Video_address (off - 2) 32 at u; Some (off - 2 - 2, u2) }
     else do { u2 \<leftarrow> poke Video_address off c at u; Some (off, u2) })" for at off u
  define fin where "fin off u = do { (off, u3) \<leftarrow> handle_scrolling (off + 2) u; set_cursor off u3 }" for off u
  let ?at = "if a = 0 then ucast (ATTRIBUTE_VAL t) else a"
  have form: "putchar c col row a u = do { (off, t1) \<leftarrow> start u; (off, t2) \<leftarrow> draw (if a = 0 then ucast (ATTRIBUTE_VAL u) else a) off t1; fin off t2 }"
    if "get_terminal_buf_addr u = Some Video_address" for u
    unfolding putchar_def start_def draw_def fin_def Let_def that Option.bind.simps ..
  have st: "start (with_terms L t) = map_option (\<lambda>(x, u). (x, with_terms L u)) (start t)"
    "start t = Some (off, t1) \<Longrightarrow> first_shown t1" for off t1
    using assms cursor_terms(2) [OF assms] first_kept(2) [OF assms(1)] by (auto simp: start_def split: if_splits)
  have dr: "draw at off (with_terms L u) = map_option (\<lambda>(x, u). (x, with_terms L u)) (draw at off u)"
    "first_shown u \<Longrightarrow> draw at off u = Some (off', u') \<Longrightarrow> first_shown u'" for at off u off' u'
    by (auto simp: draw_def poke_terms first_kept(3) split: bind_splits if_splits)
  have fi: "fin off (with_terms L u) = map_option (with_terms L) (fin off u)" if "first_shown u" for off u
    unfolding fin_def
  proof (rule bind_mapped [OF scrolling_terms [OF that assms(2)]])
    fix x v assume "handle_scrolling (off + 2) u = Some (x, v)"
    then show "set_cursor x (with_terms L v) = map_option (with_terms L) (set_cursor x v)"
      by (rule cursor_terms(1) [OF first_kept(4) [OF that] assms(2)])
  qed
  have fi2: "first_shown u'" if "first_shown u" "fin off u = Some u'" for off u u'
  proof (cases "handle_scrolling (off + 2) u")
    case (Some y)
    obtain x v where y: "y = (x, v)" by (cases y)
    have "set_cursor x v = Some u'" using that(2) Some y by (simp add: fin_def)
    then show ?thesis by (rule first_kept(1) [OF first_kept(4) [OF that(1) Some [unfolded y]]])
  qed (use that in \<open>simp add: fin_def\<close>)
  define rest where "rest at off u = do { (off, t2) \<leftarrow> draw at off u; fin off t2 }" for at off u
  have re: "rest at off (with_terms L u) = map_option (with_terms L) (rest at off u)" if "first_shown u" for at off u
    unfolding rest_def
  proof (rule bind_mapped [OF dr(1)])
    fix x v assume "draw at off u = Some (x, v)"
    then show "fin x (with_terms L v) = map_option (with_terms L) (fin x v)" by (rule fi [OF dr(2) [OF that]])
  qed
  have re2: "first_shown u'" if "first_shown u" "rest at off u = Some u'" for at off u u'
  proof (cases "draw at off u")
    case (Some y)
    obtain x v where y: "y = (x, v)" by (cases y)
    have "fin x v = Some u'" using that(2) Some y by (simp add: rest_def)
    then show ?thesis by (rule fi2 [OF dr(2) [OF that(1) Some [unfolded y]]])
  qed (use that in \<open>simp add: rest_def\<close>)
  note form' = form [folded rest_def]
  have at: "ATTRIBUTE_VAL (with_terms L t) = ATTRIBUTE_VAL t" by simp
  show "putchar c col row a (with_terms L t) = map_option (with_terms L) (putchar c col row a t)"
    unfolding form' [OF g(1)] form' [OF g(2)] at
    by (rule bind_mapped [OF st(1)]) (rule re [OF st(2)])
  show "first_shown t'" if p: "putchar c col row a t = Some t'"
  proof (cases "start t")
    case (Some y)
    obtain x v where y: "y = (x, v)" by (cases y)
    have "rest ?at x v = Some t'" using p Some y unfolding form' [OF g(1)] by simp
    then show ?thesis by (rule re2 [OF st(2) [OF Some [unfolded y]]])
  qed (use p in \<open>simp add: form' [OF g(1)]\<close>)
qed


lemma put_chars_terms:
  "first_shown t \<Longrightarrow> L \<noteq> [] \<Longrightarrow> put_chars x (with_terms L t) = map_option (with_terms L) (put_chars x t)"
proof (induction x arbitrary: t)
  case (Cons c x)
  show ?case
  proof (cases "print_char c t")
    case None
    then show ?thesis using putchar_terms(1) [OF Cons.prems] by (simp add: print_char_def)
  next
    case (Some u)
    then have "first_shown u" using putchar_terms(2) [OF Cons.prems] by (simp add: print_char_def)
    then show ?thesis using putchar_terms(1) [OF Cons.prems] Cons.IH Cons.prems(2) Some by (simp add: print_char_def)
  qed
qed simp

lemma clear_row_terms:
  "first_shown t \<Longrightarrow> L \<noteq> [] \<Longrightarrow> clear_row row col (with_terms L t) = map_option (with_terms L) (clear_row row col t) \<and>
    (\<forall>t'. clear_row row col t = Some t' \<longrightarrow> first_shown t')"
proof (induction row col t rule: clear_row.induct)
  case (1 row col t)
  show ?case
  proof (cases "col < 80")
    case True
    let ?m = "putchar 32 (int col) (int row) (attr_of t)"
    show ?thesis
    proof (cases "?m t")
      case None
      then show ?thesis using putchar_terms(1) [OF 1(2,3)] True by (subst (1 2 3) clear_row.simps) simp
    next
      case (Some u)
      then have "first_shown u" by (rule putchar_terms(2) [OF 1(2,3)])
      then show ?thesis using putchar_terms(1) [OF 1(2,3)] 1(1) [OF True Some] 1(3) Some True
        by (subst (1 2 3) clear_row.simps) simp
    qed
  qed (use 1 in \<open>subst (1 2 3) clear_row.simps, simp\<close>)
qed

lemma clear_rows_terms:
  "first_shown t \<Longrightarrow> L \<noteq> [] \<Longrightarrow> clear_rows row (with_terms L t) = map_option (with_terms L) (clear_rows row t) \<and>
    (\<forall>t'. clear_rows row t = Some t' \<longrightarrow> first_shown t')"
proof (induction row t rule: clear_rows.induct)
  case (1 row t)
  show ?case
  proof (cases "row < 25")
    case True
    note r = clear_row_terms [OF 1(2,3), of row 0]
    show ?thesis
    proof (cases "clear_row row 0 t")
      case None
      then show ?thesis using r True by (subst (1 2 3) clear_rows.simps) simp
    next
      case (Some u)
      then show ?thesis using r 1(1) [OF True Some] 1(3) True by (subst (1 2 3) clear_rows.simps) simp
    qed
  qed (use 1 in \<open>subst (1 2 3) clear_rows.simps, simp\<close>)
qed

lemma clear_screen_terms:
  assumes "first_shown t" "L \<noteq> []"
  shows "clear_screen (with_terms L t) = map_option (with_terms L) (clear_screen t)"
proof (cases "clear_rows 0 t")
  case (Some u)
  then have "first_shown u" using clear_rows_terms [OF assms] by blast
  then show ?thesis using clear_rows_terms [OF assms, of 0] cursor_terms(1) [of u L] assms(2) Some
    by (simp add: clear_screen_def)
qed (use clear_rows_terms [OF assms, of 0] in \<open>simp add: clear_screen_def\<close>)

text \<open>The terminals of the boot phase, with the current path and directory; with a good list of
  terminals in their place the invariant of the screen holds.\<close>

definition booting :: "int \<Rightarrow> buf \<Rightarrow> tty \<Rightarrow> bool" where
  "booting d p t \<longleftrightarrow> first_shown t \<and> tty_raw t \<and> hw_cursor t < 4000 \<and> length (curr_path t) = 50 \<and>
     is_cstr (curr_path t) 0 p \<and> curr_dir t = d"

definition good_terms :: "terminal list" where
  "good_terms = map (\<lambda>i. \<lparr>term_num = int i, term_cursor = 0, term_buf = replicate 5120 0, term_path = replicate 50 0,
     term_dir = 0\<rparr>) [0..<4]"

lemma booting_inv:
  assumes "booting d p t"
  shows "tty_inv (with_terms good_terms t)" "shown (with_terms good_terms t)"
proof -
  have "is_cstr (replicate 50 0) 0 []" by (simp add: rd_def)
  then have "\<exists>s. is_cstr (replicate 50 0) 0 s" by blast
  then show "tty_inv (with_terms good_terms t)"
    using assms by (auto simp: booting_def tty_inv_def tty_ok_def saved_ok_def good_terms_def tty_raw_def
        first_shown_def hw_cursor_def simp del: is_cstr.simps)
  show "shown (with_terms good_terms t)" using assms by (simp add: booting_def first_shown_def shown_def)
qed

text \<open>What keeps the invariant and the terminals, and does not look at them, keeps the boot phase.\<close>

lemma booting_run:
  assumes "booting d p t" "f (with_terms (terminal_list t) (with_terms good_terms t)) = map_option (with_terms (terminal_list t)) (f (with_terms good_terms t))"
    and "\<exists>t'. f (with_terms good_terms t) = Some t' \<and> tty_inv t' \<and> same_terms (with_terms good_terms t) t'"
  shows "\<exists>t'. f t = Some t' \<and> booting d p t'"
proof -
  obtain u where u: "f (with_terms good_terms t) = Some u" "tty_inv u" "same_terms (with_terms good_terms t) u"
    using assms(3) by blast
  have "f t = Some (with_terms (terminal_list t) u)" using assms(2) u(1) by simp
  moreover have "booting d p (with_terms (terminal_list t) u)"
    using assms(1) u(2,3)
    by (auto simp: booting_def first_shown_def tty_raw_def tty_inv_def hw_cursor_def simp del: is_cstr.simps elim!: tty_okE)
  ultimately show ?thesis by blast
qed


lemma booting_terms:
  assumes "booting d p t" shows "terminal_list t \<noteq> []" "first_shown (with_terms good_terms t)"
  using assms by (auto simp: booting_def first_shown_def good_terms_def)

lemma booting_put:
  assumes "booting d p t" "no_bs x"
  shows "\<exists>t'. put_chars x t = Some t' \<and> booting d p t'"
  by (rule booting_run [OF assms(1) put_chars_terms [OF booting_terms(2,1) [OF assms(1)]]
        put_chars_shown [OF booting_inv(1) [OF assms(1)] assms(2) booting_inv(2) [OF assms(1)]]])

lemma booting_clear:
  assumes "booting d p t" shows "\<exists>t'. clear_screen t = Some t' \<and> booting d p t'"
  by (rule booting_run [OF assms clear_screen_terms [OF booting_terms(2,1) [OF assms]]
        clear_screen_shown [OF booting_inv [OF assms]]])

lemma booting_color [simp]: "booting d p (set_color a b t) = booting d p t"
  by (simp add: booting_def set_color_def first_shown_def tty_raw_def hw_cursor_def)

lemma booting_print:
  assumes "booting d p t" "clean (chars s)"
  shows "\<exists>t'. print (lit s) 0 t = Some t' \<and> booting d p t'"
  using booting_put [OF assms(1), of "chars s"] print_put_chars [OF lit_cstr] assms(2) by simp

lemma booting_info:
  assumes "booting d p t" "clean (chars s)"
  shows "\<exists>t'. put_info (lit s) 0 t = Some t' \<and> booting d p t'"
proof -
  have c: "clean (chars ''[ '')" "clean (chars ''OK'')" "clean (chars '' ] '')" "clean (chars nl)"
    by (simp_all add: no_bs_def)
  obtain t1 where t1: "print (lit ''[ '') 0 (set_color 15 0 t) = Some t1" "booting d p t1"
    using booting_print [of d p "set_color 15 0 t", OF _ c(1)] assms(1) by auto
  obtain t2 where t2: "print (lit ''OK'') 0 (set_color 2 0 t1) = Some t2" "booting d p t2"
    using booting_print [of d p "set_color 2 0 t1", OF _ c(2)] t1(2) by auto
  obtain t3 where t3: "print (lit '' ] '') 0 (set_color 15 0 t2) = Some t3" "booting d p t3"
    using booting_print [of d p "set_color 15 0 t2", OF _ c(3)] t2(2) by auto
  obtain t4 where t4: "print (lit s) 0 t3 = Some t4" "booting d p t4"
    using booting_print [OF t3(2) assms(2)] by blast
  obtain t5 where "print [10, 0] 0 t4 = Some t5" "booting d p t5"
    using booting_print [OF t4(2) c(4)] by (auto simp: lit_def)
  then show ?thesis using t1(1) t2(1) t3(1) t4(1) by (simp add: put_info_def Let_def)
qed

section \<open>The initialisation\<close>

text \<open>
  The kernel with the descriptor tables, the last of the records. The segment tables hold the task state
  segment, which is the variable \<^verbatim>\<open>tss\<close> of the kernel.
\<close>

record boot = vfs +
  b_seg :: seg_state
  b_idt :: idt_state

definition on_segs :: "(seg_state \<Rightarrow> seg_state option) \<Rightarrow> 'a boot_scheme \<Rightarrow> 'a boot_scheme option" where
  "on_segs f s = do { g \<leftarrow> f ((b_seg s)\<lparr>tss_seg := k_tss s\<rparr>); Some (s\<lparr>b_seg := g, k_tss := tss_seg g\<rparr>) }"

definition on_idt :: "(IDT_entry list \<Rightarrow> IDT_entry list option) \<Rightarrow> 'a boot_scheme \<Rightarrow> 'a boot_scheme option" where
  "on_idt f s = do { t \<leftarrow> f (IDT (b_idt s)); Some (s\<lparr>b_idt := (b_idt s)\<lparr>IDT := t\<rparr>\<rparr>) }"

text \<open>
  \<^verbatim>\<open>load_idt\<close>, which \<^verbatim>\<open>idt_init\<close> ends with, switches interrupts on. The addresses of the two tables, of
  the task state segment and of the handlers are those that the linker gave them.
\<close>

definition hal_initialize ::
  "u32 \<Rightarrow> u32 \<Rightarrow> u32 \<Rightarrow> (handler \<Rightarrow> u32) \<Rightarrow> 'a boot_scheme \<Rightarrow> 'a boot_scheme option" where
  "hal_initialize gdt_addr tss_addr idt_addr addr s =
     do { s \<leftarrow> on_tty set_at_first_term s;
          s \<leftarrow> on_tty (printf_lit (nl @ nl @ nl) []) s;
          s \<leftarrow> on_segs (gdt_init gdt_addr tss_addr) s;
          s \<leftarrow> on_tty (put_info (lit ''Initialized GDT & TSS'') 0) s;
          t \<leftarrow> idt_init idt_addr addr (b_idt s);
          let s = enable_k (s\<lparr>b_idt := t\<rparr>);
          s \<leftarrow> on_idt (setvects setvect addr exception_vectors) s;
          s \<leftarrow> on_idt (setvects setvect_user addr user_vectors) s;
          s \<leftarrow> on_tty (put_info (lit ''Initialized IDT'') 0) s;
          let s = s\<lparr>k_io := pic_init (k_io s)\<rparr>;
          s \<leftarrow> on_tty (put_info (lit ''Initialized PIC'') 0) s;
          s \<leftarrow> on_idt (kb_init addr) s;
          s \<leftarrow> on_tty (put_info (lit ''Initialized keyboard'') 0) s;
          (p, t) \<leftarrow> pit_init addr (k_pit s, IDT (b_idt s));
          let s = s\<lparr>k_pit := p, b_idt := (b_idt s)\<lparr>IDT := t\<rparr>\<rparr>;
          (p, x) \<leftarrow> pit_start_counter 100 0 6 (k_pit s, k_io s);
          let s = s\<lparr>k_pit := p, k_io := x\<rparr>;
          on_tty (put_info (lit ''Initialized PIT'') 0) s }"

text \<open>The result of \<^verbatim>\<open>fat12_init\<close> is not used.\<close>

definition initialize ::
  "u32 \<Rightarrow> u32 \<Rightarrow> u32 \<Rightarrow> (handler \<Rightarrow> u32) \<Rightarrow> 'a boot_scheme \<Rightarrow> 'a boot_scheme option" where
  "initialize gdt_addr tss_addr idt_addr addr s =
     do { s \<leftarrow> hal_initialize gdt_addr tss_addr idt_addr addr s;
          let s = proc_init s;
          s \<leftarrow> on_tty (put_info (lit ''Initialized process'') 0) s;
          let s = sem_init s;
          s \<leftarrow> on_tty (put_info (lit ''Initialized semaphore'') 0) s;
          (r, s) \<leftarrow> fat12_init s;
          s \<leftarrow> on_tty (put_info (lit ''Initialized fat12'') 0) s;
          s \<leftarrow> file_init s;
          s \<leftarrow> on_tty (put_info (lit ''Initialized VFS'') 0) s;
          Some (enable_k s) }"

text \<open>\<^verbatim>\<open>main\<close> of \<^verbatim>\<open>kernel.c\<close>; \<open>ra\<close> is the return address that the shell gives to the programs it starts.\<close>

definition kernel_main ::
  "u32 \<Rightarrow> u32 \<Rightarrow> u32 \<Rightarrow> (handler \<Rightarrow> u32) \<Rightarrow> u32 \<Rightarrow> u8 list \<Rightarrow> 'a boot_scheme \<Rightarrow>
    (u8 list \<times> (unit, 'a boot_scheme) outcome) option" where
  "kernel_main gdt_addr tss_addr idt_addr addr ra keys s =
     do { s \<leftarrow> initialize gdt_addr tss_addr idt_addr addr s;
          s \<leftarrow> on_tty clear_screen s;
          s \<leftarrow> terminal_init s;
          terminal_loop ra True keys s }"


section \<open>What the initialisation leaves\<close>

lemma booting_tty: "booting d p (k_tty s) \<Longrightarrow> clean (chars x) \<Longrightarrow>
    \<exists>t. on_tty (put_info (lit x) 0) s = Some (s\<lparr>k_tty := t\<rparr>) \<and> booting d p t"
  using booting_info [of d p "k_tty s" x] by (auto simp: on_tty_def)

lemma first_term:
  assumes "tty_raw t" "hw_cursor t < 4000" "length (curr_path t) = 50" "is_cstr (curr_path t) 0 p"
  shows "\<exists>t'. set_at_first_term t = Some t' \<and> booting (curr_dir t) p t'"
  using assms by (force simp: set_at_first_term_def Let_def set_term_def booting_def first_shown_def tty_raw_def
      hw_cursor_def nth_list_update simp del: is_cstr.simps)

lemma first_lines:
  assumes "booting d p t" shows "\<exists>t'. printf_lit (nl @ nl @ nl) [] t = Some t' \<and> booting d p t'"
proof -
  have "is_cstr (lit (nl @ nl @ nl)) 0 (chars (nl @ nl @ nl))" by (rule lit_cstr) simp
  moreover have "render (chars (nl @ nl @ nl)) [] = Some (chars (nl @ nl @ nl))" by (simp add: render_char)
  moreover have "no_bs (chars (nl @ nl @ nl))" by (simp add: no_bs_def)
  ultimately show ?thesis using booting_put [OF assms, of "chars (nl @ nl @ nl)"] printf_render by metis
qed

text \<open>The tables after \<^verbatim>\<open>hal_initialize\<close>; the rest of the state is what it was.\<close>

lemma hal_initialize_eq:
  fixes s :: "'a boot_scheme"
  assumes "\<forall>h. addr h \<noteq> 0" "length (gdt_table (b_seg s)) = 6"
    and "tty_raw (k_tty s)" "hw_cursor (k_tty s) < 4000" "length (curr_path (k_tty s)) = 50"
    and "is_cstr (curr_path (k_tty s)) 0 p"
  shows "\<exists>t g i q x. hal_initialize ga ta ia addr s =
      Some (s\<lparr>k_tty := t, b_seg := g, k_tss := tss_seg g, b_idt := i, k_pit := q, k_io := x\<rparr>) \<and>
    booting (curr_dir (k_tty s)) p t \<and> gdt_init ga ta ((b_seg s)\<lparr>tss_seg := k_tss s\<rparr>) = Some g \<and>
    IDT i = final_idt addr \<and> pit_bIsInit q \<and> pit_ticks q = 0 \<and> if_flag x"
proof -
  let ?B = "booting (curr_dir (k_tty s)) p"
  obtain t1 where t1: "set_at_first_term (k_tty s) = Some t1" "?B t1" using first_term [OF assms(3-6)] by blast
  obtain t2 where t2: "printf_lit (nl @ nl @ nl) [] t1 = Some t2" "?B t2" using first_lines [OF t1(2)] by blast
  obtain g where g: "gdt_init ga ta ((b_seg s)\<lparr>tss_seg := k_tss s\<rparr>) = Some g"
    using gdt_init_table [of "(b_seg s)\<lparr>tss_seg := k_tss s\<rparr>"] assms(2) by simp
  have c: "clean (chars ''Initialized GDT & TSS'')" "clean (chars ''Initialized IDT'')"
    "clean (chars ''Initialized PIC'')" "clean (chars ''Initialized keyboard'')" "clean (chars ''Initialized PIT'')"
    by (simp_all add: no_bs_def)
  obtain t3 where t3: "put_info (lit ''Initialized GDT & TSS'') 0 t2 = Some t3" "?B t3" using booting_info [OF t2(2) c(1)] by blast
  obtain t4 where t4: "put_info (lit ''Initialized IDT'') 0 t3 = Some t4" "?B t4" using booting_info [OF t3(2) c(2)] by blast
  obtain t5 where t5: "put_info (lit ''Initialized PIC'') 0 t4 = Some t5" "?B t5" using booting_info [OF t4(2) c(3)] by blast
  obtain t6 where t6: "put_info (lit ''Initialized keyboard'') 0 t5 = Some t6" "?B t6" using booting_info [OF t5(2) c(4)] by blast
  obtain t7 where t7: "put_info (lit ''Initialized PIT'') 0 t6 = Some t7" "?B t7" using booting_info [OF t6(2) c(5)] by blast
  let ?t0 = "replicate 256 (gate_entry 0x8e (ucast (addr Default_handler)))"
  let ?e = "put_gates 0xee addr user_vectors (put_gates 0x8e addr exception_vectors ?t0)"
  let ?k = "put_gates 0x8e addr [(0x21, Keyboard_handler)] ?e"
  note v = vectors_gates(1) [OF assms(1), of ?t0] vectors_gates(2) [OF assms(1), of "put_gates 0x8e addr exception_vectors ?t0"]
    device_gates(1) [OF assms(1), of ?e] device_gates(2) [OF assms(1), of ?k]
  obtain q x where q: "pit_start_counter 100 0 6 ((k_pit s)\<lparr>pit_bIsInit := True\<rparr>, pic_init (enable (k_io s))) = Some (q, x)"
    "pit_bIsInit q" "pit_ticks q = 0" "if_flag x = if_flag (pic_init (enable (k_io s)))"
    using counter_start [of "(k_pit s)\<lparr>pit_bIsInit := True\<rparr>" "pic_init (enable (k_io s))"] by auto
  let ?i = "(b_idt s)\<lparr>IDT := final_idt addr, idt_ptr := [8 * 256 + push_bit 16 (ia AND 0xffff), drop_bit 16 ia]\<rparr>"
  have "hal_initialize ga ta ia addr s =
      Some (s\<lparr>k_tty := t7, b_seg := g, k_tss := tss_seg g, b_idt := ?i, k_pit := q, k_io := x\<rparr>)"
    using v t1(1) t2(1) t3(1) t4(1) t5(1) t6(1) t7(1) g q(1)
    by (simp add: hal_initialize_def on_tty_def on_segs_def on_idt_def idt_init_gates [OF assms(1)] Let_def
        final_idt_def put_gates_two)
  then show ?thesis using t7(2) g q pic_init_if by (intro exI conjI) (assumption | simp add: enable_def)+
qed


section \<open>The start of the kernel\<close>

text \<open>Memory as the boot loader leaves it: the arrays have the sizes of their declarations, the pointer to
  the current process and the number of processes are zero, the path is empty, the cursor is on the
  screen.\<close>

definition boot_memory :: "'a boot_scheme \<Rightarrow> bool" where
  "boot_memory s \<longleftrightarrow>
     tty_raw (k_tty s) \<and> hw_cursor (k_tty s) < 4000 \<and> length (curr_path (k_tty s)) = 50 \<and> curr_path (k_tty s) ! 0 = 0 \<and>
     curr_proc s = None \<and> curr_pid s = 0 \<and> length (gdt_table (b_seg s)) = 6 \<and>
     length (bootsector s) = 512 \<and> length (phys_fat s) = 4608 \<and> length (fat s) = 3072 \<and> length (root_dir s) = 7168 \<and>
     length (subdir s) = 512 \<and> length (cp_buf s) = 15360 \<and> length (bin_img s) = 15360 \<and> length (file_list s) = 10 \<and>
     (\<forall>f \<in> set (file_list s). length (f_name f) = 32 \<and> length (f_mode f) = 4 \<and> length (f_buffer f) = 1024)"

lemma booting_path:
  "booting d p t \<Longrightarrow> length q = 50 \<Longrightarrow> is_cstr q 0 x \<Longrightarrow> booting e x (t\<lparr>curr_dir := e, curr_path := q\<rparr>)"
  by (simp add: booting_def first_shown_def tty_raw_def hw_cursor_def del: is_cstr.simps)

lemma initialize_state:
  fixes s :: "'a boot_scheme"
  assumes "\<forall>h. addr h \<noteq> 0" "boot_memory s" "disk_ok (24 + r) s"
  shows "\<exists>s'. initialize ga ta ia addr s = Some s' \<and> booting 19 [47] (k_tty s') \<and> if_flag (k_io s') \<and>
    curr_proc s' = None \<and> curr_pid s' = 0 \<and> proc_list s' = proc_list (proc_init s) \<and> sem_list s' = sem_list (sem_init s) \<and>
    root_dir s' = concat (map (\<lambda>i. sector_of s (19 + of_nat i)) [0..<14]) \<and>
    pack_fat (fat s') 0 0 (phys_fat s') = Some (concat (map (\<lambda>i. sector_of s (1 + of_nat i)) [0..<9])) \<and>
    files_ok s' \<and> (\<forall>f \<in> set (file_list s'). mode_is f [117]) \<and>
    IDT (b_idt s') = final_idt addr \<and> pit_bIsInit (k_pit s') \<and> pit_ticks (k_pit s') = 0 \<and>
    gdt_init ga ta ((b_seg s)\<lparr>tss_seg := k_tss s\<rparr>) = Some (b_seg s') \<and> k_tss s' = tss_seg (b_seg s') \<and>
    disk_ok r s' \<and> ide_sectors (k_ide s') = ide_sectors (k_ide s) \<and>
    fat s' = unpacked (concat (map (\<lambda>i. sector_of s (1 + of_nat i)) [0..<9]))"
proof -
  have "is_cstr (curr_path (k_tty s)) 0 []" using assms(2) by (simp add: boot_memory_def rd_def)
  then obtain t g i q x where h: "hal_initialize ga ta ia addr s =
      Some (s\<lparr>k_tty := t, b_seg := g, k_tss := tss_seg g, b_idt := i, k_pit := q, k_io := x\<rparr>)"
    "booting (curr_dir (k_tty s)) [] t" "gdt_init ga ta ((b_seg s)\<lparr>tss_seg := k_tss s\<rparr>) = Some g"
    "IDT i = final_idt addr" "pit_bIsInit q" "pit_ticks q = 0" "if_flag x"
    using hal_initialize_eq [OF assms(1), of s "[]" ga ta ia] assms(2) by (auto simp: boot_memory_def)
  let ?s1 = "s\<lparr>k_tty := t, b_seg := g, k_tss := tss_seg g, b_idt := i, k_pit := q, k_io := x\<rparr>"
  have c: "clean (chars ''Initialized process'')" "clean (chars ''Initialized semaphore'')"
    "clean (chars ''Initialized fat12'')" "clean (chars ''Initialized VFS'')" by (simp_all add: no_bs_def)
  obtain t2 where t2: "put_info (lit ''Initialized process'') 0 t = Some t2" "booting (curr_dir (k_tty s)) [] t2"
    using booting_info [OF h(2) c(1)] by blast
  obtain t3 where t3: "put_info (lit ''Initialized semaphore'') 0 t2 = Some t3" "booting (curr_dir (k_tty s)) [] t3"
    using booting_info [OF t2(2) c(2)] by blast
  let ?s3 = "(sem_init ((proc_init ?s1)\<lparr>k_tty := t2\<rparr>))\<lparr>k_tty := t3\<rparr>"
  have sec: "sector_of ?s3 = sector_of s" by (simp add: sector_of_def fun_eq_iff sem_init_def proc_init_def)
  have pre: "disk_ok (24 + r) ?s3" "length (bootsector ?s3) = 512" "length (phys_fat ?s3) = 4608"
    "length (fat ?s3) = 3072" "length (root_dir ?s3) = 7168" "2 \<le> length (curr_path (k_tty ?s3))"
    using assms(2,3) t3(2) by (simp_all add: disk_ok_def boot_memory_def booting_def sem_init_def proc_init_def)
  obtain s4 p where s4: "fat12_init ?s3 = Some (True, s4)" "root_dir s4 = concat (map (\<lambda>i. sector_of s (19 + of_nat i)) [0..<14])"
    "pack_fat (fat s4) 0 0 (phys_fat s4) = Some (concat (map (\<lambda>i. sector_of s (1 + of_nat i)) [0..<9]))"
    "is_cstr (curr_path (k_tty s4)) 0 [47]" "k_tty s4 = (k_tty ?s3)\<lparr>curr_dir := 19, curr_path := p\<rparr>"
    "length p = length (curr_path (k_tty ?s3))" "kernel_data s4 = kernel_data ?s3" "fs.more s4 = fs.more ?s3"
    "disk_ok r s4" "ide_sectors (k_ide s4) = ide_sectors (k_ide ?s3)"
    "fat s4 = unpacked (concat (map (\<lambda>i. sector_of s (1 + of_nat i)) [0..<9]))"
    using fat12_init_loads [OF pre] unfolding sec by blast
  have "length (curr_path t3) = 50" using t3(2) by (simp add: booting_def)
  then have b4: "booting 19 [47] (k_tty s4)"
    using booting_path [OF t3(2), of p "[47]" 19] s4(4-6) by simp
  obtain t5 where t5: "put_info (lit ''Initialized fat12'') 0 (k_tty s4) = Some t5" "booting 19 [47] t5"
    using booting_info [OF b4 c(3)] by blast
  have more: "file_list s4 = file_list s" "b_seg s4 = g" "b_idt s4 = i"
    using s4(8) by (cases s4; simp add: sem_init_def proc_init_def; cases s; simp)+
  obtain s6 where s6: "file_init_loop 0 (s4\<lparr>k_tty := t5\<rparr>) = Some s6" "files_ok s6" "\<forall>f \<in> set (file_list s6). mode_is f [117]"
    using file_init_loop_ok [of "s4\<lparr>k_tty := t5\<rparr>" 0] assms(2) more(1) by (auto simp: boot_memory_def simp del: is_cstr.simps)
  obtain fl where fl: "s6 = s4\<lparr>k_tty := t5, file_list := fl\<rparr>" using file_init_loop_frame [OF s6(1)] by auto
  obtain t7 where t7: "put_info (lit ''Initialized VFS'') 0 t5 = Some t7" "booting 19 [47] t7"
    using booting_info [OF t5(2) c(4)] by blast
  have "initialize ga ta ia addr s = Some (enable_k (s6\<lparr>k_tty := t7\<rparr>))"
    using h(1) t2(1) t3(1) s4(1) t5(1) s6(1) t7(1)
    by (simp add: initialize_def on_tty_def Let_def file_init_def fl proc_init_def sem_init_def)
  moreover have "files_ok (enable_k (s6\<lparr>k_tty := t7\<rparr>))" using s6(2) by (simp add: files_ok_def)
  moreover have "curr_proc s = None" "curr_pid s = 0" using assms(2) by (simp_all add: boot_memory_def)
  moreover have "disk_ok r (enable_k (s6\<lparr>k_tty := t7\<rparr>))" using s4(9) by (simp add: disk_ok_def fl)
  moreover have "ide_sectors (k_ide s4) = ide_sectors (k_ide s)" using s4(10) by (simp add: sem_init_def proc_init_def)
  ultimately show ?thesis
    using s4(2,3,7,11) s6(3) t7(2) h(3-6) more(2,3) fl
    by (intro exI [of _ "enable_k (s6\<lparr>k_tty := t7\<rparr>)"]) (simp add: enable_def sem_init_def proc_init_def)
qed

lemma boot_state:
  fixes s :: "'a boot_scheme"
  assumes "\<forall>h. addr h \<noteq> 0" "boot_memory s" "disk_ok (24 + r) s"
  shows "\<exists>s'. kernel_main ga ta ia addr ra keys s = terminal_loop ra True keys s' \<and>
    (\<exists>s1 u b. initialize ga ta ia addr s = Some s1 \<and> s' = s1\<lparr>k_tty := u, k_io := b\<rparr>) \<and>
    kernel_start (k, kernel.truncate s') \<and> if_flag (k_io s') \<and>
    curr_terminal (k_tty s') = Some 0 \<and> tmp_terminal (k_tty s') = Some 0 \<and>
    (\<forall>i < 4. fresh_term 19 i (terminal_list (k_tty s') ! i)) \<and> curr_dir (k_tty s') = 19 \<and>
    root_dir s' = concat (map (\<lambda>i. sector_of s (19 + of_nat i)) [0..<14]) \<and>
    pack_fat (fat s') 0 0 (phys_fat s') = Some (concat (map (\<lambda>i. sector_of s (1 + of_nat i)) [0..<9])) \<and>
    files_ok s' \<and> (\<forall>f \<in> set (file_list s'). mode_is f [117]) \<and>
    disk_ok r s' \<and> ide_sectors (k_ide s') = ide_sectors (k_ide s) \<and>
    fat s' = unpacked (concat (map (\<lambda>i. sector_of s (1 + of_nat i)) [0..<9]))"
proof -
  obtain s1 where s1: "initialize ga ta ia addr s = Some s1" "booting 19 [47] (k_tty s1)"
    "curr_proc s1 = None" "curr_pid s1 = 0" "proc_list s1 = proc_list (proc_init s)" "sem_list s1 = sem_list (sem_init s)"
    "root_dir s1 = concat (map (\<lambda>i. sector_of s (19 + of_nat i)) [0..<14])"
    "pack_fat (fat s1) 0 0 (phys_fat s1) = Some (concat (map (\<lambda>i. sector_of s (1 + of_nat i)) [0..<9]))"
    "files_ok s1" "\<forall>f \<in> set (file_list s1). mode_is f [117]"
    "disk_ok r s1" "ide_sectors (k_ide s1) = ide_sectors (k_ide s)"
    "fat s1 = unpacked (concat (map (\<lambda>i. sector_of s (1 + of_nat i)) [0..<9]))"
    using initialize_state [OF assms, of ga ta ia] by blast
  obtain t where t: "clear_screen (k_tty s1) = Some t" "booting 19 [47] t" using booting_clear [OF s1(2)] by blast
  let ?s2 = "s1\<lparr>k_tty := t\<rparr>"
  have p: "tty_raw (k_tty ?s2)" "hw_cursor (k_tty ?s2) < 4000" "length (curr_path (k_tty ?s2)) = 50"
    "is_cstr (curr_path (k_tty ?s2)) 0 [47]" "no_bs [47]" "curr_dir (k_tty ?s2) = 19"
    using t(2) by (simp_all add: booting_def no_bs_def)
  obtain u b where u: "terminal_init ?s2 = Some (?s2\<lparr>k_tty := u, k_io := b\<rparr>)" "if_flag b" "tty_inv u"
    "curr_terminal u = Some 0" "tmp_terminal u = Some 0" "\<forall>i < 4. fresh_term 19 i (terminal_list u ! i)" "curr_dir u = 19"
    using terminal_init_ready [OF p(1-5)] unfolding p(6) by blast
  let ?s' = "?s2\<lparr>k_tty := u, k_io := b\<rparr>"
  have "kernel_main ga ta ia addr ra keys s = terminal_loop ra True keys ?s'"
    using s1(1) t(1) u(1) by (simp add: kernel_main_def on_tty_def)
  moreover have "kernel_start (k, kernel.truncate ?s')"
    using s1(3-6) u(3) by (auto simp: kernel_start_def kernel.truncate_def proc_init_def sem_init_def)
  moreover have "files_ok ?s'" using s1(9) by (simp add: files_ok_def)
  moreover have "\<exists>s1 u b. initialize ga ta ia addr s = Some s1 \<and> ?s' = s1\<lparr>k_tty := u, k_io := b\<rparr>"
    using s1(1) by (intro exI conjI) (assumption, simp)
  moreover have "disk_ok r ?s'" using s1(11) by (simp add: disk_ok_def)
  ultimately show ?thesis using s1(7,8,10,12,13) u by (intro exI [of _ ?s']) (simp del: is_cstr.simps)
qed

text \<open>C5: Starting the kernel on a disk: \<^verbatim>\<open>main\<close> always reaches the command loop of the shell, whatever the
  memory of terminals, processes, semaphores and files held. There the kernel is in the initial state
  of its transition system (no process, no semaphore in use, good terminals), the first terminal is
  shown, all four are fresh, the root directory and the allocation table are those of the disk, no file
  is open and interrupts are on.\<close>

theorem kernel_boots:
  fixes s :: "'a boot_scheme"
  assumes "\<forall>h. addr h \<noteq> 0" "boot_memory s" "disk_ok 24 s"
  shows "\<exists>s'. kernel_main ga ta ia addr ra keys s = terminal_loop ra True keys s' \<and>
    kernel_start (k, kernel.truncate s') \<and> if_flag (k_io s') \<and>
    curr_terminal (k_tty s') = Some 0 \<and> tmp_terminal (k_tty s') = Some 0 \<and>
    (\<forall>i < 4. fresh_term 19 i (terminal_list (k_tty s') ! i)) \<and> curr_dir (k_tty s') = 19 \<and>
    root_dir s' = concat (map (\<lambda>i. sector_of s (19 + of_nat i)) [0..<14]) \<and>
    pack_fat (fat s') 0 0 (phys_fat s') = Some (concat (map (\<lambda>i. sector_of s (1 + of_nat i)) [0..<9])) \<and>
    files_ok s' \<and> (\<forall>f \<in> set (file_list s'). mode_is f [117])"
proof -
  have "disk_ok (24 + 0) s" using assms(3) by simp
  from boot_state [OF assms(1,2) this, of ga ta ia ra keys k] show ?thesis by blast
qed

text \<open>C20: \<^verbatim>\<open>hal_initialize\<close> leaves the processor's tables so that every one of the 256 interrupt numbers has a
  present 32-bit interrupt gate in the kernel code segment: the exceptions, the timer (32) and the keyboard
  (33) go to their handlers, the system calls 0x80 to 0x82 to theirs and are the only ones user code
  may raise, and every other number goes to the default handler. The stack segment for ring 0 in the
  task state segment is the kernel's, the task register selects entry 5. Interrupts are on, the
  timer starts at 0.\<close>

theorem hal_vectors:
  fixes s :: "'a boot_scheme"
  assumes "\<forall>h. addr h \<noteq> 0" "boot_memory s"
  shows "\<exists>s'. hal_initialize ga ta ia addr s = Some s' \<and> if_flag (k_io s') \<and>
    pit_bIsInit (k_pit s') \<and> pit_ticks (k_pit s') = 0 \<and>
    (\<forall>v < 256. gate_ok (IDT (b_idt s') ! v) (addr (vector_handler v)) (if v \<in> {0x80, 0x81, 0x82} then 3 else 0)) \<and>
    m_base (gdtr_reg (b_seg s')) = ga \<and> length (gdt_table (b_seg s')) = 6 \<and> desc_base (gdt_table (b_seg s') ! 5) = ta \<and>
    ss0 (k_tss s') = KERNEL_DS \<and> task_register (b_seg s') = 40"
proof -
  have "is_cstr (curr_path (k_tty s)) 0 []" using assms(2) by (simp add: boot_memory_def rd_def)
  then obtain t g i q x where h: "hal_initialize ga ta ia addr s =
      Some (s\<lparr>k_tty := t, b_seg := g, k_tss := tss_seg g, b_idt := i, k_pit := q, k_io := x\<rparr>)"
    "gdt_init ga ta ((b_seg s)\<lparr>tss_seg := k_tss s\<rparr>) = Some g"
    "IDT i = final_idt addr" "pit_bIsInit q" "pit_ticks q = 0" "if_flag x"
    using hal_initialize_eq [OF assms(1), of s "[]" ga ta ia] assms(2) unfolding boot_memory_def by blast
  have g: "gdtr_reg g = \<lparr>m_limit = 47, m_base = ga\<rparr>" "gdt_table g ! 5 = tss_descriptor ta" "length (gdt_table g) = 6"
    "ss0 (tss_seg g) = KERNEL_DS" "task_register g = 40"
    using gdt_init_table [of "(b_seg s)\<lparr>tss_seg := k_tss s\<rparr>" ga ta] h(2) assms(2) tss_install_ss0
    by (auto simp: boot_memory_def)
  show ?thesis using h final_gates [of _ addr] g tss_descriptor_base by simp
qed


text \<open>A machine that has just been switched on.\<close>

definition demo_boot :: boot where
  "demo_boot = vfs.extend (demo_vfs\<lparr>k_tty := demo_tty\<lparr>curr_path := replicate 50 0\<rparr>, curr_proc := None, curr_pid := 0\<rparr>)
     \<lparr>b_seg = \<lparr>gdt_table = replicate 6 zero_descriptor, gdtr_reg = \<lparr>m_limit = 0, m_base = 0\<rparr>, tss_seg = zero_tss,
        task_register = 0\<rparr>,
      b_idt = \<lparr>IDT = replicate 256 zero_entry, idt_ptr = [0, 0]\<rparr>\<rparr>"

lemma demo_boot_ready: "boot_memory demo_boot" "disk_ok 24 demo_boot"
proof -
  have t: "tty_raw (demo_tty\<lparr>curr_path := x\<rparr>)" "hw_cursor (demo_tty\<lparr>curr_path := x\<rparr>) < 4000" for x
    using demo_inv by (auto simp: tty_raw_def tty_inv_def hw_cursor_def elim!: tty_okE)
  have "length (bootsector demo_vfs) = 512" "length (phys_fat demo_vfs) = 4608" "length (subdir demo_vfs) = 512"
    "length (cp_buf demo_vfs) = 15360" "length (bin_img demo_vfs) = 15360"
    using demo_fs_fields by (simp_all add: demo_vfs_def demo_loader_def loader.defs fs.defs demo_img_def)
  moreover have "length demo_fat = 3072" using demo_fat_free by simp
  ultimately show "boot_memory demo_boot"
    using t by (simp add: boot_memory_def demo_boot_def vfs.defs demo_file_def)
  show "disk_ok 24 demo_boot"
    using disk_ok_less [OF demo_vfs_disk, of 24] by (simp add: demo_boot_def vfs.defs disk_ok_def)
qed

lemma kernel_boots_witness:
  "\<exists>k s'. kernel_main 0x5000 0x6000 0x9000 (\<lambda>_. 0x8000) 0x7C00 [10] demo_boot = terminal_loop 0x7C00 True [10] s' \<and>
    kernel_start (k, kernel.truncate s') \<and> if_flag (k_io s')"
  using kernel_boots [of "\<lambda>_. 0x8000" demo_boot "0x5000" "0x6000" "0x9000" "0x7C00" "[10]"] demo_boot_ready by fastforce

lemma hal_vectors_witness:
  "\<exists>s'. hal_initialize 0x5000 0x6000 0x9000 (\<lambda>_. 0x8000) demo_boot = Some s' \<and>
    gate_ok (IDT (b_idt s') ! 0x80) 0x8000 3"
proof -
  have "\<forall>h :: handler. (0x8000 :: u32) \<noteq> 0" by simp
  from hal_vectors [OF this demo_boot_ready(1), of "0x5000" "0x6000" "0x9000"] show ?thesis
    by (auto dest: spec [of _ "128 :: nat"])
qed

end
