(* ===== verification/Kept_Sizes.thy ===== *)
theory Kept_Sizes
  imports Fat_Files
begin

text \<open>
  What operations keep whenever they succeed, whatever their arguments: the sizes of arrays, strings that
  end, the current path; and for any predicate of the state that does not look at the drive, that
  disk transfers keep it when their destination does (\<^verbatim>\<open>disk_invariant\<close>).
\<close>

section \<open>What the string functions leave as it is\<close>

lemma strcpy_Some:
  "strcpy b d src s = Some b' \<Longrightarrow>
    \<exists>t. is_cstr src s t \<and> d + length t < length b \<and> b' = buf_put b d (t @ [0])"
proof (induction b d src s arbitrary: b' rule: strcpy.induct)
  case (1 b d src s)
  then obtain c where c: "rd src s = Some c" "d < length b" by (subst (asm) strcpy.simps) (auto simp: buf_simps split: bind_splits)
  show ?case
  proof (cases "c = 0")
    case True
    then have "b' = b[d := 0]" using "1.prems" c by (subst (asm) strcpy.simps) simp
    then show ?thesis using c True by (intro exI [of _ "[]"]) (auto simp: buf_put_single buf_simps)
  next
    case False
    then have r: "strcpy (b[d := c]) (Suc d) src (Suc s) = Some b'" using "1.prems" c by (subst (asm) strcpy.simps) simp
    from "1.IH" [OF c(1) _ False this] c(2) obtain t where
      "is_cstr src (Suc s) t" "Suc d + length t < length b" "b' = buf_put (b[d := c]) (Suc d) (t @ [0])" by auto
    then show ?thesis using c False by (intro exI [of _ "c # t"]) (simp add: buf_put_Cons)
  qed
qed

lemma strcpy_kept:
  assumes "strcpy b d src s = Some b'"
  shows "length b' = length b" "\<exists>t. is_cstr src s t \<and> is_cstr b' d t"
proof -
  obtain t where t: "is_cstr src s t" "d + length t < length b" "b' = buf_put b d (t @ [0])"
    using strcpy_Some [OF assms] by blast
  then show "length b' = length b" by simp
  show "\<exists>t. is_cstr src s t \<and> is_cstr b' d t"
    using t buf_put_cstr [OF t(2) is_cstr_nonzero [OF t(1)]] by blast
qed

lemma strlen_Some:
  assumes "strlen b p = Some n"
  shows "\<exists>s. is_cstr b p s \<and> length s = n"
proof -
  have "\<not> no_nul b p" using assms strlen_no_nul by fastforce
  then obtain s where "is_cstr b p s" by (metis cstr_cases)
  then show ?thesis using assms by auto
qed

lemma strcat_loop_Some:
  "strcat_loop b d src s = Some (b', e) \<Longrightarrow> \<exists>t. is_cstr src s t \<and> e = d + length t"
proof (induction b d src s rule: strcat_loop.induct)
  case (1 b d src s)
  then obtain c where c: "rd src s = Some c" by (subst (asm) strcat_loop.simps) (auto split: bind_splits)
  show ?case
  proof (cases "c = 0")
    case True
    then show ?thesis using "1.prems" c
      by (intro exI [of _ "[]"]) (subst (asm) strcat_loop.simps, auto simp: buf_simps)
  next
    case False
    then obtain b1 where b1: "wr b d c = Some b1" "strcat_loop b1 (Suc d) src (Suc s) = Some (b', e)"
      using "1.prems" c by (subst (asm) strcat_loop.simps) (auto split: bind_splits)
    from "1.IH" [OF c False b1] obtain t where "is_cstr src (Suc s) t" "e = Suc d + length t" by blast
    then show ?thesis using c False by (intro exI [of _ "c # t"]) (simp add: buf_simps)
  qed
qed

lemma strcat_loop_length: "strcat_loop b d src s = Some (b', e) \<Longrightarrow> length b' = length b"
proof (induction b d src s rule: strcat_loop.induct)
  case (1 b d src s)
  then obtain c where c: "rd src s = Some c" by (subst (asm) strcat_loop.simps) (auto split: bind_splits)
  show ?case
  proof (cases "c = 0")
    case True
    then show ?thesis using "1.prems" c by (subst (asm) strcat_loop.simps) simp
  next
    case False
    then obtain b1 where b1: "wr b d c = Some b1" "strcat_loop b1 (Suc d) src (Suc s) = Some (b', e)"
      using "1.prems" c by (subst (asm) strcat_loop.simps) (auto split: bind_splits)
    from "1.IH" [OF c False b1] show ?thesis using b1(1) by (simp add: buf_simps)
  qed
qed

lemma strcat_kept:
  assumes "strcat b d src s = Some b'"
  shows "length b' = length b" "\<exists>t. is_cstr b' d t"
proof -
  obtain n b1 e where n: "strlen b d = Some n" "strcat_loop b (d + n) src s = Some (b1, e)" "wr b1 e 0 = Some b'"
    using assms by (auto simp: strcat_def split: bind_splits)
  obtain x where x: "is_cstr b d x" "length x = n" using strlen_Some [OF n(1)] by blast
  obtain t where t: "is_cstr src s t" "e = d + n + length t" using strcat_loop_Some [OF n(2)] by blast
  have "length b1 = length b"
    using strcat_loop_length [OF n(2)] .
  then have l: "d + length x + length t < length b" using n(3) x(2) t(2) by (simp add: buf_simps)
  then show "length b' = length b" using strcat_cstr [OF x(1) t(1) l] assms by simp
  show "\<exists>t. is_cstr b' d t" using strcat_is_cstr [OF x(1) t(1) l assms] by blast
qed

section \<open>The current path\<close>

definition path_ok :: "buf \<Rightarrow> bool" where
  "path_ok p \<longleftrightarrow> length p = 50 \<and> (\<exists>s. is_cstr p 0 s)"

lemma tty_path: "tty_inv t \<Longrightarrow> path_ok (curr_path t)"
  by (simp add: tty_inv_def saved_ok_def path_ok_def)

lemma tty_set_path: "tty_inv t \<Longrightarrow> path_ok p \<Longrightarrow> tty_inv (t\<lparr>curr_dir := d, curr_path := p\<rparr>)"
  by (simp add: tty_inv_def saved_ok_def path_ok_def tty_ok_def hw_cursor_def)

lemma tty_set_dir: "tty_inv t \<Longrightarrow> tty_inv (t\<lparr>curr_dir := d\<rparr>)"
  by (simp add: tty_inv_def saved_ok_def tty_ok_def hw_cursor_def)

lemma reverse_kept:
  assumes "is_cstr b p s"
  shows "\<exists>b'. reverse b p = Some b' \<and> length b' = length b \<and> is_cstr b' p (rev s)"
proof -
  have "p + length s < length b" by (rule is_cstr_length [OF assms])
  then show ?thesis using reverse_cstr [OF assms] assms by (auto simp: is_cstr_iff nth_buf_put)
qed

lemma cut_last_kept:
  assumes "path_ok p" "reverse p 0 = Some p1" "strsep p1 (Some 0) (lit ''/'') = Some (tok, Some k, p2)"
    and "reverse p2 k = Some p3" "strcpy_same p3 0 k = Some p4"
  shows "path_ok p4"
proof -
  obtain s where s: "length p = 50" "is_cstr p 0 s" using assms(1) by (auto simp: path_ok_def)
  then have p1: "length p1 = 50" "is_cstr p1 0 (rev s)" using reverse_kept [OF s(2)] assms(2) by auto
  have "47 \<in> set (rev s)"
  proof (rule ccontr)
    assume "47 \<notin> set (rev s)"
    then show False using strsep_last [OF lit_slash p1(2)] assms(3) by simp
  qed
  then obtain u v where "rev s = u @ 47 # v" "47 \<notin> set u" by (metis split_list_first)
  then have p2: "length p2 = 50" "is_cstr p2 k v"
    using strsep_found [OF lit_slash p1(2) [unfolded \<open>rev s = u @ 47 # v\<close>]] p1(1) assms(3) by auto
  then have p3: "length p3 = 50" "is_cstr p3 k (rev v)" using reverse_kept [OF p2(2)] assms(4) by auto
  have "p4 = buf_put p3 0 (rev v @ [0])" using strcpy_same_cstr [OF p3(2), of 0] assms(5) by simp
  moreover have "0 + length (rev v) < length p3" using is_cstr_length [OF p3(2)] by simp
  ultimately show ?thesis
    using buf_put_cstr [of 0 "rev v" p3] is_cstr_nonzero [OF p3(2)] p3(1) by (auto simp: path_ok_def)
qed

lemma set_dir_keeps:
  assumes "tty_inv t" "fat12_set_dir d nb q t = Some t'"
  shows "tty_inv t'"
proof -
  have p: "path_ok (curr_path t)" by (rule tty_path [OF assms(1)])
  have cpy: "path_ok b'" if "path_ok b" "strcpy b 0 src u = Some b'" for b src u b'
    using strcpy_kept [OF that(2)] that(1) by (auto simp: path_ok_def)
  have cat: "path_ok b'" if "path_ok b" "strcat b 0 src u = Some b'" for b src u b'
    using strcat_kept [OF that(2)] that(1) by (auto simp: path_ok_def)
  have new: "tty_inv (t\<lparr>curr_dir := e, curr_path := b\<rparr>)" if "path_ok b" for e b
    by (rule tty_set_path [OF assms(1) that])
  show ?thesis
  proof (cases "curr_dir t = FAT_ROOT_REGION_START")
    case True
    then show ?thesis using assms(2)
      by (auto simp: fat12_set_dir_def split: bind_splits intro!: new dest!: cpy [OF p] cat [rotated])
  next
    case False
    then show ?thesis using assms(2) p tty_set_dir [OF assms(1)]
      by (auto simp: fat12_set_dir_def Let_def split: bind_splits if_splits intro!: new)
        (blast intro: cpy cat cut_last_kept)+
  qed
qed

section \<open>Sizes of arrays\<close>

lemma wr_length: "wr b i v = Some b' \<Longrightarrow> length b' = length b"
  by (auto simp: buf_simps)

lemma memset_length: "memset b d v n = Some b' \<Longrightarrow> length b' = length b"
  by (induction n arbitrary: b) (auto split: bind_splits dest!: wr_length)

lemma memcpy_length: "memcpy b d src s n = Some b' \<Longrightarrow> length b' = length b"
  by (induction n arbitrary: b d s) (auto split: bind_splits dest!: wr_length)

lemma memcpy_room: "memcpy b d src s n = Some b' \<Longrightarrow> 0 < n \<Longrightarrow> d + n \<le> length b"
  using memcpy_None [of n b d src s] by force

lemma put16_length: "put16 b i v = Some b' \<Longrightarrow> length b' = length b"
  by (auto simp: put16_def split: bind_splits dest!: wr_length)

lemma put32_length: "put32 b i v = Some b' \<Longrightarrow> length b' = length b"
  by (auto simp: put32_def split: bind_splits dest!: put16_length)

lemma pad_field_length: "pad_field b p j n = Some b' \<Longrightarrow> length b' = length b"
proof (induction b p j n rule: pad_field.induct)
  case (1 b p j n)
  then show ?case by (subst (asm) (2) pad_field.simps) (auto split: if_splits bind_splits dest!: wr_length)
qed

lemma fill_entry_length: "fill_entry nb q c n b p = Some b' \<Longrightarrow> length b' = length b"
  by (auto simp: fill_entry_def split: bind_splits prod.splits
    dest!: wr_length put16_length put32_length pad_field_length strcpy_kept(1))

lemma pack_fat_length: "pack_fat f i j ph = Some ph' \<Longrightarrow> length ph' = length ph"
proof (induction f i j ph rule: pack_fat.induct)
  case (1 f i j ph)
  then show ?case by (subst (asm) (2) pack_fat.simps) (auto split: if_splits bind_splits dest!: wr_length)
qed

lemma alloc_clusters_length:
  "alloc_clusters n i cnt prev cs f = Some (c, f') \<Longrightarrow> length f' = length f"
proof (induction n i cnt prev cs f rule: alloc_clusters.induct)
  case (1 n i cnt prev cs f)
  then show ?case
    by (subst (asm) (3) alloc_clusters.simps)
      (auto simp: wr32_def split: if_splits bind_splits option.splits)
qed

section \<open>What disk transfers keep\<close>

text \<open>A predicate of the state that does not look at the ports, the drive and RAM, for any destination that
  keeps it.\<close>

locale disk_invariant =
  fixes P :: "'a fs_scheme \<Rightarrow> bool"
  assumes io [simp]: "P (s\<lparr>k_io := x\<rparr>) = P s"
    and ide [simp]: "P (s\<lparr>k_ide := d\<rparr>) = P s"
    and ram [simp]: "P (s\<lparr>k_ram := m\<rparr>) = P s"
begin

definition keeps :: "('a fs_scheme \<Rightarrow> 'a fs_scheme option) \<Rightarrow> bool" where
  "keeps f \<longleftrightarrow> (\<forall>s s'. P s \<longrightarrow> f s = Some s' \<longrightarrow> P s')"

lemma readsect_inv: "readsect d n s = Some s' \<Longrightarrow> P s \<Longrightarrow> P s'"
  by (auto simp: readsect_def insw_def Let_def split: bind_splits if_splits)

lemma writesect_inv: "writesect b n s = Some s' \<Longrightarrow> P s \<Longrightarrow> P s'"
  by (auto simp: writesect_def outsw_def Let_def split: bind_splits if_splits)

lemma read_sectors_inv:
  "read_sectors sink n cnt i s = Some s' \<Longrightarrow> (\<And>k. keeps (sink k)) \<Longrightarrow> P s \<Longrightarrow> P s'"
proof (induction sink n cnt i s rule: read_sectors.induct)
  case (1 sink n cnt i s)
  show ?case
  proof (cases "i < cnt")
    case True
    obtain s1 where s1: "readsect (of_nat (TMP_USER_ADDR + i * 512)) (n + of_nat i) s = Some s1"
      using "1.prems"(1) True by (subst (asm) read_sectors.simps) (auto split: bind_splits)
    obtain s2 where s2: "sink (cnt * 512) s1 = Some s2" "read_sectors sink n cnt (Suc i) s2 = Some s'"
      using "1.prems"(1) True s1 by (subst (asm) read_sectors.simps) (auto split: bind_splits)
    have "P s2" using readsect_inv [OF s1 "1.prems"(3)] s2(1) "1.prems"(2) unfolding keeps_def by blast
    then show ?thesis using "1.IH" [OF True s1 s2] "1.prems"(2) by blast
  next
    case False
    then have "s' = s" using "1.prems"(1) by (subst (asm) read_sectors.simps) simp
    then show ?thesis using "1.prems"(3) by simp
  qed
qed

lemma read_chain_inv:
  assumes "read_chain stop sink i c s = Some (n, s')" "\<And>k l. keeps (sink k l)" "P s"
  shows "P s'"
proof -
  have "(\<forall>k l. keeps (sink k l)) \<longrightarrow> P s \<longrightarrow> P (snd r)" if "read_chain stop sink i c s = Some r" for r
    using that
  proof (induction rule: read_chain.raw_induct [rotated, consumes 1, case_names chain])
    case (chain f stop sink i c s r)
    show ?case
    proof (intro impI)
      assume k: "\<forall>k l. keeps (sink k l)" and s: "P s"
      obtain s1 more c1 where s1: "read_sectors (sink (i * 512)) (c + 33 - 2) 1 0 s = Some s1"
        "fat12_next_sector (fat s1) c = Some (more, c1)"
        "(if \<not> more \<or> stop i then Some (i, enable_k s1) else f stop sink (i + 1) c1 (enable_k s1)) = Some r"
        using chain(2) by (auto split: bind_splits)
      have "P s1" using read_sectors_inv [OF s1(1)] k s by blast
      then have e: "P (enable_k s1)" by simp
      show "P (snd r)"
      proof (cases "\<not> more \<or> stop i")
        case True
        then have "r = (i, enable_k s1)" using s1(3) by auto
        then show ?thesis using e by simp
      next
        case False
        then have "f stop sink (i + 1) c1 (enable_k s1) = Some r" using s1(3) by auto
        then show ?thesis using chain(1) k e by blast
      qed
    qed
  qed
  then show ?thesis using assms by fastforce
qed

lemma del_loop_inv: "del_loop c s = Some s' \<Longrightarrow> P s \<Longrightarrow> P s'"
proof (induction rule: del_loop.raw_induct [rotated, consumes 1, case_names del])
  case (del f c s s')
  then show ?case by (auto simp: Let_def split: bind_splits if_splits elim!: del(1))
qed

end

end
