(* ===== verification/System_Steps.thy ===== *)
theory System_Steps
  imports Boot Run_Program Kept_Sizes
begin

text \<open>
  The whole system as a transition system: the kernel's steps, the file calls of programs and what the
  shell does with the disk. What holds of the state of all headers together in every state that can be
  reached from the start of the machine.
\<close>

section \<open>The invariant of the system\<close>

definition arrays_ok :: "'a loader_scheme \<Rightarrow> bool" where
  "arrays_ok s \<longleftrightarrow> length (bootsector s) = 512 \<and> length (phys_fat s) = 4608 \<and> length (fat s) = 3072 \<and>
     length (root_dir s) = 7168 \<and> length (subdir s) = 512 \<and> length (cp_buf s) = 15360 \<and> length (bin_img s) = 15360"

definition sys_ok :: "'a vfs_scheme \<Rightarrow> bool" where
  "sys_ok s \<longleftrightarrow> proc_ok s \<and> arrays_ok s \<and> files_ok s"

lemma sys_ok_fields [simp]:
  "sys_ok (s\<lparr>k_io := x\<rparr>) = sys_ok s" "sys_ok (s\<lparr>k_ide := d\<rparr>) = sys_ok s" "sys_ok (s\<lparr>k_ram := m\<rparr>) = sys_ok s"
  "sys_ok (s\<lparr>k_tss := u\<rparr>) = sys_ok s"
  by (simp_all add: sys_ok_def arrays_ok_def files_ok_def proc_ok_def proc_ok0_def)

interpretation sys_disk: disk_invariant "sys_ok :: 'a vfs_scheme \<Rightarrow> bool"
  by unfold_locales simp_all

lemma sys_ok_arrays:
  "sys_ok s \<Longrightarrow> length b = length (phys_fat s) \<Longrightarrow> sys_ok (s\<lparr>phys_fat := b\<rparr>)"
  "sys_ok s \<Longrightarrow> length f = length (fat s) \<Longrightarrow> sys_ok (s\<lparr>fat := f\<rparr>)"
  "sys_ok s \<Longrightarrow> length b = length (root_dir s) \<Longrightarrow> sys_ok (s\<lparr>root_dir := b\<rparr>)"
  "sys_ok s \<Longrightarrow> length b = length (subdir s) \<Longrightarrow> sys_ok (s\<lparr>subdir := b\<rparr>)"
  "sys_ok s \<Longrightarrow> length b = length (cp_buf s) \<Longrightarrow> sys_ok (s\<lparr>cp_buf := b\<rparr>)"
  "sys_ok s \<Longrightarrow> length b = length (bin_img s) \<Longrightarrow> sys_ok (s\<lparr>bin_img := b\<rparr>)"
  by (simp_all add: sys_ok_def arrays_ok_def files_ok_def proc_ok_def proc_ok0_def)

lemma sys_ok_tty: "sys_ok s \<Longrightarrow> tty_inv t \<Longrightarrow> sys_ok (s\<lparr>k_tty := t\<rparr>)"
  by (simp add: sys_ok_def arrays_ok_def files_ok_def ok_set_tty)

lemma sinks_keep:
  "sys_disk.keeps (subdir_sink off n)" "sys_disk.keeps (cp_sink off n)" "sys_disk.keeps (img_sink off n)"
  "sys_disk.keeps (ram_sink off n m)" "sys_disk.keeps (\<lambda>_. None)"
  by (auto simp: sys_disk.keeps_def array_sink_def img_sink_def ram_sink_def split: bind_splits
    intro!: sys_ok_arrays dest: memcpy_length)

section \<open>The commands of the shell\<close>

lemma read_clusters_keeps:
  "fat12_read_clusters sink c s = Some (n, s') \<Longrightarrow> (\<And>k l. sys_disk.keeps (sink k l)) \<Longrightarrow> sys_ok s \<Longrightarrow> sys_ok s'"
  unfolding fat12_read_clusters_def by (rule sys_disk.read_chain_inv)

lemma read_subdir_keeps: "read_subdir s = Some s' \<Longrightarrow> sys_ok s \<Longrightarrow> sys_ok s'"
  by (auto simp: read_subdir_def split: bind_splits dest!: read_clusters_keeps [OF _ sinks_keep(1)])

lemma find_entry_keeps: "fat12_find_entry nb q s = Some (r, s') \<Longrightarrow> sys_ok s \<Longrightarrow> sys_ok s'"
  by (auto simp: fat12_find_entry_def split: bind_splits if_splits dest: read_subdir_keeps)

lemma error_keeps:
  assumes "on_tty (put_error (lit x) 0) s = Some s'" "clean (chars x)" "x \<noteq> []" "sys_ok s"
  shows "sys_ok s'"
proof -
  have t: "tty_inv (k_tty s)" using assms(4) by (simp add: sys_ok_def ok_tty)
  obtain u where u: "put_error (lit x) 0 (k_tty s) = Some u" "tty_inv u"
    using put_error_inv [OF t assms(2)] assms(3) by (auto simp: lit_def)
  then have "s' = s\<lparr>k_tty := u\<rparr>" using assms(1) by (simp add: on_tty_def)
  then show ?thesis using sys_ok_tty [OF assms(4) u(2)] by simp
qed

lemma no_such_file_keeps: "no_such_file s = Some s' \<Longrightarrow> sys_ok s \<Longrightarrow> sys_ok s'"
  unfolding no_such_file_def using error_keeps [of "''No such file or directory!''"] by (simp add: no_bs_def)

lemma mark_deleted_keeps: "mark_deleted fe s = Some s' \<Longrightarrow> sys_ok s \<Longrightarrow> sys_ok s'"
  by (cases fe) (auto split: bind_splits intro!: sys_ok_arrays dest: wr_length)

lemma create_file_keeps: "fat12_create_file n nb q s = Some s' \<Longrightarrow> sys_ok s \<Longrightarrow> sys_ok s'"
  by (auto simp: fat12_create_file_def Let_def split: bind_splits option.splits
    intro!: sys_ok_arrays dest!: alloc_clusters_length fill_entry_length)

lemma del_entry_keeps: "fat12_del_fat_entry c s = Some s' \<Longrightarrow> sys_ok s \<Longrightarrow> sys_ok s'"
  by (auto simp: fat12_del_fat_entry_def fat12_write_back_fat_def split: bind_splits
    intro!: sys_ok_arrays dest: sys_disk.del_loop_inv pack_fat_length)

lemma read_file_keeps:
  assumes "fat12_read_file nb q sink s = Some (ok, n, s')" "\<And>k l. sys_disk.keeps (sink k l)" "sys_ok s"
  shows "sys_ok s'"
proof -
  have "sys_ok t" if "on_tty (put_error (lit ''FAT No this file!'') 0) s = Some t" for t
    using error_keeps [OF that] assms(3) by (simp add: no_bs_def)
  then show ?thesis using assms
    by (auto simp: fat12_read_file_def split: bind_splits option.splits dest: read_clusters_keeps)
qed

lemma cd_keeps: "fat12_cd nb q s = Some (ok, s') \<Longrightarrow> sys_ok s \<Longrightarrow> sys_ok s'"
proof -
  assume cd: "fat12_cd nb q s = Some (ok, s')" and s: "sys_ok s"
  obtain r s1 where r: "fat12_find_entry nb q s = Some (r, s1)" using cd by (auto simp: fat12_cd_def split: bind_splits)
  note s1 = find_entry_keeps [OF r s]
  show "sys_ok s'"
  proof (cases r)
    case None
    then show ?thesis using cd r no_such_file_keeps [OF _ s1] by (auto simp: fat12_cd_def split: bind_splits)
  next
    case (Some fe)
    then obtain c :: u16 and t n where c: "fat12_set_dir (uint c) nb q (k_tty s1) = Some t"
      "fat12_read_clusters subdir_sink (ucast c) (s1\<lparr>k_tty := t\<rparr>) = Some (n, s')"
      using cd r by (auto simp: fat12_cd_def Let_def split: bind_splits)
    have "tty_inv (k_tty s1)" using s1 by (simp add: sys_ok_def ok_tty)
    then have "sys_ok (s1\<lparr>k_tty := t\<rparr>)" using sys_ok_tty [OF s1] set_dir_keeps [OF _ c(1)] by blast
    then show ?thesis by (rule read_clusters_keeps [OF c(2) sinks_keep(1)])
  qed
qed

lemma rm_keeps: "fat12_rm nb q s = Some (ok, s') \<Longrightarrow> sys_ok s \<Longrightarrow> sys_ok s'"
  by (auto simp: fat12_rm_def split: bind_splits option.splits dest!: find_entry_keeps)
    (blast intro: no_such_file_keeps mark_deleted_keeps del_entry_keeps)+

lemma cp_keeps: "fat12_cp src p dst q s = Some (ok, s') \<Longrightarrow> sys_ok s \<Longrightarrow> sys_ok s'"
  by (auto simp: fat12_cp_def split: bind_splits if_splits
    dest!: read_file_keeps [OF _ sinks_keep(2)] dest: create_file_keeps)

lemma parse_elf_keeps: "parse_elf a s = Some (Entry e s') \<Longrightarrow> sys_ok s \<Longrightarrow> sys_ok s'"
  by (auto simp: parse_elf_def on_tty_def split: bind_splits if_splits)

text \<open>The rest of \<^verbatim>\<open>load_program\<close> behind the clearing of the image.\<close>

definition load_rest :: "buf \<Rightarrow> nat \<Rightarrow> buf \<Rightarrow> nat \<Rightarrow> 'a vfs_scheme \<Rightarrow> (u32 option \<times> 'a vfs_scheme) option" where
  "load_rest b name buf e s =
     do { com \<leftarrow> strcmp buf e (lit ''com'') 0;
          if com = 0 then
            do { a \<leftarrow> com_address com_programs b name;
                 (ok, sz, s) \<leftarrow> fat12_read_file b name (case a of Some a \<Rightarrow> ram_sink a | None \<Rightarrow> \<lambda>_ _ _. None) s;
                 if ok then do { a \<leftarrow> a; Some (Some (of_nat a), s) }
                 else do { s \<leftarrow> on_tty (put_error (lit ''No this user program!'') 0) s; Some (None, s) } }
          else
            do { out \<leftarrow> strcmp buf e (lit ''out'') 0;
                 (ok, s) \<leftarrow> (if out = 0 then
                              do { (ok, sz, s) \<leftarrow> fat12_read_file b name img_sink s; Some (ok, s) }
                            else Some (False, s));
                 if ok then
                   do { p \<leftarrow> parse_elf (ADDR_USER_START + 6 * unat PROC_SIZE) s;
                        case p of Entry a s \<Rightarrow> Some (Some a, s) | Stuck s \<Rightarrow> None }
                 else do { s \<leftarrow> on_tty (put_error (lit ''No this user program!'') 0) s; Some (None, s) } } }"

lemma load_rest_keeps:
  assumes "load_rest b name buf e s = Some (a, s')" "sys_ok s"
  shows "sys_ok s'"
proof -
  have err: "sys_ok u'" if "on_tty (put_error (lit ''No this user program!'') 0) u = Some u'" "sys_ok u" for u u' :: "'a vfs_scheme"
    using error_keeps [OF that(1) _ _ that(2)] by (simp add: no_bs_def)
  have com: "sys_ok t" if "fat12_read_file b name (case x of Some a \<Rightarrow> ram_sink a | None \<Rightarrow> \<lambda>_ _ _. None) s = Some (ok, n, t)" for x ok n t
    by (rule read_file_keeps [OF that _ assms(2)]) (cases x; simp add: sinks_keep)
  have out: "sys_ok t" if "fat12_read_file b name img_sink s = Some (ok, n, t)" for ok n t
    by (rule read_file_keeps [OF that sinks_keep(3) assms(2)])
  obtain r where r: "strcmp buf e (lit ''com'') 0 = Some r"
    using assms(1) by (auto simp: load_rest_def split: bind_splits)
  show ?thesis
  proof (cases "r = 0")
    case True
    obtain x ok n t where t: "fat12_read_file b name (case x of Some a \<Rightarrow> ram_sink a | None \<Rightarrow> \<lambda>_ _ _. None) s = Some (ok, n, t)"
      "(if ok then do { a \<leftarrow> x; Some (Some (of_nat a), t) }
        else do { s \<leftarrow> on_tty (put_error (lit ''No this user program!'') 0) t; Some (None, s) }) = Some (a, s')"
      using assms(1) r True by (auto simp: load_rest_def split: bind_splits)
    then show ?thesis using com [OF t(1)] err by (cases ok) (auto split: bind_splits)
  next
    case False
    obtain ok t where t: "sys_ok t"
      "(if ok then do { p \<leftarrow> parse_elf (ADDR_USER_START + 6 * unat PROC_SIZE) t;
          case p of Entry a s \<Rightarrow> Some (Some a, s) | Stuck s \<Rightarrow> None }
        else do { s \<leftarrow> on_tty (put_error (lit ''No this user program!'') 0) t; Some (None, s) }) = Some (a, s')"
    proof -
      obtain d where d: "strcmp buf e (lit ''out'') 0 = Some d"
        using assms(1) r False by (auto simp: load_rest_def split: bind_splits)
      show thesis
      proof (cases "d = 0")
        case True
        obtain ok n t where t: "fat12_read_file b name img_sink s = Some (ok, n, t)"
          using assms(1) r d False True by (auto simp: load_rest_def split: bind_splits)
        show thesis using assms(1) r d t False True
          by (intro that [OF out [OF t], of ok]) (simp add: load_rest_def)
      next
        case nz: False
        show thesis using assms(1) r d False nz
          by (intro that [OF assms(2), of False]) (simp add: load_rest_def)
      qed
    qed
    then show ?thesis using err parse_elf_keeps by (cases ok) (auto split: bind_splits parsed.splits)
  qed
qed

lemma load_program_rest:
  "load_program b name s =
     do { buf \<leftarrow> strcpy (replicate 20 0) 0 b name;
          (tok, ext, buf) \<leftarrow> strsep buf (Some 0) (lit ''.'');
          img \<leftarrow> memset (bin_img s) 0 0 15360;
          e \<leftarrow> ext;
          load_rest b name buf e (s\<lparr>bin_img := img, k_tss := tss_set_stack KERNEL_DS (cpu_esp s + KERNEL_STACK_SIZE) (k_tss s)\<rparr>) }"
proof -
  have k: "cpu_esp (s\<lparr>bin_img := x\<rparr>) = cpu_esp s" "k_tss (s\<lparr>bin_img := x\<rparr>) = k_tss s" for x by simp_all
  show ?thesis unfolding load_program_def load_rest_def Let_def k ..
qed

lemma load_program_keeps:
  assumes "load_program b name s = Some (a, s')" "sys_ok s"
  shows "sys_ok s'"
proof -
  obtain img buf e where img: "memset (bin_img s) 0 0 15360 = Some img"
    "load_rest b name buf e (s\<lparr>bin_img := img, k_tss := tss_set_stack KERNEL_DS (cpu_esp s + KERNEL_STACK_SIZE) (k_tss s)\<rparr>) = Some (a, s')"
    using assms(1) unfolding load_program_rest by (auto split: bind_splits)
  have "sys_ok (s\<lparr>bin_img := img, k_tss := tss_set_stack KERNEL_DS (cpu_esp s + KERNEL_STACK_SIZE) (k_tss s)\<rparr>)"
    using sys_ok_arrays(6) [OF assms(2) memset_length [OF img(1)]] by simp
  then show ?thesis by (rule load_rest_keeps [OF img(2)])
qed

section \<open>Open files\<close>

lemma sys_ok_file:
  "sys_ok s \<Longrightarrow> (i < 10 \<Longrightarrow> file_ok (file_list s ! i) \<Longrightarrow> file_ok (f (file_list s ! i))) \<Longrightarrow> sys_ok (upd_file i f s)"
  using upd_file_ok [of s i f] files_ok_nth [of s i]
  by (simp add: sys_ok_def arrays_ok_def) (simp add: upd_file_def proc_ok_def proc_ok0_def)

lemma mode_set_ok: "strcpy (f_mode f) 0 mode q = Some b \<Longrightarrow> file_ok f \<Longrightarrow> file_ok (f\<lparr>f_mode := b\<rparr>)"
  using strcpy_kept [of "f_mode f" 0 mode q b] by (auto simp: file_ok_def simp del: is_cstr.simps)

lemma name_set_ok: "strcpy (f_name f) 0 nb q = Some b \<Longrightarrow> file_ok f \<Longrightarrow> file_ok (f\<lparr>f_name := b\<rparr>)"
  using strcpy_kept(1) [of "f_name f" 0 nb q b] by (simp add: file_ok_def)

lemma set_mode_keeps: "set_mode i mode q s = Some s' \<Longrightarrow> sys_ok s \<Longrightarrow> sys_ok s'"
  by (auto simp: set_mode_def file_at_def split: bind_splits if_splits intro!: sys_ok_file mode_set_ok)

lemma file_sink_keeps: "sys_disk.keeps (file_sink i off n)"
  by (auto simp: sys_disk.keeps_def file_sink_def file_ok_def split: bind_splits if_splits
    dest!: memcpy_length intro!: sys_ok_file)

lemma fopen_keeps:
  assumes "do_fopen pname p mode q s = Some (r, s')" "sys_ok s"
  shows "sys_ok s'"
proof -
  obtain slot where o: "find_unused (file_list s) 0 = Some slot"
    using assms(1) by (cases "find_unused (file_list s) 0") (simp_all add: do_fopen_def)
  show ?thesis
  proof (cases slot)
    case None
    then show ?thesis using assms o by (simp add: do_fopen_def)
  next
    case (Some i)
    obtain nm e s1 where e: "strcpy (f_name (file_list s ! i)) 0 pname p = Some nm"
      "fat12_find_entry pname p (upd_file i (\<lambda>f. f\<lparr>f_name := nm\<rparr>) s) = Some (e, s1)"
      using assms(1) o Some by (auto simp: do_fopen_def Let_def split: bind_splits)
    have s1: "sys_ok s1" by (rule find_entry_keeps [OF e(2)], rule sys_ok_file [OF assms(2)]) (rule name_set_ok [OF e(1)])
    note run = assms(1) o Some e
    show ?thesis
    proof (cases e)
      case None
      then show ?thesis using run s1 by (auto simp: do_fopen_def Let_def split: bind_splits if_splits dest: set_mode_keeps)
    next
      case (Some fe)
      obtain len c s2 n where f: "set_mode i mode q (upd_file i (\<lambda>f. f\<lparr>f_fileLength := len, f_startCluster := ucast (c :: u16),
            f_currentCluster := ucast c\<rparr>) s1) = Some s2"
        "fat12_read_clusters (file_sink i) (ucast c) s2 = Some (n, s')"
        using run Some by (auto simp: do_fopen_def Let_def split: bind_splits prod.splits)
      have "sys_ok s2" by (rule set_mode_keeps [OF f(1)], rule sys_ok_file [OF s1]) (simp add: file_ok_def)
      then show ?thesis by (rule read_clusters_keeps [OF f(2) file_sink_keeps])
    qed
  qed
qed

lemma fclose_keeps: "do_fclose fp s = Some (v, s') \<Longrightarrow> sys_ok s \<Longrightarrow> sys_ok s'"
  by (auto simp: do_fclose_def split: bind_splits if_splits dest: create_file_keeps set_mode_keeps)

lemma fread_keeps: "do_fread a sz n fp s = Some (v, s') \<Longrightarrow> sys_ok s \<Longrightarrow> sys_ok s'"
  by (auto simp: do_fread_def Let_def split: bind_splits if_splits)

lemma fgets_keeps: "do_fgets a n fp s = Some (v, s') \<Longrightarrow> sys_ok s \<Longrightarrow> sys_ok s'"
  by (auto simp: do_fgets_def split: bind_splits if_splits)

lemma appended_ok:
  assumes "memcpy (f_buffer f) (f_pos f) src q n = Some b" "file_ok f"
  shows "file_ok (f\<lparr>f_buffer := b, f_pos := f_pos f + n\<rparr>)"
proof -
  have "length b = 1024" using memcpy_length [OF assms(1)] assms(2) by (simp add: file_ok_def)
  moreover have "f_pos f + n \<le> 1024" using memcpy_room [OF assms(1)] assms(2) by (cases "n = 0") (simp_all add: file_ok_def)
  ultimately show ?thesis using assms(2) by (simp add: file_ok_def del: is_cstr.simps)
qed

lemma fwrite_keeps: "do_fwrite a sz n fp s = Some (v, s') \<Longrightarrow> sys_ok s \<Longrightarrow> sys_ok s'"
  by (auto simp: do_fwrite_def file_at_def Let_def split: bind_splits if_splits intro!: sys_ok_file appended_ok)

lemma fputs_keeps: "do_fputs str q fp s = Some (v, s') \<Longrightarrow> sys_ok s \<Longrightarrow> sys_ok s'"
  by (auto simp: do_fputs_def file_at_def split: bind_splits if_splits intro!: sys_ok_file appended_ok)

lemma save_keeps: "sys_ok s \<Longrightarrow> sys_ok (save_proc r s)"
  using save_proc_ok [of s r]
  by (auto simp: sys_ok_def save_proc_def upd_proc_def arrays_ok_def files_ok_def split: option.splits)

lemma file_call_keeps:
  assumes "sys_file_handler_main fl no a1 a2 a3 a4 s = Some (v, s')" "sys_ok s"
  shows "sys_ok s'"
proof -
  note run = assms(1) [unfolded sys_file_handler_main_def]
  consider "no = 0" | "no = 1" | "no = 2" | "no = 3" | "no = 4" | "no = 5" | "no \<notin> {0, 1, 2, 3, 4, 5}" by blast
  then show ?thesis
  proof cases
    case 1
    then show ?thesis using run fopen_keeps [OF _ assms(2)] by (auto split: bind_splits)
  next
    case 2
    then show ?thesis using run fclose_keeps [OF _ assms(2)] by (auto split: bind_splits)
  next
    case 3
    then show ?thesis using run fread_keeps [OF _ assms(2)] by (auto split: bind_splits)
  next
    case 4
    then show ?thesis using run fwrite_keeps [OF _ assms(2)] by (auto split: bind_splits)
  next
    case 5
    then show ?thesis using run fgets_keeps [OF _ assms(2)] by (auto split: bind_splits)
  next
    case 6
    then show ?thesis using run fputs_keeps [OF _ assms(2)] by (auto split: bind_splits)
  next
    case 7
    then show ?thesis using run assms(2) by simp
  qed
qed

lemma file_handler_keeps:
  assumes "sys_file_handler fl r s = Some (v, s')" "sys_ok s"
  shows "sys_ok s'"
proof -
  have "sys_ok (save_proc r (disable_k s))" using save_keeps [of "disable_k s"] assms(2) by simp
  from file_call_keeps [OF _ this] show ?thesis using assms(1) by (auto simp: sys_file_handler_def split: bind_splits)
qed

section \<open>Steps of the system\<close>

text \<open>
  A step of the kernel acts on the kernel's part of the state. A process may call the file system. The
  shell, which has the processor when there is no current process, does the commands for the disk; its
  printing and the creation of processes are among the kernel's steps. Listing a directory is a
  transfer of its sector and printing.
\<close>

inductive system_step :: "kbd \<times> 'a vfs_scheme \<Rightarrow> kbd \<times> 'a vfs_scheme \<Rightarrow> bool" where
  kernel: "system_step (k, s) (k', kernel.extend t (kernel.more s))"
    if "kernel_step (k, kernel.truncate s) (k', t)"
| file_call: "system_step (k, s) (k, s')" if "curr_proc s = Some c" "sys_file_handler fl r s = Some (v, s')"
| change_dir: "system_step (k, s) (k, s')" if "curr_proc s = None" "fat12_cd nb q s = Some (ok, s')"
| list_dir: "system_step (k, s) (k, s')" if "curr_proc s = None" "read_subdir s = Some s'"
| remove_file: "system_step (k, s) (k, s')" if "curr_proc s = None" "fat12_rm nb q s = Some (ok, s')"
| copy_file: "system_step (k, s) (k, s')" if "curr_proc s = None" "fat12_cp src p dst q s = Some (ok, s')"
| write_file: "system_step (k, s) (k, s')" if "curr_proc s = None" "fat12_create_file n nb q s = Some s'"
| read_disk: "system_step (k, s) (k, s')" if "curr_proc s = None" "read_sectors (ram_sink a 0) n cnt 0 s = Some s'"
| load: "system_step (k, s) (k, s')" if "curr_proc s = None" "load_program nb q s = Some (e, s')"

definition system_start :: "kbd \<times> 'a vfs_scheme \<Rightarrow> bool" where
  "system_start = (\<lambda>(k, s). kernel_start (k, kernel.truncate s) \<and> arrays_ok s \<and> files_ok s)"

abbreviation system_inv :: "kbd \<times> 'a vfs_scheme \<Rightarrow> bool" where
  "system_inv \<equiv> \<lambda>(k, s). sys_ok s"

lemma kernel_part:
  "proc_ok (kernel.truncate s) = proc_ok s" "proc_ok (kernel.extend t m) = proc_ok t"
  "arrays_ok (kernel.extend t (kernel.more s)) = arrays_ok s" "files_ok (kernel.extend t (kernel.more s)) = files_ok s"
  by (simp_all add: proc_ok_def proc_ok0_def kernel.defs)
    (cases s; simp add: arrays_ok_def files_ok_def)+

lemma system_step_keeps: "system_step u v \<Longrightarrow> system_inv u \<Longrightarrow> system_inv v"
proof (induction rule: system_step.induct)
  case (kernel k s k' t)
  then have "proc_ok t" using step_keeps [of "kernel.truncate s"] kernel_part(1) [of s] by (simp add: sys_ok_def)
  then show ?case using kernel by (simp add: sys_ok_def kernel_part)
next
  case (read_disk s a n cnt s' k)
  then show ?case using sys_disk.read_sectors_inv [OF _ sinks_keep(4)] by fastforce
qed (auto dest: file_handler_keeps cd_keeps read_subdir_keeps rm_keeps cp_keeps create_file_keeps load_program_keeps)

interpretation system_runs: invariant_system system_start system_step system_inv
proof
  show "system_inv ks" if "system_start ks" for ks :: "kbd \<times> 'a vfs_scheme"
    using that start_ok kernel_part(1) by (fastforce simp: system_start_def sys_ok_def)
qed (rule system_step_keeps)

section \<open>From the start of the machine\<close>

lemma arrays_fields [simp]:
  "arrays_ok (s\<lparr>k_io := x\<rparr>) = arrays_ok s" "arrays_ok (s\<lparr>k_ide := d\<rparr>) = arrays_ok s" "arrays_ok (s\<lparr>k_ram := m\<rparr>) = arrays_ok s"
  "arrays_ok (s\<lparr>k_tty := t\<rparr>) = arrays_ok s" "arrays_ok (s\<lparr>k_pit := q\<rparr>) = arrays_ok s" "arrays_ok (s\<lparr>k_tss := u\<rparr>) = arrays_ok s"
  by (simp_all add: arrays_ok_def)

lemma arrays_boot_fields [simp]:
  "arrays_ok ((v :: 'a vfs_scheme)\<lparr>file_list := l\<rparr>) = arrays_ok v"
  "arrays_ok ((b :: 'a boot_scheme)\<lparr>b_seg := g\<rparr>) = arrays_ok b" "arrays_ok (b\<lparr>b_idt := i\<rparr>) = arrays_ok b"
  "arrays_ok (proc_init b) = arrays_ok b" "arrays_ok (sem_init b) = arrays_ok b"
  by (simp_all add: arrays_ok_def proc_init_def sem_init_def)

interpretation array_disk: disk_invariant "arrays_ok :: 'a loader_scheme \<Rightarrow> bool"
  by unfold_locales simp_all

lemma arrays_init: "hal_initialize ga ta ia addr s = Some s' \<Longrightarrow> arrays_ok s' = arrays_ok s"
  by (auto simp: hal_initialize_def on_tty_def on_segs_def on_idt_def Let_def split: bind_splits)

lemma unpack_fat_length: "unpack_fat ph i j f = Some f' \<Longrightarrow> length f' = length f"
proof (induction ph i j f rule: unpack_fat.induct)
  case (1 ph i j f)
  then show ?case
    by (subst (asm) (2) unpack_fat.simps) (auto simp: wr32_def split: if_splits bind_splits)
qed

lemma boot_sinks_keep:
  "array_disk.keeps (boot_sink off n)" "array_disk.keeps (phys_sink off n)" "array_disk.keeps (root_sink off n)"
  by (auto simp: array_disk.keeps_def array_sink_def arrays_ok_def split: bind_splits dest!: memcpy_length)

lemma fat12_init_arrays:
  assumes "fat12_init s = Some (r, s')" "arrays_ok s"
  shows "arrays_ok s'"
proof -
  obtain s1 s2 f s3 where r: "read_sectors (boot_sink 0) 0 1 0 s = Some s1" "read_sectors (phys_sink 0) 1 9 0 s1 = Some s2"
    "unpack_fat (phys_fat s2) 0 0 (fat s2) = Some f" "read_sectors (root_sink 0) 19 14 0 (s2\<lparr>fat := f\<rparr>) = Some s3"
    "arrays_ok s' = arrays_ok s3"
    using assms(1) by (auto simp: fat12_init_def Let_def split: bind_splits)
  have "arrays_ok s2"
    by (rule array_disk.read_sectors_inv [OF r(2) boot_sinks_keep(2)], rule array_disk.read_sectors_inv [OF r(1) boot_sinks_keep(1)],
      rule assms(2))
  then have "arrays_ok (s2\<lparr>fat := f\<rparr>)" using unpack_fat_length [OF r(3)] by (simp add: arrays_ok_def)
  then show ?thesis using array_disk.read_sectors_inv [OF r(4) boot_sinks_keep(3)] r(5) by simp
qed

lemma initialize_arrays:
  assumes "initialize ga ta ia addr s = Some s'" "arrays_ok s"
  shows "arrays_ok s'"
  using assms(1) arrays_init [of ga ta ia addr s] assms(2)
  by (auto simp: initialize_def on_tty_def Let_def file_init_def split: bind_splits
    dest!: fat12_init_arrays file_init_loop_frame)

lemma boot_system:
  fixes s :: "'a boot_scheme"
  assumes "\<forall>h. addr h \<noteq> 0" "boot_memory s" "disk_ok 24 s"
  obtains s' where "kernel_main ga ta ia addr ra keys s = terminal_loop ra True keys s'" "\<And>k. system_start (k, s')"
proof -
  have disk: "disk_ok (24 + 0) s" using assms(3) by simp
  obtain s' s1 u b where s': "kernel_main ga ta ia addr ra keys s = terminal_loop ra True keys s'"
    "initialize ga ta ia addr s = Some s1" "s' = s1\<lparr>k_tty := u, k_io := b\<rparr>"
    "kernel_start (\<lparr>kb_char = 0, kb_ctrl = False\<rparr>, kernel.truncate s')" "files_ok s'"
    using boot_state [OF assms(1,2) disk, of ga ta ia ra keys "\<lparr>kb_char = 0, kb_ctrl = False\<rparr>"] by blast
  have start: "kernel_start (k, kernel.truncate s')" for k using s'(4) by (simp add: kernel_start_def)
  have "arrays_ok s" using assms(2) by (simp add: boot_memory_def arrays_ok_def)
  then have "arrays_ok s'" using initialize_arrays [OF s'(2)] by (simp add: s'(3))
  then show thesis using that s'(1,5) start by (simp add: system_start_def)
qed

lemma sys_ok_facts:
  assumes "sys_ok t"
  shows "proc_ok t \<and> (\<forall>i < 20. status (proc_list t ! i) = PROC_RUNNING \<longrightarrow> curr_proc t = Some i) \<and>
    view_ok (view (k_tty t)) \<and> path_ok (curr_path (k_tty t)) \<and>
    length (file_list t) = 10 \<and> (\<forall>f \<in> set (file_list t). f_pos f \<le> length (f_buffer f)) \<and> arrays_ok t"
proof -
  have ok: "proc_ok t" "files_ok t" "arrays_ok t" using assms by (simp_all add: sys_ok_def)
  have "status (proc_list t ! i) = PROC_RUNNING \<longrightarrow> curr_proc t = Some i" if "i < 20" for i
    using ok_slot [OF proc_ok_ok0 [OF ok(1)] that] by (auto simp: slot_ok_def)
  moreover have "f_pos f \<le> length (f_buffer f)" if "f \<in> set (file_list t)" for f
    using ok(2) that by (auto simp: files_ok_def file_ok_def)
  ultimately show ?thesis
    using ok tty_inv_view [OF ok_tty [OF ok(1)]] tty_path [OF ok_tty [OF ok(1)]] by (simp add: files_ok_def)
qed



end
