(* ===== verification/Power_On.thy ===== *)
theory Power_On
  imports System_Steps Run_Program
begin

text \<open>
  From power on to a running user program: the start of the kernel, the line typed at the shell, the
  command and \<^verbatim>\<open>exec\<close>, put together.
\<close>

section \<open>A line without editing\<close>

lemma print_char_inv: "tty_inv t \<Longrightarrow> c \<noteq> 8 \<Longrightarrow> \<exists>t'. print_char c t = Some t' \<and> tty_inv t'"
  using put_chars_inv [of t "[c]"] by (auto simp: no_bs_def split: bind_splits)

lemma getline_loop_plain:
  "tty_inv t \<Longrightarrow> typed res acc \<Longrightarrow> 0 \<notin> set acc \<Longrightarrow> length acc + length x < length res \<Longrightarrow> set x \<inter> {0, 8, 10, 13} = {} \<Longrightarrow>
    \<exists>res' t'. getline_loop (x @ 10 # keys) res (length acc) t = Some (res', keys, t') \<and>
      is_cstr res' 0 (rev acc @ x) \<and> tty_inv t'"
proof (induction x arbitrary: acc res t)
  case Nil
  obtain t1 where "print_char 10 t = Some t1" "tty_inv t1" using print_char_inv [OF Nil.prems(1), of 10] by auto
  then show ?case using Nil typed_end [OF Nil.prems(2,3)] by (simp add: wr_def del: is_cstr.simps)
next
  case (Cons c x)
  obtain t1 where t1: "print_char c t = Some t1" "tty_inv t1" using print_char_inv [OF Cons.prems(1), of c] Cons.prems(5) by auto
  have "\<exists>res' t'. getline_loop (x @ 10 # keys) (res[length acc := c]) (length (c # acc)) t1 = Some (res', keys, t') \<and>
      is_cstr res' 0 (rev (c # acc) @ x) \<and> tty_inv t'"
    using Cons.prems(3-5) by (intro Cons.IH [OF t1(2) typed_put [OF Cons.prems(2)]]) auto
  then show ?case using t1(1) Cons.prems(4,5) by (simp add: wr_def del: is_cstr.simps)
qed

lemma getline_plain:
  assumes "tty_inv t" "length x < length res" "set x \<inter> {0, 8, 10, 13} = {}"
  obtains res' t' where "getline (x @ 10 # keys) res t = Some (res', keys, t')" "is_cstr res' 0 x" "tty_inv t'"
proof -
  have "typed res []" "length ([] :: buf) + length x < length res" using assms(2) by (auto simp: typed_def)
  from getline_loop_plain [OF assms(1) this(1) _ this(2) assms(3), of keys] that show thesis
    by (auto simp: getline_def simp del: is_cstr.simps)
qed

section \<open>The command \<^verbatim>\<open>exec\<close>\<close>

lemma command_of_find:
  "is_cstr str 0 x \<Longrightarrow> \<forall>c \<in> set cs. 0 \<notin> set (chars c) \<Longrightarrow>
    command_of str cs = Some (case List.find (\<lambda>c. x = chars c) cs of None \<Rightarrow> [] | Some c \<Rightarrow> c)"
proof (induction cs)
  case (Cons c cs)
  have "is_cstr (lit c) 0 (chars c)" using Cons.prems(2) by (intro lit_cstr) simp
  from strcmp_cstr [OF Cons.prems(1) this] Cons show ?case by auto
qed simp

lemma command_exec:
  assumes "is_cstr str 0 (chars ''exec'')"
  shows "command_of str commands = Some ''exec''"
  using command_of_find [OF assms, of commands] by (simp add: commands_def)

text \<open>The line \<^verbatim>\<open>exec x\<close> hands the name behind the space to \<^verbatim>\<open>exec_user_prg\<close>.\<close>

lemma exec_line:
  fixes s :: "'a vfs_scheme"
  assumes "tty_inv (k_tty s)" "set x \<inter> {0, 8, 10, 13} = {}" "length x < 900"
  obtains str q t where "is_cstr str q x" "tty_inv t"
    "\<And>r s'. exec_user_prg ra str (Some q) (s\<lparr>k_tty := t\<rparr>) = Some (Switches r s') \<Longrightarrow>
      terminal_loop ra True (chars ''exec '' @ x @ 10 # keys) s = Some (keys, Switches r s')"
proof -
  let ?x = "chars ''exec'' @ 32 # x"
  have "length ?x < length (replicate 1000 (0 :: u8))" "set ?x \<inter> {0, 8, 10, 13} = {}" using assms(2,3) by auto
  then obtain res t where g: "getline (?x @ 10 # keys) (replicate 1000 0) (k_tty s) = Some (res, keys, t)"
    "is_cstr res 0 ?x" "tty_inv t" using getline_plain [OF assms(1)] by blast
  have "is_cstr (lit '' '') 0 [32]" by (simp add: lit_def rd_def)
  from strsep_found [OF this g(2)]
  obtain str q where q: "strsep res (Some 0) (lit '' '') = Some (Some 0, Some q, str)" "is_cstr str 0 (chars ''exec'')"
    "is_cstr str q x" by auto
  have "terminal_loop ra True (chars ''exec '' @ x @ 10 # keys) s = Some (keys, Switches r s')"
    if "exec_user_prg ra str (Some q) (s\<lparr>k_tty := t\<rparr>) = Some (Switches r s')" for r s'
  proof -
    have "run_line ra True (?x @ 10 # keys) s = Some (keys, Switches r s')"
      using g(1) q(1) command_exec [OF q(2)] that
      by (simp add: run_line_def run_command_def)
    then show ?thesis by (subst terminal_loop.simps) simp
  qed
  with q(3) g(3) show thesis by (rule that)
qed

section \<open>From power on\<close>

lemma start_idle:
  fixes s :: "'a vfs_scheme"
  assumes "kernel_start (k, kernel.truncate s)"
  shows "proc_ok s" "curr_pid s = 0" "\<forall>i < 20. status (proc_list s ! i) \<noteq> PROC_READY"
proof -
  show "proc_ok s" using start_ok [OF assms] by (simp add: kernel_part)
  show "curr_pid s = 0" "\<forall>i < 20. status (proc_list s ! i) \<noteq> PROC_READY"
    using assms by (auto simp: kernel_start_def kernel.defs proc_init_def)
qed


text \<open>A machine with a disk that has the program \<^verbatim>\<open>prg1.com\<close> in the clusters 2 and 4.\<close>

definition demo_power :: boot where
  "demo_power = demo_boot\<lparr>k_ide := (k_ide demo_boot)\<lparr>ide_sectors := \<lambda>i. if i = 1 then [0, 0, 0, 4, 0, 0, 0xFF, 0x0F, 0] @ replicate 503 0
     else if 19 \<le> i \<and> i < 33 then take 512 (drop (512 * (i - 19)) prg_root) else replicate 512 (of_nat i)\<rparr>\<rparr>"

lemma concat_sectors: "concat (map (\<lambda>i. take n (drop (n * i) xs)) [0..<k]) = take (n * k) xs"
  by (induction k) (simp_all add: take_add [symmetric] add.commute [of n])

lemma demo_power_disk:
  "concat (map (\<lambda>i. sector_of demo_power (19 + of_nat i)) [0..<14]) = prg_root"
  "chain (unpacked (concat (map (\<lambda>i. sector_of demo_power (1 + of_nat i)) [0..<9]))) 2 [2, 4]"
  "disk_ok 26 demo_power" "boot_memory demo_power"
  "sector_of demo_power 33 = replicate 512 33" "sector_of demo_power 35 = replicate 512 35"
proof -
  have ide: "ide_sectors (k_ide demo_power) i = (if i = 1 then [0, 0, 0, 4, 0, 0, 0xFF, 0x0F, 0] @ replicate 503 0
     else if 19 \<le> i \<and> i < 33 then take 512 (drop (512 * (i - 19)) prg_root) else replicate 512 (of_nat i))" for i
    by (simp add: demo_power_def)
  have "sector_of demo_power (19 + of_nat i) = take 512 (drop (512 * i) prg_root)" if "i < 14" for i
  proof -
    have "unat (19 + of_nat i :: u32) = 19 + i" using that by (simp add: unat_word_ariths unsigned_of_nat take_bit_nat_eq_self)
    then show ?thesis using that by (simp add: sector_of_def ide)
  qed
  then have "concat (map (\<lambda>i. sector_of demo_power (19 + of_nat i)) [0..<14]) = concat (map (\<lambda>i. take 512 (drop (512 * i) prg_root)) [0..<14])"
    by (intro arg_cong [where f = concat] map_cong) simp_all
  also have "\<dots> = prg_root" unfolding concat_sectors using prg_root_entry(1) by simp
  finally show "concat (map (\<lambda>i. sector_of demo_power (19 + of_nat i)) [0..<14]) = prg_root" .
  have s1: "sector_of demo_power 1 = [0, 0, 0, 4, 0, 0, 0xFF, 0x0F, 0] @ replicate 503 0" by (simp add: sector_of_def ide)
  let ?rest = "replicate 503 0 @ concat (map (\<lambda>i. sector_of demo_power (1 + of_nat i)) [1..<9])"
  have "concat (map (\<lambda>i. sector_of demo_power (1 + of_nat i)) [0..<9]) = [0, 0, 0, 4, 0, 0, 0xFF, 0x0F, 0] @ ?rest"
    using s1 by (simp add: upt_conv_Cons [of 0 9])
  then have F: "unpacked (concat (map (\<lambda>i. sector_of demo_power (1 + of_nat i)) [0..<9])) = [0, 0, 4, 0, 0xFFF, 0] @ unpacked ?rest"
    by (simp add: entry_even_def entry_odd_def)
  show "chain (unpacked (concat (map (\<lambda>i. sector_of demo_power (1 + of_nat i)) [0..<9]))) 2 [2, 4]"
    unfolding F by (simp add: chain_end_def)
  show "sector_of demo_power 33 = replicate 512 33" "sector_of demo_power 35 = replicate 512 35"
    by (simp_all add: sector_of_def ide)
  have "512 \<le> 7168 - 512 * (i - 19)" if "i < 33" for i :: nat using that by linarith
  then have "length (ide_sectors (k_ide demo_power) i) = 512" for i
    unfolding ide using prg_root_entry(1) by (simp add: min_absorb2)
  then show "disk_ok 26 demo_power"
    using disk_ok_less [OF demo_vfs_disk, of 26]
    by (simp add: disk_ok_def readies_def demo_power_def demo_boot_def vfs.defs)
  show "boot_memory demo_power" using demo_boot_ready(1) by (simp add: boot_memory_def demo_power_def)
qed


end
