(* ===== verification/Sem_Programs.thy ===== *)
theory Sem_Programs
  imports Program_Runs
begin

text \<open>
  Programs whose processes synchronise by semaphores alone, on textbook semaphores: a value that is never
  negative, and sleepers that a release wakes. The kernel's semaphores keep only one sleeper each
  and let a process pass that nobody else could replace; a program for which no two processes
  ever sleep on the same semaphore and never all processes sleep does not see the difference.
\<close>

section \<open>Textbook semaphores\<close>

text \<open>The processes are \<open>A\<close>; \<open>V\<close> has the units of each semaphore, \<open>W\<close> the semaphore a process sleeps on.
  The slots of \<open>room\<close> are those that were free: the creation of a process does not fail before they are taken.\<close>

inductive ideal_step :: "nat set \<Rightarrow> (nat \<Rightarrow> 'p \<Rightarrow> 'm \<Rightarrow> ('p, 'm) action) \<Rightarrow>
    (nat \<Rightarrow> 'p) \<times> 'm \<times> nat set \<times> (nat \<Rightarrow> int) \<times> (nat \<Rightarrow> nat option) \<Rightarrow>
    (nat \<Rightarrow> 'p) \<times> 'm \<times> nat set \<times> (nat \<Rightarrow> int) \<times> (nat \<Rightarrow> nat option) \<Rightarrow> bool" for room prog where
  i_local: "ideal_step room prog (pc, m, A, V, W) (pc(c := p), m', A, V, W)"
    if "c \<in> A" "W c = None" "prog c (pc c) m = Local p m'"
| i_take: "ideal_step room prog (pc, m, A, V, W) (pc(c := p), m, A, V(k := V k - 1), W)"
    if "c \<in> A" "W c = None" "prog c (pc c) m = Acquire i p" "k = nat (sint i)" "0 < V k"
| i_sleep: "ideal_step room prog (pc, m, A, V, W) (pc(c := p), m, A, V, W(c \<mapsto> k))"
    if "c \<in> A" "W c = None" "prog c (pc c) m = Acquire i p" "k = nat (sint i)" "V k \<le> 0"
| i_give: "ideal_step room prog (pc, m, A, V, W) (pc(c := p), m, A, V(k := V k + 1), W)"
    if "c \<in> A" "W c = None" "prog c (pc c) m = Release i p" "k = nat (sint i)" "\<forall>d. W d \<noteq> Some k"
| i_wake: "ideal_step room prog (pc, m, A, V, W) (pc(c := p), m, A, V, W(d := None))"
    if "c \<in> A" "W c = None" "prog c (pc c) m = Release i p" "k = nat (sint i)" "W d = Some k"
| i_create: "ideal_step room prog (pc, m, A, V, W) (pc(c := p, n := p'), m, insert n A, V, W)"
    if "c \<in> A" "W c = None" "prog c (pc c) m = Fork p p' pf \<or> prog c (pc c) m = Spawn p p' pf" "n \<notin> A"
| i_full: "ideal_step room prog (pc, m, A, V, W) (pc(c := pf), m, A, V, W)"
    if "c \<in> A" "W c = None" "prog c (pc c) m = Fork p p' pf \<or> prog c (pc c) m = Spawn p p' pf" "room \<subseteq> A"

inductive_cases ideal_stepE: "ideal_step room prog (pc, m, A, V, W) v"

text \<open>How the scheduler holds such a state, for the semaphores \<open>S\<close>.\<close>

definition slot_holds :: "nat set \<Rightarrow> nat set \<Rightarrow> (nat \<Rightarrow> nat option) \<Rightarrow> sched \<Rightarrow> nat \<Rightarrow> bool" where
  "slot_holds room A W a j \<longleftrightarrow>
     (if j \<in> A then s_st a j = (if W j \<noteq> None then PROC_WAITING else if s_cur a = Some j then PROC_RUNNING else PROC_READY)
      else W j = None \<and> s_st a j \<noteq> PROC_READY \<and> s_st a j \<noteq> PROC_RUNNING \<and> (j \<in> room \<longrightarrow> j < 20 \<and> s_st a j = PROC_NEW))"

definition sem_holds :: "(nat \<Rightarrow> int) \<Rightarrow> (nat \<Rightarrow> nat option) \<Rightarrow> sched \<Rightarrow> nat \<Rightarrow> bool" where
  "sem_holds V W a k \<longleftrightarrow> 0 \<le> V k \<and> (\<exists>h. s_sem a k = Some (V k - of_bool (\<exists>c. W c = Some k), h) \<and>
     (\<forall>c. W c = Some k \<longrightarrow> h = Some c \<and> V k = 0))"

definition holds :: "nat set \<Rightarrow> nat set \<Rightarrow> nat set \<Rightarrow> (nat \<Rightarrow> int) \<Rightarrow> (nat \<Rightarrow> nat option) \<Rightarrow> sched \<Rightarrow> bool" where
  "holds room S A V W a \<longleftrightarrow> (\<exists>c. s_cur a = Some c \<and> c \<in> A \<and> W c = None) \<and>
     (\<forall>j. slot_holds room A W a j) \<and> (\<forall>k \<in> S. sem_holds V W a k)"

lemma holds_parts:
  assumes "holds room S A V W a"
  shows "\<exists>c. s_cur a = Some c \<and> c \<in> A \<and> W c = None" "slot_holds room A W a j" "k \<in> S \<Longrightarrow> sem_holds V W a k"
  using assms by (simp_all add: holds_def)

lemma holdsI:
  "s_cur a = Some c \<Longrightarrow> c \<in> A \<Longrightarrow> W c = None \<Longrightarrow> (\<And>j. slot_holds room A W a j) \<Longrightarrow>
    (\<And>k. k \<in> S \<Longrightarrow> sem_holds V W a k) \<Longrightarrow> holds room S A V W a"
  by (simp add: holds_def)

text \<open>What a semaphore holds does not depend on the processes that sleep on others.\<close>

lemma sem_holds_cong:
  "s_sem a' k = s_sem a k \<Longrightarrow> V' k = V k \<Longrightarrow> (\<And>x. (W' x = Some k) = (W x = Some k)) \<Longrightarrow>
    sem_holds V' W' a' k = sem_holds V W a k"
  by (simp add: sem_holds_def)

lemma holdsD:
  assumes "holds room S A V W a" "s_cur a = Some c"
  shows "c \<in> A" "W c = None" "s_st a c = PROC_RUNNING"
  using holds_parts(1,2) [OF assms(1)] assms(2) by (auto simp: slot_holds_def split: if_splits)

lemma holds_dispatch:
  assumes "holds room S A V W a" "s_st a k = PROC_READY"
  shows "holds room S A V W (dispatch k a)"
proof -
  obtain c where c: "s_cur a = Some c" using holds_parts(1) [OF assms(1)] by auto
  note cur = holdsD [OF assms(1) c]
  note st = holds_parts(2) [OF assms(1), unfolded slot_holds_def]
  have k: "k \<in> A" "W k = None" "k \<noteq> c" using st [of k] assms(2) cur(3) by (auto split: if_splits)
  show ?thesis
  proof (rule holdsI [of _ k])
    show "slot_holds room A W (dispatch k a) j" for j
      using st [of j] k cur c by (auto simp: slot_holds_def split: if_splits)
    show "sem_holds V W (dispatch k a) i" if "i \<in> S" for i
      using holds_parts(3) [OF assms(1) that] by (simp add: sem_holds_def)
  qed (use k in simp_all)
qed

lemma holds_resched: "holds room S A V W a \<Longrightarrow> resched a a' \<Longrightarrow> holds room S A V W a'"
  by (auto simp: resched_def split: if_splits intro: holds_dispatch)

text \<open>The steps that do not reschedule.\<close>

lemma holds_set_sem:
  assumes "holds room S A V W a" "s_sem a k = Some (v, h)" "\<forall>c. W c \<noteq> Some k" "0 \<le> x"
  shows "holds room S A (V(k := x)) W (set_sem k (x, h) a)"
proof -
  obtain c where c: "s_cur a = Some c" using holds_parts(1) [OF assms(1)] by auto
  show ?thesis
  proof (rule holdsI [of _ c])
    show "slot_holds room A W (set_sem k (x, h) a) j" for j
      using holds_parts(2) [OF assms(1), of j] by (simp add: slot_holds_def)
    show "sem_holds (V(k := x)) W (set_sem k (x, h) a) i" if "i \<in> S" for i
      using holds_parts(3) [OF assms(1) that] assms(3,4) by (cases "i = k") (simp_all add: sem_holds_def)
  qed (use c holdsD [OF assms(1) c] in simp_all)
qed

lemma holds_create:
  assumes "holds room S A V W a" "a_create n d a a'"
  shows "n \<notin> A" "holds room S (insert n A) V W a'"
proof -
  obtain c where c: "s_cur a = Some c" using holds_parts(1) [OF assms(1)] by auto
  note st = holds_parts(2) [OF assms(1), unfolded slot_holds_def]
  have n: "s_st a n = PROC_NEW" using assms(2) by (simp add: a_create_def)
  then show nA: "n \<notin> A" using st [of n] by (auto split: if_splits)
  then have w: "W n = None" "c \<noteq> n" using st [of n] holdsD(1) [OF assms(1) c] by auto
  show "holds room S (insert n A) V W a'"
  proof (rule holdsI [of _ c])
    show "slot_holds room (insert n A) W a' j" for j
      using st [of j] assms(2) nA w c by (auto simp: slot_holds_def a_create_def)
    show "sem_holds V W a' i" if "i \<in> S" for i
      using holds_parts(3) [OF assms(1) that] assms(2) by (simp add: sem_holds_def a_create_def)
  qed (use c holdsD [OF assms(1) c] assms(2) in \<open>simp_all add: a_create_def\<close>)
qed

text \<open>Going to sleep on a semaphore that nobody sleeps on, when another process can go on.\<close>

lemma holds_sleep:
  assumes "holds room S A V W a" "s_cur a = Some c" "k \<in> S" "s_sem a k = Some (v, h)" "\<forall>d. W d \<noteq> Some k" "V k \<le> 0"
    and "d \<in> A" "(W(c \<mapsto> k)) d = None"
    and "a_wait c (set_sem k (v - 1, Some c) a\<lparr>s_next := x\<rparr>) a'"
  shows "holds room S A V (W(c \<mapsto> k)) a'"
proof -
  let ?b = "set_st c PROC_WAITING (set_sem k (v - 1, Some c) a\<lparr>s_next := x\<rparr>)"
  note st = holds_parts(2) [OF assms(1), unfolded slot_holds_def]
  note cur = holdsD [OF assms(1,2)]
  have v: "V k = 0" "v = 0" using holds_parts(3) [OF assms(1,3)] assms(4-6) by (auto simp: sem_holds_def)
  have d: "d \<noteq> c" "W d = None" using assms(8) by (auto split: if_splits)
  have "s_st ?b d = PROC_READY" using st [of d] assms(2,7) d by simp
  then obtain e where e: "s_st ?b e = PROC_READY" "a' = dispatch e ?b"
    using assms(9) unfolding a_wait_def resched_def by (auto split: if_splits)
  have ec: "e \<noteq> c" using e(1) by auto
  then have "s_st a e = PROC_READY" using e(1) by simp
  then have eA: "e \<in> A" "W e = None" using st [of e] by (auto split: if_splits)
  show ?thesis
  proof (rule holdsI [of _ e])
    show "slot_holds room A (W(c \<mapsto> k)) a' j" for j
      using st [of j] e ec eA cur assms(2) by (auto simp: slot_holds_def split: if_splits)
    show "sem_holds V (W(c \<mapsto> k)) a' j" if "j \<in> S" for j
    proof (cases "j = k")
      case True
      then show ?thesis using v assms(5) e(2) by (auto simp: sem_holds_def)
    next
      case False
      then have "sem_holds V (W(c \<mapsto> k)) a' j = sem_holds V W a j" using e(2) cur(2) by (intro sem_holds_cong) auto
      then show ?thesis using holds_parts(3) [OF assms(1) that] by simp
    qed
  qed (use e(2) eA ec in simp_all)
qed

text \<open>The release of a semaphore somebody sleeps on.\<close>

lemma holds_wake:
  assumes "holds room S A V W a" "s_cur a = Some c" "k \<in> S" "s_sem a k = Some (v, h)" "W d = Some k"
    and "a_release k c a a'"
  shows "holds room S A V (W(d := None)) a'"
proof -
  note st = holds_parts(2) [OF assms(1), unfolded slot_holds_def]
  note cur = holdsD [OF assms(1,2)]
  have all: "\<forall>c. W c = Some k \<longrightarrow> h = Some c \<and> V k = 0" "v = V k - of_bool (\<exists>c. W c = Some k)"
    using holds_parts(3) [OF assms(1,3)] assms(4) by (simp_all add: sem_holds_def)
  then have v: "V k = 0" "v = - 1" "h = Some d" using assms(5) by auto
  have one: "x = d" if "W x = Some k" for x using all(1) that assms(5) by (metis option.inject)
  have dA: "d \<in> A" "s_st a d = PROC_WAITING" "d \<noteq> c" using st [of d] assms(5) cur(2) by (auto split: if_splits)
  let ?b = "set_st d PROC_READY (set_sem k (0, s_next a c) a)"
  have r: "resched ?b a'" using assms(4,6) v dA(2) by (simp add: a_release_def a_wake_def)
  have "holds room S A V (W(d := None)) ?b"
  proof (rule holdsI [of _ c])
    show "slot_holds room A (W(d := None)) ?b j" for j using st [of j] dA assms(2) by (auto simp: slot_holds_def)
    show "sem_holds V (W(d := None)) ?b j" if "j \<in> S" for j
    proof (cases "j = k")
      case True
      then show ?thesis using v one by (auto simp: sem_holds_def)
    next
      case False
      then have "sem_holds V (W(d := None)) ?b j = sem_holds V W a j" using assms(5) by (intro sem_holds_cong) auto
      then show ?thesis using holds_parts(3) [OF assms(1) that] by simp
    qed
  qed (use assms(2) cur dA(3) in simp_all)
  then show ?thesis using r by (rule holds_resched)
qed

section \<open>Programs on them\<close>

text \<open>The points where an action can leave its process.\<close>

fun targets :: "('p, 'm) action \<Rightarrow> 'p set" where
  "targets (Local p m) = {p}"
| "targets (Acquire i p) = {p}"
| "targets (Release i p) = {p}"
| "targets (End p) = {p}"
| "targets (Await p) = {p}"
| "targets (Fork p p' pf) = {p, pf}"
| "targets (Spawn p p' pf) = {p, pf}"
| "targets (Join p) = {p}"
| "targets (End_thread p) = {p}"
| "targets (Return p) = {p}"
| "targets Halt = {}"

text \<open>The actions of such a program, with the semaphores \<open>S\<close>.\<close>

fun sem_action :: "nat set \<Rightarrow> ('p, 'm) action \<Rightarrow> bool" where
  "sem_action S (Local p m) = True"
| "sem_action S (Acquire i p) = (0 \<le> sint i \<and> nat (sint i) \<in> S)"
| "sem_action S (Release i p) = (0 \<le> sint i \<and> nat (sint i) \<in> S)"
| "sem_action S (Fork p p' pf) = True"
| "sem_action S Halt = True"
| "sem_action S _ = False"

locale sem_program =
  fixes room :: "nat set" and prog :: "nat \<Rightarrow> 'p \<Rightarrow> 'm \<Rightarrow> ('p, 'm) action" and S :: "nat set"
    and inv :: "(nat \<Rightarrow> 'p) \<times> 'm \<times> nat set \<times> (nat \<Rightarrow> int) \<times> (nat \<Rightarrow> nat option) \<Rightarrow> bool"
  assumes step_kept: "inv u \<Longrightarrow> ideal_step room prog u v \<Longrightarrow> inv v"
    and one_sleeps: "inv (pc, m, A, V, W) \<Longrightarrow> W c = Some k \<Longrightarrow> W d = Some k \<Longrightarrow> c = d"
    and one_awake: "inv (pc, m, A, V, W) \<Longrightarrow> \<exists>c \<in> A. W c = None"
    and actions: "inv (pc, m, A, V, W) \<Longrightarrow> c \<in> A \<Longrightarrow> sem_action S (prog c (pc c) m)"
begin

definition runs_inv :: "(nat \<Rightarrow> 'p) \<times> 'm \<times> sched \<Rightarrow> bool" where
  "runs_inv = (\<lambda>(pc, m, a). \<exists>A V W. inv (pc, m, A, V, W) \<and> holds room S A V W a)"

lemma runs_invI: "inv (pc, m, A, V, W) \<Longrightarrow> holds room S A V W a \<Longrightarrow> runs_inv (pc, m, a)"
  by (auto simp: runs_inv_def)

lemma acquire_kept:
  assumes "inv (pc, m, A, V, W)" "holds room S A V W a" "s_cur a = Some c" "prog c (pc c) m = Acquire i p"
    and "a_acquire (nat (sint i)) c a a'"
  shows "runs_inv (pc(c := p), m, a')"
proof -
  let ?k = "nat (sint i)"
  note cur = holdsD [OF assms(2,3)]
  have k: "?k \<in> S" using actions [OF assms(1) cur(1)] assms(4) by simp
  obtain h where h: "s_sem a ?k = Some (V ?k - of_bool (\<exists>c. W c = Some ?k), h)" "0 \<le> V ?k"
    "\<forall>c. W c = Some ?k \<longrightarrow> h = Some c \<and> V ?k = 0" using holds_parts(3) [OF assms(2) k] by (auto simp: sem_holds_def)
  show ?thesis
  proof (cases "0 < V ?k")
    case True
    then have w: "\<forall>c. W c \<noteq> Some ?k" using h(3) by auto
    then have a': "a' = set_sem ?k (V ?k - 1, h) a" using assms(5) h(1) True by (simp add: a_acquire_def)
    have "inv (pc(c := p), m, A, V(?k := V ?k - 1), W)"
      by (rule step_kept [OF assms(1) i_take [where prog = prog and c = c and pc = pc and m = m and W = W and V = V, OF cur(1,2) assms(4) refl True]])
    then show ?thesis using holds_set_sem [OF assms(2) h(1) w, of "V ?k - 1"] True by (auto simp: a' intro: runs_invI)
  next
    case False
    then have v: "V ?k \<le> 0" by simp
    let ?W = "W(c \<mapsto> ?k)"
    have inv: "inv (pc(c := p), m, A, V, ?W)"
      by (rule step_kept [OF assms(1) i_sleep [where prog = prog and c = c and pc = pc and m = m and W = W and V = V, OF cur(1,2) assms(4) refl v]])
    have w: "\<forall>d. W d \<noteq> Some ?k"
    proof (intro allI notI)
      fix d assume "W d = Some ?k"
      then show False using one_sleeps [OF inv, of c ?k d] cur(2) by (cases "d = c") auto
    qed
    obtain d where d: "d \<in> A" "?W d = None" using one_awake [OF inv] by blast
    have "a_wait c (set_sem ?k (V ?k - of_bool (\<exists>c. W c = Some ?k) - 1, Some c) a\<lparr>s_next := (s_next a)(c := h)\<rparr>) a'"
      using assms(5) h(1) v w by (simp add: a_acquire_def)
    from holds_sleep [OF assms(2,3) k h(1) w v d this] show ?thesis by (rule runs_invI [OF inv])
  qed
qed

lemma release_kept:
  assumes "inv (pc, m, A, V, W)" "holds room S A V W a" "s_cur a = Some c" "prog c (pc c) m = Release i p"
    and "a_release (nat (sint i)) c a a'"
  shows "runs_inv (pc(c := p), m, a')"
proof -
  let ?k = "nat (sint i)"
  note cur = holdsD [OF assms(2,3)]
  have k: "?k \<in> S" using actions [OF assms(1) cur(1)] assms(4) by simp
  obtain h where h: "s_sem a ?k = Some (V ?k - of_bool (\<exists>c. W c = Some ?k), h)" "0 \<le> V ?k"
    using holds_parts(3) [OF assms(2) k] by (auto simp: sem_holds_def)
  show ?thesis
  proof (cases "\<exists>d. W d = Some ?k")
    case True
    then obtain d where d: "W d = Some ?k" by blast
    have "inv (pc(c := p), m, A, V, W(d := None))"
      by (rule step_kept [OF assms(1) i_wake [where prog = prog and c = c and pc = pc and m = m and W = W and V = V, OF cur(1,2) assms(4) refl d]])
    then show ?thesis using holds_wake [OF assms(2,3) k h(1) d assms(5)] by (rule runs_invI)
  next
    case False
    then have w: "\<forall>d. W d \<noteq> Some ?k" by simp
    have a': "a' = set_sem ?k (V ?k + 1, h) a" using assms(5) h False by (simp add: a_release_def)
    have "inv (pc(c := p), m, A, V(?k := V ?k + 1), W)"
      by (rule step_kept [OF assms(1) i_give [where prog = prog and c = c and pc = pc and m = m and W = W and V = V, OF cur(1,2) assms(4) refl w]])
    then show ?thesis using holds_set_sem [OF assms(2) h(1) w, of "V ?k + 1"] h(2) by (auto simp: a' intro: runs_invI)
  qed
qed

lemma sched_kept:
  assumes "runs_inv u" "sched_step prog u v"
  shows "runs_inv v"
proof -
  obtain pc m a where u: "u = (pc, m, a)" by (metis prod.exhaust)
  obtain A V W where i: "inv (pc, m, A, V, W)" "holds room S A V W a" using assms(1) by (auto simp: u runs_inv_def)
  note cur = holdsD [OF i(2)]
  note act = actions [OF i(1) cur(1)]
  show ?thesis using assms(2) unfolding u
  proof cases
    case s_tick
    then show ?thesis using i holds_resched [OF i(2)] by (auto simp: a_tick_def intro: runs_invI)
  next
    case (s_local c p m')
    have "inv (pc(c := p), m', A, V, W)"
      by (rule step_kept [OF i(1) i_local [where prog = prog and c = c and pc = pc and m = m and W = W and V = V, OF cur(1,2) [OF s_local(2)] s_local(3)]])
    then show ?thesis unfolding s_local(1) using i(2) by (rule runs_invI)
  next
    case (s_acquire c i' p)
    then show ?thesis using acquire_kept [OF i] by simp
  next
    case (s_release c i' p)
    then show ?thesis using release_kept [OF i] by simp
  next
    case (s_create c p p' pf n)
    note n = holds_create [OF i(2) s_create(4)]
    have "inv (pc(c := p, n := p'), m, insert n A, V, W)"
      by (rule step_kept [OF i(1) i_create [where prog = prog and c = c and pc = pc and m = m and W = W and V = V, OF cur(1,2) [OF s_create(2)] s_create(3) n(1)]])
    then show ?thesis unfolding s_create(1) using n(2) by (rule runs_invI)
  next
    case (s_full c p p' pf)
    have "x \<in> A" if "x \<in> room" for x
      using holds_parts(2) [OF i(2), of x] s_full(4) that by (auto simp: slot_holds_def split: if_splits)
    then have "room \<subseteq> A" by blast
    have "inv (pc(c := pf), m, A, V, W)"
      by (rule step_kept [OF i(1) i_full [where prog = prog and c = c and pc = pc and m = m and W = W and V = V, OF cur(1,2) [OF s_full(2)] s_full(3) \<open>room \<subseteq> A\<close>]])
    then show ?thesis unfolding s_full(1) using i(2) by (rule runs_invI)
  qed (use act in \<open>fastforce+\<close>)
qed

end

sublocale sem_program \<subseteq> scheduled_program prog runs_inv
  by unfold_locales (rule sched_kept)

context sem_program
begin

lemma inv_reached:
  assumes "(run_step prog)\<^sup>*\<^sup>* x y" "kernel_good (r_kern x)" "inv (r_pc x, r_mem x, A, V, W)" "holds room S A V W (sched_of (r_kern x))"
  obtains A' V' W' where "kernel_good (r_kern y)" "inv (r_pc y, r_mem y, A', V', W')" "holds room S A' V' W' (sched_of (r_kern y))"
  using inv_runs [OF assms(1,2)] runs_invI [OF assms(3,4)] by (auto simp: run_view_def runs_inv_def)

text \<open>The process that has the processor can always make its next step.\<close>

lemma progress:
  assumes "kernel_good (r_kern y)" "inv (r_pc y, r_mem y, A, V, W)" "holds room S A V W (sched_of (r_kern y))"
    and "curr_proc (r_kern y) = Some c" "prog c (r_pc y c) (r_mem y) \<noteq> Halt"
  shows "c \<in> A \<and> W c = None \<and> (\<exists>z. run_step prog y z \<and> r_pc z c \<in> targets (prog c (r_pc y c) (r_mem y)))"
proof -
  let ?s = "r_kern y"
  have ok: "proc_ok ?s" using assms(1) by (simp add: kernel_good_def)
  have "s_cur (sched_of ?s) = Some c" using assms(4) by simp
  note cur = holdsD [OF assms(3) this]
  note call = handler_defined [OF ok assms(4)]
  note act = actions [OF assms(2) cur(1)]
  have sem: "sint i < int (length (sem_list ?s))" "0 \<le> sem_val (sem_list ?s ! nat (sint i)) \<or> sem_head (sem_list ?s ! nat (sint i)) \<noteq> None"
    if i: "0 \<le> sint i" "nat (sint i) \<in> S" for i :: u32
  proof -
    obtain h where "s_sem (sched_of ?s) (nat (sint i)) = Some (V (nat (sint i)) - of_bool (\<exists>c. W c = Some (nat (sint i))), h)"
      "0 \<le> V (nat (sint i))" "\<forall>c. W c = Some (nat (sint i)) \<longrightarrow> h = Some c"
      using holds_parts(3) [OF assms(3) i(2)] by (auto simp: sem_holds_def)
    then show "sint i < int (length (sem_list ?s))" "0 \<le> sem_val (sem_list ?s ! nat (sint i)) \<or> sem_head (sem_list ?s ! nat (sint i)) \<noteq> None"
      using i(1) by (auto simp: sched_of_def split: if_splits)
  qed
  have "\<exists>z. run_step prog y z \<and> r_pc z c \<in> targets (prog c (r_pc y c) (r_mem y))"
  proof (cases "prog c (r_pc y c) (r_mem y)")
    case (Local p m)
    from run_step.local [where prog = prog and x = y and c = c, OF assms(4) Local] show ?thesis using Local by fastforce
  next
    case (Acquire i p)
    obtain z where "sem_wait i zero_regs ?s = Some z"
      using call [of "zero_regs\<lparr>r_ebx := i, r_eax := 21\<rparr>"] act sem(1) [of i] Acquire by (auto simp: sem_wait_def call_ok_def)
    from run_step.acquire [where prog = prog and x = y and c = c, OF assms(4) Acquire this] show ?thesis using Acquire by fastforce
  next
    case (Release i p)
    obtain z where "sem_signal i zero_regs ?s = Some z"
      using call [of "zero_regs\<lparr>r_ebx := i, r_eax := 22\<rparr>"] act sem [of i] Release by (auto simp: sem_signal_def call_ok_def Let_def)
    from run_step.release [where prog = prog and x = y and c = c, OF assms(4) Release this] show ?thesis using Release by fastforce
  next
    case (Fork p p' pf)
    obtain z where z: "fork zero_regs ?s = Some z"
      using call [of "zero_regs\<lparr>r_eax := 10\<rparr>"] by (auto simp: fork_def call_ok_def)
    obtain v s' where v: "z = Returns v s'" using fork_creates [OF ok assms(4) z] by metis
    have "c \<noteq> unat (curr_pid ?s)" using ok_curr [OF proc_ok_ok0 [OF ok] assms(4)] by simp
    then show ?thesis
      using run_step.fork [where prog = prog and x = y and c = c, OF assms(4) Fork z [unfolded v]] Fork
      by (cases "v = - 1") fastforce+
  qed (use act assms(5) in simp_all)
  then show ?thesis using cur(1,2) by blast
qed

end

section \<open>The start of a program\<close>

text \<open>The program's first process runs, no other is ready; it has got the semaphores of \<open>G\<close>.\<close>

definition starts :: "(nat \<rightharpoonup> int) \<Rightarrow> nat \<Rightarrow> kernel \<Rightarrow> bool" where
  "starts G f s \<longleftrightarrow> proc_ok s \<and> links_ok (sched_of s) \<and> running s f \<and> (\<forall>j. s_st (sched_of s) j \<noteq> PROC_READY) \<and>
     length (sem_list s) = 100 \<and>
     (\<forall>k v. G k = Some v \<longrightarrow> sem_used (sem_list s ! k) \<and> (\<exists>h. s_sem (sched_of s) k = Some (v, h)))"

lemma starts_get_sem:
  assumes "starts G f s" "get_sem v r s = Some (Returns x s')" "0 \<le> sint x"
  shows "nat (sint x) \<notin> dom G" "starts (G(nat (sint x) \<mapsto> sint v)) f s'"
proof -
  let ?r = "r\<lparr>r_ebx := v, r_eax := 20\<rparr>" and ?k = "nat (sint x)"
  let ?s = "save_proc ?r (disable_k s)"
  note st = assms(1) [unfolded starts_def]
  have ok: "proc_ok s" "curr_proc s = Some f" "length (sem_list s) = 100" using st by (simp_all add: running_def)
  note g = get_sem_sched [OF ok assms(2,3)]
  obtain n t where n: "do_getsem (sint v) ?s = (n, t)" by (metis prod.exhaust)
  have x: "x = word_of_int n" "s' = enable_k t"
    using assms(2) n by (simp_all add: get_sem_def sys_interrupt_handler_def sys_interrupt_handler_main_def)
  have "n \<noteq> - 1" using assms(3) x(1) by auto
  then obtain i where i: "n = int i" "i < 100" "\<not> sem_used (sem_list s ! i)"
    "t = upd_sem i (\<lambda>x. x\<lparr>sem_val := sint v, sem_used := True\<rparr>) ?s"
    using n ok(3) by (auto simp: do_getsem_def sem_alloc_def find_first_Some split: option.splits)
  have "sint x = int i" using i(2) unfolding x(1) i(1) signed_of_int by (simp add: signed_take_bit_int_eq_self)
  then have k: "?k = i" by simp
  show new: "?k \<notin> dom G" using st i(3) unfolding k by blast
  obtain u h where h: "sched_of s' = set_sem ?k (sint v, h) (sched_of s)" "s_sem (sched_of s) ?k = Some (u, h)"
    using g(5) by blast
  have used: "sem_used (sem_list s' ! j) \<longleftrightarrow> j = i \<or> sem_used (sem_list s ! j)" for j
    using ok(3) i(2) by (auto simp: x(2) i(4) nth_list_update)
  have "f < 20" by (rule ok_taken(1) [OF proc_ok_ok0 [OF ok(1)] ok(2)])
  moreover have "s_st (sched_of s') f = PROC_RUNNING"
    using st \<open>f < 20\<close> unfolding h(1) by (simp add: sched_of_def running_def)
  ultimately have "running s' f" using g(2) by (simp add: running_def sched_of_def)
  moreover have "links_ok (sched_of s')" using st h(2) unfolding h(1) by (auto simp: links_ok_def)
  ultimately show "starts (G(?k \<mapsto> sint v)) f s'"
    using st g(1,4) used unfolding starts_def by (auto simp: h(1) k)
qed

definition free_slots :: "kernel \<Rightarrow> nat set" where
  "free_slots s = {unat (curr_pid s)..<20}"

lemma starts_run:
  assumes "starts G f s" "\<And>k. k \<in> S \<Longrightarrow> G k = Some (V k) \<and> 0 \<le> V k"
  shows "kernel_good s" "holds (free_slots s) S {f} V (\<lambda>_. None) (sched_of s)"
proof -
  note st = assms(1) [unfolded starts_def]
  show "kernel_good s" using st by (simp add: kernel_good_def)
  have cur: "curr_proc s = Some f" using st by (simp add: running_def)
  note ok = proc_ok_ok0 [OF conjunct1 [OF st]]
  show "holds (free_slots s) S {f} V (\<lambda>_. None) (sched_of s)"
  proof (rule holdsI [of _ f])
    have "s_st (sched_of s) j \<noteq> PROC_RUNNING" if "j \<noteq> f" for j
      using ok_slot [OF ok, of j] cur that by (auto simp: sched_of_def slot_ok_def)
    moreover have "s_st (sched_of s) f = PROC_RUNNING" using st ok_taken(1) [OF ok cur] by (simp add: sched_of_def running_def)
    moreover have "\<forall>j. s_st (sched_of s) j \<noteq> PROC_READY" using st by blast
    moreover have "s_st (sched_of s) j = PROC_NEW" if "j \<in> free_slots s" for j
      using taken_st [of s j] st that by (simp add: free_slots_def)
    ultimately show "slot_holds (free_slots s) {f} (\<lambda>_. None) (sched_of s) j" for j
      using cur by (auto simp: slot_holds_def free_slots_def)
    show "sem_holds V (\<lambda>_. None) (sched_of s) k" if "k \<in> S" for k
      using st assms(2) [OF that] by (auto simp: sem_holds_def)
  qed (use cur in simp_all)
qed

text \<open>When the first \<open>i\<close> semaphores are in use and the others are not.\<close>

definition first_used :: "nat \<Rightarrow> kernel \<Rightarrow> bool" where
  "first_used i s \<longleftrightarrow> (\<forall>j < 100. sem_used (sem_list s ! j) \<longleftrightarrow> j < i)"

lemma get_sem_next:
  assumes "starts G f s" "first_used i s" "i < 100"
  obtains s' where "get_sem v r s = Some (Returns (of_nat i) s')" "starts (G(i \<mapsto> sint v)) f s'" "first_used (Suc i) s'"
    "curr_pid s' = curr_pid s" "nat (sint (of_nat i :: u32)) = i" "0 \<le> sint (of_nat i :: u32)"
proof -
  let ?r = "r\<lparr>r_ebx := v, r_eax := 20\<rparr>"
  let ?s = "save_proc ?r (disable_k s)"
  have ok: "length (sem_list s) = 100" "proc_ok s" "curr_proc s = Some f" using assms(1) by (simp_all add: starts_def running_def)
  have "find_first (\<lambda>j. \<not> sem_used (sem_list ?s ! j)) 0 100 = Some i"
    using assms(2,3) by (auto simp: find_first_Some first_used_def)
  then have d: "do_getsem (sint v) ?s = (int i, upd_sem i (\<lambda>x. x\<lparr>sem_val := sint v, sem_used := True\<rparr>) ?s)"
    using ok(1) by (simp add: do_getsem_def sem_alloc_def)
  let ?s' = "enable_k (upd_sem i (\<lambda>x. x\<lparr>sem_val := sint v, sem_used := True\<rparr>) ?s)"
  have g: "get_sem v r s = Some (Returns (of_nat i) ?s')"
    using d by (simp add: get_sem_def sys_interrupt_handler_def sys_interrupt_handler_main_def)
  have "sint (word_of_int (int i) :: u32) = int i" using assms(3) unfolding signed_of_int by (simp add: signed_take_bit_int_eq_self)
  then have x: "sint (of_nat i :: u32) = int i" by simp
  show thesis
  proof (rule that [OF g])
    show "starts (G(i \<mapsto> sint v)) f ?s'" using starts_get_sem(2) [OF assms(1) g] x by simp
    show "first_used (Suc i) ?s'" using assms(2,3) ok(1) by (auto simp: first_used_def nth_list_update)
    show "curr_pid ?s' = curr_pid s" using entered(3) [OF ok(2,3), of ?r] by simp
  qed (simp_all add: x)
qed

lemma demo_starts: "starts (\<lambda>_. None) 0 demo_sem" "first_used 1 demo_sem" "unat (curr_pid demo_sem) = 3"
proof -
  have ok: "proc_ok demo_sem" "curr_proc demo_sem = Some 0" by (rule demo_sem_ok)+
  have run: "running demo_sem 0"
    by (simp add: running_def ok(2)) (simp add: demo_sem_def kstate.defs demo_sem_procs_def demo_process_def)
  have idle: "\<forall>j. s_st (sched_of demo_sem) j \<noteq> PROC_READY"
    by (auto simp: sched_of_def demo_sem_def kstate.defs demo_sem_procs_def demo_process_def free_process_def
        nth_Cons less_Suc_eq split: nat.splits)
  have len: "length (sem_list demo_sem) = 100" by (simp add: demo_sem_def kstate.defs demo_kernel_def)
  show "starts (\<lambda>_. None) 0 demo_sem" using ok(1) demo_links run idle len by (simp add: starts_def)
  show "first_used 1 demo_sem" by (auto simp: first_used_def demo_sem_def kstate.defs nth_Cons split: nat.splits)
  show "unat (curr_pid demo_sem) = 3" by (simp add: demo_sem_def kstate.defs demo_kernel_def)
qed

end
