(* ===== verification/Pro_Con.thy ===== *)
theory Pro_Con
  imports Sem_Programs
begin

text \<open>The program \<^verbatim>\<open>pro-con.c\<close>: a producer and a consumer with the semaphores \<^verbatim>\<open>mutex\<close> and \<^verbatim>\<open>n\<close>.\<close>

section \<open>The program\<close>

text \<open>
  \<^verbatim>\<open>pro-con.c\<close> behind its calls of \<^verbatim>\<open>get_sem\<close> and a \<^verbatim>\<open>fork\<close> that did not fail: the process of slot \<open>f\<close> has got the
  number of the child from it, the other process 0. The increment and the decrement in the arguments of \<^verbatim>\<open>printf\<close>
  are a load and a store; an overflow of the \<^verbatim>\<open>int\<close> has no defined result, so the process is stuck there. What
  is printed is a list.
\<close>

datatype procon_pc =
    Branch
  | P_mutex | P_load | P_store int | P_print int | P_signal | P_notify
  | C_notified | C_mutex | C_load | C_store int | C_print int | C_signal

datatype event = Produce int | Consume int

record procon_mem =
  tot :: int
  said :: "event list"

fun procon_prog :: "nat \<Rightarrow> u32 \<Rightarrow> u32 \<Rightarrow> nat \<Rightarrow> procon_pc \<Rightarrow> procon_mem \<Rightarrow> (procon_pc, procon_mem) action" where
  "procon_prog f mutex n c Branch m = Local (if c = f then P_mutex else C_notified) m"
| "procon_prog f mutex n c P_mutex m = Acquire mutex P_load"
| "procon_prog f mutex n c P_load m = (if tot m < 2 ^ 31 - 1 then Local (P_store (tot m + 1)) m else Halt)"
| "procon_prog f mutex n c (P_store v) m = Local (P_print v) (m\<lparr>tot := v\<rparr>)"
| "procon_prog f mutex n c (P_print v) m = Local P_signal (m\<lparr>said := said m @ [Produce v]\<rparr>)"
| "procon_prog f mutex n c P_signal m = Release mutex P_notify"
| "procon_prog f mutex n c P_notify m = Release n P_mutex"
| "procon_prog f mutex n c C_notified m = Acquire n C_mutex"
| "procon_prog f mutex n c C_mutex m = Acquire mutex C_load"
| "procon_prog f mutex n c C_load m = Local (C_store (tot m)) m"
| "procon_prog f mutex n c (C_store v) m = (if - (2 ^ 31) < v then Local (C_print v) (m\<lparr>tot := v - 1\<rparr>) else Halt)"
| "procon_prog f mutex n c (C_print v) m = Local C_signal (m\<lparr>said := said m @ [Consume v]\<rparr>)"
| "procon_prog f mutex n c C_signal m = Release mutex C_notified"

text \<open>What was printed is the history of a store: the number of each line is that of the item, and nothing is
  taken from an empty store.\<close>

fun store_after :: "int \<Rightarrow> event list \<Rightarrow> int option" where
  "store_after t [] = Some t"
| "store_after t (Produce v # es) = (if v = t + 1 then store_after v es else None)"
| "store_after t (Consume v # es) = (if v = t \<and> 1 \<le> v then store_after (v - 1) es else None)"

lemma store_after_append: "store_after t (xs @ ys) = Option.bind (store_after t xs) (\<lambda>u. store_after u ys)"
  by (induction t xs rule: store_after.induct) auto

section \<open>The invariant\<close>

text \<open>Which points are between \<^verbatim>\<open>sem_wait(mutex)\<close> and \<^verbatim>\<open>sem_signal(mutex)\<close>, where an item is in the store
  that \<open>n\<close> does not count, and where a line is still to be printed.\<close>

fun in_mutex :: "procon_pc \<Rightarrow> bool" where
  "in_mutex P_load = True"
| "in_mutex (P_store v) = True"
| "in_mutex (P_print v) = True"
| "in_mutex P_signal = True"
| "in_mutex C_load = True"
| "in_mutex (C_store v) = True"
| "in_mutex (C_print v) = True"
| "in_mutex C_signal = True"
| "in_mutex _ = False"

fun uncounted :: "procon_pc \<Rightarrow> int" where
  "uncounted (P_print v) = 1"
| "uncounted P_signal = 1"
| "uncounted P_notify = 1"
| "uncounted C_mutex = 1"
| "uncounted C_load = 1"
| "uncounted (C_store v) = 1"
| "uncounted _ = 0"

fun unsaid :: "procon_pc \<Rightarrow> int" where
  "unsaid (P_print v) = - 1"
| "unsaid (C_print v) = 1"
| "unsaid _ = 0"

fun adds :: "procon_pc \<Rightarrow> int" where
  "adds (P_store v) = 1"
| "adds _ = 0"

fun loaded :: "int \<Rightarrow> procon_pc \<Rightarrow> bool" where
  "loaded t (P_store v) = (v = t + 1)"
| "loaded t (P_print v) = (v = t)"
| "loaded t (C_store v) = (v = t)"
| "loaded t (C_print v) = (v = t + 1)"
| "loaded t _ = True"

fun producer :: "procon_pc \<Rightarrow> bool" where
  "producer Branch = True" | "producer P_mutex = True" | "producer P_load = True" | "producer (P_store v) = True"
| "producer (P_print v) = True" | "producer P_signal = True" | "producer P_notify = True" | "producer _ = False"

definition holder :: "procon_pc \<Rightarrow> nat option \<Rightarrow> int" where
  "holder p w = (if in_mutex p \<and> w = None then 1 else 0)"

definition has_item :: "nat \<Rightarrow> procon_pc \<Rightarrow> nat option \<Rightarrow> int" where
  "has_item kn p w = (if w = Some kn then 0 else uncounted p)"

text \<open>In terms of the two points, the two values, what the two sleep on, and the memory.\<close>

definition procon_ok :: "nat \<Rightarrow> nat \<Rightarrow> procon_pc \<Rightarrow> procon_pc \<Rightarrow> int \<Rightarrow> int \<Rightarrow> nat option \<Rightarrow> nat option \<Rightarrow> procon_mem \<Rightarrow> bool" where
  "procon_ok km kn p c vm vn wp wc m \<longleftrightarrow>
     producer p \<and> (c = Branch \<or> \<not> producer c) \<and> 0 \<le> vm \<and> 0 \<le> vn \<and>
     vm + holder p wp + holder c wc = 1 \<and>
     (wp = None \<or> wp = Some km \<and> p = P_load \<and> vm = 0) \<and>
     (wc = None \<or> wc = Some km \<and> c = C_load \<and> vm = 0 \<or> wc = Some kn \<and> c = C_mutex \<and> vn = 0) \<and>
     loaded (tot m) p \<and> loaded (tot m) c \<and>
     tot m = vn + uncounted p + has_item kn c wc \<and> tot m + adds p \<le> 2 ^ 31 - 1 \<and>
     store_after 0 (said m) = Some (tot m + unsaid p + unsaid c)"

definition procon_inv :: "nat \<Rightarrow> nat \<Rightarrow> u32 \<Rightarrow> u32 \<Rightarrow>
    (nat \<Rightarrow> procon_pc) \<times> procon_mem \<times> nat set \<times> (nat \<Rightarrow> int) \<times> (nat \<Rightarrow> nat option) \<Rightarrow> bool" where
  "procon_inv f q mutex n = (\<lambda>(pc, m, A, V, W). f \<noteq> q \<and> 0 \<le> sint mutex \<and> 0 \<le> sint n \<and> nat (sint mutex) \<noteq> nat (sint n) \<and>
     A = {f, q} \<and> (\<forall>c. c \<notin> {f, q} \<longrightarrow> W c = None) \<and>
     procon_ok (nat (sint mutex)) (nat (sint n)) (pc f) (pc q) (V (nat (sint mutex))) (V (nat (sint n))) (W f) (W q) m)"

lemma holder_awake: "holder p None = of_bool (in_mutex p)"
  by (simp add: holder_def)

text \<open>What the tests for an overflow leave of an action.\<close>

lemma guarded_action [simp]:
  "(if b then Local p m else Halt) = Local p' m' \<longleftrightarrow> b \<and> p = p' \<and> m = m'"
  "(if b then Local p m else Halt) \<noteq> Acquire i p'" "(if b then Local p m else Halt) \<noteq> Release i p'"
  "(if b then Local p m else Halt) \<noteq> Fork x y z" "(if b then Local p m else Halt) \<noteq> Spawn x y z"
  "(if b then Local p m else Halt) = Halt \<longleftrightarrow> \<not> b"
  by simp_all

lemma procon_actions:
  "procon_prog f mutex n c p m \<noteq> Fork x y z" "procon_prog f mutex n c p m \<noteq> Spawn x y z"
  by (cases p; simp)+

text \<open>A process that is not in the mutex has loaded and owes nothing.\<close>

lemma not_in_mutex: "\<not> in_mutex p \<or> p = P_load \<or> p = C_load \<Longrightarrow> loaded t p \<and> unsaid p = 0"
  by (cases p) auto

lemma excluded:
  assumes "procon_ok km kn p c vm vn wp wc m"
  shows "in_mutex p \<Longrightarrow> wp = None \<Longrightarrow> loaded t c \<and> unsaid c = 0"
    "in_mutex c \<Longrightarrow> wc = None \<Longrightarrow> loaded t p \<and> unsaid p = 0"
    "in_mutex p \<Longrightarrow> wp = None \<Longrightarrow> vm = 0 \<and> holder c wc = 0"
    "in_mutex c \<Longrightarrow> wc = None \<Longrightarrow> vm = 0 \<and> holder p wp = 0"
proof -
  show "in_mutex p \<Longrightarrow> wp = None \<Longrightarrow> loaded t c \<and> unsaid c = 0"
    using assms by (intro not_in_mutex) (auto simp: procon_ok_def holder_def split: if_splits)
  show "in_mutex c \<Longrightarrow> wc = None \<Longrightarrow> loaded t p \<and> unsaid p = 0"
    using assms by (intro not_in_mutex) (auto simp: procon_ok_def holder_def split: if_splits)
  show "in_mutex p \<Longrightarrow> wp = None \<Longrightarrow> vm = 0 \<and> holder c wc = 0"
    using assms by (auto simp: procon_ok_def holder_def split: if_splits)
  show "in_mutex c \<Longrightarrow> wc = None \<Longrightarrow> vm = 0 \<and> holder p wp = 0"
    using assms by (auto simp: procon_ok_def holder_def split: if_splits)
qed

text \<open>The steps of the producer and of the consumer.\<close>

lemma producer_local:
  assumes "procon_ok km kn p c vm vn None wc m" "procon_prog f mutex n f p m = Local p' m'"
  shows "procon_ok km kn p' c vm vn None wc m'"
proof (cases p)
  case Branch
  then show ?thesis using assms by (auto simp: procon_ok_def holder_awake)
next
  case P_load
  then show ?thesis using assms by (auto simp: procon_ok_def holder_awake)
next
  case (P_store v)
  then show ?thesis using assms excluded(1) [OF assms(1)] by (auto simp: procon_ok_def holder_awake)
next
  case (P_print v)
  then show ?thesis using assms excluded(1) [OF assms(1)]
    by (auto simp: procon_ok_def holder_awake store_after_append)
qed (use assms in \<open>auto simp: procon_ok_def\<close>)

lemma consumer_local:
  assumes "procon_ok km kn p c vm vn wp None m" "procon_prog f mutex n q c m = Local c' m'" "q \<noteq> f"
  shows "procon_ok km kn p c' vm vn wp None m'"
proof (cases c)
  case Branch
  then show ?thesis using assms by (auto simp: procon_ok_def holder_awake has_item_def)
next
  case C_load
  then show ?thesis using assms by (auto simp: procon_ok_def holder_awake has_item_def)
next
  case (C_store v)
  then show ?thesis using assms excluded(2) [OF assms(1)] by (auto simp: procon_ok_def holder_awake has_item_def)
next
  case (C_print v)
  have "0 \<le> tot m" using assms(1) C_print by (cases p) (auto simp: procon_ok_def has_item_def)
  then show ?thesis using C_print assms excluded(2) [OF assms(1)]
    by (auto simp: procon_ok_def holder_awake store_after_append has_item_def)
qed (use assms in \<open>auto simp: procon_ok_def\<close>)

lemma producer_acquire:
  assumes "procon_ok km kn p c vm vn None wc m" "procon_prog f mutex n f p m = Acquire i p'" "km = nat (sint mutex)"
  shows "nat (sint i) = km \<and> (0 < vm \<longrightarrow> procon_ok km kn p' c (vm - 1) vn None wc m) \<and>
    (vm \<le> 0 \<longrightarrow> procon_ok km kn p' c vm vn (Some km) wc m)"
  using assms by (cases p) (auto simp: procon_ok_def holder_def)

lemma consumer_acquire:
  assumes "procon_ok km kn p c vm vn wp None m" "procon_prog f mutex n q c m = Acquire i c'" "km = nat (sint mutex)" "kn = nat (sint n)" "km \<noteq> kn"
  shows "nat (sint i) = km \<and> (0 < vm \<longrightarrow> procon_ok km kn p c' (vm - 1) vn wp None m) \<and>
      (vm \<le> 0 \<longrightarrow> procon_ok km kn p c' vm vn wp (Some km) m) \<or>
    nat (sint i) = kn \<and> (0 < vn \<longrightarrow> procon_ok km kn p c' vm (vn - 1) wp None m) \<and>
      (vn \<le> 0 \<longrightarrow> procon_ok km kn p c' vm vn wp (Some kn) m)"
  using assms by (cases c) (auto simp: procon_ok_def holder_def has_item_def)

lemma producer_release:
  assumes "procon_ok km kn p c vm vn None wc m" "procon_prog f mutex n f p m = Release i p'" "km = nat (sint mutex)" "kn = nat (sint n)" "km \<noteq> kn"
  shows "nat (sint i) = km \<and> (wc \<noteq> Some km \<longrightarrow> procon_ok km kn p' c (vm + 1) vn None wc m) \<and>
      (wc = Some km \<longrightarrow> procon_ok km kn p' c vm vn None None m) \<or>
    nat (sint i) = kn \<and> (wc \<noteq> Some kn \<longrightarrow> procon_ok km kn p' c vm (vn + 1) None wc m) \<and>
      (wc = Some kn \<longrightarrow> procon_ok km kn p' c vm vn None None m)"
  using assms by (cases p) (auto simp: procon_ok_def holder_def has_item_def)

lemma consumer_release:
  assumes "procon_ok km kn p c vm vn wp None m" "procon_prog f mutex n q c m = Release i c'" "km = nat (sint mutex)"
  shows "nat (sint i) = km \<and> (wp \<noteq> Some km \<longrightarrow> procon_ok km kn p c' (vm + 1) vn wp None m) \<and>
      (wp = Some km \<longrightarrow> procon_ok km kn p c' vm vn None None m)"
  using assms by (cases c) (auto simp: procon_ok_def holder_def has_item_def)


lemma procon_kept:
  assumes "procon_inv f q mutex n u" "ideal_step room (procon_prog f mutex n) u v"
  shows "procon_inv f q mutex n v"
proof -
  obtain pc m A V W where u: "u = (pc, m, A, V, W)" by (metis prod.exhaust)
  let ?km = "nat (sint mutex)" and ?kn = "nat (sint n)"
  note i = assms(1) [unfolded u procon_inv_def, simplified]
  have ne: "f \<noteq> q" "?km \<noteq> ?kn" and ok: "procon_ok ?km ?kn (pc f) (pc q) (V ?km) (V ?kn) (W f) (W q) m" using i by blast+
  have okp: "W f = None \<Longrightarrow> procon_ok ?km ?kn (pc f) (pc q) (V ?km) (V ?kn) None (W q) m"
    and okc: "W q = None \<Longrightarrow> procon_ok ?km ?kn (pc f) (pc q) (V ?km) (V ?kn) (W f) None m" using ok by simp_all
  have inv: "procon_inv f q mutex n (pc', m', A, V', W')"
    if "procon_ok ?km ?kn (pc' f) (pc' q) (V' ?km) (V' ?kn) (W' f) (W' q) m'" "\<And>c. c \<noteq> f \<Longrightarrow> c \<noteq> q \<Longrightarrow> W' c = None" for pc' m' V' W'
    using that i by (simp add: procon_inv_def)
  have who: "c = f \<or> c = q" if "c \<in> A" for c using that i by auto
  have idle: "c \<noteq> f \<Longrightarrow> c \<noteq> q \<Longrightarrow> W c = None" for c using i by auto
  show ?thesis using assms(2) unfolding u
  proof (cases rule: ideal_step.cases)
    case (i_local c p m')
    have "procon_ok ?km ?kn ((pc(c := p)) f) ((pc(c := p)) q) (V ?km) (V ?kn) (W f) (W q) m'"
      using who [OF i_local(2)]
    proof
      assume c: "c = f"
      have w: "W f = None" using i_local(3) by (simp add: c)
      show ?thesis using producer_local [OF okp [OF w] i_local(4) [unfolded c]] i_local(3) ne(1) by (simp add: c)
    next
      assume c: "c = q"
      have w: "W q = None" using i_local(3) by (simp add: c)
      show ?thesis using consumer_local [OF okc [OF w] i_local(4) [unfolded c] ne(1) [symmetric]] i_local(3) ne(1) by (simp add: c)
    qed
    then show ?thesis unfolding i_local(1) by (rule inv) (rule idle)
  next
    case (i_take c i' p k)
    have "procon_ok ?km ?kn ((pc(c := p)) f) ((pc(c := p)) q) ((V(k := V k - 1)) ?km) ((V(k := V k - 1)) ?kn) (W f) (W q) m"
      using who [OF i_take(2)]
    proof
      assume c: "c = f"
      have w: "W f = None" using i_take(3) by (simp add: c)
      show ?thesis using producer_acquire [OF okp [OF w] i_take(4) [unfolded c] refl] i_take(3,5,6) ne by (simp add: c)
    next
      assume c: "c = q"
      have w: "W q = None" using i_take(3) by (simp add: c)
      show ?thesis using consumer_acquire [OF okc [OF w] i_take(4) [unfolded c] refl refl ne(2)] i_take(3,5,6) ne by (elim disjE conjE) (simp_all add: c)
    qed
    then show ?thesis unfolding i_take(1) by (rule inv) (rule idle)
  next
    case (i_sleep c i' p k)
    have "procon_ok ?km ?kn ((pc(c := p)) f) ((pc(c := p)) q) (V ?km) (V ?kn) ((W(c \<mapsto> k)) f) ((W(c \<mapsto> k)) q) m"
      using who [OF i_sleep(2)]
    proof
      assume c: "c = f"
      have w: "W f = None" using i_sleep(3) by (simp add: c)
      show ?thesis using producer_acquire [OF okp [OF w] i_sleep(4) [unfolded c] refl] i_sleep(3,5,6) ne by (simp add: c)
    next
      assume c: "c = q"
      have w: "W q = None" using i_sleep(3) by (simp add: c)
      show ?thesis using consumer_acquire [OF okc [OF w] i_sleep(4) [unfolded c] refl refl ne(2)] i_sleep(3,5,6) ne by (elim disjE conjE) (simp_all add: c)
    qed
    then show ?thesis unfolding i_sleep(1) by (rule inv) (use who [OF i_sleep(2)] idle in auto)
  next
    case (i_give c i' p k)
    have "procon_ok ?km ?kn ((pc(c := p)) f) ((pc(c := p)) q) ((V(k := V k + 1)) ?km) ((V(k := V k + 1)) ?kn) (W f) (W q) m"
      using who [OF i_give(2)]
    proof
      assume c: "c = f"
      have w: "W f = None" using i_give(3) by (simp add: c)
      show ?thesis using producer_release [OF okp [OF w] i_give(4) [unfolded c] refl refl ne(2)] i_give(3,5,6) ne by (elim disjE conjE) (simp_all add: c)
    next
      assume c: "c = q"
      have w: "W q = None" using i_give(3) by (simp add: c)
      show ?thesis using consumer_release [OF okc [OF w] i_give(4) [unfolded c] refl] i_give(3,5,6) ne by (simp add: c)
    qed
    then show ?thesis unfolding i_give(1) by (rule inv) (rule idle)
  next
    case (i_wake c i' p k d)
    have d: "d = f \<or> d = q" "d \<noteq> c" using i_wake(3,6) idle by (metis option.distinct(1))+
    have "procon_ok ?km ?kn ((pc(c := p)) f) ((pc(c := p)) q) (V ?km) (V ?kn) ((W(d := None)) f) ((W(d := None)) q) m"
      using who [OF i_wake(2)]
    proof
      assume c: "c = f"
      have w: "W f = None" using i_wake(3) by (simp add: c)
      show ?thesis using producer_release [OF okp [OF w] i_wake(4) [unfolded c] refl refl ne(2)] i_wake(3,5,6) ne d c by (elim disjE conjE) (simp_all add: c)
    next
      assume c: "c = q"
      have w: "W q = None" using i_wake(3) by (simp add: c)
      show ?thesis using consumer_release [OF okc [OF w] i_wake(4) [unfolded c] refl] i_wake(3,5,6) ne d c by (elim disjE conjE) (simp_all add: c)
    qed
    then show ?thesis unfolding i_wake(1) by (rule inv) (use idle in auto)
  qed (simp_all add: procon_actions)
qed

lemma procon_one_awake: "procon_inv f q mutex n (pc, m, A, V, W) \<Longrightarrow> \<exists>c \<in> A. W c = None"
  by (auto simp: procon_inv_def procon_ok_def holder_def split: if_splits)

lemma procon_one_sleeps: "procon_inv f q mutex n (pc, m, A, V, W) \<Longrightarrow> W c = Some k \<Longrightarrow> W d = Some k \<Longrightarrow> c = d"
  by (cases "c = f"; cases "d = f"; cases "c = q"; cases "d = q")
    (auto simp: procon_inv_def procon_ok_def holder_def split: if_splits)

lemma procon_sem_action: "0 \<le> sint mutex \<Longrightarrow> 0 \<le> sint n \<Longrightarrow>
    sem_action {nat (sint mutex), nat (sint n)} (procon_prog f mutex n c p m)"
  by (cases p) simp_all

interpretation procon: sem_program room "procon_prog f mutex n" "{nat (sint mutex), nat (sint n)}" "procon_inv f q mutex n"
proof
  fix pc m A V W c
  assume "procon_inv f q mutex n (pc, m, A, V, W)"
  then show "sem_action {nat (sint mutex), nat (sint n)} (procon_prog f mutex n c (pc c) m)"
    by (intro procon_sem_action) (simp_all add: procon_inv_def)
qed (fact procon_kept procon_one_sleeps procon_one_awake)+

section \<open>What a run does\<close>

lemma procon_store:
  assumes "procon_ok km kn p c vm vn wp wc m"
  shows "\<exists>k. store_after 0 (said m) = Some k \<and> 0 \<le> k"
proof -
  have ok: "producer p" "c = Branch \<or> \<not> producer c" "0 \<le> vn" "tot m = vn + uncounted p + has_item kn c wc"
    "store_after 0 (said m) = Some (tot m + unsaid p + unsaid c)" using assms by (simp_all add: procon_ok_def)
  have "0 \<le> uncounted p + unsaid p" using ok(1) by (cases p) simp_all
  moreover have "0 \<le> unsaid c" using ok(2) by (cases c) simp_all
  moreover have "0 \<le> has_item kn c wc" by (cases c) (simp_all add: has_item_def)
  ultimately show ?thesis using ok(3-5) by simp
qed

text \<open>No run gets past 2^31 - 1 items that were produced and not yet consumed.\<close>

lemma procon_halt:
  assumes "procon_ok km kn p c vm vn wp wc m"
  shows "procon_prog f mutex n d p m = Halt \<Longrightarrow> p = P_load \<and> tot m = 2 ^ 31 - 1"
    "procon_prog f mutex n d c m \<noteq> Halt"
proof -
  have ok: "producer p" "c = Branch \<or> \<not> producer c" "0 \<le> vn" "tot m = vn + uncounted p + has_item kn c wc" "loaded (tot m) c" "tot m + adds p \<le> 2 ^ 31 - 1"
    using assms unfolding procon_ok_def by blast+
  show "procon_prog f mutex n d p m = Halt \<Longrightarrow> p = P_load \<and> tot m = 2 ^ 31 - 1"
    using ok(1,6) by (cases p) simp_all
  have "0 \<le> uncounted p" using ok(1) by (cases p) simp_all
  moreover have "0 \<le> has_item kn c wc" by (cases c) (simp_all add: has_item_def)
  ultimately have "0 \<le> tot m" using ok(3,4) by simp
  then show "procon_prog f mutex n d c m \<noteq> Halt" using ok(2,5) by (cases c) simp_all
qed

definition procon_run :: "kernel \<Rightarrow> (procon_pc, procon_mem) run" where
  "procon_run s = \<lparr>r_pc = (\<lambda>_. Branch), r_mem = \<lparr>tot = 0, said = []\<rparr>, r_kern = s\<rparr>"

lemma procon_start:
  assumes "starts (\<lambda>_. None) f s" "get_sem 1 r s = Some (Returns mutex s1)" "0 \<le> sint mutex"
    and "get_sem 0 r1 s1 = Some (Returns n s2)" "0 \<le> sint n" "fork r2 s2 = Some (Returns p s3)" "p \<noteq> - 1"
  obtains V room where "kernel_good s3" "procon_inv f (unat p - 1) mutex n (\<lambda>_. Branch, \<lparr>tot = 0, said = []\<rparr>, {f, unat p - 1}, V, \<lambda>_. None)"
    "holds room {nat (sint mutex), nat (sint n)} {f, unat p - 1} V (\<lambda>_. None) (sched_of s3)"
proof -
  let ?km = "nat (sint mutex)" and ?kn = "nat (sint n)"
  note g1 = starts_get_sem [OF assms(1-3)]
  note g2 = starts_get_sem [OF g1(2) assms(4,5)]
  have ne: "?km \<noteq> ?kn" using g2(1) by auto
  define V :: "nat \<Rightarrow> int" where "V = (\<lambda>_. 0)(?km := 1)"
  have V: "V ?km = 1" "V ?kn = 0" using ne by (simp_all add: V_def)
  have "((\<lambda>_. None)(?km \<mapsto> sint (1 :: u32), ?kn \<mapsto> sint (0 :: u32))) k = Some (V k) \<and> 0 \<le> V k" if "k \<in> {?km, ?kn}" for k
    using that V ne by auto
  note st = starts_run [of _ f s2 "{?km, ?kn}", OF g2(2) this]
  have good: "kernel_good s2" and h: "holds (free_slots s2) {?km, ?kn} {f} V (\<lambda>_. None) (sched_of s2)" using st by simp_all
  have ok: "proc_ok s2" "curr_proc s2 = Some f" using g2(2) by (simp_all add: starts_def running_def)
  let ?q = "unat (curr_pid s2)"
  obtain c: "p = of_nat (?q + 1)" "?q < 20" "a_create ?q f (sched_of s2) (sched_of s3)"
    using fork_creates [OF ok assms(6)] assms(7) by (metis outcome.inject(1))
  have q: "unat p - 1 = ?q" using c(2) unfolding c(1) by (simp add: unsigned_of_nat take_bit_nat_eq_self del: of_nat_Suc of_nat_add)
  note k = holds_create [OF h c(3)]
  have "links_ok (sched_of s3)"
    using links_creation(1) [of "sched_of s2" f, OF _ current_taken [OF ok] c(3)] good by (simp add: kernel_good_def)
  then have "kernel_good s3" using fork_sched(1) [OF ok assms(6,7)] by (simp add: kernel_good_def)
  moreover have "procon_inv f (unat p - 1) mutex n (\<lambda>_. Branch, \<lparr>tot = 0, said = []\<rparr>, {f, unat p - 1}, V, \<lambda>_. None)"
    using k(1) ne V assms(3,5) unfolding q by (auto simp: procon_inv_def procon_ok_def holder_def has_item_def)
  moreover have "holds (free_slots s2) {?km, ?kn} {f, unat p - 1} V (\<lambda>_. None) (sched_of s3)" using k(2) unfolding q by (simp add: insert_commute)
  ultimately show thesis by (rule that)
qed

text \<open>C9: The producer and the consumer of \<^verbatim>\<open>pro-con.c\<close>, for as long as they run and with timer interrupts
  anywhere between their steps: what they print is the history of a store, in which every item is
  consumed after it was produced, under its number, and none from an empty store; they are in the mutex one at a time, but for one that is
  asleep on its way in; they are never both asleep, and the one that has the processor is awake and has a next step, but
  for a producer that would count item 2^31.\<close>

theorem producer_consumer:
  assumes "starts (\<lambda>_. None) f s" "get_sem 1 r s = Some (Returns mutex s1)" "0 \<le> sint mutex"
    and "get_sem 0 r1 s1 = Some (Returns n s2)" "0 \<le> sint n" "fork r2 s2 = Some (Returns p s3)" "p \<noteq> - 1" "q = unat p - 1"
    and "(run_step (procon_prog f mutex n))\<^sup>*\<^sup>* (procon_run s3) y"
  shows "let pc = r_pc y; st = s_st (sched_of (r_kern y)) in
    (\<exists>k. store_after 0 (said (r_mem y)) = Some k \<and> 0 \<le> k) \<and>
    (in_mutex (pc f) \<and> in_mutex (pc q) \<longrightarrow> st f = PROC_WAITING \<and> pc f = P_load \<or> st q = PROC_WAITING \<and> pc q = C_load) \<and>
    \<not> (st f = PROC_WAITING \<and> st q = PROC_WAITING) \<and>
    (\<exists>c \<in> {f, q}. curr_proc (r_kern y) = Some c \<and> st c = PROC_RUNNING \<and>
      (pc c = P_load \<and> tot (r_mem y) = 2 ^ 31 - 1 \<or> (\<exists>z. run_step (procon_prog f mutex n) y z \<and> r_pc z c \<noteq> pc c)))"
proof -
  let ?km = "nat (sint mutex)" and ?kn = "nat (sint n)"
  obtain V0 room where "kernel_good s3" "procon_inv f q mutex n (\<lambda>_. Branch, \<lparr>tot = 0, said = []\<rparr>, {f, q}, V0, \<lambda>_. None)"
    "holds room {?km, ?kn} {f, q} V0 (\<lambda>_. None) (sched_of s3)"
    using procon_start [OF assms(1-7)] unfolding assms(8) by metis
  then obtain A V W where y: "kernel_good (r_kern y)" "procon_inv f q mutex n (r_pc y, r_mem y, A, V, W)"
    "holds room {?km, ?kn} A V W (sched_of (r_kern y))"
    using procon.inv_reached [OF assms(9), of q "{f, q}" V0 "\<lambda>_. None" room] by (auto simp: procon_run_def)
  note i = y(2) [unfolded procon_inv_def, simplified]
  have ok: "procon_ok ?km ?kn (r_pc y f) (r_pc y q) (V ?km) (V ?kn) (W f) (W q) (r_mem y)" and A: "A = {f, q}" using i by simp_all
  have w: "s_st (sched_of (r_kern y)) c = PROC_WAITING \<longleftrightarrow> W c \<noteq> None" if "c \<in> A" for c
    using holds_parts(2) [OF y(3), of c] that by (auto simp: slot_holds_def split: if_splits)
  obtain c where c: "curr_proc (r_kern y) = Some c" "c \<in> A" "W c = None" using holds_parts(1) [OF y(3)] by auto
  have t: "p' \<in> targets (procon_prog f mutex n c x m) \<Longrightarrow> p' \<noteq> x" for p' x m by (cases x) (auto split: if_splits)
  have step: "r_pc y c = P_load \<and> tot (r_mem y) = 2 ^ 31 - 1 \<or> (\<exists>z. run_step (procon_prog f mutex n) y z \<and> r_pc z c \<noteq> r_pc y c)"
  proof (cases "procon_prog f mutex n c (r_pc y c) (r_mem y) = Halt")
    case True
    have "c = f \<or> c = q" using c(2) A by simp
    then show ?thesis using procon_halt [OF ok] True c(3) by metis
  next
    case False
    then show ?thesis using procon.progress [OF y(1,2,3) c(1) False] t by blast
  qed
  have run: "s_st (sched_of (r_kern y)) c = PROC_RUNNING" using holdsD(3) [OF y(3)] c(1) by simp
  have h: "in_mutex (r_pc y f) \<Longrightarrow> in_mutex (r_pc y q) \<Longrightarrow> W f \<noteq> None \<and> r_pc y f = P_load \<or> W q \<noteq> None \<and> r_pc y q = C_load"
    using ok by (auto simp: procon_ok_def holder_def split: if_splits)
  have "\<exists>k. store_after 0 (said (r_mem y)) = Some k \<and> 0 \<le> k" using procon_store [OF ok] by blast
  then show ?thesis
    using h w c run step procon_one_awake [OF y(2)] unfolding A Let_def by (intro conjI) (blast | auto)+
qed

lemma producer_consumer_witness:
  "\<exists>mutex s1 n s2 p s3. get_sem 1 zero_regs demo_sem = Some (Returns mutex s1) \<and> get_sem 0 zero_regs s1 = Some (Returns n s2) \<and>
    fork zero_regs s2 = Some (Returns p s3) \<and>
    (\<exists>c z. run_step (procon_prog 0 mutex n) (procon_run s3) z \<and> curr_proc s3 = Some c \<and> r_pc z c \<noteq> Branch)"
proof -
  obtain s1 where g1: "get_sem 1 zero_regs demo_sem = Some (Returns (of_nat 1) s1)"
    "starts ((\<lambda>_. None)(1 \<mapsto> sint (1 :: u32))) 0 s1" "first_used (Suc 1) s1" "curr_pid s1 = curr_pid demo_sem"
    using get_sem_next [OF demo_starts(1,2), of 1 zero_regs thesis] by auto
  obtain s2 where g2: "get_sem 0 zero_regs s1 = Some (Returns (of_nat (Suc 1)) s2)"
    "starts ((\<lambda>_. None)(1 \<mapsto> sint (1 :: u32), Suc 1 \<mapsto> sint (0 :: u32))) 0 s2" "curr_pid s2 = curr_pid s1"
    using get_sem_next [OF g1(2,3), of 0 zero_regs thesis] by auto
  have ok: "proc_ok s2" "curr_proc s2 = Some 0" using g2(2) by (simp_all add: starts_def running_def)
  obtain s3 where k: "fork zero_regs s2 = Some (Returns 4 s3)"
    by (rule fork_call [of s2 0 3]) (use ok g2(3) g1(4) demo_starts(3) in simp_all)
  have "procon_run s3 = procon_run s3" by simp
  then show ?thesis
    using producer_consumer [OF demo_starts(1) g1(1) _ g2(1) _ k _ refl rtranclp.rtrancl_refl] g1(1) g2(1) k
    by (fastforce simp: Let_def procon_run_def)
qed

end
