(* ===== verification/Fruit.thy ===== *)
theory Fruit
  imports Sem_Programs
begin

text \<open>The program \<^verbatim>\<open>fruit.c\<close>: a process prints what two others put down for it, under four semaphores.\<close>

section \<open>The program\<close>

text \<open>
  \<^verbatim>\<open>fruit.c\<close> behind its calls of \<^verbatim>\<open>get_sem\<close>. The processes branch on what their calls of \<^verbatim>\<open>fork\<close> return, which is
  not 0 when the call fails. The sentence is written into \<^verbatim>\<open>words\<close> and read from there one character after the
  other. The array \<^verbatim>\<open>fruit_name\<close> of the printing process is part of its point; it has no
  value when the plate is empty. What is printed is a list.
\<close>

datatype fruit_pc =
    Fork_1 | Fork_2
  | M_word | M_fruit | M_name | M_read "string option" buf | M_v2 | M_clear | M_v3
  | W_put nat | W_v0 | W_p2
  | F_index | F_fix | F_plate | F_v1 | F_p3

record fruit_mem =
  words :: buf
  fruit_plate :: int
  fruit_index :: int
  lines :: "(buf \<times> string option) list"

definition sentence :: buf where
  "sentence = map of_char ''Father will live forever!''"

definition plate_name :: "int \<Rightarrow> string option" where
  "plate_name v = (if v = 1 then Some ''APPLE'' else if v = 2 then Some ''PEAR''
     else if v = 3 then Some ''BANANA'' else None)"

fun fruit_prog :: "u32 \<Rightarrow> u32 \<Rightarrow> u32 \<Rightarrow> u32 \<Rightarrow> nat \<Rightarrow> fruit_pc \<Rightarrow> fruit_mem \<Rightarrow> (fruit_pc, fruit_mem) action" where
  "fruit_prog w f w2 f2 c Fork_1 m = Fork M_word Fork_2 M_word"
| "fruit_prog w f w2 f2 c Fork_2 m = Fork (W_put 0) F_index (W_put 0)"
| "fruit_prog w f w2 f2 c M_word m = Acquire w M_fruit"
| "fruit_prog w f w2 f2 c M_fruit m = Acquire f M_name"
| "fruit_prog w f w2 f2 c M_name m = Local (M_read (plate_name (fruit_plate m)) []) m"
| "fruit_prog w f w2 f2 c (M_read nm acc) m =
     (case rd (words m) (length acc) of
        None \<Rightarrow> Halt
      | Some x \<Rightarrow> if x = 0 then Local M_v2 (m\<lparr>lines := lines m @ [(acc, nm)]\<rparr>) else Local (M_read nm (acc @ [x])) m)"
| "fruit_prog w f w2 f2 c M_v2 m = Release w2 M_clear"
| "fruit_prog w f w2 f2 c M_clear m = Local M_v3 (m\<lparr>fruit_plate := 0\<rparr>)"
| "fruit_prog w f w2 f2 c M_v3 m = Release f2 M_word"
| "fruit_prog w f w2 f2 c (W_put i) m =
     (case wr (words m) i ((sentence @ [0]) ! i) of
        None \<Rightarrow> Halt
      | Some b \<Rightarrow> Local (if i < length sentence then W_put (Suc i) else W_v0) (m\<lparr>words := b\<rparr>))"
| "fruit_prog w f w2 f2 c W_v0 m = Release w W_p2"
| "fruit_prog w f w2 f2 c W_p2 m = Acquire w2 (W_put 0)"
| "fruit_prog w f w2 f2 c F_index m = Local F_fix (m\<lparr>fruit_index := (fruit_index m + 1) mod 4\<rparr>)"
| "fruit_prog w f w2 f2 c F_fix m =
     Local F_plate (if fruit_index m = 0 then m\<lparr>fruit_index := fruit_index m + 1\<rparr> else m)"
| "fruit_prog w f w2 f2 c F_plate m = Local F_v1 (m\<lparr>fruit_plate := fruit_index m\<rparr>)"
| "fruit_prog w f w2 f2 c F_v1 m = Release f F_p3"
| "fruit_prog w f w2 f2 c F_p3 m = Acquire f2 F_index"

section \<open>The invariant\<close>

text \<open>The fruit of the next line and of the last one, when \<open>n\<close> lines have been printed.\<close>

definition next_fruit :: "nat \<Rightarrow> int" where
  "next_fruit n = int (n mod 3) + 1"

definition last_fruit :: "nat \<Rightarrow> int" where
  "last_fruit n = (if n = 0 then 0 else next_fruit (n - 1))"

lemma fruit_cycle:
  "next_fruit n = (if (last_fruit n + 1) mod 4 = 0 then 1 else (last_fruit n + 1) mod 4)" "last_fruit (Suc n) = next_fruit n"
  "next_fruit n \<in> {1, 2, 3}"
proof -
  show "next_fruit n = (if (last_fruit n + 1) mod 4 = 0 then 1 else (last_fruit n + 1) mod 4)"
  proof (cases n)
    case (Suc k)
    have "k mod 3 = 0 \<or> k mod 3 = 1 \<or> k mod 3 = 2" by linarith
    then show ?thesis using Suc by (auto simp: last_fruit_def next_fruit_def mod_Suc)
  qed (simp add: last_fruit_def next_fruit_def)
  show "last_fruit (Suc n) = next_fruit n" by (simp add: last_fruit_def)
  have "n mod 3 = 0 \<or> n mod 3 = 1 \<or> n mod 3 = 2" by linarith
  then show "next_fruit n \<in> {1, 2, 3}" by (auto simp: next_fruit_def)
qed

text \<open>Who has the words and the plate: the process that writes them, a semaphore, or the one that prints.\<close>

fun main_words :: "fruit_pc \<Rightarrow> bool" where
  "main_words M_fruit = True" | "main_words M_name = True" | "main_words (M_read nm acc) = True"
| "main_words M_v2 = True" | "main_words _ = False"

fun main_plate :: "fruit_pc \<Rightarrow> bool" where
  "main_plate M_name = True" | "main_plate (M_read nm acc) = True" | "main_plate M_v2 = True"
| "main_plate M_clear = True" | "main_plate M_v3 = True" | "main_plate _ = False"

fun main_pc :: "fruit_pc \<Rightarrow> bool" where
  "main_pc Fork_1 = True" | "main_pc M_word = True" | "main_pc M_fruit = True" | "main_pc M_name = True"
| "main_pc (M_read nm acc) = True" | "main_pc M_v2 = True" | "main_pc M_clear = True" | "main_pc M_v3 = True" | "main_pc _ = False"

fun writes_words :: "fruit_pc \<Rightarrow> bool" where
  "writes_words (W_put i) = True" | "writes_words W_v0 = True" | "writes_words _ = False"

fun word_pc :: "fruit_pc \<Rightarrow> bool" where
  "word_pc (W_put i) = True" | "word_pc W_v0 = True" | "word_pc W_p2 = True" | "word_pc _ = False"

fun fills_plate :: "fruit_pc \<Rightarrow> bool" where
  "fills_plate F_index = True" | "fills_plate F_fix = True" | "fills_plate F_plate = True" | "fills_plate F_v1 = True" | "fills_plate _ = False"

fun plate_pc :: "fruit_pc \<Rightarrow> bool" where
  "plate_pc F_index = True" | "plate_pc F_fix = True" | "plate_pc F_plate = True" | "plate_pc F_v1 = True" | "plate_pc F_p3 = True" | "plate_pc _ = False"

text \<open>Words and plate go round: one process makes them and offers them by a semaphore, the printing process
  uses them and clears them for the next by another. \<open>k\<close> and \<open>k2\<close> are the two semaphores.\<close>

datatype stage = Making | Offered | Used | Cleared

definition handshake :: "stage \<Rightarrow> nat \<Rightarrow> nat \<Rightarrow> bool \<Rightarrow> bool \<Rightarrow> (nat \<Rightarrow> int) \<Rightarrow> bool" where
  "handshake t k k2 making uses V \<longleftrightarrow>
     (making \<longleftrightarrow> t = Making) \<and> V k = of_bool (t = Offered) \<and> (uses \<longleftrightarrow> t = Used) \<and> V k2 = of_bool (t = Cleared)"

fun writing :: "fruit_pc \<Rightarrow> buf \<Rightarrow> bool" where
  "writing (W_put i) b = (i \<le> length sentence \<and> take i b = take i sentence)"
| "writing p b = is_cstr b 0 sentence"

definition words_data :: "stage \<Rightarrow> fruit_pc \<Rightarrow> buf \<Rightarrow> bool" where
  "words_data t p b \<longleftrightarrow> length b = 100 \<and> (t = Making \<longrightarrow> writing p b) \<and> (t = Offered \<or> t = Used \<longrightarrow> is_cstr b 0 sentence)"

fun filling :: "fruit_pc \<Rightarrow> nat \<Rightarrow> int \<Rightarrow> int \<Rightarrow> bool" where
  "filling F_index n v x = (x = last_fruit n)"
| "filling F_fix n v x = (x = (last_fruit n + 1) mod 4)"
| "filling F_plate n v x = (x = next_fruit n)"
| "filling p n v x = (x = next_fruit n \<and> v = x)"

fun printing :: "fruit_pc \<Rightarrow> nat \<Rightarrow> int \<Rightarrow> int \<Rightarrow> bool" where
  "printing M_name n v x = (x = next_fruit n \<and> v = x)"
| "printing (M_read nm acc) n v x = (x = next_fruit n \<and> nm = plate_name x \<and> length acc \<le> length sentence \<and>
     acc = take (length acc) sentence)"
| "printing p n v x = (x = last_fruit n)"

definition plate_data :: "stage \<Rightarrow> fruit_pc \<Rightarrow> fruit_pc \<Rightarrow> nat \<Rightarrow> int \<Rightarrow> int \<Rightarrow> bool" where
  "plate_data u p q n v x \<longleftrightarrow>
     (case u of Making \<Rightarrow> filling q n v x | Offered \<Rightarrow> x = next_fruit n \<and> v = x | Used \<Rightarrow> printing p n v x | Cleared \<Rightarrow> x = last_fruit n)"

text \<open>Every line has the whole sentence, and the fruits follow one another in their cycle.\<close>

definition good_lines :: "(buf \<times> string option) list \<Rightarrow> bool" where
  "good_lines ls \<longleftrightarrow> ls = map (\<lambda>i. (sentence, plate_name (next_fruit i))) [0..<length ls]"

lemma good_lines_append: "good_lines ls \<Longrightarrow> good_lines (ls @ [(sentence, plate_name (next_fruit (length ls)))])"
  unfolding good_lines_def by (metis (no_types, lifting) length_append_singleton list.map map_append upt_Suc_append zero_le)

text \<open>The points and sleeps of the printing process, of the one that writes and of the one that fills the plate.\<close>

definition fruit_ok :: "nat \<Rightarrow> nat \<Rightarrow> nat \<Rightarrow> nat \<Rightarrow> stage \<Rightarrow> stage \<Rightarrow> fruit_pc \<Rightarrow> fruit_pc \<Rightarrow> fruit_pc \<Rightarrow> (nat \<Rightarrow> int) \<Rightarrow>
    nat option \<Rightarrow> nat option \<Rightarrow> nat option \<Rightarrow> fruit_mem \<Rightarrow> bool" where
  "fruit_ok kw kf kw2 kf2 t u pm pw pf V sm sw sf m \<longleftrightarrow> distinct [kw, kf, kw2, kf2] \<and>
     main_pc pm \<and> word_pc pw \<and> plate_pc pf \<and>
     handshake t kw kw2 (writes_words pw \<and> sw = None) (main_words pm \<and> sm \<noteq> Some kw) V \<and>
     handshake u kf kf2 (fills_plate pf \<and> sf = None) (main_plate pm \<and> sm \<noteq> Some kf) V \<and>
     (sm = None \<or> sm = Some kw \<and> pm = M_fruit \<and> t \<noteq> Offered \<or> sm = Some kf \<and> pm = M_name \<and> u \<noteq> Offered) \<and>
     (sw = None \<or> sw = Some kw2 \<and> pw = W_put 0 \<and> t \<noteq> Cleared) \<and> (sf = None \<or> sf = Some kf2 \<and> pf = F_index \<and> u \<noteq> Cleared) \<and>
     words_data t pw (words m) \<and> plate_data u pm pf (length (lines m)) (fruit_plate m) (fruit_index m) \<and>
     good_lines (lines m)"

lemma sentence_simps: "length sentence = 25" "0 \<notin> set sentence" "sentence \<noteq> []"
  by (simp_all add: sentence_def)

lemma fruit_roles:
  "fruit_ok kw kf kw2 kf2 t u pm pw pf V sm sw sf m \<Longrightarrow> main_pc pm \<and> word_pc pw \<and> plate_pc pf \<and> distinct [kw, kf, kw2, kf2]"
  by (simp only: fruit_ok_def)

lemmas fruit_defs = fruit_ok_def handshake_def words_data_def plate_data_def

text \<open>The steps of the three processes.\<close>

lemma main_moves:
  assumes "fruit_ok kw kf kw2 kf2 t u pm pw pf V None sw sf m"
    and "main_pc p" "main_words p = main_words pm" "main_plate p = main_plate pm" "words m' = words m" "good_lines (lines m')"
    and "plate_data u p pf (length (lines m')) (fruit_plate m') (fruit_index m')"
  shows "fruit_ok kw kf kw2 kf2 t u p pw pf V None sw sf m'"
  using assms unfolding fruit_ok_def by simp

lemma main_local:
  assumes "fruit_ok kw kf kw2 kf2 t u pm pw pf V None sw sf m" "fruit_prog w f w2 f2 c pm m = Local p m'"
  shows "fruit_ok kw kf kw2 kf2 t u p pw pf V None sw sf m'"
proof -
  have d: "good_lines (lines m)" "plate_data u pm pf (length (lines m)) (fruit_plate m) (fruit_index m)"
    and u: "main_plate pm \<longleftrightarrow> u = Used" "main_words pm \<longleftrightarrow> t = Used" and wd: "words_data t pw (words m)"
    using assms(1) unfolding fruit_ok_def handshake_def by simp_all
  note moves = main_moves [OF assms(1)]
  show ?thesis
  proof (cases pm)
    case M_name
    then have "p = M_read (plate_name (fruit_plate m)) []" "m' = m" "u = Used" using assms(2) u by auto
    then show ?thesis using d M_name by (intro moves) (simp_all add: plate_data_def)
  next
    case (M_read nm acc)
    have t: "t = Used" "u = Used" using u M_read by simp_all
    have c: "is_cstr (words m) 0 sentence" using wd t by (simp add: words_data_def del: is_cstr.simps)
    have acc: "length acc \<le> length sentence" "acc = take (length acc) sentence" and x: "fruit_index m = next_fruit (length (lines m))"
      "nm = plate_name (fruit_index m)" using d(2) M_read t by (simp_all add: plate_data_def)
    show ?thesis
    proof (cases "length acc = length sentence")
      case True
      then have "acc = sentence" using acc(2) by simp
      moreover have "rd (words m) (length acc) = Some 0" using c True by (simp add: is_cstr_iff rd_def)
      ultimately have "p = M_v2" "m' = m\<lparr>lines := lines m @ [(sentence, nm)]\<rparr>" using assms(2) M_read by auto
      then show ?thesis using M_read t x good_lines_append [OF d(1)]
        by (intro moves) (simp_all add: plate_data_def fruit_cycle(2))
    next
      case False
      then have l: "length acc < length sentence" using acc(1) by simp
      then have nz: "sentence ! length acc \<noteq> 0" using sentence_simps(2) by (metis nth_mem)
      have "rd (words m) (length acc) = Some (sentence ! length acc)" using c l by (auto simp: is_cstr_iff rd_def)
      then have "p = M_read nm (acc @ [sentence ! length acc])" "m' = m" using assms(2) M_read nz by auto
      moreover have "acc @ [sentence ! length acc] = take (Suc (length acc)) sentence"
        using acc(2) l by (metis take_Suc_conv_app_nth)
      ultimately show ?thesis using d M_read t l x by (intro moves) (simp_all add: plate_data_def)
    qed
  next
    case M_clear
    then have "p = M_v3" "m' = m\<lparr>fruit_plate := 0\<rparr>" "u = Used" using assms(2) u by auto
    then show ?thesis using M_clear d by (intro moves) (simp_all add: plate_data_def)
  qed (use fruit_roles [OF assms(1)] assms(2) in \<open>auto split: option.splits\<close>)
qed

lemma plate_local:
  assumes "fruit_ok kw kf kw2 kf2 t u pm pw pf V sm sw None m" "fruit_prog w f w2 f2 c pf m = Local p m'"
  shows "fruit_ok kw kf kw2 kf2 t u pm pw p V sm sw None m'"
proof -
  consider "pf = F_index" | "pf = F_fix" | "pf = F_plate"
    using fruit_roles [OF assms(1)] assms(2) by (cases pf) (auto split: option.splits)
  then have u: "u = Making" using assms(1) by cases (simp_all add: fruit_ok_def handshake_def)
  have f: "main_pc pm" "word_pc pw" "plate_pc pf" "words_data t pw (words m)" "good_lines (lines m)"
    "filling pf (length (lines m)) (fruit_plate m) (fruit_index m)" "fills_plate pf"
    using assms(1) unfolding u by (simp_all add: fruit_ok_def plate_data_def handshake_def)
  consider "pf = F_index" | "pf = F_fix" | "pf = F_plate"
    using fruit_roles [OF assms(1)] assms(2) by (cases pf) (auto split: option.splits)
  then have "plate_pc p \<and> fills_plate p \<and> words m' = words m \<and> lines m' = lines m \<and>
      filling p (length (lines m)) (fruit_plate m') (fruit_index m')"
    using assms(2) f(6) fruit_cycle(1) [of "length (lines m)"] by cases auto
  then show ?thesis using assms(1) f(7) unfolding u fruit_ok_def plate_data_def by simp
qed

lemma word_local:
  assumes "fruit_ok kw kf kw2 kf2 t u pm pw pf V sm None sf m" "fruit_prog w f w2 f2 c pw m = Local p m'"
  shows "fruit_ok kw kf kw2 kf2 t u pm p pf V sm None sf m'"
proof (cases pw)
  case (W_put i)
  let ?b = "(words m)[i := (sentence @ [0]) ! i]"
  have t: "t = Making" using assms(1) W_put by (auto simp: fruit_ok_def handshake_def)
  have i: "i \<le> 25" "take i (words m) = take i sentence" "length (words m) = 100"
    using assms(1) W_put t sentence_simps(1) by (auto simp: fruit_ok_def words_data_def)
  have w: "wr (words m) i x = Some ((words m)[i := x])" for x using i by (simp add: wr_def)
  show ?thesis
  proof (cases "i = 25")
    case True
    have "p = W_v0" "m' = m\<lparr>words := ?b\<rparr>" using assms(2) W_put w True by (auto simp: sentence_simps)
    moreover have "is_cstr ?b 0 sentence"
      using i True sentence_simps by (auto simp: is_cstr_iff nth_append) (metis nth_take)
    ultimately show ?thesis using assms(1) W_put t by (auto simp: fruit_defs)
  next
    case False
    then have "p = W_put (Suc i)" "m' = m\<lparr>words := ?b\<rparr>" using assms(2) W_put w i(1) by (auto simp: sentence_simps)
    moreover have "take (Suc i) ?b = take (Suc i) sentence"
      using i False by (simp add: take_Suc_conv_app_nth sentence_simps nth_append)
    ultimately show ?thesis using assms(1) W_put t i False by (auto simp: fruit_defs sentence_simps)
  qed
qed (use fruit_roles [OF assms(1)] assms(2) in \<open>auto split: option.splits\<close>)

text \<open>The data of a stage depend on the point of one process only.\<close>

lemma data_frame:
  "u \<noteq> Used \<Longrightarrow> plate_data u p q n v x = plate_data u p' q n v x"
  "u \<noteq> Making \<Longrightarrow> plate_data u p q n v x = plate_data u p q' n v x"
  "t \<noteq> Making \<Longrightarrow> words_data t p b = words_data t p' b"
  by (cases u; simp add: plate_data_def)+ (simp add: words_data_def)

lemma main_acquire:
  assumes "fruit_ok kw kf kw2 kf2 t u pm pw pf V None sw sf m" "fruit_prog w f w2 f2 c pm m = Acquire i p"
  shows "i = w \<and> (0 < V kw \<longrightarrow> fruit_ok kw kf kw2 kf2 Used u p pw pf (V(kw := V kw - 1)) None sw sf m) \<and>
      (V kw \<le> 0 \<longrightarrow> fruit_ok kw kf kw2 kf2 t u p pw pf V (Some kw) sw sf m) \<or>
    i = f \<and> (0 < V kf \<longrightarrow> fruit_ok kw kf kw2 kf2 t Used p pw pf (V(kf := V kf - 1)) None sw sf m) \<and>
      (V kf \<le> 0 \<longrightarrow> fruit_ok kw kf kw2 kf2 t u p pw pf V (Some kf) sw sf m)"
proof -
  have "main_pc pm" using fruit_roles [OF assms(1)] by simp
  then consider "pm = M_word" "i = w" "p = M_fruit" | "pm = M_fruit" "i = f" "p = M_name"
    using assms(2) by (cases pm) (auto split: option.splits if_splits)
  then show ?thesis
  proof cases
    case 1
    note f = assms(1) [unfolded fruit_ok_def handshake_def, simplified 1]
    have u: "u \<noteq> Used" using f by simp
    have t: "0 < V kw \<Longrightarrow> t = Offered" "V kw \<le> 0 \<Longrightarrow> t \<noteq> Offered" using f by (auto split: if_splits)
    have "fruit_ok kw kf kw2 kf2 Used u p pw pf (V(kw := V kw - 1)) None sw sf m" if "0 < V kw"
      using f data_frame(1) [OF u, where p = M_word and p' = M_fruit] t(1) [OF that] unfolding fruit_ok_def handshake_def 1 words_data_def
      by (auto simp del: is_cstr.simps)
    moreover have "fruit_ok kw kf kw2 kf2 t u p pw pf V (Some kw) sw sf m" if "V kw \<le> 0"
      using f data_frame(1) [OF u, where p = M_word and p' = M_fruit] t(2) [OF that] unfolding fruit_ok_def handshake_def 1 by auto
    ultimately show ?thesis using 1 by blast
  next
    case 2
    note f = assms(1) [unfolded fruit_ok_def handshake_def, simplified 2]
    have u: "u \<noteq> Used" using f by simp
    have t: "0 < V kf \<Longrightarrow> u = Offered" "V kf \<le> 0 \<Longrightarrow> u \<noteq> Offered" using f by (auto split: if_splits)
    have "fruit_ok kw kf kw2 kf2 t Used p pw pf (V(kf := V kf - 1)) None sw sf m" if "0 < V kf"
      using f t(1) [OF that] unfolding fruit_ok_def handshake_def 2 plate_data_def by auto
    moreover have "fruit_ok kw kf kw2 kf2 t u p pw pf V (Some kf) sw sf m" if "V kf \<le> 0"
      using f data_frame(1) [OF u, where p = M_fruit and p' = M_name] t(2) [OF that] unfolding fruit_ok_def handshake_def 2 by auto
    ultimately show ?thesis using 2 by blast
  qed
qed

lemma word_acquire:
  assumes "fruit_ok kw kf kw2 kf2 t u pm pw pf V sm None sf m" "fruit_prog w f w2 f2 c pw m = Acquire i p"
  shows "i = w2 \<and> (0 < V kw2 \<longrightarrow> fruit_ok kw kf kw2 kf2 Making u pm p pf (V(kw2 := V kw2 - 1)) sm None sf m) \<and>
    (V kw2 \<le> 0 \<longrightarrow> fruit_ok kw kf kw2 kf2 t u pm p pf V sm (Some kw2) sf m)"
proof -
  have "word_pc pw" using fruit_roles [OF assms(1)] by simp
  then have 1: "pw = W_p2" "i = w2" "p = W_put 0" using assms(2) by (cases pw; auto split: option.splits)+
  note f = assms(1) [unfolded fruit_ok_def handshake_def, simplified 1]
  have tm: "t \<noteq> Making" using f by simp
  have t: "0 < V kw2 \<Longrightarrow> t = Cleared" "V kw2 \<le> 0 \<Longrightarrow> t \<noteq> Cleared" using f by (auto split: if_splits)
  have "fruit_ok kw kf kw2 kf2 Making u pm p pf (V(kw2 := V kw2 - 1)) sm None sf m" if "0 < V kw2"
    using f t(1) [OF that] unfolding fruit_ok_def handshake_def 1 words_data_def by auto
  moreover have "fruit_ok kw kf kw2 kf2 t u pm p pf V sm (Some kw2) sf m" if "V kw2 \<le> 0"
    using f data_frame(3) [OF tm, where p = W_p2 and p' = "W_put 0"] t(2) [OF that] unfolding fruit_ok_def handshake_def 1 by auto
  ultimately show ?thesis using 1 by blast
qed

lemma plate_acquire:
  assumes "fruit_ok kw kf kw2 kf2 t u pm pw pf V sm sw None m" "fruit_prog w f w2 f2 c pf m = Acquire i p"
  shows "i = f2 \<and> (0 < V kf2 \<longrightarrow> fruit_ok kw kf kw2 kf2 t Making pm pw p (V(kf2 := V kf2 - 1)) sm sw None m) \<and>
    (V kf2 \<le> 0 \<longrightarrow> fruit_ok kw kf kw2 kf2 t u pm pw p V sm sw (Some kf2) m)"
proof -
  have "plate_pc pf" using fruit_roles [OF assms(1)] by simp
  then have 1: "pf = F_p3" "i = f2" "p = F_index" using assms(2) by (cases pf; auto split: option.splits)+
  note f = assms(1) [unfolded fruit_ok_def handshake_def, simplified 1]
  have um: "u \<noteq> Making" using f by simp
  have t: "0 < V kf2 \<Longrightarrow> u = Cleared" "V kf2 \<le> 0 \<Longrightarrow> u \<noteq> Cleared" using f by (auto split: if_splits)
  have "fruit_ok kw kf kw2 kf2 t Making pm pw p (V(kf2 := V kf2 - 1)) sm sw None m" if "0 < V kf2"
    using f t(1) [OF that] unfolding fruit_ok_def handshake_def 1 plate_data_def by auto
  moreover have "fruit_ok kw kf kw2 kf2 t u pm pw p V sm sw (Some kf2) m" if "V kf2 \<le> 0"
    using f data_frame(2) [OF um, where q = F_p3 and q' = F_index] t(2) [OF that] unfolding fruit_ok_def handshake_def 1 by auto
  ultimately show ?thesis using 1 by blast
qed

lemma main_release:
  assumes "fruit_ok kw kf kw2 kf2 t u pm pw pf V None sw sf m" "fruit_prog w f w2 f2 c pm m = Release i p"
  shows "i = w2 \<and> sf \<noteq> Some kw2 \<and> (sw \<noteq> Some kw2 \<longrightarrow> fruit_ok kw kf kw2 kf2 Cleared u p pw pf (V(kw2 := V kw2 + 1)) None sw sf m) \<and>
      (sw = Some kw2 \<longrightarrow> fruit_ok kw kf kw2 kf2 Making u p pw pf V None None sf m) \<or>
    i = f2 \<and> sw \<noteq> Some kf2 \<and> (sf \<noteq> Some kf2 \<longrightarrow> fruit_ok kw kf kw2 kf2 t Cleared p pw pf (V(kf2 := V kf2 + 1)) None sw sf m) \<and>
      (sf = Some kf2 \<longrightarrow> fruit_ok kw kf kw2 kf2 t Making p pw pf V None sw None m)"
proof -
  have "main_pc pm" using fruit_roles [OF assms(1)] by simp
  then consider "pm = M_v2" "i = w2" "p = M_clear" | "pm = M_v3" "i = f2" "p = M_word"
    using assms(2) by (cases pm) (auto split: option.splits if_splits)
  then show ?thesis
  proof cases
    case 1
    note f = assms(1) [unfolded fruit_ok_def handshake_def, simplified 1]
    have u: "u = Used" "t = Used" using f by simp_all
    have d: "plate_data Used M_v2 pf n v x = plate_data Used M_clear pf n v x" for n v x by (simp add: plate_data_def)
    have "fruit_ok kw kf kw2 kf2 Cleared u p pw pf (V(kw2 := V kw2 + 1)) None sw sf m" if "sw \<noteq> Some kw2"
      using f that u d unfolding fruit_ok_def handshake_def 1 words_data_def by auto
    moreover have "fruit_ok kw kf kw2 kf2 Making u p pw pf V None None sf m" if "sw = Some kw2"
      using f that u d unfolding fruit_ok_def handshake_def 1 words_data_def by auto
    moreover have "sf \<noteq> Some kw2" using f by auto
    ultimately show ?thesis using 1 by blast
  next
    case 2
    note f = assms(1) [unfolded fruit_ok_def handshake_def, simplified 2]
    have u: "u = Used" "t \<noteq> Used" using f by simp_all
    have "fruit_ok kw kf kw2 kf2 t Cleared p pw pf (V(kf2 := V kf2 + 1)) None sw sf m" if "sf \<noteq> Some kf2"
      using f that u unfolding fruit_ok_def handshake_def 2 plate_data_def by auto
    moreover have "fruit_ok kw kf kw2 kf2 t Making p pw pf V None sw None m" if "sf = Some kf2"
      using f that u unfolding fruit_ok_def handshake_def 2 plate_data_def by auto
    moreover have "sw \<noteq> Some kf2" using f by auto
    ultimately show ?thesis using 2 by blast
  qed
qed

lemma word_release:
  assumes "fruit_ok kw kf kw2 kf2 t u pm pw pf V sm None sf m" "fruit_prog w f w2 f2 c pw m = Release i p"
  shows "i = w \<and> sf \<noteq> Some kw \<and> (sm \<noteq> Some kw \<longrightarrow> fruit_ok kw kf kw2 kf2 Offered u pm p pf (V(kw := V kw + 1)) sm None sf m) \<and>
    (sm = Some kw \<longrightarrow> fruit_ok kw kf kw2 kf2 Used u pm p pf V None None sf m)"
proof -
  have "word_pc pw" using fruit_roles [OF assms(1)] by simp
  then have 1: "pw = W_v0" "i = w" "p = W_p2" using assms(2) by (cases pw; auto split: option.splits)+
  note f = assms(1) [unfolded fruit_ok_def handshake_def, simplified 1]
  have t: "t = Making" using f by simp
  have d: "words_data Making W_v0 b = (length b = 100 \<and> is_cstr b 0 sentence)" for b
    by (simp add: words_data_def del: is_cstr.simps)
  have "fruit_ok kw kf kw2 kf2 Offered u pm p pf (V(kw := V kw + 1)) sm None sf m" if "sm \<noteq> Some kw"
    using f that t d unfolding fruit_ok_def handshake_def 1 words_data_def by (auto simp del: is_cstr.simps)
  moreover have "fruit_ok kw kf kw2 kf2 Used u pm p pf V None None sf m" if "sm = Some kw"
    using f that t d unfolding fruit_ok_def handshake_def 1 words_data_def by (auto simp del: is_cstr.simps)
  moreover have "sf \<noteq> Some kw" using f by auto
  ultimately show ?thesis using 1 by blast
qed

lemma plate_release:
  assumes "fruit_ok kw kf kw2 kf2 t u pm pw pf V sm sw None m" "fruit_prog w f w2 f2 c pf m = Release i p"
  shows "i = f \<and> sw \<noteq> Some kf \<and> (sm \<noteq> Some kf \<longrightarrow> fruit_ok kw kf kw2 kf2 t Offered pm pw p (V(kf := V kf + 1)) sm sw None m) \<and>
    (sm = Some kf \<longrightarrow> fruit_ok kw kf kw2 kf2 t Used pm pw p V None sw None m)"
proof -
  have "plate_pc pf" using fruit_roles [OF assms(1)] by simp
  then have 1: "pf = F_v1" "i = f" "p = F_p3" using assms(2) by (cases pf; auto split: option.splits)+
  note f = assms(1) [unfolded fruit_ok_def handshake_def, simplified 1]
  have t: "u = Making" using f by simp
  have d: "plate_data Making pm F_v1 n v x = (x = next_fruit n \<and> v = x)" for n v x by (simp add: plate_data_def)
  have "fruit_ok kw kf kw2 kf2 t Offered pm pw p (V(kf := V kf + 1)) sm sw None m" if "sm \<noteq> Some kf"
    using f that t d unfolding fruit_ok_def handshake_def 1 plate_data_def by auto
  moreover have "fruit_ok kw kf kw2 kf2 t Used pm pw p V None sw None m" if "sm = Some kf"
    using f that t d unfolding fruit_ok_def handshake_def 1 plate_data_def by auto
  moreover have "sw \<noteq> Some kf" using f by auto
  ultimately show ?thesis using 1 by blast
qed

section \<open>All processes\<close>

definition fruit_sems :: "nat set \<Rightarrow> nat \<Rightarrow> u32 \<Rightarrow> u32 \<Rightarrow> u32 \<Rightarrow> u32 \<Rightarrow> bool" where
  "fruit_sems room p0 w f w2 f2 \<longleftrightarrow> finite room \<and> 2 \<le> card room \<and> p0 \<notin> room \<and>
     0 \<le> sint w \<and> 0 \<le> sint f \<and> 0 \<le> sint w2 \<and> 0 \<le> sint f2"

text \<open>Who there is: the first process, its child, or the child with a child of its own. The processes that are not there
  yet count as being at the start of their loops.\<close>

definition crew :: "nat \<Rightarrow> (nat \<Rightarrow> fruit_pc) \<Rightarrow> (nat \<Rightarrow> nat option) \<Rightarrow> nat set \<Rightarrow> fruit_pc \<Rightarrow> fruit_pc \<Rightarrow> nat option \<Rightarrow> nat option \<Rightarrow> bool" where
  "crew p0 pc W A pw pf sw sf \<longleftrightarrow>
     (if pc p0 = Fork_1 then A = {p0} \<and> pw = W_put 0 \<and> pf = F_index \<and> sw = None \<and> sf = None
      else (\<exists>c1. c1 \<noteq> p0 \<and> A = {p0, c1} \<and> pc c1 = Fork_2 \<and> W c1 = None \<and> pw = W_put 0 \<and> pf = F_index \<and> sw = None \<and> sf = None) \<or>
        (\<exists>c1 c2. distinct [p0, c1, c2] \<and> A = {p0, c1, c2} \<and> pw = pc c1 \<and> pf = pc c2 \<and> sw = W c1 \<and> sf = W c2))"

definition fruit_inv :: "nat set \<Rightarrow> nat \<Rightarrow> u32 \<Rightarrow> u32 \<Rightarrow> u32 \<Rightarrow> u32 \<Rightarrow>
    (nat \<Rightarrow> fruit_pc) \<times> fruit_mem \<times> nat set \<times> (nat \<Rightarrow> int) \<times> (nat \<Rightarrow> nat option) \<Rightarrow> bool" where
  "fruit_inv room p0 w f w2 f2 = (\<lambda>(pc, m, A, V, W). fruit_sems room p0 w f w2 f2 \<and> (\<forall>c. c \<notin> A \<longrightarrow> W c = None) \<and>
     (\<exists>t u pw pf sw sf. fruit_ok (nat (sint w)) (nat (sint f)) (nat (sint w2)) (nat (sint f2)) t u (pc p0) pw pf V (W p0) sw sf m \<and>
       crew p0 pc W A pw pf sw sf))"

lemma fruit_inv_two:
  assumes "fruit_sems room p0 w f w2 f2" "c1 \<noteq> p0" "\<And>c. c \<notin> {p0, c1} \<Longrightarrow> W c = None" "pc p0 \<noteq> Fork_1" "pc c1 = Fork_2" "W c1 = None"
    and "\<exists>t u. fruit_ok (nat (sint w)) (nat (sint f)) (nat (sint w2)) (nat (sint f2)) t u (pc p0) (W_put 0) F_index V (W p0) None None m"
  shows "fruit_inv room p0 w f w2 f2 (pc, m, {p0, c1}, V, W)"
proof -
  have "crew p0 pc W {p0, c1} (W_put 0) F_index None None" using assms(2,4-6) unfolding crew_def by auto
  then show ?thesis using assms(1,3,7) unfolding fruit_inv_def prod.case by blast
qed

lemma fruit_inv_three:
  assumes "fruit_sems room p0 w f w2 f2" "distinct [p0, c1, c2]" "\<And>c. c \<notin> {p0, c1, c2} \<Longrightarrow> W c = None" "pc p0 \<noteq> Fork_1"
    and "\<exists>t u. fruit_ok (nat (sint w)) (nat (sint f)) (nat (sint w2)) (nat (sint f2)) t u (pc p0) (pc c1) (pc c2) V (W p0) (W c1) (W c2) m"
  shows "fruit_inv room p0 w f w2 f2 (pc, m, {p0, c1, c2}, V, W)"
proof -
  have "crew p0 pc W {p0, c1, c2} (pc c1) (pc c2) (W c1) (W c2)" using assms(2,4) unfolding crew_def by auto
  then show ?thesis using assms(1,3,5) unfolding fruit_inv_def prod.case by blast
qed

lemma main_stays:
  assumes "main_pc p" "p \<noteq> Fork_1"
  shows "fruit_prog w f w2 f2 c p m = Local q m' \<Longrightarrow> q \<noteq> Fork_1" "fruit_prog w f w2 f2 c p m = Acquire i q \<Longrightarrow> q \<noteq> Fork_1"
    "fruit_prog w f w2 f2 c p m = Release i q \<Longrightarrow> q \<noteq> Fork_1"
    "fruit_prog w f w2 f2 c p m \<noteq> Fork x y z" "fruit_prog w f w2 f2 c p m \<noteq> Spawn x y z"
  using assms by (cases p; auto split: option.splits if_splits)+

lemma others_stay:
  "word_pc p \<or> plate_pc p \<Longrightarrow> fruit_prog w f w2 f2 c p m \<noteq> Fork x y z \<and> fruit_prog w f w2 f2 c p m \<noteq> Spawn x y z"
  by (cases p) (auto split: option.splits)

text \<open>With one child.\<close>

lemma fruit_kept_two:
  assumes c: "fruit_sems room p0 w f w2 f2" "c1 \<noteq> p0" "\<And>c. c \<notin> {p0, c1} \<Longrightarrow> W c = None" "pc p0 \<noteq> Fork_1" "pc c1 = Fork_2" "W c1 = None"
    and ok: "fruit_ok (nat (sint w)) (nat (sint f)) (nat (sint w2)) (nat (sint f2)) t u (pc p0) (W_put 0) F_index V (W p0) None None m"
    and "ideal_step room (fruit_prog w f w2 f2) (pc, m, {p0, c1}, V, W) v"
  shows "fruit_inv room p0 w f w2 f2 v"
proof -
  let ?ok = "fruit_ok (nat (sint w)) (nat (sint f)) (nat (sint w2)) (nat (sint f2))"
  have pm: "main_pc (pc p0)" using fruit_roles [OF ok] by simp
  have okp: "W p0 = None \<Longrightarrow> ?ok t u (pc p0) (W_put 0) F_index V None None None m" using ok by simp
  note stay = main_stays [OF pm c(4)]
  show ?thesis using assms(8)
  proof (cases rule: ideal_step.cases)
    case (i_local d p m')
    then have d: "d = p0" using c(5) by auto
    then have "\<exists>t u. ?ok t u p (W_put 0) F_index V None None None m'" using main_local [OF okp] i_local(3,4) by blast
    then show ?thesis unfolding i_local(1) d
      by (intro fruit_inv_two) (use i_local(3,4) c stay(1) d in auto)
  next
    case (i_take d i p k)
    then have d: "d = p0" using c(5) by auto
    then have "\<exists>t u. ?ok t u p (W_put 0) F_index (V(k := V k - 1)) None None None m"
      using main_acquire [OF okp, of w f w2 f2 p0 i p] i_take(3-6) by blast
    then show ?thesis unfolding i_take(1) d
      by (intro fruit_inv_two) (use i_take(3,4) c stay(2) d in auto)
  next
    case (i_sleep d i p k)
    then have d: "d = p0" using c(5) by auto
    then have "\<exists>t u. ?ok t u p (W_put 0) F_index V (Some k) None None m"
      using main_acquire [OF okp, of w f w2 f2 p0 i p] i_sleep(3-6) by blast
    then show ?thesis unfolding i_sleep(1) d
      by (intro fruit_inv_two) (use i_sleep(3,4) c stay(2) d in auto)
  next
    case (i_give d i p k)
    then have d: "d = p0" using c(5) by auto
    then have "\<exists>t u. ?ok t u p (W_put 0) F_index (V(k := V k + 1)) None None None m"
      using main_release [OF okp, of w f w2 f2 p0 i p] i_give(3-6) by auto
    then show ?thesis unfolding i_give(1) d
      by (intro fruit_inv_two) (use i_give(3,4) c stay(3) d in auto)
  next
    case (i_wake d i p k e)
    then have "d = p0" using c(5) by auto
    then have "e \<noteq> p0" "e \<noteq> c1" using i_wake c(6) by auto
    then show ?thesis using i_wake(6) c(3) by simp
  next
    case (i_create d p p' pf n)
    then have d: "d = c1" using stay by auto
    then have p: "p = W_put 0" "p' = F_index" using i_create(4) c(5) by auto
    have "v = (pc(c1 := W_put 0, n := F_index), m, {p0, c1, n}, V, W)" using i_create(1) d p by (simp add: insert_commute)
    moreover have "W n = None" "n \<noteq> p0" "n \<noteq> c1" using i_create(5) c(3) by auto
    moreover have "\<exists>t u. ?ok t u (pc p0) (W_put 0) F_index V (W p0) None None m" using ok by blast
    ultimately show ?thesis using c by (simp only:) (intro fruit_inv_three; simp)
  next
    case (i_full d p p' pf)
    then have "room \<subseteq> {c1}" using c(1) by (auto simp: fruit_sems_def)
    then have "card room \<le> card {c1}" by (intro card_mono) simp_all
    then show ?thesis using c(1) by (simp add: fruit_sems_def)
  qed
qed

text \<open>With both.\<close>

lemma fruit_kept_three:
  assumes c: "fruit_sems room p0 w f w2 f2" "distinct [p0, c1, c2]" "\<And>c. c \<notin> {p0, c1, c2} \<Longrightarrow> W c = None" "pc p0 \<noteq> Fork_1"
    and ok: "fruit_ok (nat (sint w)) (nat (sint f)) (nat (sint w2)) (nat (sint f2)) t u (pc p0) (pc c1) (pc c2) V (W p0) (W c1) (W c2) m"
    and "ideal_step room (fruit_prog w f w2 f2) (pc, m, {p0, c1, c2}, V, W) v"
  shows "fruit_inv room p0 w f w2 f2 v"
proof -
  let ?ok = "fruit_ok (nat (sint w)) (nat (sint f)) (nat (sint w2)) (nat (sint f2))"
  have r: "main_pc (pc p0)" "word_pc (pc c1)" "plate_pc (pc c2)" using fruit_roles [OF ok] by simp_all
  have ok0: "W p0 = None \<Longrightarrow> ?ok t u (pc p0) (pc c1) (pc c2) V None (W c1) (W c2) m"
    and ok1: "W c1 = None \<Longrightarrow> ?ok t u (pc p0) (pc c1) (pc c2) V (W p0) None (W c2) m"
    and ok2: "W c2 = None \<Longrightarrow> ?ok t u (pc p0) (pc c1) (pc c2) V (W p0) (W c1) None m" using ok by simp_all
  note stay = main_stays [OF r(1) c(4)]
  have ne: "p0 \<noteq> c1" "p0 \<noteq> c2" "c1 \<noteq> c2" using c(2) by simp_all
  show ?thesis using assms(6)
  proof (cases rule: ideal_step.cases)
    case (i_local d p m')
    have n: "(pc(d := p)) p0 \<noteq> Fork_1" using i_local(2,4) c(4) stay(1) by auto
    have "\<exists>t u. ?ok t u ((pc(d := p)) p0) ((pc(d := p)) c1) ((pc(d := p)) c2) V (W p0) (W c1) (W c2) m'"
      using i_local(2-4) ne main_local [OF ok0, of w f w2 f2 p0 p m'] word_local [OF ok1, of w f w2 f2 c1 p m']
        plate_local [OF ok2, of w f w2 f2 c2 p m'] by auto
    then show ?thesis unfolding i_local(1) by (intro fruit_inv_three) (use c n in auto)
  next
    case (i_take d i p k)
    have n: "(pc(d := p)) p0 \<noteq> Fork_1" using i_take(2,4) c(4) stay(2) by auto
    have "\<exists>t u. ?ok t u ((pc(d := p)) p0) ((pc(d := p)) c1) ((pc(d := p)) c2) (V(k := V k - 1)) (W p0) (W c1) (W c2) m"
      using i_take(2-6) ne main_acquire [OF ok0, of w f w2 f2 p0 i p] word_acquire [OF ok1, of w f w2 f2 c1 i p]
        plate_acquire [OF ok2, of w f w2 f2 c2 i p] by auto
    then show ?thesis unfolding i_take(1) by (intro fruit_inv_three) (use c n in auto)
  next
    case (i_sleep d i p k)
    have n: "(pc(d := p)) p0 \<noteq> Fork_1" using i_sleep(2,4) c(4) stay(2) by auto
    have "\<exists>t u. ?ok t u ((pc(d := p)) p0) ((pc(d := p)) c1) ((pc(d := p)) c2) V ((W(d \<mapsto> k)) p0) ((W(d \<mapsto> k)) c1) ((W(d \<mapsto> k)) c2) m"
      using i_sleep(2-6) ne main_acquire [OF ok0, of w f w2 f2 p0 i p] word_acquire [OF ok1, of w f w2 f2 c1 i p]
        plate_acquire [OF ok2, of w f w2 f2 c2 i p] by auto
    then show ?thesis unfolding i_sleep(1) by (intro fruit_inv_three) (use c n i_sleep(2) in auto)
  next
    case (i_give d i p k)
    have n: "(pc(d := p)) p0 \<noteq> Fork_1" using i_give(2,4) c(4) stay(3) by auto
    have "\<exists>t u. ?ok t u ((pc(d := p)) p0) ((pc(d := p)) c1) ((pc(d := p)) c2) (V(k := V k + 1)) (W p0) (W c1) (W c2) m"
      using i_give(2-6) ne main_release [OF ok0, of w f w2 f2 p0 i p] word_release [OF ok1, of w f w2 f2 c1 i p]
        plate_release [OF ok2, of w f w2 f2 c2 i p] by auto
    then show ?thesis unfolding i_give(1) by (intro fruit_inv_three) (use c n in auto)
  next
    case (i_wake d i p k e)
    have n: "(pc(d := p)) p0 \<noteq> Fork_1" using i_wake(2,4) c(4) stay(3) by auto
    have e: "e \<in> {p0, c1, c2}" using i_wake(6) c(3) by (metis option.distinct(1))
    have "\<exists>t u. ?ok t u ((pc(d := p)) p0) ((pc(d := p)) c1) ((pc(d := p)) c2) V ((W(e := None)) p0) ((W(e := None)) c1) ((W(e := None)) c2) m"
      using i_wake(2-6) e ne main_release [OF ok0, of w f w2 f2 p0 i p] word_release [OF ok1, of w f w2 f2 c1 i p]
        plate_release [OF ok2, of w f w2 f2 c2 i p] by auto
    then show ?thesis unfolding i_wake(1) by (intro fruit_inv_three) (use c n in auto)
  next
    case (i_create d p p' pf n)
    then show ?thesis using stay(4,5) others_stay r by auto
  next
    case (i_full d p p' pf)
    then show ?thesis using stay(4,5) others_stay r by auto
  qed
qed

lemma fruit_kept:
  assumes "fruit_inv room p0 w f w2 f2 x" "ideal_step room (fruit_prog w f w2 f2) x v"
  shows "fruit_inv room p0 w f w2 f2 v"
proof -
  obtain pc m A V W where x: "x = (pc, m, A, V, W)" by (metis prod.exhaust)
  let ?ok = "fruit_ok (nat (sint w)) (nat (sint f)) (nat (sint w2)) (nat (sint f2))"
  obtain t u pw pf sw sf where i: "fruit_sems room p0 w f w2 f2" "\<And>c. c \<notin> A \<Longrightarrow> W c = None"
    "?ok t u (pc p0) pw pf V (W p0) sw sf m" "crew p0 pc W A pw pf sw sf"
    using assms(1) unfolding x fruit_inv_def by auto
  show ?thesis
  proof (cases "pc p0 = Fork_1")
    case True
    then have a: "A = {p0}" "pw = W_put 0" "pf = F_index" "sw = None" "sf = None" using i(4) by (simp_all add: crew_def)
    have s: "W p0 = None" using i(3) True by (auto simp: fruit_ok_def)
    have "u \<noteq> Used" using i(3) True by (auto simp: fruit_ok_def handshake_def)
    note d = data_frame(1) [OF this, where p = Fork_1 and p' = M_word]
    have ok: "?ok t u M_word (W_put 0) F_index V None None None m"
      using i(3) s d unfolding True a fruit_ok_def by simp
    show ?thesis using assms(2) unfolding x a
    proof (cases rule: ideal_step.cases)
      case (i_create d p p' pf n)
      then have c: "d = p0" "p = M_word" "p' = Fork_2" using True by auto
      have "v = (pc(p0 := M_word, n := Fork_2), m, {p0, n}, V, W)" using i_create(1) c by (simp add: insert_commute)
      moreover have "W n = None" "n \<noteq> p0" using i_create(5) i(2) a(1) by auto
      moreover have "\<exists>t u. ?ok t u M_word (W_put 0) F_index V (W p0) None None m" using ok s by auto
      ultimately show ?thesis using i(1,2) a(1) by (simp only:) (intro fruit_inv_two; simp)
    next
      case (i_full d p p' pf)
      then have "room = {}" using i(1) by (auto simp: fruit_sems_def)
      then show ?thesis using i(1) by (simp add: fruit_sems_def)
    qed (use True in auto)
  next
    case False
    then consider (two) c1 where "c1 \<noteq> p0" "A = {p0, c1}" "pc c1 = Fork_2" "W c1 = None" "pw = W_put 0" "pf = F_index" "sw = None" "sf = None"
      | (three) c1 c2 where "distinct [p0, c1, c2]" "A = {p0, c1, c2}" "pw = pc c1" "pf = pc c2" "sw = W c1" "sf = W c2"
      using i(4) unfolding crew_def by (auto simp only: if_False)
    then show ?thesis
    proof cases
      case two
      show ?thesis
      proof (rule fruit_kept_two [where ?p0.0 = p0 and ?c1.0 = c1 and pc = pc and W = W and V = V and m = m and t = t and u = u])
        show "ideal_step room (fruit_prog w f w2 f2) (pc, m, {p0, c1}, V, W) v" using assms(2) two(2) x by simp
      qed (use i(1-3) two False in auto)
    next
      case three
      show ?thesis
      proof (rule fruit_kept_three [where ?p0.0 = p0 and ?c1.0 = c1 and ?c2.0 = c2 and pc = pc and W = W and V = V and m = m and t = t and u = u])
        show "ideal_step room (fruit_prog w f w2 f2) (pc, m, {p0, c1, c2}, V, W) v" using assms(2) three(2) x by simp
      qed (use i(1-3) three False in auto)
    qed
  qed
qed

lemma fruit_inv_parts:
  assumes "fruit_inv room p0 w f w2 f2 (pc, m, A, V, W)"
  obtains t u pw pf sw sf where "fruit_sems room p0 w f w2 f2" "\<And>c. c \<notin> A \<Longrightarrow> W c = None"
    "fruit_ok (nat (sint w)) (nat (sint f)) (nat (sint w2)) (nat (sint f2)) t u (pc p0) pw pf V (W p0) sw sf m" "crew p0 pc W A pw pf sw sf"
  using assms unfolding fruit_inv_def by auto

lemma fruit_sleepers:
  assumes "fruit_ok kw kf kw2 kf2 t u pm pw pf V sm sw sf m"
  shows "sm \<noteq> None \<Longrightarrow> sw = None \<or> sf = None" "sm \<in> {None, Some kw, Some kf}" "sw \<in> {None, Some kw2}" "sf \<in> {None, Some kf2}"
proof -
  have "sw = None" if "sm = Some kw"
    using assms that by (cases t) (auto simp: fruit_ok_def handshake_def)
  moreover have "sf = None" if "sm = Some kf"
    using assms that by (cases u) (auto simp: fruit_ok_def handshake_def)
  ultimately show "sm \<noteq> None \<Longrightarrow> sw = None \<or> sf = None"
    using assms unfolding fruit_ok_def by metis
  show "sm \<in> {None, Some kw, Some kf}" "sw \<in> {None, Some kw2}" "sf \<in> {None, Some kf2}"
    using assms unfolding fruit_ok_def by auto
qed

lemma fruit_one_awake:
  assumes "fruit_inv room p0 w f w2 f2 (pc, m, A, V, W)"
  shows "\<exists>c \<in> A. W c = None"
proof -
  obtain t u pw pf sw sf where i: "fruit_ok (nat (sint w)) (nat (sint f)) (nat (sint w2)) (nat (sint f2)) t u (pc p0) pw pf V (W p0) sw sf m"
    "crew p0 pc W A pw pf sw sf" using fruit_inv_parts [OF assms] by metis
  have "pc p0 = Fork_1 \<Longrightarrow> W p0 = None" using i(1) by (auto simp: fruit_ok_def)
  then show ?thesis using i(2) fruit_sleepers(1) [OF i(1)] unfolding crew_def by (auto split: if_splits)
qed

lemma fruit_one_sleeps:
  assumes "fruit_inv room p0 w f w2 f2 (pc, m, A, V, W)" "W c = Some k" "W d = Some k"
  shows "c = d"
proof -
  obtain t u pw pf sw sf where i: "\<And>c. c \<notin> A \<Longrightarrow> W c = None"
    "fruit_ok (nat (sint w)) (nat (sint f)) (nat (sint w2)) (nat (sint f2)) t u (pc p0) pw pf V (W p0) sw sf m"
    "crew p0 pc W A pw pf sw sf" using fruit_inv_parts [OF assms(1)] by metis
  note s = fruit_sleepers(2-4) [OF i(2)]
  have ne: "distinct [nat (sint w), nat (sint f), nat (sint w2), nat (sint f2)]" using fruit_roles [OF i(2)] by simp
  have cd: "c \<in> A" "d \<in> A" using i(1) assms(2,3) by (metis option.distinct(1))+
  have "A = {p0} \<or> (\<exists>c1. A = {p0, c1} \<and> W c1 = None) \<or> (\<exists>c1 c2. A = {p0, c1, c2} \<and> sw = W c1 \<and> sf = W c2)"
    using i(3) unfolding crew_def by (auto split: if_splits)
  then show ?thesis using cd assms(2,3) s ne by (elim disjE exE conjE) (simp_all; elim disjE; simp)+
qed

lemma fruit_sem_action:
  "0 \<le> sint w \<Longrightarrow> 0 \<le> sint f \<Longrightarrow> 0 \<le> sint w2 \<Longrightarrow> 0 \<le> sint f2 \<Longrightarrow>
    sem_action {nat (sint w), nat (sint f), nat (sint w2), nat (sint f2)} (fruit_prog w f w2 f2 c p m)"
  by (cases p) (simp_all split: option.split)

interpretation fruit: sem_program room "fruit_prog w f w2 f2" "{nat (sint w), nat (sint f), nat (sint w2), nat (sint f2)}"
  "fruit_inv room p0 w f w2 f2"
proof
  fix pc m A V W c
  assume "fruit_inv room p0 w f w2 f2 (pc, m, A, V, W)"
  then have "fruit_sems room p0 w f w2 f2" by (rule fruit_inv_parts)
  then show "sem_action {nat (sint w), nat (sint f), nat (sint w2), nat (sint f2)} (fruit_prog w f w2 f2 c (pc c) m)"
    by (intro fruit_sem_action) (simp_all add: fruit_sems_def)
qed (fact fruit_kept fruit_one_sleeps fruit_one_awake)+

text \<open>Nothing is read or written outside of the array.\<close>

lemma fruit_no_halt:
  assumes "fruit_inv room p0 w f w2 f2 (pc, m, A, V, W)" "c \<in> A" "W c = None"
  shows "fruit_prog w f w2 f2 c (pc c) m \<noteq> Halt"
proof -
  obtain t u pw pf sw sf where i: "fruit_ok (nat (sint w)) (nat (sint f)) (nat (sint w2)) (nat (sint f2)) t u (pc p0) pw pf V (W p0) sw sf m"
    "crew p0 pc W A pw pf sw sf" using fruit_inv_parts [OF assms(1)] by metis
  have len: "length (words m) = 100" using i(1) by (simp add: fruit_ok_def words_data_def)
  have main: "fruit_prog w f w2 f2 c (pc p0) m \<noteq> Halt" if "W p0 = None"
  proof (cases "pc p0")
    case (M_read nm acc)
    have u: "u = Used" using i(1) that M_read by (auto simp: fruit_ok_def handshake_def)
    have "length acc \<le> 25" using i(1) M_read unfolding u by (simp add: fruit_ok_def plate_data_def sentence_simps)
    then have "\<exists>x. rd (words m) (length acc) = Some x" using len by (simp add: rd_def)
    then show ?thesis using M_read by (auto split: if_splits)
  qed (use fruit_roles [OF i(1)] in auto)
  have word: "fruit_prog w f w2 f2 c pw m \<noteq> Halt" if "sw = None"
  proof (cases pw)
    case (W_put i')
    have t: "t = Making" using i(1) that W_put by (auto simp: fruit_ok_def handshake_def)
    have "i' \<le> 25" using i(1) W_put unfolding t by (simp add: fruit_ok_def words_data_def sentence_simps)
    then show ?thesis using len W_put by (simp add: wr_def)
  qed (use fruit_roles [OF i(1)] in auto)
  have "plate_pc pf" using fruit_roles [OF i(1)] by simp
  then have plate: "fruit_prog w f w2 f2 c pf m \<noteq> Halt" by (cases pf) auto
  show ?thesis using i(2) assms(2,3) main word plate unfolding crew_def by (auto split: if_splits)
qed

section \<open>What a run does\<close>

definition fruit_run :: "kernel \<Rightarrow> (fruit_pc, fruit_mem) run" where
  "fruit_run s = \<lparr>r_pc = (\<lambda>_. Fork_1), r_mem = \<lparr>words = replicate 100 0, fruit_plate = 0, fruit_index = 0, lines = []\<rparr>, r_kern = s\<rparr>"

lemma fruit_start:
  assumes "starts (\<lambda>_. None) p0 s" "unat (curr_pid s) \<le> 18"
    and "get_sem 0 r0 s = Some (Returns w s1)" "0 \<le> sint w" "get_sem 0 r1 s1 = Some (Returns f s2)" "0 \<le> sint f"
    and "get_sem 0 r2 s2 = Some (Returns w2 s3)" "0 \<le> sint w2" "get_sem 0 r3 s3 = Some (Returns f2 s4)" "0 \<le> sint f2"
  shows "kernel_good s4"
    "fruit_inv (free_slots s4) p0 w f w2 f2 (r_pc (fruit_run s4), r_mem (fruit_run s4), {p0}, \<lambda>_. 0, \<lambda>_. None)"
    "holds (free_slots s4) {nat (sint w), nat (sint f), nat (sint w2), nat (sint f2)} {p0} (\<lambda>_. 0) (\<lambda>_. None) (sched_of s4)"
proof -
  let ?S = "{nat (sint w), nat (sint f), nat (sint w2), nat (sint f2)}"
  note g1 = starts_get_sem [OF assms(1,3,4)]
  note g2 = starts_get_sem [OF g1(2) assms(5,6)]
  note g3 = starts_get_sem [OF g2(2) assms(7,8)]
  note g4 = starts_get_sem [OF g3(2) assms(9,10)]
  have "proc_ok x \<and> curr_proc x = Some p0 \<and> length (sem_list x) = 100" if "starts G p0 x" for G x
    using that by (simp add: starts_def running_def)
  note ok = this [OF assms(1)] this [OF g1(2)] this [OF g2(2)] this [OF g3(2)] this [OF g4(2)]
  have pid: "curr_pid s4 = curr_pid s"
    using get_sem_sched(3) ok assms(3-10) by metis
  have ne: "distinct [nat (sint w), nat (sint f), nat (sint w2), nat (sint f2)]" using g2(1) g3(1) g4(1) by auto
  have "((\<lambda>_. None)(nat (sint w) \<mapsto> sint (0 :: u32), nat (sint f) \<mapsto> sint (0 :: u32), nat (sint w2) \<mapsto> sint (0 :: u32),
      nat (sint f2) \<mapsto> sint (0 :: u32))) k = Some 0 \<and> (0 :: int) \<le> 0" if "k \<in> ?S" for k
    using that by auto
  note st = starts_run [of _ p0 s4 ?S "\<lambda>_. 0", OF g4(2) this]
  show "kernel_good s4" "holds (free_slots s4) ?S {p0} (\<lambda>_. 0) (\<lambda>_. None) (sched_of s4)" using st by simp_all
  have "p0 < unat (curr_pid s4)" using ok_curr [OF proc_ok_ok0] ok by metis
  then have "fruit_sems (free_slots s4) p0 w f w2 f2"
    using assms(2,4,6,8,10) pid by (simp add: fruit_sems_def free_slots_def)
  moreover have "fruit_ok (nat (sint w)) (nat (sint f)) (nat (sint w2)) (nat (sint f2)) Making Making Fork_1 (W_put 0) F_index
      (\<lambda>_. 0) None None None (r_mem (fruit_run s4))"
    using ne by (simp add: fruit_ok_def handshake_def words_data_def plate_data_def good_lines_def fruit_run_def last_fruit_def)
  ultimately show "fruit_inv (free_slots s4) p0 w f w2 f2 (r_pc (fruit_run s4), r_mem (fruit_run s4), {p0}, \<lambda>_. 0, \<lambda>_. None)"
    unfolding fruit_inv_def crew_def by (auto simp: fruit_run_def)
qed

lemma plate_names: "plate_name (next_fruit i) = [Some ''APPLE'', Some ''PEAR'', Some ''BANANA''] ! (i mod 3)"
proof -
  have "i mod 3 = 0 \<or> i mod 3 = 1 \<or> i mod 3 = 2" by linarith
  then show ?thesis by (auto simp: plate_name_def next_fruit_def)
qed

text \<open>C10: The three processes of \<^verbatim>\<open>fruit.c\<close> on a table with room for two children, whatever the timer does: every line
  that is printed has the whole sentence and a fruit, the fruits are apple, pear and banana in turn, no
  array is accessed out of its bounds, and the process that has the processor is not asleep and has a next step.\<close>

theorem fruit_in_turn:
  assumes "starts (\<lambda>_. None) p0 s" "unat (curr_pid s) \<le> 18"
    and "get_sem 0 r0 s = Some (Returns w s1)" "0 \<le> sint w" "get_sem 0 r1 s1 = Some (Returns f s2)" "0 \<le> sint f"
    and "get_sem 0 r2 s2 = Some (Returns w2 s3)" "0 \<le> sint w2" "get_sem 0 r3 s3 = Some (Returns f2 s4)" "0 \<le> sint f2"
    and "(run_step (fruit_prog w f w2 f2))\<^sup>*\<^sup>* (fruit_run s4) y"
  shows "(\<forall>i < length (lines (r_mem y)).
      lines (r_mem y) ! i = (sentence, [Some ''APPLE'', Some ''PEAR'', Some ''BANANA''] ! (i mod 3))) \<and>
    (\<exists>c. curr_proc (r_kern y) = Some c \<and> s_st (sched_of (r_kern y)) c = PROC_RUNNING \<and>
      (\<exists>z. run_step (fruit_prog w f w2 f2) y z \<and> r_pc z c \<noteq> r_pc y c))"
proof -
  note st = fruit_start [OF assms(1-10)]
  have k: "kernel_good (r_kern (fruit_run s4))" "holds (free_slots s4) {nat (sint w), nat (sint f), nat (sint w2), nat (sint f2)} {p0}
      (\<lambda>_. 0) (\<lambda>_. None) (sched_of (r_kern (fruit_run s4)))" using st(1,3) by (simp_all add: fruit_run_def)
  obtain A V W where y: "kernel_good (r_kern y)" "fruit_inv (free_slots s4) p0 w f w2 f2 (r_pc y, r_mem y, A, V, W)"
    "holds (free_slots s4) {nat (sint w), nat (sint f), nat (sint w2), nat (sint f2)} A V W (sched_of (r_kern y))"
    by (rule fruit.inv_reached [OF assms(11) k(1) st(2) k(2)])
  obtain c where c: "curr_proc (r_kern y) = Some c" "c \<in> A" "W c = None" using holds_parts(1) [OF y(3)] by auto
  note h = fruit_no_halt [OF y(2) c(2,3)]
  obtain z where z: "run_step (fruit_prog w f w2 f2) y z" "r_pc z c \<in> targets (fruit_prog w f w2 f2 c (r_pc y c) (r_mem y))"
    using fruit.progress [OF y(1,2,3) c(1) h] by blast
  have "p' \<in> targets (fruit_prog w f w2 f2 c x m) \<Longrightarrow> p' \<noteq> x" for p' x m by (cases x) (auto split: option.splits if_splits)
  then have step: "run_step (fruit_prog w f w2 f2) y z \<and> r_pc z c \<noteq> r_pc y c" using z by blast
  have run: "s_st (sched_of (r_kern y)) c = PROC_RUNNING" using holdsD(3) [OF y(3)] c(1) by simp
  obtain t u pw pf sw sf where "fruit_ok (nat (sint w)) (nat (sint f)) (nat (sint w2)) (nat (sint f2)) t u (r_pc y p0) pw pf V (W p0) sw sf (r_mem y)"
    using fruit_inv_parts [OF y(2)] by metis
  then have "good_lines (lines (r_mem y))" by (simp add: fruit_ok_def)
  then have l: "lines (r_mem y) = map (\<lambda>i. (sentence, plate_name (next_fruit i))) [0..<length (lines (r_mem y))]"
    unfolding good_lines_def .
  have "lines (r_mem y) ! i = (sentence, plate_name (next_fruit i))" if "i < length (lines (r_mem y))" for i
    using that by (subst l) simp
  then show ?thesis using c(1) run step plate_names by auto
qed

lemma fruit_in_turn_witness:
  "\<exists>w s1 f s2 w2 s3 f2 s4 c z. get_sem 0 zero_regs demo_sem = Some (Returns w s1) \<and> get_sem 0 zero_regs s1 = Some (Returns f s2) \<and>
    get_sem 0 zero_regs s2 = Some (Returns w2 s3) \<and> get_sem 0 zero_regs s3 = Some (Returns f2 s4) \<and>
    curr_proc s4 = Some c \<and> run_step (fruit_prog w f w2 f2) (fruit_run s4) z \<and> r_pc z c \<noteq> Fork_1"
proof -
  obtain s1 G1 where g1: "get_sem 0 zero_regs demo_sem = Some (Returns (of_nat 1) s1)" "starts G1 0 s1" "first_used (Suc 1) s1"
    using get_sem_next [OF demo_starts(1,2), of 0 zero_regs thesis] by auto
  obtain s2 G2 where g2: "get_sem 0 zero_regs s1 = Some (Returns (of_nat (Suc 1)) s2)" "starts G2 0 s2" "first_used (Suc (Suc 1)) s2"
    using get_sem_next [OF g1(2,3), of 0 zero_regs thesis] by auto
  obtain s3 G3 where g3: "get_sem 0 zero_regs s2 = Some (Returns (of_nat (Suc (Suc 1))) s3)" "starts G3 0 s3" "first_used (Suc (Suc (Suc 1))) s3"
    using get_sem_next [OF g2(2,3), of 0 zero_regs thesis] by auto
  obtain s4 where g4: "get_sem 0 zero_regs s3 = Some (Returns (of_nat (Suc (Suc (Suc 1)))) s4)"
    using get_sem_next [OF g3(2,3), of 0 zero_regs thesis] by auto
  have "unat (curr_pid demo_sem) \<le> 18" using demo_starts(3) by simp
  from fruit_in_turn [OF demo_starts(1) this g1(1) _ g2(1) _ g3(1) _ g4 _ rtranclp.rtrancl_refl]
  show ?thesis using g1(1) g2(1) g3(1) g4 by (fastforce simp: fruit_run_def)
qed

end
